(* ===== verification/Prelude.thy ===== *)
theory Prelude
  imports Main "HOL-Library.Word"
begin

text \<open>
  Shared vocabulary of the development: machine integers, the outcome type of a C
  function, bounds-checked access to a C buffer, the little-endian load and store macros of
  \<^verbatim>\<open>ma_global.h\<close> (the \<^verbatim>\<open>_WIN32\<close> variants, the platform the
  repository's Makefile builds for), and the allocator as a parameter.

  A C function that may touch memory returns a value of type \<open>('e, 'a) res\<close>:
  \<open>Ok\<close> is a normal return, \<open>Err e\<close> is the return of the error code \<open>e\<close>, and
  \<open>UB\<close> is an access outside the allocated block (undefined behaviour). A theorem that
  concludes \<open>\<dots> = Ok \<dots>\<close> therefore also states memory safety.
\<close>

unbundle bit_operations_syntax

named_theorems res_simps \<open>evaluation of the outcome combinators\<close>
named_theorems mem_simps \<open>bounds-checked loads and stores\<close>
named_theorems le_simps \<open>little-endian codecs\<close>

type_synonym u8 = "8 word"
type_synonym u16 = "16 word"
type_synonym u32 = "32 word"
type_synonym u64 = "64 word"
type_synonym bytes = "u8 list"

section \<open>Outcomes\<close>

datatype ('e, 'a) res = Ok 'a | Err 'e | UB

fun rbind :: "('e, 'a) res \<Rightarrow> ('a \<Rightarrow> ('e, 'b) res) \<Rightarrow> ('e, 'b) res" where
  "rbind (Ok a) f = f a"
| "rbind (Err e) f = Err e"
| "rbind UB f = UB"

fun rmap :: "('a \<Rightarrow> 'b) \<Rightarrow> ('e, 'a) res \<Rightarrow> ('e, 'b) res" where
  "rmap f (Ok a) = Ok (f a)"
| "rmap f (Err e) = Err e"
| "rmap f UB = UB"

definition is_UB :: "('e, 'a) res \<Rightarrow> bool" where
  "is_UB r = (case r of UB \<Rightarrow> True | _ \<Rightarrow> False)"

lemma is_UB_simps [simp]:
  "is_UB UB" "\<not> is_UB (Ok a)" "\<not> is_UB (Err e)"
  by (simp_all add: is_UB_def)

lemma rbind_eq_Ok [res_simps]:
  "rbind m f = Ok b \<longleftrightarrow> (\<exists>a. m = Ok a \<and> f a = Ok b)"
  by (cases m) auto

lemma rbind_eq_Err [res_simps]:
  "rbind m f = Err e \<longleftrightarrow> m = Err e \<or> (\<exists>a. m = Ok a \<and> f a = Err e)"
  by (cases m) auto

lemma rbind_assoc: "rbind (rbind m f) g = rbind m (\<lambda>x. rbind (f x) g)"
  by (cases m) auto

lemma rmap_eq_Ok [res_simps]: "rmap f m = Ok b \<longleftrightarrow> (\<exists>a. m = Ok a \<and> b = f a)"
  by (cases m) auto

lemma rbind_cong [fundef_cong]:
  assumes "m = m'" and "\<And>a. m' = Ok a \<Longrightarrow> f a = f' a"
  shows "rbind m f = rbind m' f'"
  using assms by (cases m') auto

section \<open>Bytes\<close>

text \<open>A statement about every byte is decided by evaluating it at the 256 values.\<close>

lemma all_u8: "list_all P (map word_of_nat [0..<256]) \<Longrightarrow> P (b :: u8)"
proof -
  assume all: "list_all P (map word_of_nat [0..<256])"
  have "unat b < 256" using unsigned_less [of b] by simp
  then have "b \<in> set (map word_of_nat [0..<256])"
    by (auto simp: image_iff intro!: bexI [of _ "unat b"])
  with all show "P b" by (simp only: list_all_iff)
qed

section \<open>Buffers\<close>

text \<open>
  A block of memory is the list of its bytes. \<open>load_bytes buf i n\<close> reads
  \<open>buf[i .. i+n)\<close>, \<open>store_bytes buf i bs\<close> overwrites the bytes from \<open>i\<close> on; both
  are \<open>UB\<close> when they leave the block.
\<close>

definition load_bytes :: "bytes \<Rightarrow> nat \<Rightarrow> nat \<Rightarrow> ('e, bytes) res" where
  "load_bytes buf i n = (if i + n \<le> length buf then Ok (take n (drop i buf)) else UB)"

definition store_bytes :: "bytes \<Rightarrow> nat \<Rightarrow> bytes \<Rightarrow> ('e, bytes) res" where
  "store_bytes buf i bs =
     (if i + length bs \<le> length buf
      then Ok (take i buf @ bs @ drop (i + length bs) buf) else UB)"

definition load1 :: "bytes \<Rightarrow> nat \<Rightarrow> ('e, u8) res" where
  "load1 buf i = (if i < length buf then Ok (buf ! i) else UB)"

definition store1 :: "bytes \<Rightarrow> nat \<Rightarrow> u8 \<Rightarrow> ('e, bytes) res" where
  "store1 buf i b = (if i < length buf then Ok (buf[i := b]) else UB)"

lemma load_bytes_Ok [mem_simps]:
  "i + n \<le> length buf \<Longrightarrow> load_bytes buf i n = Ok (take n (drop i buf))"
  by (simp add: load_bytes_def)

lemma load_bytes_eq_Ok:
  "load_bytes buf i n = Ok bs \<longleftrightarrow> i + n \<le> length buf \<and> bs = take n (drop i buf)"
  by (auto simp: load_bytes_def)

lemma load_bytes_mid [mem_simps]:
  "i = length xs \<Longrightarrow> n = length ys \<Longrightarrow> load_bytes (xs @ ys @ zs) i n = Ok ys"
  by (simp add: load_bytes_def)

lemma store_bytes_Ok [mem_simps]:
  "i + length bs \<le> length buf \<Longrightarrow>
   store_bytes buf i bs = Ok (take i buf @ bs @ drop (i + length bs) buf)"
  by (simp add: store_bytes_def)

lemma store_bytes_mid [mem_simps]:
  "i = length xs \<Longrightarrow> length bs = length ys \<Longrightarrow>
   store_bytes (xs @ ys @ zs) i bs = Ok (xs @ bs @ zs)"
  by (simp add: store_bytes_def)

lemma store_bytes_length:
  "store_bytes buf i bs = Ok buf' \<Longrightarrow> length buf' = length buf"
  by (auto simp: store_bytes_def split: if_splits)

lemma load_store_same:
  assumes "store_bytes buf i bs = Ok buf'"
  shows "load_bytes buf' i (length bs) = Ok bs"
  using assms by (auto simp: store_bytes_def load_bytes_def split: if_splits)

lemma load1_Ok [mem_simps]: "i < length buf \<Longrightarrow> load1 buf i = Ok (buf ! i)"
  by (simp add: load1_def)

lemma store1_Ok [mem_simps]: "i < length buf \<Longrightarrow> store1 buf i b = Ok (buf[i := b])"
  by (simp add: store1_def)

lemma take_list_update_Suc:
  "i < length xs \<Longrightarrow> take (Suc i) (xs[i := b]) = take i xs @ [b]"
  by (simp add: take_Suc_conv_app_nth)

section \<open>Little-endian integers\<close>

primrec le_bytes :: "nat \<Rightarrow> nat \<Rightarrow> bytes" where
  "le_bytes 0 v = []"
| "le_bytes (Suc n) v = word_of_nat v # le_bytes n (v div 256)"

primrec le_val :: "bytes \<Rightarrow> nat" where
  "le_val [] = 0"
| "le_val (b # bs) = unat b + 256 * le_val bs"

lemma length_le_bytes [simp]: "length (le_bytes n v) = n"
  by (induction n arbitrary: v) auto

lemma unat_byte_lt [simp]: "unat (b :: u8) < 256"
  using unsigned_less [of b] by simp

lemma le_val_bound: "le_val bs < 256 ^ length bs"
proof (induction bs)
  case (Cons b bs)
  then have "unat b + 256 * le_val bs < 256 * 256 ^ length bs"
    using unat_byte_lt [of b] by linarith
  then show ?case by simp
qed simp

lemma le_val_bytes [le_simps]: "le_val (le_bytes n v) = v mod 256 ^ n"
proof (induction n arbitrary: v)
  case (Suc n)
  have "unat (word_of_nat v :: u8) = v mod 256"
    by (simp add: unat_of_nat)
  with Suc show ?case
    by (simp add: mod_mult2_eq)
qed simp

lemma le_bytes_val [le_simps]: "le_bytes (length bs) (le_val bs) = bs"
proof (induction bs)
  case (Cons b bs)
  have "(unat b + 256 * le_val bs) div 256 = le_val bs"
    using unat_byte_lt [of b] by simp
  moreover have "word_of_nat (unat b + 256 * le_val bs) = b"
    by (simp add: word_unat_eq_iff unsigned_of_nat take_bit_eq_mod del: of_nat_add of_nat_mult)
  ultimately show ?case using Cons by simp
qed simp

lemma le_val_append: "le_val (xs @ ys) = le_val xs + 256 ^ length xs * le_val ys"
  by (induction xs) (auto simp: algebra_simps)

text \<open>
  The load macros of \<^verbatim>\<open>ma_global.h\<close>, lines 783--820: \<open>uint2korr\<close>,
  \<open>uint4korr\<close> and \<open>uint8korr\<close> dereference an integer pointer of their width;
  \<open>uint3korr\<close> dereferences a four byte pointer and masks the top byte, as the warning
  in the header says; \<open>uint5korr\<close> adds five single bytes.
\<close>

definition uintN_load :: "nat \<Rightarrow> bytes \<Rightarrow> nat \<Rightarrow> ('e, nat) res" where
  "uintN_load n buf i = rmap le_val (load_bytes buf i n)"

definition uint2korr :: "bytes \<Rightarrow> nat \<Rightarrow> ('e, nat) res" where
  "uint2korr buf i = uintN_load 2 buf i"

definition uint3korr :: "bytes \<Rightarrow> nat \<Rightarrow> ('e, nat) res" where
  "uint3korr buf i = rmap (\<lambda>v. v mod 0x1000000) (uintN_load 4 buf i)"

definition uint4korr :: "bytes \<Rightarrow> nat \<Rightarrow> ('e, nat) res" where
  "uint4korr buf i = uintN_load 4 buf i"

definition uint5korr :: "bytes \<Rightarrow> nat \<Rightarrow> ('e, nat) res" where
  "uint5korr buf i = uintN_load 5 buf i"

definition uint8korr :: "bytes \<Rightarrow> nat \<Rightarrow> ('e, nat) res" where
  "uint8korr buf i = uintN_load 8 buf i"

text \<open>The store macros, lines 821--837: the low bytes of the value, in order.\<close>

definition int2store :: "bytes \<Rightarrow> nat \<Rightarrow> nat \<Rightarrow> ('e, bytes) res" where
  "int2store buf i v = store_bytes buf i (le_bytes 2 v)"

definition int3store :: "bytes \<Rightarrow> nat \<Rightarrow> nat \<Rightarrow> ('e, bytes) res" where
  "int3store buf i v = store_bytes buf i (le_bytes 3 v)"

definition int4store :: "bytes \<Rightarrow> nat \<Rightarrow> nat \<Rightarrow> ('e, bytes) res" where
  "int4store buf i v = store_bytes buf i (le_bytes 4 v)"

definition int5store :: "bytes \<Rightarrow> nat \<Rightarrow> nat \<Rightarrow> ('e, bytes) res" where
  "int5store buf i v = store_bytes buf i (le_bytes 5 v)"

definition int8store :: "bytes \<Rightarrow> nat \<Rightarrow> nat \<Rightarrow> ('e, bytes) res" where
  "int8store buf i v = store_bytes buf i (le_bytes 8 v)"

lemmas korr_defs = uint2korr_def uint3korr_def uint4korr_def uint5korr_def uint8korr_def
lemmas intstore_defs = int2store_def int3store_def int4store_def int5store_def int8store_def

lemma uintN_load_Ok [mem_simps]:
  "i + n \<le> length buf \<Longrightarrow> uintN_load n buf i = Ok (le_val (take n (drop i buf)))"
  by (simp add: uintN_load_def load_bytes_def)

lemma uintN_load_not_Err [simp]: "uintN_load n buf i \<noteq> Err e"
  by (simp add: uintN_load_def load_bytes_def)

text \<open>
  The decimal digits of a number, as \<open>%u\<close> and \<open>std::to_string\<close> print them, and the bytes of a
  string literal.
\<close>

fun dec_digits :: "nat \<Rightarrow> bytes" where
  "dec_digits n = (if n < 10 then [0x30 + word_of_nat n] else dec_digits (n div 10) @ [0x30 + word_of_nat (n mod 10)])"

declare dec_digits.simps [simp del]

definition ascii :: "string \<Rightarrow> bytes" where
  "ascii s = map (\<lambda>c. word_of_nat (of_char c)) s"

section \<open>Unsigned arithmetic of \<open>size_t\<close>\<close>

text \<open>
  A \<open>size_t\<close> is 64 bits wide. Sizes are naturals below \<open>2 ^ 64\<close>; subtraction wraps.
\<close>

definition size_sub :: "nat \<Rightarrow> nat \<Rightarrow> nat" where
  "size_sub a b = (if b \<le> a then a - b else a + 2 ^ 64 - b)"

definition size_add :: "nat \<Rightarrow> nat \<Rightarrow> nat" where
  "size_add a b = (a + b) mod 2 ^ 64"

lemma size_sub_le [simp]: "b \<le> a \<Longrightarrow> size_sub a b = a - b"
  by (simp add: size_sub_def)

lemma size_add_small [simp]: "a + b < 2 ^ 64 \<Longrightarrow> size_add a b = a + b"
  by (simp add: size_add_def)

section \<open>Arithmetic of unsigned 32-bit integers\<close>

definition uint_add :: "nat \<Rightarrow> nat \<Rightarrow> nat" where "uint_add a b = (a + b) mod 2 ^ 32"
definition uint_sub :: "nat \<Rightarrow> nat \<Rightarrow> nat" where "uint_sub a b = nat ((int a - int b) mod 2 ^ 32)"
definition uint_mul :: "nat \<Rightarrow> nat \<Rightarrow> nat" where "uint_mul a b = a * b mod 2 ^ 32"

lemma uint_add_small: "a + b < 2 ^ 32 \<Longrightarrow> uint_add a b = a + b"
  by (simp add: uint_add_def)

lemma uint_sub_small: "b \<le> a \<Longrightarrow> a < 2 ^ 32 + b \<Longrightarrow> uint_sub a b = a - b"
proof -
  assume a: "b \<le> a" "a < 2 ^ 32 + b"
  then have d: "int a - int b = int (a - b)" and "a - b < 2 ^ 32" by auto
  then have "int (a - b) < int (2 ^ 32)" by (simp only: of_nat_less_iff)
  then have "int (a - b) mod 2 ^ 32 = int (a - b)" by (intro mod_pos_pos_trivial) simp_all
  then show "uint_sub a b = a - b" unfolding uint_sub_def d by simp
qed

lemma uint_mul_small: "a * b < 2 ^ 32 \<Longrightarrow> uint_mul a b = a * b"
  by (simp add: uint_mul_def)

lemma uint_mul_le: "i \<le> m \<Longrightarrow> m * s < 2 ^ 32 \<Longrightarrow> uint_mul i s = i * s"
  by (rule uint_mul_small) (rule le_less_trans [OF mult_le_mono1])

lemma le_mult_pos: "0 < s \<Longrightarrow> m * s < (k :: nat) \<Longrightarrow> m < k"
  by (rule le_less_trans [of _ "m * s"]) simp_all

section \<open>The allocator\<close>

text \<open>What \<open>malloc\<close> is assumed to need besides, used in the choice of sizes.\<close>

definition MALLOC_OVERHEAD :: nat where "MALLOC_OVERHEAD = 8"

text \<open>
  \<open>malloc\<close> and \<open>realloc\<close> are parameters of the model: which requests succeed, and the
  indeterminate bytes of a fresh block.
\<close>

record alloc_env =
  alloc_ok :: "nat \<Rightarrow> bool"
  junk :: "nat \<Rightarrow> u8"

definition malloc :: "alloc_env \<Rightarrow> nat \<Rightarrow> bytes option" where
  "malloc E n = (if alloc_ok E n then Some (map (junk E) [0..<n]) else None)"

definition realloc :: "alloc_env \<Rightarrow> bytes \<Rightarrow> nat \<Rightarrow> bytes option" where
  "realloc E buf n =
     (if alloc_ok E n then Some (take n buf @ map (junk E) [length buf..<n]) else None)"

text \<open>An allocator that never fails and returns zeroed blocks.\<close>

definition all_ok :: alloc_env where
  "all_ok = \<lparr>alloc_ok = \<lambda>_. True, junk = \<lambda>_. 0\<rparr>"

lemma all_ok_alloc [simp]: "alloc_ok all_ok n"
  by (simp add: all_ok_def)

lemma malloc_Some: "malloc E n = Some buf \<longleftrightarrow> alloc_ok E n \<and> buf = map (junk E) [0..<n]"
  by (auto simp: malloc_def)

lemma realloc_length: "realloc E buf n = Some buf' \<Longrightarrow> length buf' = n"
  by (auto simp: realloc_def split: if_splits)

lemma realloc_take:
  "realloc E buf n = Some buf' \<Longrightarrow> k \<le> n \<Longrightarrow> k \<le> length buf \<Longrightarrow> take k buf' = take k buf"
  by (auto simp: realloc_def split: if_splits)

end
