(* ===== verification/Dynamic_String.thy ===== *)
theory Dynamic_String
  imports Prelude
begin

text \<open>
  Model of \<^verbatim>\<open>src/src/include/mysql/libmariadb/ma_string.c\<close>: byte strings that grow on
  demand. The record keeps the four fields of \<open>DYNAMIC_STRING\<close>; \<open>ds_str\<close> is the block
  \<open>str\<close> points to (\<open>None\<close> is the null pointer). Every function returns the C return
  value (\<open>True\<close> is the C \<open>TRUE\<close>, an allocation failure) together with the updated
  structure, also on the failing paths. Sizes of objects in memory are naturals: the sums
  formed here are sums of sizes of allocated blocks and do not reach \<open>2 ^ 64\<close>.

  The locale \<open>byte_buffer\<close> is the interface the record writers rely on: reserve room,
  then push single bytes or append a block. It is interpreted on the functions of this
  theory at the end.
\<close>

section \<open>The structure\<close>

record dynamic_string =
  ds_str :: "bytes option"
  ds_length :: nat
  ds_max_length :: nat
  ds_alloc_increment :: nat

definition ds_null :: dynamic_string where
  "ds_null = \<lparr>ds_str = None, ds_length = 0, ds_max_length = 0, ds_alloc_increment = 0\<rparr>"

text \<open>\<open>realloc\<close> of a pointer that may be null.\<close>

definition realloc_ptr :: "alloc_env \<Rightarrow> bytes option \<Rightarrow> nat \<Rightarrow> bytes option" where
  "realloc_ptr E p n = (case p of None \<Rightarrow> malloc E n | Some buf \<Rightarrow> realloc E buf n)"

text \<open>Dereferencing \<open>str->str\<close>: a null pointer is \<open>UB\<close>.\<close>

definition ds_buf :: "dynamic_string \<Rightarrow> ('e, bytes) res" where
  "ds_buf s = (case ds_str s of None \<Rightarrow> UB | Some buf \<Rightarrow> Ok buf)"

section \<open>Operations\<close>

text \<open>\<open>ma_init_dynamic_string\<close>; \<open>init_str\<close> is the C string without its terminator.\<close>

definition ma_init_dynamic_string ::
  "alloc_env \<Rightarrow> bytes option \<Rightarrow> nat \<Rightarrow> nat \<Rightarrow> dynamic_string
     \<Rightarrow> ('e, bool \<times> dynamic_string) res" where
  "ma_init_dynamic_string E init_str init_alloc alloc_increment s =
     (let inc = (if alloc_increment = 0 then 128 else alloc_increment);
          len = (case init_str of None \<Rightarrow> 1 | Some cs \<Rightarrow> (length cs mod 2 ^ 32 + 1) mod 2 ^ 32);
          alloc1 = (if init_str \<noteq> None \<and> len < init_alloc
                    then ((len + inc - 1) div inc) * inc else init_alloc);
          alloc2 = (if alloc1 = 0 then inc else alloc1)
      in case malloc E alloc2 of
           None \<Rightarrow> Ok (True, s\<lparr>ds_str := None\<rparr>)
         | Some buf \<Rightarrow>
             rbind (case init_str of None \<Rightarrow> Ok buf
                    | Some cs \<Rightarrow> store_bytes buf 0 (take len (cs @ [0])))
               (\<lambda>buf'. Ok (False, \<lparr>ds_str = Some buf', ds_length = (len + 2 ^ 32 - 1) mod 2 ^ 32,
                                   ds_max_length = alloc2, ds_alloc_increment = inc\<rparr>)))"

definition ma_dynstr_set ::
  "alloc_env \<Rightarrow> dynamic_string \<Rightarrow> bytes option \<Rightarrow> ('e, bool \<times> dynamic_string) res" where
  "ma_dynstr_set E s init_str =
     (case init_str of
        None \<Rightarrow> Ok (False, s\<lparr>ds_length := 0\<rparr>)
      | Some cs \<Rightarrow>
          (let len = (length cs mod 2 ^ 32 + 1) mod 2 ^ 32;
               inc = ds_alloc_increment s;
               m1 = ((len + inc - 1) div inc) * inc;
               m2 = (if m1 = 0 then inc else m1);
               grow = (ds_max_length s < len);
               p = (if grow then realloc_ptr E (ds_str s) m2 else ds_str s);
               s1 = (if grow then s\<lparr>ds_max_length := m2, ds_str := p\<rparr> else s)
           in if grow \<and> p = None then Ok (True, s1)
              else rbind (ds_buf s1)
                     (\<lambda>buf. rbind (store_bytes buf 0 (take len (cs @ [0])))
                       (\<lambda>buf'. Ok (False, s1\<lparr>ds_length := (len + 2 ^ 32 - 1) mod 2 ^ 32,
                                             ds_str := Some buf'\<rparr>)))))"

definition ma_dynstr_realloc ::
  "alloc_env \<Rightarrow> dynamic_string \<Rightarrow> nat \<Rightarrow> bool \<times> dynamic_string" where
  "ma_dynstr_realloc E s additional_size =
     (if additional_size = 0 then (False, s)
      else if ds_max_length s < ds_length s + additional_size
      then (let inc = ds_alloc_increment s;
                m = ((ds_length s + additional_size + inc - 1) div inc) * inc;
                p = realloc_ptr E (ds_str s) m
            in (p = None, s\<lparr>ds_max_length := m, ds_str := p\<rparr>))
      else (False, s))"

definition ma_dynstr_append_mem ::
  "alloc_env \<Rightarrow> dynamic_string \<Rightarrow> bytes \<Rightarrow> ('e, bool \<times> dynamic_string) res" where
  "ma_dynstr_append_mem E s src =
     (let len = length src;
          inc = ds_alloc_increment s;
          grow = (ds_max_length s \<le> ds_length s + len);
          new_length = ((ds_length s + len + inc) div inc) * inc;
          p = (if grow then realloc_ptr E (ds_str s) new_length else ds_str s)
      in if grow \<and> p = None then Ok (True, s)
         else let s1 = (if grow then s\<lparr>ds_str := p, ds_max_length := new_length\<rparr> else s)
              in rbind (ds_buf s1)
                   (\<lambda>buf. rbind (store_bytes buf (ds_length s1) src)
                     (\<lambda>buf1. rbind (store1 buf1 (ds_length s1 + len) 0)
                       (\<lambda>buf2. Ok (False, s1\<lparr>ds_str := Some buf2,
                                             ds_length := ds_length s1 + len\<rparr>)))))"

definition ma_dynstr_append ::
  "alloc_env \<Rightarrow> dynamic_string \<Rightarrow> bytes \<Rightarrow> ('e, bool \<times> dynamic_string) res" where
  "ma_dynstr_append E s src = ma_dynstr_append_mem E s src"

definition ma_dynstr_free :: "dynamic_string \<Rightarrow> dynamic_string" where
  "ma_dynstr_free s = (if ds_str s \<noteq> None then s\<lparr>ds_str := None\<rparr> else s)"

text \<open>
  \<open>ma_strmake\<close> copies at most \<open>n\<close> bytes of \<open>src\<close> to \<open>dst\<close> from index \<open>i\<close> on,
  stops after a zero byte, terminates the copy, and returns the index of the terminator.
\<close>

fun ma_strmake :: "bytes \<Rightarrow> nat \<Rightarrow> bytes \<Rightarrow> nat \<Rightarrow> nat \<Rightarrow> ('e, bytes \<times> nat) res" where
  "ma_strmake dst i src j 0 = rbind (store1 dst i 0) (\<lambda>dst'. Ok (dst', i))"
| "ma_strmake dst i src j (Suc n) =
     rbind (load1 src j) (\<lambda>b. rbind (store1 dst i b) (\<lambda>dst'.
       if b = 0 then Ok (dst', i) else ma_strmake dst' (Suc i) src (Suc j) n))"

text \<open>The statement \<open>str->str[str->length++]= b\<close> the writers use after a reservation.\<close>

definition ds_push :: "dynamic_string \<Rightarrow> u8 \<Rightarrow> ('e, dynamic_string) res" where
  "ds_push s b = rbind (ds_buf s) (\<lambda>buf. rbind (store1 buf (ds_length s) b)
     (\<lambda>buf'. Ok (s\<lparr>ds_str := Some buf', ds_length := Suc (ds_length s)\<rparr>)))"

fun push_all :: "('s \<Rightarrow> u8 \<Rightarrow> ('e, 's) res) \<Rightarrow> 's \<Rightarrow> bytes \<Rightarrow> ('e, 's) res" where
  "push_all p s [] = Ok s"
| "push_all p s (b # bs) = rbind (p s b) (\<lambda>s'. push_all p s' bs)"

section \<open>Invariant and contents\<close>

text \<open>
  A usable string: the block has \<open>max_length\<close> bytes, \<open>length\<close> of them are in use and
  the increment is positive (a zero increment would divide by zero).
\<close>

definition ds_inv :: "dynamic_string \<Rightarrow> bool" where
  "ds_inv s \<longleftrightarrow> 0 < ds_alloc_increment s \<and> ds_length s \<le> ds_max_length s \<and>
     (case ds_str s of None \<Rightarrow> False | Some buf \<Rightarrow> length buf = ds_max_length s)"

definition ds_contents :: "dynamic_string \<Rightarrow> bytes" where
  "ds_contents s = (case ds_str s of None \<Rightarrow> [] | Some buf \<Rightarrow> take (ds_length s) buf)"

definition ds_room :: "dynamic_string \<Rightarrow> nat" where
  "ds_room s = ds_max_length s - ds_length s"

lemma ds_invE:
  assumes "ds_inv s"
  obtains buf where "ds_str s = Some buf" "length buf = ds_max_length s"
    "ds_length s \<le> ds_max_length s" "0 < ds_alloc_increment s"
  using assms by (auto simp: ds_inv_def split: option.splits)

lemma ds_contents_length [simp]: "ds_inv s \<Longrightarrow> length (ds_contents s) = ds_length s"
  by (auto simp: ds_contents_def elim: ds_invE)

lemma round_up_ge:
  assumes "0 < (inc :: nat)"
  shows "n \<le> ((n + inc - 1) div inc) * inc"
proof -
  have "n + inc - 1 < ((n + inc - 1) div inc) * inc + inc"
    using assms by (metis add.commute div_mult_mod_eq mod_less_divisor nat_add_left_cancel_less)
  then show ?thesis using assms by linarith
qed

lemma round_up_gt:
  assumes "0 < (inc :: nat)"
  shows "n < ((n + inc) div inc) * inc"
proof -
  have "(n + inc) div inc = n div inc + 1" using assms by (simp add: div_add_self2)
  with dividend_less_div_times [OF assms, of n] show ?thesis by simp
qed

lemma realloc_ptr_Some:
  assumes "realloc_ptr E (Some buf) m = Some buf'" "k \<le> m" "k \<le> length buf"
  shows "length buf' = m" "take k buf' = take k buf"
  using assms by (auto simp: realloc_ptr_def intro: realloc_length realloc_take)

lemma ma_init_dynamic_string_None:
  assumes "ma_init_dynamic_string E None n inc s = Ok (False, s')" "0 < n"
  shows "ds_inv s'" "ds_contents s' = []" "ds_max_length s' = n" "ds_length s' = 0"
  using assms
  by (auto simp: ma_init_dynamic_string_def ds_inv_def ds_contents_def malloc_def Let_def
           split: if_splits)

lemma ma_dynstr_realloc_ok:
  assumes "ds_inv s" "ma_dynstr_realloc E s n = (False, s')"
  shows "ds_inv s' \<and> ds_contents s' = ds_contents s \<and> ds_length s' = ds_length s \<and>
    n \<le> ds_room s' \<and> ds_alloc_increment s' = ds_alloc_increment s"
proof -
  obtain buf where b: "ds_str s = Some buf" "length buf = ds_max_length s"
    "ds_length s \<le> ds_max_length s" "0 < ds_alloc_increment s"
    using assms(1) by (rule ds_invE)
  define m where "m = ((ds_length s + n + ds_alloc_increment s - 1) div ds_alloc_increment s)
                        * ds_alloc_increment s"
  have m: "ds_length s + n \<le> m"
    unfolding m_def by (rule round_up_ge [OF b(4)])
  consider (same) "s' = s" "ds_length s + n \<le> ds_max_length s"
    | (grow) buf' where "realloc_ptr E (Some buf) m = Some buf'"
        "s' = s\<lparr>ds_max_length := m, ds_str := Some buf'\<rparr>"
    using assms(2) b
    by (fastforce simp: ma_dynstr_realloc_def m_def Let_def split: if_splits)
  then show ?thesis
  proof cases
    case same
    then show ?thesis using assms(1) by (auto simp: ds_room_def)
  next
    case grow
    have "length buf' = m" "take (ds_length s) buf' = take (ds_length s) buf"
      using realloc_ptr_Some [OF grow(1), of "ds_length s"] m b by auto
    then show ?thesis
      using grow m b by (auto simp: ds_inv_def ds_contents_def ds_room_def)
  qed
qed

lemma ds_push_ok:
  assumes "ds_inv s" "0 < ds_room s"
  obtains s' where "ds_push s b = Ok s'" "ds_inv s'" "ds_contents s' = ds_contents s @ [b]"
    "ds_length s' = Suc (ds_length s)" "ds_room s' = ds_room s - 1"
    "ds_alloc_increment s' = ds_alloc_increment s"
proof -
  obtain buf where b: "ds_str s = Some buf" "length buf = ds_max_length s"
    "ds_length s \<le> ds_max_length s" "0 < ds_alloc_increment s"
    using assms(1) by (rule ds_invE)
  define s' where "s' = s\<lparr>ds_str := Some (buf[ds_length s := b]), ds_length := Suc (ds_length s)\<rparr>"
  have lt: "ds_length s < length buf" using assms(2) b by (simp add: ds_room_def)
  have "ds_push s b = Ok s'"
    using lt b by (simp add: ds_push_def ds_buf_def mem_simps s'_def)
  moreover have "ds_inv s'" "ds_contents s' = ds_contents s @ [b]"
    using lt b by (auto simp: ds_inv_def ds_contents_def s'_def take_list_update_Suc)
  moreover have "ds_length s' = Suc (ds_length s)" "ds_room s' = ds_room s - 1"
    "ds_alloc_increment s' = ds_alloc_increment s"
    by (auto simp: ds_room_def s'_def)
  ultimately show thesis by (rule that)
qed

lemma ma_dynstr_append_mem_ok:
  assumes "ds_inv s"
  shows "\<exists>r s'. ma_dynstr_append_mem E s src = Ok (r, s') \<and>
    (if r then s' = s
     else ds_inv s' \<and> ds_contents s' = ds_contents s @ src \<and>
          ds_length s' = ds_length s + length src \<and>
          ds_length s' < ds_max_length s' \<and> the (ds_str s') ! ds_length s' = 0)"
proof -
  obtain buf where b: "ds_str s = Some buf" "length buf = ds_max_length s"
    "ds_length s \<le> ds_max_length s" "0 < ds_alloc_increment s"
    using assms by (rule ds_invE)
  define m where "m = ((ds_length s + length src + ds_alloc_increment s)
                         div ds_alloc_increment s) * ds_alloc_increment s"
  have m: "ds_length s + length src < m"
    unfolding m_def by (rule round_up_gt [OF b(4)])
  show ?thesis
  proof (cases "ds_max_length s \<le> ds_length s + length src")
    case False
    with b show ?thesis
      by (intro exI [of _ False])
        (simp add: ma_dynstr_append_mem_def ds_buf_def ds_inv_def ds_contents_def Let_def
            mem_simps)
  next
    case True
    show ?thesis
    proof (cases "realloc_ptr E (Some buf) m")
      case None
      with True b show ?thesis
        by (auto simp: ma_dynstr_append_mem_def m_def Let_def)
    next
      case (Some bf)
      have "length bf = m" "take (ds_length s) bf = take (ds_length s) buf"
        using realloc_ptr_Some [OF Some, of "ds_length s"] m b by auto
      with Some True b m show ?thesis
        by (intro exI [of _ False])
          (simp add: ma_dynstr_append_mem_def m_def [symmetric] ds_buf_def ds_inv_def
              ds_contents_def Let_def mem_simps)
    qed
  qed
qed

lemma ma_dynstr_realloc_fail:
  "ds_inv s \<Longrightarrow> ma_dynstr_realloc E s n = (True, s') \<Longrightarrow> \<exists>m. \<not> alloc_ok E m"
  by (auto simp: ma_dynstr_realloc_def realloc_ptr_def realloc_def Let_def elim!: ds_invE
        split: if_splits)

lemma append_mem_fail:
  "ds_inv s \<Longrightarrow> ma_dynstr_append_mem E s bs = Ok (True, s') \<Longrightarrow> \<exists>m. \<not> alloc_ok E m"
  by (auto simp: ma_dynstr_append_mem_def realloc_ptr_def realloc_def Let_def res_simps
        elim!: ds_invE split: if_splits)

section \<open>The interface of the record writers\<close>

locale byte_buffer =
  fixes inv :: "'s \<Rightarrow> bool"
    and contents :: "'s \<Rightarrow> bytes"
    and room :: "'s \<Rightarrow> nat"
    and reserve :: "'s \<Rightarrow> nat \<Rightarrow> bool \<times> 's"
    and push :: "'s \<Rightarrow> u8 \<Rightarrow> ('e, 's) res"
    and append_mem :: "'s \<Rightarrow> bytes \<Rightarrow> ('e, bool \<times> 's) res"
  assumes reserve_ok: "inv s \<Longrightarrow> reserve s n = (False, s') \<Longrightarrow>
      inv s' \<and> contents s' = contents s \<and> n \<le> room s'"
    and push_ok: "inv s \<Longrightarrow> 0 < room s \<Longrightarrow>
      \<exists>s'. push s b = Ok s' \<and> inv s' \<and> contents s' = contents s @ [b] \<and> room s' = room s - 1"
    and append_mem_ok: "inv s \<Longrightarrow>
      \<exists>r s'. append_mem s bs = Ok (r, s') \<and>
        (if r then s' = s else inv s' \<and> contents s' = contents s @ bs)"
begin

lemma push_all_ok:
  "inv s \<Longrightarrow> length bs \<le> room s \<Longrightarrow>
   \<exists>s'. push_all push s bs = Ok s' \<and> inv s' \<and> contents s' = contents s @ bs \<and>
        room s' = room s - length bs"
proof (induction bs arbitrary: s)
  case (Cons b bs)
  then obtain s1 where s1: "push s b = Ok s1" "inv s1" "contents s1 = contents s @ [b]"
    "room s1 = room s - 1"
    using push_ok [of s b] by auto
  then obtain s2 where "push_all push s1 bs = Ok s2" "inv s2" "contents s2 = contents s1 @ bs"
    "room s2 = room s1 - length bs"
    using Cons.IH [of s1] Cons.prems by fastforce
  with s1 show ?case by auto
qed auto

lemma reserve_push_all:
  assumes "inv s" "reserve s n = (False, s1)" "length bs \<le> n"
  shows "\<exists>s'. push_all push s1 bs = Ok s' \<and> inv s' \<and> contents s' = contents s @ bs"
proof -
  from reserve_ok [OF assms(1,2)] assms(3)
  have "inv s1" "contents s1 = contents s" "length bs \<le> room s1" by auto
  with push_all_ok [of s1 bs] show ?thesis by auto
qed

end

interpretation ds: byte_buffer ds_inv ds_contents ds_room "ma_dynstr_realloc E" ds_push
  "ma_dynstr_append_mem E" for E
proof unfold_locales
  fix s n s'
  assume "ds_inv s" "ma_dynstr_realloc E s n = (False, s')"
  then show "ds_inv s' \<and> ds_contents s' = ds_contents s \<and> n \<le> ds_room s'"
    using ma_dynstr_realloc_ok by blast
next
  fix s b
  assume "ds_inv s" "0 < ds_room s"
  then show "\<exists>s'. ds_push s b = Ok s' \<and> ds_inv s' \<and> ds_contents s' = ds_contents s @ [b] \<and>
      ds_room s' = ds_room s - 1"
    using ds_push_ok by metis
next
  fix s bs
  assume "ds_inv s"
  then show "\<exists>r s'. ma_dynstr_append_mem E s bs = Ok (r, s') \<and>
      (if r then s' = s else ds_inv s' \<and> ds_contents s' = ds_contents s @ bs)"
    using ma_dynstr_append_mem_ok [of s E bs] by metis
qed

section \<open>Properties\<close>

definition ds_sample :: dynamic_string where
  "ds_sample = \<lparr>ds_str = Some [1, 2, 0, 0], ds_length = 2, ds_max_length = 4, ds_alloc_increment = 4\<rparr>"

lemma ds_sample_inv: "ds_inv ds_sample"
  by (simp add: ds_inv_def ds_sample_def)

text \<open>
  \<open>ma_dynstr_append_mem\<close> on a usable string never touches memory outside the block.
  When it reports failure the string is untouched and the allocator refused a request;
  otherwise the string is usable, holds the old bytes followed by the new ones, and is
  terminated by a zero byte inside the block.
\<close>
theorem append_mem_correct:
  assumes "ds_inv s"
  shows "\<exists>failed s'. ma_dynstr_append_mem E s src = (Ok (failed, s') :: (unit, _) res) \<and>
    (failed \<longrightarrow> s' = s \<and> (\<exists>n. \<not> alloc_ok E n)) \<and>
    (\<not> failed \<longrightarrow> ds_inv s' \<and> ds_contents s' = ds_contents s @ src \<and>
        ds_length s' < ds_max_length s' \<and> the (ds_str s') ! ds_length s' = 0)"
proof -
  obtain r s' where r: "ma_dynstr_append_mem E s src = (Ok (r, s') :: (unit, _) res)"
    "if r then s' = s
     else ds_inv s' \<and> ds_contents s' = ds_contents s @ src \<and>
          ds_length s' = ds_length s + length src \<and>
          ds_length s' < ds_max_length s' \<and> the (ds_str s') ! ds_length s' = 0"
    using ma_dynstr_append_mem_ok [OF assms, of E src] by metis
  have "r \<Longrightarrow> \<exists>n. \<not> alloc_ok E n"
    using r(1) append_mem_fail [OF assms, of E src s'] by simp
  with r show ?thesis by (intro exI [of _ r] exI [of _ s']) (cases r, simp, metis)
qed

theorem append_mem_correct_witness:
  "ds_inv ds_sample \<and>
   (\<exists>failed s'. ma_dynstr_append_mem all_ok ds_sample [7, 8, 9] = (Ok (failed, s') :: (unit, _) res) \<and>
    (failed \<longrightarrow> s' = ds_sample \<and> (\<exists>n. \<not> alloc_ok all_ok n)) \<and>
    (\<not> failed \<longrightarrow> ds_inv s' \<and> ds_contents s' = [1, 2, 7, 8, 9] \<and>
        ds_length s' < ds_max_length s' \<and> the (ds_str s') ! ds_length s' = 0))"
  using append_mem_correct [OF ds_sample_inv, of all_ok "[7, 8, 9]"] ds_sample_inv
  by (simp add: ds_contents_def ds_sample_def)

text \<open>
  \<open>ma_dynstr_realloc\<close> gives the room it was asked for: when it succeeds the string is
  usable, its contents and length are unchanged, and exactly the reserved number of
  single-byte stores \<open>str->str[str->length++]= b\<close> that follow stay inside the block and
  append these bytes.
\<close>
theorem realloc_reserves:
  assumes "ds_inv s" "ma_dynstr_realloc E s n = (False, s1)" "length bs \<le> n"
  shows "ds_inv s1 \<and> ds_contents s1 = ds_contents s \<and>
    (\<exists>s'. push_all ds_push s1 bs = (Ok s' :: (unit, _) res) \<and> ds_inv s' \<and>
       ds_contents s' = ds_contents s @ bs)"
  using ma_dynstr_realloc_ok [OF assms(1,2)] ds.reserve_push_all [OF assms] by simp

theorem realloc_reserves_witness:
  "\<exists>s1. ma_dynstr_realloc all_ok ds_sample 3 = (False, s1) \<and>
     (\<exists>s'. push_all ds_push s1 [7, 8, 9] = (Ok s' :: (unit, _) res) \<and> ds_inv s' \<and>
        ds_contents s' = [1, 2, 7, 8, 9])"
proof -
  have r: "ma_dynstr_realloc all_ok ds_sample 3 =
      (False, ds_sample\<lparr>ds_max_length := 8, ds_str := Some [1, 2, 0, 0, 0, 0, 0, 0]\<rparr>)"
    by code_simp
  show ?thesis
    using r realloc_reserves [OF ds_sample_inv r, of "[7, 8, 9]"]
    by (simp add: ds_contents_def ds_sample_def)
qed

end
