(* ===== verification/Charset.thy ===== *)
theory Charset
  imports Prelude
begin

text \<open>
  Model of \<^verbatim>\<open>src/src/include/mysql/libmariadb/ma_charset.c\<close>: the table of compiled
  character sets, the functions that recognise one multi-byte character, and the two
  functions that escape a string for an SQL literal.

  A character function gets the buffer, the index of the character and the end index; it
  reads single bytes and is \<open>UB\<close> when it reads outside the buffer. A plain \<open>char\<close> of
  the C code is signed, so its conversion to \<open>unsigned int\<close> extends the sign; the casts to
  \<open>uchar\<close> of the source do not.
\<close>

type_synonym mb_check = "bytes \<Rightarrow> nat \<Rightarrow> nat \<Rightarrow> (unit, nat) res"

text \<open>Conversion of a signed \<open>char\<close> to \<open>unsigned int\<close>.\<close>

definition char_uint :: "u8 \<Rightarrow> u32" where
  "char_uint c = signed c"

section \<open>UTF-8\<close>

definition utf8_tail :: "u8 \<Rightarrow> bool" where
  "utf8_tail b \<longleftrightarrow> b XOR 0x80 < 0x40"

definition check_mb_utf8mb3_sequence :: mb_check where
  "check_mb_utf8mb3_sequence buf start e =
     (if e \<le> start then Ok 0 else rbind (load1 buf start) (\<lambda>c.
      if c < 0x80 then Ok 1
      else if c < 0xC2 then Ok 0
      else if c < 0xE0 then
        (if e < start + 2 then Ok 0 else rbind (load1 buf (start + 1)) (\<lambda>c1.
           if \<not> utf8_tail c1 then Ok 0 else Ok 2))
      else if c < 0xF0 then
        (if e < start + 3 then Ok 0 else rbind (load1 buf (start + 1)) (\<lambda>c1.
           rbind (load1 buf (start + 2)) (\<lambda>c2.
           if \<not> (utf8_tail c1 \<and> utf8_tail c2 \<and> (0xE1 \<le> c \<or> 0xA0 \<le> c1)) then Ok 0 else Ok 3)))
      else Ok 0))"

definition check_mb_utf8_sequence :: mb_check where
  "check_mb_utf8_sequence buf start e =
     (if e \<le> start then Ok 0 else rbind (load1 buf start) (\<lambda>c.
      if c < 0x80 then Ok 1
      else if c < 0xC2 then Ok 0
      else if c < 0xE0 then
        (if e < start + 2 then Ok 0 else rbind (load1 buf (start + 1)) (\<lambda>c1.
           if \<not> utf8_tail c1 then Ok 0 else Ok 2))
      else if c < 0xF0 then
        (if e < start + 3 then Ok 0 else rbind (load1 buf (start + 1)) (\<lambda>c1.
           rbind (load1 buf (start + 2)) (\<lambda>c2.
           if \<not> (utf8_tail c1 \<and> utf8_tail c2 \<and> (0xE1 \<le> c \<or> 0xA0 \<le> c1)) then Ok 0 else Ok 3)))
      else if c < 0xF5 then
        (if e < start + 4 then Ok 0 else rbind (load1 buf (start + 1)) (\<lambda>c1.
           rbind (load1 buf (start + 2)) (\<lambda>c2. rbind (load1 buf (start + 3)) (\<lambda>c3.
           if \<not> (utf8_tail c1 \<and> utf8_tail c2 \<and> utf8_tail c3 \<and>
                   (0xF1 \<le> c \<or> 0x90 \<le> c1) \<and> (c \<le> 0xF3 \<or> c1 \<le> 0x8F))
           then Ok 0 else Ok 4))))
      else Ok 0))"

definition check_mb_utf8mb3_valid :: mb_check where
  "check_mb_utf8mb3_valid buf start e =
     rmap (\<lambda>len. if 1 < len then len else 0) (check_mb_utf8mb3_sequence buf start e)"

definition check_mb_utf8_valid :: mb_check where
  "check_mb_utf8_valid buf start e =
     rmap (\<lambda>len. if 1 < len then len else 0) (check_mb_utf8_sequence buf start e)"

definition mysql_mbcharlen_utf8mb3 :: "u32 \<Rightarrow> nat" where
  "mysql_mbcharlen_utf8mb3 utf8 =
     (if utf8 < 0x80 then 1 else if utf8 < 0xC2 then 0 else if utf8 < 0xE0 then 2
      else if utf8 < 0xF0 then 3 else 0)"

definition mysql_mbcharlen_utf8 :: "u32 \<Rightarrow> nat" where
  "mysql_mbcharlen_utf8 utf8 =
     (if utf8 < 0x80 then 1 else if utf8 < 0xC2 then 0 else if utf8 < 0xE0 then 2
      else if utf8 < 0xF0 then 3 else if utf8 < 0xF8 then 4 else 0)"

section \<open>The east Asian character sets\<close>

definition valid_big5head :: "u32 \<Rightarrow> bool" where
  "valid_big5head c \<longleftrightarrow> 0xA1 \<le> c \<and> c \<le> 0xF9"

definition valid_big5tail :: "u32 \<Rightarrow> bool" where
  "valid_big5tail c \<longleftrightarrow> (0x40 \<le> c \<and> c \<le> 0x7E) \<or> (0xA1 \<le> c \<and> c \<le> 0xFE)"

definition check_mb_big5 :: mb_check where
  "check_mb_big5 buf start e = rbind (load1 buf start) (\<lambda>c.
     if valid_big5head (char_uint c) \<and> start + 1 < e
     then rbind (load1 buf (start + 1)) (\<lambda>d. Ok (if valid_big5tail (char_uint d) then 2 else 0))
     else Ok 0)"

definition mysql_mbcharlen_big5 :: "u32 \<Rightarrow> nat" where
  "mysql_mbcharlen_big5 big5 = (if valid_big5head big5 then 2 else 1)"

definition valid_cp932head :: "u8 \<Rightarrow> bool" where
  "valid_cp932head c \<longleftrightarrow> (0x81 \<le> c \<and> c \<le> 0x9F) \<or> (0xE0 \<le> c \<and> c \<le> 0xFC)"

definition valid_cp932tail :: "u8 \<Rightarrow> bool" where
  "valid_cp932tail c \<longleftrightarrow> (0x40 \<le> c \<and> c \<le> 0x7E) \<or> (0x80 \<le> c \<and> c \<le> 0xFC)"

definition check_mb_cp932 :: mb_check where
  "check_mb_cp932 buf start e = rbind (load1 buf start) (\<lambda>c.
     if valid_cp932head c \<and> start + 1 < e
     then rbind (load1 buf (start + 1)) (\<lambda>d. Ok (if valid_cp932tail d then 2 else 0))
     else Ok 0)"

definition mysql_mbcharlen_cp932 :: "u32 \<Rightarrow> nat" where
  "mysql_mbcharlen_cp932 cp932 = (if valid_cp932head (ucast cp932) then 2 else 1)"

definition valid_euckr :: "u8 \<Rightarrow> bool" where
  "valid_euckr c \<longleftrightarrow> 0xA1 \<le> c \<and> c \<le> 0xFE"

definition check_mb_euckr :: mb_check where
  "check_mb_euckr buf start e =
     (if e \<le> start + 1 then Ok 0
      else rbind (load1 buf start) (\<lambda>c. if c < 0x80 then Ok 0
      else rbind (load1 buf (start + 1)) (\<lambda>d. Ok (if valid_euckr d then 2 else 0))))"

definition mysql_mbcharlen_euckr :: "u32 \<Rightarrow> nat" where
  "mysql_mbcharlen_euckr kr = (if valid_euckr (ucast kr) then 2 else 1)"

definition valid_eucjpms :: "u8 \<Rightarrow> bool" where
  "valid_eucjpms c \<longleftrightarrow> 0xA1 \<le> c \<and> c \<le> 0xFE"

definition valid_eucjpms_kata :: "u8 \<Rightarrow> bool" where
  "valid_eucjpms_kata c \<longleftrightarrow> 0xA1 \<le> c \<and> c \<le> 0xDF"

definition valid_eucjpms_ss2 :: "u8 \<Rightarrow> bool" where
  "valid_eucjpms_ss2 c \<longleftrightarrow> c = 0x8E"

definition valid_eucjpms_ss3 :: "u8 \<Rightarrow> bool" where
  "valid_eucjpms_ss3 c \<longleftrightarrow> c = 0x8F"

definition check_mb_eucjpms :: mb_check where
  "check_mb_eucjpms buf start e = rbind (load1 buf start) (\<lambda>c.
     if c < 0x80 then Ok 0
     else if valid_eucjpms c \<and> start + 1 < e
       then rbind (load1 buf (start + 1)) (\<lambda>d. Ok (if valid_eucjpms d then 2 else 0))
     else if valid_eucjpms_ss2 c \<and> start + 1 < e
       then rbind (load1 buf (start + 1)) (\<lambda>d. Ok (if valid_eucjpms_kata d then 2 else 0))
     else if valid_eucjpms_ss3 c \<and> start + 2 < e
       then rbind (load1 buf (start + 1)) (\<lambda>d.
              if valid_eucjpms d
              then rbind (load1 buf (start + 2)) (\<lambda>d2. Ok (if valid_eucjpms d2 then 2 else 0))
              else Ok 0)
     else Ok 0)"

definition mysql_mbcharlen_eucjpms :: "u32 \<Rightarrow> nat" where
  "mysql_mbcharlen_eucjpms jpms =
     (if valid_eucjpms (ucast jpms) \<or> valid_eucjpms_ss2 (ucast jpms) then 2
      else if valid_eucjpms_ss3 (ucast jpms) then 3 else 1)"

definition valid_gb2312_head :: "u8 \<Rightarrow> bool" where
  "valid_gb2312_head c \<longleftrightarrow> 0xA1 \<le> c \<and> c \<le> 0xF7"

definition valid_gb2312_tail :: "u8 \<Rightarrow> bool" where
  "valid_gb2312_tail c \<longleftrightarrow> 0xA1 \<le> c \<and> c \<le> 0xFE"

definition check_mb_gb2312 :: mb_check where
  "check_mb_gb2312 buf start e = rbind (load1 buf start) (\<lambda>c.
     if valid_gb2312_head c \<and> start + 1 < e
     then rbind (load1 buf (start + 1)) (\<lambda>d. Ok (if valid_gb2312_tail d then 2 else 0))
     else Ok 0)"

definition mysql_mbcharlen_gb2312 :: "u32 \<Rightarrow> nat" where
  "mysql_mbcharlen_gb2312 gb = (if valid_gb2312_head (ucast gb) then 2 else 1)"

definition valid_gbk_head :: "u8 \<Rightarrow> bool" where
  "valid_gbk_head c \<longleftrightarrow> 0x81 \<le> c \<and> c \<le> 0xFE"

definition valid_gbk_tail :: "u8 \<Rightarrow> bool" where
  "valid_gbk_tail c \<longleftrightarrow> (0x40 \<le> c \<and> c \<le> 0x7E) \<or> (0x80 \<le> c \<and> c \<le> 0xFE)"

definition check_mb_gbk :: mb_check where
  "check_mb_gbk buf start e = rbind (load1 buf start) (\<lambda>c.
     if valid_gbk_head c \<and> start + 1 < e
     then rbind (load1 buf (start + 1)) (\<lambda>d. Ok (if valid_gbk_tail d then 2 else 0))
     else Ok 0)"

definition mysql_mbcharlen_gbk :: "u32 \<Rightarrow> nat" where
  "mysql_mbcharlen_gbk gbk = (if valid_gbk_head (ucast gbk) then 2 else 1)"

definition valid_sjis_head :: "u8 \<Rightarrow> bool" where
  "valid_sjis_head c \<longleftrightarrow> (0x81 \<le> c \<and> c \<le> 0x9F) \<or> (0xE0 \<le> c \<and> c \<le> 0xFC)"

definition valid_sjis_tail :: "u8 \<Rightarrow> bool" where
  "valid_sjis_tail c \<longleftrightarrow> (0x40 \<le> c \<and> c \<le> 0x7E) \<or> (0x80 \<le> c \<and> c \<le> 0xFC)"

definition check_mb_sjis :: mb_check where
  "check_mb_sjis buf start e = rbind (load1 buf start) (\<lambda>c.
     if valid_sjis_head c \<and> start + 1 < e
     then rbind (load1 buf (start + 1)) (\<lambda>d. Ok (if valid_sjis_tail d then 2 else 0))
     else Ok 0)"

definition mysql_mbcharlen_sjis :: "u32 \<Rightarrow> nat" where
  "mysql_mbcharlen_sjis sjis = (if valid_sjis_head (ucast sjis) then 2 else 1)"

definition check_mb_ucs2 :: mb_check where
  "check_mb_ucs2 buf start e = Ok 2"

definition mysql_mbcharlen_ucs2 :: "u32 \<Rightarrow> nat" where
  "mysql_mbcharlen_ucs2 ucs2 = 2"

definition valid_ujis :: "u8 \<Rightarrow> bool" where
  "valid_ujis c \<longleftrightarrow> 0xA1 \<le> c \<and> c \<le> 0xFE"

definition valid_ujis_kata :: "u8 \<Rightarrow> bool" where
  "valid_ujis_kata c \<longleftrightarrow> 0xA1 \<le> c \<and> c \<le> 0xDF"

definition valid_ujis_ss2 :: "u8 \<Rightarrow> bool" where
  "valid_ujis_ss2 c \<longleftrightarrow> c = 0x8E"

definition valid_ujis_ss3 :: "u8 \<Rightarrow> bool" where
  "valid_ujis_ss3 c \<longleftrightarrow> c = 0x8F"

text \<open>The two-byte tests of \<open>check_mb_ujis\<close> do not look at the end of the string.\<close>

definition check_mb_ujis :: mb_check where
  "check_mb_ujis buf start e = rbind (load1 buf start) (\<lambda>c.
     if c < 0x80 then Ok 0
     else if valid_ujis c
       then rbind (load1 buf (start + 1)) (\<lambda>d. Ok (if valid_ujis d then 2 else 0))
     else if valid_ujis_ss2 c
       then rbind (load1 buf (start + 1)) (\<lambda>d. Ok (if valid_ujis_kata d then 2 else 0))
     else if valid_ujis_ss3 c \<and> start + 2 < e
       then rbind (load1 buf (start + 1)) (\<lambda>d.
              if valid_ujis d
              then rbind (load1 buf (start + 2)) (\<lambda>d2. Ok (if valid_ujis d2 then 3 else 0))
              else Ok 0)
     else Ok 0)"

definition mysql_mbcharlen_ujis :: "u32 \<Rightarrow> nat" where
  "mysql_mbcharlen_ujis ujis =
     (if valid_ujis (ucast ujis) then 2 else if valid_ujis_ss2 (ucast ujis) then 2
      else if valid_ujis_ss3 (ucast ujis) then 3 else 1)"

section \<open>UTF-16 and UTF-32\<close>

definition UTF16_HIGH_HEAD :: "u8 \<Rightarrow> bool" where
  "UTF16_HIGH_HEAD x \<longleftrightarrow> x AND 0xFC = 0xD8"

definition UTF16_LOW_HEAD :: "u8 \<Rightarrow> bool" where
  "UTF16_LOW_HEAD x \<longleftrightarrow> x AND 0xFC = 0xDC"

definition check_mb_utf16 :: mb_check where
  "check_mb_utf16 buf start e =
     (if e < start + 2 then Ok 0 else rbind (load1 buf start) (\<lambda>c.
      if UTF16_HIGH_HEAD c
      then (if start + 4 \<le> e
            then rbind (load1 buf (start + 2)) (\<lambda>d. Ok (if UTF16_LOW_HEAD d then 4 else 0))
            else Ok 0)
      else if UTF16_LOW_HEAD c then Ok 0 else Ok 2))"

definition mysql_mbcharlen_utf16 :: "u32 \<Rightarrow> nat" where
  "mysql_mbcharlen_utf16 utf16 = (if UTF16_HIGH_HEAD (ucast utf16) then 4 else 2)"

definition check_mb_utf32 :: mb_check where
  "check_mb_utf32 buf start e = Ok 4"

definition mysql_mbcharlen_utf32 :: "u32 \<Rightarrow> nat" where
  "mysql_mbcharlen_utf32 utf32 = 4"

section \<open>The table of compiled character sets\<close>

record charset_info =
  cs_nr :: nat
  cs_state :: nat
  cs_csname :: string
  cs_name :: string
  cs_dir :: string
  cs_codepage :: nat
  cs_encoding :: string
  char_minlen :: nat
  char_maxlen :: nat
  mb_charlen :: "(u32 \<Rightarrow> nat) option"
  mb_valid :: "mb_check option"

abbreviation cset :: "nat \<Rightarrow> nat \<Rightarrow> string \<Rightarrow> string \<Rightarrow> string \<Rightarrow> nat \<Rightarrow> string \<Rightarrow> nat \<Rightarrow> nat \<Rightarrow>
    (u32 \<Rightarrow> nat) option \<Rightarrow> mb_check option \<Rightarrow> charset_info" where
  "cset nr st csn n d cp en mi ma cl va \<equiv>
     \<lparr>cs_nr = nr, cs_state = st, cs_csname = csn, cs_name = n, cs_dir = d, cs_codepage = cp,
      cs_encoding = en, char_minlen = mi, char_maxlen = ma, mb_charlen = cl, mb_valid = va\<rparr>"

definition charsets_a :: "charset_info list" where
  "charsets_a = [
    cset 1 1 ''big5'' ''big5_chinese_ci'' '''' 950 ''BIG5'' 1 2 (Some mysql_mbcharlen_big5) (Some check_mb_big5),
    cset 3 1 ''dec8'' ''dec8_swedisch_ci'' '''' 0 ''DEC'' 1 1 None None,
    cset 4 1 ''cp850'' ''cp850_general_ci'' '''' 850 ''CP850'' 1 1 None None,
    cset 6 1 ''hp8'' ''hp8_english_ci'' '''' 0 ''HP-ROMAN8'' 1 1 None None,
    cset 7 1 ''koi8r'' ''koi8r_general_ci'' '''' 878 ''KOI8R'' 1 1 None None,
    cset 8 1 ''latin1'' ''latin1_swedish_ci'' '''' 850 ''LATIN1'' 1 1 None None,
    cset 9 1 ''latin2'' ''latin2_general_ci'' '''' 852 ''LATIN2'' 1 1 None None,
    cset 10 1 ''swe7'' ''swe7_swedish_ci'' '''' 20107 '''' 1 1 None None,
    cset 11 1 ''ascii'' ''ascii_general_ci'' '''' 1252 ''ASCII'' 1 1 None None,
    cset 12 1 ''ujis'' ''ujis_japanese_ci'' '''' 20932 ''UJIS'' 1 3 (Some mysql_mbcharlen_ujis) (Some check_mb_ujis),
    cset 13 1 ''sjis'' ''sjis_japanese_ci'' '''' 932 ''SJIS'' 1 2 (Some mysql_mbcharlen_sjis) (Some check_mb_sjis),
    cset 16 1 ''hebrew'' ''hebrew_general_ci'' '''' 1255 ''HEBREW'' 1 1 None None,
    cset 18 1 ''tis620'' ''tis620_thai_ci'' '''' 874 ''TIS620'' 1 1 None None,
    cset 19 1 ''euckr'' ''euckr_korean_ci'' '''' 51949 ''EUCKR'' 1 2 (Some mysql_mbcharlen_euckr) (Some check_mb_euckr),
    cset 22 1 ''koi8u'' ''koi8u_general_ci'' '''' 20866 ''KOI8U'' 1 1 None None,
    cset 24 1 ''gb2312'' ''gb2312_chinese_ci'' '''' 936 ''GB2312'' 1 2 (Some mysql_mbcharlen_gb2312) (Some check_mb_gb2312),
    cset 25 1 ''greek'' ''greek_general_ci'' '''' 28597 ''GREEK'' 1 1 None None,
    cset 26 1 ''cp1250'' ''cp1250_general_ci'' '''' 1250 ''CP1250'' 1 1 None None,
    cset 28 1 ''gbk'' ''gbk_chinese_ci'' '''' 936 ''GBK'' 1 2 (Some mysql_mbcharlen_gbk) (Some check_mb_gbk),
    cset 30 1 ''latin5'' ''latin5_turkish_ci'' '''' 1254 ''LATIN5'' 1 1 None None,
    cset 32 1 ''armscii8'' ''armscii8_general_ci'' '''' 0 ''ARMSCII-8'' 1 1 None None,
    cset 33 1 ''utf8'' ''utf8_general_ci'' '''' 65001 ''UTF-8'' 1 3 (Some mysql_mbcharlen_utf8mb3) (Some check_mb_utf8mb3_valid),
    cset 35 1 ''ucs2'' ''ucs2_general_ci'' '''' 1200 ''UCS-2BE'' 2 2 (Some mysql_mbcharlen_ucs2) (Some check_mb_ucs2),
    cset 36 1 ''cp866'' ''cp866_general_ci'' '''' 866 ''CP866'' 1 1 None None,
    cset 37 1 ''keybcs2'' ''keybcs2_general_ci'' '''' 0 '''' 1 1 None None,
    cset 38 1 ''macce'' ''macce_general_ci'' '''' 10029 ''CP1282'' 1 1 None None,
    cset 39 1 ''macroman'' ''macroman_general_ci'' '''' 10000 ''MACINTOSH'' 1 1 None None,
    cset 40 1 ''cp852'' ''cp852_general_ci'' '''' 852 ''CP852'' 1 1 None None,
    cset 41 1 ''latin7'' ''latin7_general_ci'' '''' 28603 ''LATIN7'' 1 1 None None,
    cset 51 1 ''cp1251'' ''cp1251_general_ci'' '''' 1251 ''CP1251'' 1 1 None None,
    cset 57 1 ''cp1256'' ''cp1256_general_ci'' '''' 1256 ''CP1256'' 1 1 None None,
    cset 59 1 ''cp1257'' ''cp1257_general_ci'' '''' 1257 ''CP1257'' 1 1 None None,
    cset 63 1 ''binary'' ''binary'' '''' 0 ''ASCII'' 1 1 None None,
    cset 64 1 ''armscii8'' ''armscii8_bin'' '''' 0 ''ARMSCII-8'' 1 1 None None,
    cset 92 1 ''geostd8'' ''geostd8_general_ci'' '''' 0 ''GEORGIAN-PS'' 1 1 None None,
    cset 95 1 ''cp932'' ''cp932_japanese_ci'' '''' 932 ''CP932'' 1 2 (Some mysql_mbcharlen_cp932) (Some check_mb_cp932),
    cset 97 1 ''eucjpms'' ''eucjpms_japanese_ci'' '''' 932 ''EUC-JP-MS'' 1 3 (Some mysql_mbcharlen_eucjpms) (Some check_mb_eucjpms),
    cset 2 1 ''latin2'' ''latin2_czech_cs'' '''' 852 ''LATIN2'' 1 1 None None,
    cset 5 1 ''latin1'' ''latin1_german_ci'' '''' 850 ''LATIN1'' 1 1 None None,
    cset 14 1 ''cp1251'' ''cp1251_bulgarian_ci'' '''' 1251 ''CP1251'' 1 1 None None,
    cset 15 1 ''latin1'' ''latin1_danish_ci'' '''' 850 ''LATIN1'' 1 1 None None,
    cset 17 1 ''filename'' ''filename'' '''' 0 '''' 1 5 None None,
    cset 20 1 ''latin7'' ''latin7_estonian_cs'' '''' 28603 ''LATIN7'' 1 1 None None,
    cset 21 1 ''latin2'' ''latin2_hungarian_ci'' '''' 852 ''LATIN2'' 1 1 None None,
    cset 23 1 ''cp1251'' ''cp1251_ukrainian_ci'' '''' 1251 ''CP1251'' 1 1 None None,
    cset 27 1 ''latin2'' ''latin2_croatian_ci'' '''' 852 ''LATIN2'' 1 1 None None,
    cset 29 1 ''cp1257'' ''cp1257_lithunian_ci'' '''' 1257 ''CP1257'' 1 1 None None,
    cset 31 1 ''latin1'' ''latin1_german2_ci'' '''' 850 ''LATIN1'' 1 1 None None,
    cset 34 1 ''cp1250'' ''cp1250_czech_cs'' '''' 1250 ''CP1250'' 1 1 None None,
    cset 42 1 ''latin7'' ''latin7_general_cs'' '''' 28603 ''LATIN7'' 1 1 None None,
    cset 43 1 ''macce'' ''macce_bin'' '''' 10029 ''CP1282'' 1 1 None None,
    cset 44 1 ''cp1250'' ''cp1250_croatian_ci'' '''' 1250 ''CP1250'' 1 1 None None,
    cset 45 1 ''utf8mb4'' ''utf8mb4_general_ci'' '''' 65001 ''UTF-8'' 1 4 (Some mysql_mbcharlen_utf8) (Some check_mb_utf8_valid),
    cset 46 1 ''utf8mb4'' ''utf8mb4_bin'' '''' 65001 ''UTF-8'' 1 4 (Some mysql_mbcharlen_utf8) (Some check_mb_utf8_valid),
    cset 47 1 ''latin1'' ''latin1_bin'' '''' 1250 ''LATIN1'' 1 1 None None,
    cset 48 1 ''latin1'' ''latin1_general_ci'' '''' 1250 ''LATIN1'' 1 1 None None,
    cset 49 1 ''latin1'' ''latin1_general_cs'' '''' 1250 ''LATIN1'' 1 1 None None,
    cset 50 1 ''cp1251'' ''cp1251_bin'' '''' 1251 ''CP1251'' 1 1 None None,
    cset 52 1 ''cp1251'' ''cp1251_general_cs'' '''' 1251 ''CP1251'' 1 1 None None,
    cset 53 1 ''macroman'' ''macroman_bin'' '''' 10000 ''MACINTOSH'' 1 1 None None,
    cset 54 1 ''utf16'' ''utf16_general_ci'' '''' 0 ''UTF16'' 2 4 (Some mysql_mbcharlen_utf16) (Some check_mb_utf16),
    cset 55 1 ''utf16'' ''utf16_bin'' '''' 0 ''UTF16'' 2 4 (Some mysql_mbcharlen_utf16) (Some check_mb_utf16),
    cset 56 1 ''utf16le'' ''utf16_general_ci'' '''' 1200 ''UTF16LE'' 2 4 (Some mysql_mbcharlen_utf16) (Some check_mb_utf16),
    cset 58 1 ''cp1257'' ''cp1257_bin'' '''' 1257 ''CP1257'' 1 1 None None,
    cset 60 1 ''utf32'' ''utf32_general_ci'' '''' 0 ''UTF32'' 4 4 (Some mysql_mbcharlen_utf32) (Some check_mb_utf32),
    cset 61 1 ''utf32'' ''utf32_bin'' '''' 0 ''UTF32'' 4 4 (Some mysql_mbcharlen_utf32) (Some check_mb_utf32),
    cset 62 1 ''utf16le'' ''utf16_bin'' '''' 1200 ''UTF16LE'' 2 4 (Some mysql_mbcharlen_utf16) (Some check_mb_utf16),
    cset 65 1 ''ascii'' ''ascii_bin'' '''' 1252 ''ASCII'' 1 1 None None,
    cset 66 1 ''cp1250'' ''cp1250_bin'' '''' 1250 ''CP1250'' 1 1 None None,
    cset 67 1 ''cp1256'' ''cp1256_bin'' '''' 1256 ''CP1256'' 1 1 None None,
    cset 68 1 ''cp866'' ''cp866_bin'' '''' 866 ''CP866'' 1 1 None None,
    cset 69 1 ''dec8'' ''dec8_bin'' '''' 0 ''DEC'' 1 1 None None,
    cset 70 1 ''greek'' ''greek_bin'' '''' 28597 ''GREEK'' 1 1 None None,
    cset 71 1 ''hebrew'' ''hebrew_bin'' '''' 1255 ''hebrew'' 1 1 None None,
    cset 72 1 ''hp8'' ''hp8_bin'' '''' 0 ''HPROMAN-8'' 1 1 None None,
    cset 73 1 ''keybcs2'' ''keybcs2_bin'' '''' 0 '''' 1 1 None None,
    cset 74 1 ''koi8r'' ''koi8r_bin'' '''' 20866 ''KOI8R'' 1 1 None None,
    cset 75 1 ''koi8u'' ''koi8u_bin'' '''' 21866 ''KOI8U'' 1 1 None None,
    cset 77 1 ''latin2'' ''latin2_bin'' '''' 28592 ''LATIN2'' 1 1 None None,
    cset 78 1 ''latin5'' ''latin5_bin'' '''' 1254 ''LATIN5'' 1 1 None None,
    cset 79 1 ''latin7'' ''latin7_bin'' '''' 28603 ''LATIN7'' 1 1 None None,
    cset 80 1 ''cp850'' ''cp850_bin'' '''' 850 ''CP850'' 1 1 None None,
    cset 81 1 ''cp852'' ''cp852_bin'' '''' 852 ''CP852'' 1 1 None None,
    cset 82 1 ''swe7'' ''swe7_bin'' '''' 0 '''' 1 1 None None,
    cset 93 1 ''geostd8'' ''geostd8_bin'' '''' 0 ''GEORGIAN-PS'' 1 1 None None,
    cset 83 1 ''utf8'' ''utf8_bin'' '''' 65001 ''UTF-8'' 1 3 (Some mysql_mbcharlen_utf8mb3) (Some check_mb_utf8mb3_valid),
    cset 84 1 ''big5'' ''big5_bin'' '''' 65000 ''BIG5'' 1 2 (Some mysql_mbcharlen_big5) (Some check_mb_big5),
    cset 85 1 ''euckr'' ''euckr_bin'' '''' 51949 ''EUCKR'' 1 2 (Some mysql_mbcharlen_euckr) (Some check_mb_euckr),
    cset 86 1 ''gb2312'' ''gb2312_bin'' '''' 936 ''GB2312'' 1 2 (Some mysql_mbcharlen_gb2312) (Some check_mb_gb2312),
    cset 87 1 ''gbk'' ''gbk_bin'' '''' 936 ''GBK'' 1 2 (Some mysql_mbcharlen_gbk) (Some check_mb_gbk),
    cset 88 1 ''sjis'' ''sjis_bin'' '''' 932 ''SJIS'' 1 2 (Some mysql_mbcharlen_sjis) (Some check_mb_sjis),
    cset 89 1 ''tis620'' ''tis620_bin'' '''' 874 ''TIS620'' 1 1 None None,
    cset 90 1 ''ucs2'' ''ucs2_bin'' '''' 1200 ''UCS-2BE'' 2 2 (Some mysql_mbcharlen_ucs2) (Some check_mb_ucs2),
    cset 91 1 ''ujis'' ''ujis_bin'' '''' 20932 ''UJIS'' 1 3 (Some mysql_mbcharlen_ujis) (Some check_mb_ujis),
    cset 94 1 ''latin1'' ''latin1_spanish_ci'' '''' 1252 ''LATIN1'' 1 1 None None,
    cset 96 1 ''cp932'' ''cp932_bin'' '''' 932 ''CP932'' 1 2 (Some mysql_mbcharlen_cp932) (Some check_mb_cp932),
    cset 99 1 ''cp1250'' ''cp1250_polish_ci'' '''' 1250 ''CP1250'' 1 1 None None,
    cset 98 1 ''eucjpms'' ''eucjpms_bin'' '''' 932 ''EUCJP-MS'' 1 3 (Some mysql_mbcharlen_eucjpms) (Some check_mb_eucjpms),
    cset 101 1 ''utf16'' ''utf16_unicode_ci'' '''' 0 ''UTF16'' 2 4 (Some mysql_mbcharlen_utf16) (Some check_mb_utf16),
    cset 102 1 ''utf16'' ''utf16_icelandic_ci'' '''' 0 ''UTF16'' 2 4 (Some mysql_mbcharlen_utf16) (Some check_mb_utf16),
    cset 103 1 ''utf16'' ''utf16_latvian_ci'' '''' 0 ''UTF16'' 2 4 (Some mysql_mbcharlen_utf16) (Some check_mb_utf16),
    cset 104 1 ''utf16'' ''utf16_romanian_ci'' '''' 0 ''UTF16'' 2 4 (Some mysql_mbcharlen_utf16) (Some check_mb_utf16),
    cset 105 1 ''utf16'' ''utf16_slovenian_ci'' '''' 0 ''UTF16'' 2 4 (Some mysql_mbcharlen_utf16) (Some check_mb_utf16),
    cset 106 1 ''utf16'' ''utf16_polish_ci'' '''' 0 ''UTF16'' 2 4 (Some mysql_mbcharlen_utf16) (Some check_mb_utf16),
    cset 107 1 ''utf16'' ''utf16_estonian_ci'' '''' 0 ''UTF16'' 2 4 (Some mysql_mbcharlen_utf16) (Some check_mb_utf16),
    cset 108 1 ''utf16'' ''utf16_spanish_ci'' '''' 0 ''UTF16'' 2 4 (Some mysql_mbcharlen_utf16) (Some check_mb_utf16),
    cset 109 1 ''utf16'' ''utf16_swedish_ci'' '''' 0 ''UTF16'' 2 4 (Some mysql_mbcharlen_utf16) (Some check_mb_utf16),
    cset 110 1 ''utf16'' ''utf16_turkish_ci'' '''' 0 ''UTF16'' 2 4 (Some mysql_mbcharlen_utf16) (Some check_mb_utf16)]"

definition charsets_b :: "charset_info list" where
  "charsets_b = [
    cset 111 1 ''utf16'' ''utf16_czech_ci'' '''' 0 ''UTF16'' 2 4 (Some mysql_mbcharlen_utf16) (Some check_mb_utf16),
    cset 112 1 ''utf16'' ''utf16_danish_ci'' '''' 0 ''UTF16'' 2 4 (Some mysql_mbcharlen_utf16) (Some check_mb_utf16),
    cset 113 1 ''utf16'' ''utf16_lithunian_ci'' '''' 0 ''UTF16'' 2 4 (Some mysql_mbcharlen_utf16) (Some check_mb_utf16),
    cset 114 1 ''utf16'' ''utf16_slovak_ci'' '''' 0 ''UTF16'' 2 4 (Some mysql_mbcharlen_utf16) (Some check_mb_utf16),
    cset 115 1 ''utf16'' ''utf16_spanish2_ci'' '''' 0 ''UTF16'' 2 4 (Some mysql_mbcharlen_utf16) (Some check_mb_utf16),
    cset 116 1 ''utf16'' ''utf16_roman_ci'' '''' 0 ''UTF16'' 2 4 (Some mysql_mbcharlen_utf16) (Some check_mb_utf16),
    cset 117 1 ''utf16'' ''utf16_persian_ci'' '''' 0 ''UTF16'' 2 4 (Some mysql_mbcharlen_utf16) (Some check_mb_utf16),
    cset 118 1 ''utf16'' ''utf16_esperanto_ci'' '''' 0 ''UTF16'' 2 4 (Some mysql_mbcharlen_utf16) (Some check_mb_utf16),
    cset 120 1 ''utf16'' ''utf16_sinhala_ci'' '''' 0 ''UTF16'' 2 4 (Some mysql_mbcharlen_utf16) (Some check_mb_utf16),
    cset 121 1 ''utf16'' ''utf16_german2_ci'' '''' 0 ''UTF16'' 2 4 (Some mysql_mbcharlen_utf16) (Some check_mb_utf16),
    cset 122 1 ''utf16'' ''utf16_croatian_mysql561_ci'' '''' 0 ''UTF16'' 2 4 (Some mysql_mbcharlen_utf16) (Some check_mb_utf16),
    cset 123 1 ''utf16'' ''utf16_unicode_520_ci'' '''' 0 ''UTF16'' 2 4 (Some mysql_mbcharlen_utf16) (Some check_mb_utf16),
    cset 124 1 ''utf16'' ''utf16_vietnamese_ci'' '''' 0 ''UTF16'' 2 4 (Some mysql_mbcharlen_utf16) (Some check_mb_utf16),
    cset 128 1 ''ucs2'' ''ucs2_unicode_ci'' '''' 1200 ''UCS-2BE'' 2 2 (Some mysql_mbcharlen_ucs2) (Some check_mb_ucs2),
    cset 129 1 ''ucs2'' ''ucs2_icelandic_ci'' '''' 1200 ''UCS-2BE'' 2 2 (Some mysql_mbcharlen_ucs2) (Some check_mb_ucs2),
    cset 130 1 ''ucs2'' ''ucs2_latvian_ci'' '''' 1200 ''UCS-2BE'' 2 2 (Some mysql_mbcharlen_ucs2) (Some check_mb_ucs2),
    cset 131 1 ''ucs2'' ''ucs2_romanian_ci'' '''' 1200 ''UCS2-BE'' 2 2 (Some mysql_mbcharlen_ucs2) (Some check_mb_ucs2),
    cset 132 1 ''ucs2'' ''ucs2_slovenian_ci'' '''' 1200 ''UCS2-BE'' 2 2 (Some mysql_mbcharlen_ucs2) (Some check_mb_ucs2),
    cset 133 1 ''ucs2'' ''ucs2_polish_ci'' '''' 1200 ''UCS2-BE'' 2 2 (Some mysql_mbcharlen_ucs2) (Some check_mb_ucs2),
    cset 134 1 ''ucs2'' ''ucs2_estonian_ci'' '''' 1200 ''UCS2-BE'' 2 2 (Some mysql_mbcharlen_ucs2) (Some check_mb_ucs2),
    cset 135 1 ''ucs2'' ''ucs2_spanish_ci'' '''' 1200 ''UCS2-BE'' 2 2 (Some mysql_mbcharlen_ucs2) (Some check_mb_ucs2),
    cset 136 1 ''ucs2'' ''ucs2_swedish_ci'' '''' 1200 ''UCS2-BE'' 2 2 (Some mysql_mbcharlen_ucs2) (Some check_mb_ucs2),
    cset 137 1 ''ucs2'' ''ucs2_turkish_ci'' '''' 1200 ''UCS2-BE'' 2 2 (Some mysql_mbcharlen_ucs2) (Some check_mb_ucs2),
    cset 138 1 ''ucs2'' ''ucs2_czech_ci'' '''' 1200 ''UCS2-BE'' 2 2 (Some mysql_mbcharlen_ucs2) (Some check_mb_ucs2),
    cset 139 1 ''ucs2'' ''ucs2_danish_ci'' '''' 1200 ''UCS2-BE'' 2 2 (Some mysql_mbcharlen_ucs2) (Some check_mb_ucs2),
    cset 140 1 ''ucs2'' ''ucs2_lithunian_ci'' '''' 1200 ''UCS2-BE'' 2 2 (Some mysql_mbcharlen_ucs2) (Some check_mb_ucs2),
    cset 141 1 ''ucs2'' ''ucs2_slovak_ci'' '''' 1200 ''UCS2-BE'' 2 2 (Some mysql_mbcharlen_ucs2) (Some check_mb_ucs2),
    cset 142 1 ''ucs2'' ''ucs2_spanish2_ci'' '''' 1200 ''UCS2-BE'' 2 2 (Some mysql_mbcharlen_ucs2) (Some check_mb_ucs2),
    cset 143 1 ''ucs2'' ''ucs2_roman_ci'' '''' 1200 ''UCS2-BE'' 2 2 (Some mysql_mbcharlen_ucs2) (Some check_mb_ucs2),
    cset 144 1 ''ucs2'' ''ucs2_persian_ci'' '''' 1200 ''UCS2-BE'' 2 2 (Some mysql_mbcharlen_ucs2) (Some check_mb_ucs2),
    cset 145 1 ''ucs2'' ''ucs2_esperanto_ci'' '''' 1200 ''UCS2-BE'' 2 2 (Some mysql_mbcharlen_ucs2) (Some check_mb_ucs2),
    cset 146 1 ''ucs2'' ''ucs2_hungarian_ci'' '''' 1200 ''UCS2-BE'' 2 2 (Some mysql_mbcharlen_ucs2) (Some check_mb_ucs2),
    cset 147 1 ''ucs2'' ''ucs2_sinhala_ci'' '''' 1200 ''UCS2-BE'' 2 2 (Some mysql_mbcharlen_ucs2) (Some check_mb_ucs2),
    cset 148 1 ''ucs2'' ''ucs2_german2_ci'' '''' 1200 ''UCS2-BE'' 2 2 (Some mysql_mbcharlen_ucs2) (Some check_mb_ucs2),
    cset 149 1 ''ucs2'' ''ucs2_croatian_ci'' '''' 1200 ''UCS2-BE'' 2 2 (Some mysql_mbcharlen_ucs2) (Some check_mb_ucs2),
    cset 150 1 ''ucs2'' ''ucs2_unicode_520_ci'' '''' 1200 ''UCS2-BE'' 2 2 (Some mysql_mbcharlen_ucs2) (Some check_mb_ucs2),
    cset 151 1 ''ucs2'' ''ucs2_vietnamese_ci'' '''' 1200 ''UCS2-BE'' 2 2 (Some mysql_mbcharlen_ucs2) (Some check_mb_ucs2),
    cset 159 1 ''ucs2'' ''ucs2_general_mysql500_ci'' '''' 1200 ''UCS2-BE'' 2 2 (Some mysql_mbcharlen_ucs2) (Some check_mb_ucs2),
    cset 160 1 ''utf32'' ''utf32_unicode_ci'' '''' 0 ''UTF32'' 4 4 (Some mysql_mbcharlen_utf32) (Some check_mb_utf32),
    cset 161 1 ''utf32'' ''utf32_icelandic_ci'' '''' 0 ''UTF32'' 4 4 (Some mysql_mbcharlen_utf32) (Some check_mb_utf32),
    cset 162 1 ''utf32'' ''utf32_latvian_ci'' '''' 0 ''UTF32'' 4 4 (Some mysql_mbcharlen_utf32) (Some check_mb_utf32),
    cset 163 1 ''utf32'' ''utf32_romanian_ci'' '''' 0 ''UTF32'' 4 4 (Some mysql_mbcharlen_utf32) (Some check_mb_utf32),
    cset 164 1 ''utf32'' ''utf32_slovenian_ci'' '''' 0 ''UTF32'' 4 4 (Some mysql_mbcharlen_utf32) (Some check_mb_utf32),
    cset 165 1 ''utf32'' ''utf32_polish_ci'' '''' 0 ''UTF32'' 4 4 (Some mysql_mbcharlen_utf32) (Some check_mb_utf32),
    cset 166 1 ''utf32'' ''utf32_estonian_ci'' '''' 0 ''UTF32'' 4 4 (Some mysql_mbcharlen_utf32) (Some check_mb_utf32),
    cset 167 1 ''utf32'' ''utf32_spanish_ci'' '''' 0 ''UTF32'' 4 4 (Some mysql_mbcharlen_utf32) (Some check_mb_utf32),
    cset 168 1 ''utf32'' ''utf32_swedish_ci'' '''' 0 ''UTF32'' 4 4 (Some mysql_mbcharlen_utf32) (Some check_mb_utf32),
    cset 169 1 ''utf32'' ''utf32_turkish_ci'' '''' 0 ''UTF32'' 4 4 (Some mysql_mbcharlen_utf32) (Some check_mb_utf32),
    cset 170 1 ''utf32'' ''utf32_czech_ci'' '''' 0 ''UTF32'' 4 4 (Some mysql_mbcharlen_utf32) (Some check_mb_utf32),
    cset 171 1 ''utf32'' ''utf32_danish_ci'' '''' 0 ''UTF32'' 4 4 (Some mysql_mbcharlen_utf32) (Some check_mb_utf32),
    cset 172 1 ''utf32'' ''utf32_lithunian_ci'' '''' 0 ''UTF32'' 4 4 (Some mysql_mbcharlen_utf32) (Some check_mb_utf32),
    cset 173 1 ''utf32'' ''utf32_slovak_ci'' '''' 0 ''UTF32'' 4 4 (Some mysql_mbcharlen_utf32) (Some check_mb_utf32),
    cset 174 1 ''utf32'' ''utf32_spanish_ci'' '''' 0 ''UTF32'' 4 4 (Some mysql_mbcharlen_utf32) (Some check_mb_utf32),
    cset 175 1 ''utf32'' ''utf32_roman_ci'' '''' 0 ''UTF32'' 4 4 (Some mysql_mbcharlen_utf32) (Some check_mb_utf32),
    cset 176 1 ''utf32'' ''utf32_persian_ci'' '''' 0 ''UTF32'' 4 4 (Some mysql_mbcharlen_utf32) (Some check_mb_utf32),
    cset 177 1 ''utf32'' ''utf32_esperanto_ci'' '''' 0 ''UTF32'' 4 4 (Some mysql_mbcharlen_utf32) (Some check_mb_utf32),
    cset 178 1 ''utf32'' ''utf32_hungarian_ci'' '''' 0 ''UTF32'' 4 4 (Some mysql_mbcharlen_utf32) (Some check_mb_utf32),
    cset 179 1 ''utf32'' ''utf32_sinhala_ci'' '''' 0 ''UTF32'' 4 4 (Some mysql_mbcharlen_utf32) (Some check_mb_utf32),
    cset 180 1 ''utf32'' ''utf32_german2_ci'' '''' 0 ''UTF32'' 4 4 (Some mysql_mbcharlen_utf32) (Some check_mb_utf32),
    cset 181 1 ''utf32'' ''utf32_croatian_mysql561_ci'' '''' 0 ''UTF32'' 4 4 (Some mysql_mbcharlen_utf32) (Some check_mb_utf32),
    cset 182 1 ''utf32'' ''utf32_unicode_520_ci'' '''' 0 ''UTF32'' 4 4 (Some mysql_mbcharlen_utf32) (Some check_mb_utf32),
    cset 183 1 ''utf32'' ''utf32_vietnamese_ci'' '''' 0 ''UTF32'' 4 4 (Some mysql_mbcharlen_utf32) (Some check_mb_utf32),
    cset 192 1 ''utf8'' ''utf8_general_ci'' '''' 65001 ''UTF-8'' 1 3 (Some mysql_mbcharlen_utf8mb3) (Some check_mb_utf8mb3_valid),
    cset 193 1 ''utf8'' ''utf8_icelandic_ci'' '''' 65001 ''UTF-8'' 1 3 (Some mysql_mbcharlen_utf8mb3) (Some check_mb_utf8mb3_valid),
    cset 194 1 ''utf8'' ''utf8_latvian_ci'' '''' 65001 ''UTF-8'' 1 3 (Some mysql_mbcharlen_utf8mb3) (Some check_mb_utf8mb3_valid),
    cset 195 1 ''utf8'' ''utf8_romanian_ci'' '''' 65001 ''UTF-8'' 1 3 (Some mysql_mbcharlen_utf8mb3) (Some check_mb_utf8mb3_valid),
    cset 196 1 ''utf8'' ''utf8_slovenian_ci'' '''' 65001 ''UTF-8'' 1 3 (Some mysql_mbcharlen_utf8mb3) (Some check_mb_utf8mb3_valid),
    cset 197 1 ''utf8'' ''utf8_polish_ci'' '''' 65001 ''UTF-8'' 1 3 (Some mysql_mbcharlen_utf8mb3) (Some check_mb_utf8mb3_valid),
    cset 198 1 ''utf8'' ''utf8_estonian_ci'' '''' 65001 ''UTF-8'' 1 3 (Some mysql_mbcharlen_utf8mb3) (Some check_mb_utf8mb3_valid),
    cset 199 1 ''utf8'' ''utf8_spanish_ci'' '''' 65001 ''UTF-8'' 1 3 (Some mysql_mbcharlen_utf8mb3) (Some check_mb_utf8mb3_valid),
    cset 119 1 ''utf8'' ''utf8_spanish_ci'' '''' 65001 ''UTF-8'' 1 3 (Some mysql_mbcharlen_utf8mb3) (Some check_mb_utf8mb3_valid),
    cset 200 1 ''utf8'' ''utf8_swedish_ci'' '''' 65001 ''UTF-8'' 1 3 (Some mysql_mbcharlen_utf8mb3) (Some check_mb_utf8mb3_valid),
    cset 201 1 ''utf8'' ''utf8_turkish_ci'' '''' 65001 ''UTF-8'' 1 3 (Some mysql_mbcharlen_utf8mb3) (Some check_mb_utf8mb3_valid),
    cset 202 1 ''utf8'' ''utf8_czech_ci'' '''' 65001 ''UTF-8'' 1 3 (Some mysql_mbcharlen_utf8mb3) (Some check_mb_utf8mb3_valid),
    cset 203 1 ''utf8'' ''utf8_danish_ci'' '''' 65001 ''UTF-8'' 1 3 (Some mysql_mbcharlen_utf8mb3) (Some check_mb_utf8mb3_valid),
    cset 204 1 ''utf8'' ''utf8_lithunian_ci'' '''' 65001 ''UTF-8'' 1 3 (Some mysql_mbcharlen_utf8mb3) (Some check_mb_utf8mb3_valid),
    cset 205 1 ''utf8'' ''utf8_slovak_ci'' '''' 65001 ''UTF-8'' 1 3 (Some mysql_mbcharlen_utf8mb3) (Some check_mb_utf8mb3_valid),
    cset 206 1 ''utf8'' ''utf8_spanish2_ci'' '''' 65001 ''UTF-8'' 1 3 (Some mysql_mbcharlen_utf8mb3) (Some check_mb_utf8mb3_valid),
    cset 207 1 ''utf8'' ''utf8_roman_ci'' '''' 65001 ''UTF-8'' 1 3 (Some mysql_mbcharlen_utf8mb3) (Some check_mb_utf8mb3_valid),
    cset 208 1 ''utf8'' ''utf8_persian_ci'' '''' 65001 ''UTF-8'' 1 3 (Some mysql_mbcharlen_utf8mb3) (Some check_mb_utf8mb3_valid),
    cset 209 1 ''utf8'' ''utf8_esperanto_ci'' '''' 65001 ''UTF-8'' 1 3 (Some mysql_mbcharlen_utf8mb3) (Some check_mb_utf8mb3_valid),
    cset 210 1 ''utf8'' ''utf8_hungarian_ci'' '''' 65001 ''UTF-8'' 1 3 (Some mysql_mbcharlen_utf8mb3) (Some check_mb_utf8mb3_valid),
    cset 211 1 ''utf8'' ''utf8_sinhala_ci'' '''' 65001 ''UTF-8'' 1 3 (Some mysql_mbcharlen_utf8mb3) (Some check_mb_utf8mb3_valid),
    cset 212 1 ''utf8'' ''utf8_german_ci'' '''' 65001 ''UTF-8'' 1 3 (Some mysql_mbcharlen_utf8mb3) (Some check_mb_utf8mb3_valid),
    cset 214 1 ''utf8'' ''utf8_unicode_520_ci'' '''' 65001 ''UTF-8'' 1 3 (Some mysql_mbcharlen_utf8mb3) (Some check_mb_utf8mb3_valid),
    cset 215 1 ''utf8'' ''utf8_vietnamese_ci'' '''' 65001 ''UTF-8'' 1 3 (Some mysql_mbcharlen_utf8mb3) (Some check_mb_utf8mb3_valid),
    cset 213 1 ''utf8'' ''utf8_croatian_ci'' '''' 65001 ''UTF-8'' 1 3 (Some mysql_mbcharlen_utf8mb3) (Some check_mb_utf8mb3_valid),
    cset 223 1 ''utf8'' ''utf8_general_mysql500_ci'' '''' 65001 ''UTF-8'' 1 3 (Some mysql_mbcharlen_utf8mb3) (Some check_mb_utf8mb3_valid),
    cset 224 1 ''utf8mb4'' ''utf8mb4_unicode_ci'' '''' 65001 ''UTF-8'' 1 4 (Some mysql_mbcharlen_utf8) (Some check_mb_utf8_valid),
    cset 225 1 ''utf8mb4'' ''utf8mb4_icelandic_ci'' '''' 65001 ''UTF-8'' 1 4 (Some mysql_mbcharlen_utf8) (Some check_mb_utf8_valid),
    cset 226 1 ''utf8mb4'' ''utf8mb4_latvian_ci'' '''' 65001 ''UTF-8'' 1 4 (Some mysql_mbcharlen_utf8) (Some check_mb_utf8_valid),
    cset 227 1 ''utf8mb4'' ''utf8mb4_romanian_ci'' '''' 65001 ''UTF-8'' 1 4 (Some mysql_mbcharlen_utf8) (Some check_mb_utf8_valid),
    cset 228 1 ''utf8mb4'' ''utf8mb4_slovenian_ci'' '''' 65001 ''UTF-8'' 1 4 (Some mysql_mbcharlen_utf8) (Some check_mb_utf8_valid),
    cset 229 1 ''utf8mb4'' ''utf8mb4_polish_ci'' '''' 65001 ''UTF-8'' 1 4 (Some mysql_mbcharlen_utf8) (Some check_mb_utf8_valid),
    cset 230 1 ''utf8mb4'' ''utf8mb4_estonian_ci'' '''' 65001 ''UTF-8'' 1 4 (Some mysql_mbcharlen_utf8) (Some check_mb_utf8_valid),
    cset 231 1 ''utf8mb4'' ''utf8mb4_spanish_ci'' '''' 65001 ''UTF-8'' 1 4 (Some mysql_mbcharlen_utf8) (Some check_mb_utf8_valid),
    cset 232 1 ''utf8mb4'' ''utf8mb4_swedish_ci'' '''' 65001 ''UTF-8'' 1 4 (Some mysql_mbcharlen_utf8) (Some check_mb_utf8_valid),
    cset 233 1 ''utf8mb4'' ''utf8mb4_turkish_ci'' '''' 65001 ''UTF-8'' 1 4 (Some mysql_mbcharlen_utf8) (Some check_mb_utf8_valid),
    cset 234 1 ''utf8mb4'' ''utf8mb4_czech_ci'' '''' 65001 ''UTF-8'' 1 4 (Some mysql_mbcharlen_utf8) (Some check_mb_utf8_valid),
    cset 235 1 ''utf8mb4'' ''utf8mb4_danish_ci'' '''' 65001 ''UTF-8'' 1 4 (Some mysql_mbcharlen_utf8) (Some check_mb_utf8_valid),
    cset 236 1 ''utf8mb4'' ''utf8mb4_lithuanian_ci'' '''' 65001 ''UTF-8'' 1 4 (Some mysql_mbcharlen_utf8) (Some check_mb_utf8_valid),
    cset 237 1 ''utf8mb4'' ''utf8mb4_slovak_ci'' '''' 65001 ''UTF-8'' 1 4 (Some mysql_mbcharlen_utf8) (Some check_mb_utf8_valid),
    cset 238 1 ''utf8mb4'' ''utf8mb4_spanish2_ci'' '''' 65001 ''UTF-8'' 1 4 (Some mysql_mbcharlen_utf8) (Some check_mb_utf8_valid),
    cset 239 1 ''utf8mb4'' ''utf8mb4_roman_ci'' '''' 65001 ''UTF-8'' 1 4 (Some mysql_mbcharlen_utf8) (Some check_mb_utf8_valid),
    cset 240 1 ''utf8mb4'' ''utf8mb4_persian_ci'' '''' 65001 ''UTF-8'' 1 4 (Some mysql_mbcharlen_utf8) (Some check_mb_utf8_valid),
    cset 241 1 ''utf8mb4'' ''utf8mb4_esperanto_ci'' '''' 65001 ''UTF-8'' 1 4 (Some mysql_mbcharlen_utf8) (Some check_mb_utf8_valid),
    cset 242 1 ''utf8mb4'' ''utf8mb4_hungarian_ci'' '''' 65001 ''UTF-8'' 1 4 (Some mysql_mbcharlen_utf8) (Some check_mb_utf8_valid),
    cset 243 1 ''utf8mb4'' ''utf8mb4_sinhala_ci'' '''' 65001 ''UTF-8'' 1 4 (Some mysql_mbcharlen_utf8) (Some check_mb_utf8_valid),
    cset 244 1 ''utf8mb4'' ''utf8mb4_german2_ci'' '''' 65001 ''UTF-8'' 1 4 (Some mysql_mbcharlen_utf8) (Some check_mb_utf8_valid)]"

definition charsets_c :: "charset_info list" where
  "charsets_c = [
    cset 245 1 ''utf8mb4'' ''utf8mb4_croatian_mysql561_ci'' '''' 65001 ''UTF-8'' 1 4 (Some mysql_mbcharlen_utf8) (Some check_mb_utf8_valid),
    cset 246 1 ''utf8mb4'' ''utf8mb4_unicode_520_ci'' '''' 65001 ''UTF-8'' 1 4 (Some mysql_mbcharlen_utf8) (Some check_mb_utf8_valid),
    cset 247 1 ''utf8mb4'' ''utf8mb4_vietnamese_ci'' '''' 65001 ''UTF-8'' 1 4 (Some mysql_mbcharlen_utf8) (Some check_mb_utf8_valid),
    cset 254 1 ''utf8'' ''utf8_general_cs'' '''' 65001 ''UTF-8'' 1 3 (Some mysql_mbcharlen_utf8) (Some check_mb_utf8_valid),
    cset 576 1 ''utf8'' ''utf8_croatian_ci'' '''' 65001 ''UTF-8'' 1 3 (Some mysql_mbcharlen_utf8mb3) (Some check_mb_utf8mb3_valid),
    cset 577 1 ''utf8'' ''utf8_myanmar_ci'' '''' 65001 ''UTF-8'' 1 3 (Some mysql_mbcharlen_utf8mb3) (Some check_mb_utf8mb3_valid),
    cset 578 1 ''utf8'' ''utf8_thai_520_w2'' '''' 65001 ''UTF-8'' 1 3 (Some mysql_mbcharlen_utf8mb3) (Some check_mb_utf8mb3_valid),
    cset 608 1 ''utf8mb4'' ''utf8mb4_croatian_ci'' '''' 65001 ''UTF-8'' 1 4 (Some mysql_mbcharlen_utf8) (Some check_mb_utf8_valid),
    cset 609 1 ''utf8mb4'' ''utf8mb4_myanmar_ci'' '''' 65001 ''UTF-8'' 1 4 (Some mysql_mbcharlen_utf8) (Some check_mb_utf8_valid),
    cset 610 1 ''utf8mb4'' ''utf8mb4_thai_520_w2'' '''' 65001 ''UTF-8'' 1 4 (Some mysql_mbcharlen_utf8) (Some check_mb_utf8_valid),
    cset 640 1 ''ucs2'' ''ucs2_croatian_ci'' '''' 1200 ''UCS2-BE'' 2 2 (Some mysql_mbcharlen_ucs2) (Some check_mb_ucs2),
    cset 641 1 ''ucs2'' ''ucs2_myanmar_ci'' '''' 1200 ''UCS2-BE'' 2 2 (Some mysql_mbcharlen_ucs2) (Some check_mb_ucs2),
    cset 642 1 ''ucs2'' ''ucs2_thai_520_w2'' '''' 1200 ''UCS2-BE'' 2 2 (Some mysql_mbcharlen_ucs2) (Some check_mb_ucs2),
    cset 672 1 ''utf16'' ''utf16_croatian_ci'' '''' 0 ''UTF16'' 2 4 (Some mysql_mbcharlen_utf16) (Some check_mb_utf16),
    cset 673 1 ''utf16'' ''utf16_myanmar_ci'' '''' 0 ''UTF16'' 2 4 (Some mysql_mbcharlen_utf16) (Some check_mb_utf16),
    cset 674 1 ''utf16'' ''utf16_thai_520_w2'' '''' 0 ''UTF16'' 2 4 (Some mysql_mbcharlen_utf16) (Some check_mb_utf16),
    cset 736 1 ''utf32'' ''utf32_croatian_ci'' '''' 0 ''UTF32'' 4 4 (Some mysql_mbcharlen_utf32) (Some check_mb_utf32),
    cset 737 1 ''utf32'' ''utf32_myanmar_ci'' '''' 0 ''UTF32'' 4 4 (Some mysql_mbcharlen_utf32) (Some check_mb_utf32),
    cset 738 1 ''utf32'' ''utf32_thai_520_w2'' '''' 0 ''UTF32'' 4 4 (Some mysql_mbcharlen_utf32) (Some check_mb_utf32),
    cset 1025 1 ''big5'' ''big5_chinese_nopad_ci'' '''' 950 ''BIG5'' 1 2 (Some mysql_mbcharlen_big5) (Some check_mb_big5),
    cset 1027 1 ''dec8'' ''dec8_swedisch_nopad_ci'' '''' 0 ''DEC'' 1 1 None None,
    cset 1028 1 ''cp850'' ''cp850_general_nopad_ci'' '''' 850 ''CP850'' 1 1 None None,
    cset 1030 1 ''hp8'' ''hp8_english_nopad_ci'' '''' 0 ''HP-ROMAN8'' 1 1 None None,
    cset 1031 1 ''koi8r'' ''koi8r_general_nopad_ci'' '''' 878 ''KOI8R'' 1 1 None None,
    cset 1032 1 ''latin1'' ''latin1_swedish_nopad_ci'' '''' 850 ''LATIN1'' 1 1 None None,
    cset 1033 1 ''latin2'' ''latin2_general_nopad_ci'' '''' 852 ''LATIN2'' 1 1 None None,
    cset 1034 1 ''swe7'' ''swe7_swedish_nopad_ci'' '''' 20107 '''' 1 1 None None,
    cset 1035 1 ''ascii'' ''ascii_general_nopad_ci'' '''' 1252 ''ASCII'' 1 1 None None,
    cset 1036 1 ''ujis'' ''ujis_japanese_nopad_ci'' '''' 20932 ''UJIS'' 1 3 (Some mysql_mbcharlen_ujis) (Some check_mb_ujis),
    cset 1037 1 ''sjis'' ''sjis_japanese_nopad_ci'' '''' 932 ''SJIS'' 1 2 (Some mysql_mbcharlen_sjis) (Some check_mb_sjis),
    cset 1040 1 ''hebrew'' ''hebrew_general_nopad_ci'' '''' 1255 ''HEBREW'' 1 1 None None,
    cset 1042 1 ''tis620'' ''tis620_thai_nopad_ci'' '''' 874 ''TIS620'' 1 1 None None,
    cset 1043 1 ''euckr'' ''euckr_korean_nopad_ci'' '''' 51949 ''EUCKR'' 1 2 (Some mysql_mbcharlen_euckr) (Some check_mb_euckr),
    cset 1046 1 ''koi8u'' ''koi8u_general_nopad_ci'' '''' 20866 ''KOI8U'' 1 1 None None,
    cset 1048 1 ''gb2312'' ''gb2312_chinese_nopad_ci'' '''' 936 ''GB2312'' 1 2 (Some mysql_mbcharlen_gb2312) (Some check_mb_gb2312),
    cset 1049 1 ''greek'' ''greek_general_nopad_ci'' '''' 28597 ''GREEK'' 1 1 None None,
    cset 1050 1 ''cp1250'' ''cp1250_general_nopad_ci'' '''' 1250 ''CP1250'' 1 1 None None,
    cset 1052 1 ''gbk'' ''gbk_chinese_nopad_ci'' '''' 936 ''GBK'' 1 2 (Some mysql_mbcharlen_gbk) (Some check_mb_gbk),
    cset 1054 1 ''latin5'' ''latin5_turkish_nopad_ci'' '''' 1254 ''LATIN5'' 1 1 None None,
    cset 1056 1 ''armscii8'' ''armscii8_general_nopad_ci'' '''' 0 ''ARMSCII-8'' 1 1 None None,
    cset 1057 1 ''utf8'' ''utf8_general_nopad_ci'' '''' 65001 ''UTF-8'' 1 3 (Some mysql_mbcharlen_utf8mb3) (Some check_mb_utf8mb3_valid),
    cset 1059 1 ''ucs2'' ''ucs2_general_nopad_ci'' '''' 1200 ''UCS-2BE'' 2 2 (Some mysql_mbcharlen_ucs2) (Some check_mb_ucs2),
    cset 1060 1 ''cp866'' ''cp866_general_nopad_ci'' '''' 866 ''CP866'' 1 1 None None,
    cset 1061 1 ''keybcs2'' ''keybcs2_general_nopad_ci'' '''' 0 '''' 1 1 None None,
    cset 1062 1 ''macce'' ''macce_general_nopad_ci'' '''' 10029 ''CP1282'' 1 1 None None,
    cset 1063 1 ''macroman'' ''macroman_general_nopad_ci'' '''' 10000 ''MACINTOSH'' 1 1 None None,
    cset 1064 1 ''cp852'' ''cp852_general_nopad_ci'' '''' 852 ''CP852'' 1 1 None None,
    cset 1065 1 ''latin7'' ''latin7_general_nopad_ci'' '''' 28603 ''LATIN7'' 1 1 None None,
    cset 1067 1 ''macce'' ''macce_nopad_bin'' '''' 10029 ''CP1282'' 1 1 None None,
    cset 1069 1 ''utf8mb4'' ''utf8mb4_general_nopad_ci'' '''' 65001 ''UTF-8'' 1 4 (Some mysql_mbcharlen_utf8) (Some check_mb_utf8_valid),
    cset 1070 1 ''utf8mb4'' ''utf8mb4_general_nopad_bin'' '''' 65001 ''UTF-8'' 1 4 (Some mysql_mbcharlen_utf8) (Some check_mb_utf8_valid),
    cset 1071 1 ''latin1'' ''latin1_nopad_bin'' '''' 850 ''LATIN1'' 1 1 None None,
    cset 1074 1 ''cp1251'' ''cp1251_nopad_bin'' '''' 1251 ''CP1251'' 1 1 None None,
    cset 1075 1 ''cp1251'' ''cp1251_general_nopad_ci'' '''' 1251 ''CP1251'' 1 1 None None,
    cset 1077 1 ''macroman'' ''macroman_nopad_bin'' '''' 10000 ''MACINTOSH'' 1 1 None None,
    cset 1078 1 ''utf16'' ''utf16_general_nopad_ci'' '''' 0 ''UTF16'' 2 4 (Some mysql_mbcharlen_utf16) (Some check_mb_utf16),
    cset 1079 1 ''utf16'' ''utf16_nopad_bin'' '''' 0 ''UTF16'' 2 4 (Some mysql_mbcharlen_utf16) (Some check_mb_utf16),
    cset 1080 1 ''utf16le'' ''utf16le_general_nopad_ci'' '''' 1200 ''UTF16LE'' 2 4 (Some mysql_mbcharlen_utf16) (Some check_mb_utf16),
    cset 1081 1 ''cp1256'' ''cp1256_general_nopad_ci'' '''' 1256 ''CP1256'' 1 1 None None,
    cset 1082 1 ''cp1257'' ''cp1257_nopad_bin'' '''' 1257 ''CP1257'' 1 1 None None,
    cset 1083 1 ''cp1257'' ''cp1257_general_nopad_ci'' '''' 1257 ''CP1257'' 1 1 None None,
    cset 1084 1 ''utf32'' ''utf32_general_nopad_ci'' '''' 0 ''UTF32'' 4 4 (Some mysql_mbcharlen_utf32) (Some check_mb_utf32),
    cset 1085 1 ''utf32'' ''utf32_nopad_bin'' '''' 0 ''UTF32'' 4 4 (Some mysql_mbcharlen_utf32) (Some check_mb_utf32),
    cset 1086 1 ''utf16le'' ''utf16le_nopad_bin'' '''' 1200 ''UTF16LE'' 2 4 (Some mysql_mbcharlen_utf16) (Some check_mb_utf16),
    cset 1088 1 ''armscii8'' ''armscii8_nopad_bin'' '''' 0 ''ARMSCII-8'' 1 1 None None,
    cset 1089 1 ''ascii'' ''ascii_nopad_bin'' '''' 1252 ''ASCII'' 1 1 None None,
    cset 1090 1 ''cp1250'' ''cp1250_nopad_bin'' '''' 1250 ''CP1250'' 1 1 None None,
    cset 1091 1 ''cp1256'' ''cp1256_nopad_bin'' '''' 1256 ''CP1256'' 1 1 None None,
    cset 1092 1 ''cp866'' ''cp866_nopad_bin'' '''' 866 ''CP866'' 1 1 None None,
    cset 1093 1 ''dec8'' ''dec8_nopad_bin'' '''' 0 ''DEC'' 1 1 None None,
    cset 1094 1 ''greek'' ''greek_nopad_bin'' '''' 28597 ''GREEK'' 1 1 None None,
    cset 1095 1 ''hebrew'' ''hebrew_nopad_bin'' '''' 1255 ''HEBREW'' 1 1 None None,
    cset 1096 1 ''hp8'' ''hp8_nopad_bin'' '''' 0 ''HP-ROMAN8'' 1 1 None None,
    cset 1097 1 ''keybcs2'' ''keybcs2_nopad_bin'' '''' 0 '''' 1 1 None None,
    cset 1098 1 ''koi8r'' ''koi8r_nopad_bin'' '''' 878 ''KOI8R'' 1 1 None None,
    cset 1099 1 ''koi8u'' ''koi8u_nopad_bin'' '''' 20866 ''KOI8U'' 1 1 None None,
    cset 1101 1 ''latin2'' ''latin2_nopad_bin'' '''' 852 ''LATIN2'' 1 1 None None,
    cset 1102 1 ''latin5'' ''latin5_nopad_bin'' '''' 1254 ''LATIN5'' 1 1 None None,
    cset 1103 1 ''latin7'' ''latin7_nopad_bin'' '''' 28603 ''LATIN7'' 1 1 None None,
    cset 1104 1 ''cp850'' ''cp850_nopad_bin'' '''' 850 ''CP850'' 1 1 None None,
    cset 1105 1 ''cp852'' ''cp852_nopad_bin'' '''' 852 ''CP852'' 1 1 None None,
    cset 1106 1 ''swe7'' ''swe7_nopad_bin'' '''' 20107 '''' 1 1 None None,
    cset 1107 1 ''utf8'' ''utf8_nopad_bin'' '''' 65001 ''UTF-8'' 1 3 (Some mysql_mbcharlen_utf8mb3) (Some check_mb_utf8mb3_valid),
    cset 1108 1 ''big5'' ''big5_nopad_bin'' '''' 950 ''BIG5'' 1 2 (Some mysql_mbcharlen_big5) (Some check_mb_big5),
    cset 1109 1 ''euckr'' ''euckr_nopad_bin'' '''' 51949 ''EUCKR'' 1 2 (Some mysql_mbcharlen_euckr) (Some check_mb_euckr),
    cset 1110 1 ''gb2312'' ''gb2312_nopad_bin'' '''' 936 ''GB2312'' 1 2 (Some mysql_mbcharlen_gb2312) (Some check_mb_gb2312),
    cset 1111 1 ''gbk'' ''gbk_nopad_bin'' '''' 936 ''GBK'' 1 2 (Some mysql_mbcharlen_gbk) (Some check_mb_gbk),
    cset 1112 1 ''sjis'' ''sjis_nopad_bin'' '''' 932 ''SJIS'' 1 2 (Some mysql_mbcharlen_sjis) (Some check_mb_sjis),
    cset 1113 1 ''tis620'' ''tis620_nopad_bin'' '''' 874 ''TIS620'' 1 1 None None,
    cset 1114 1 ''ucs2'' ''ucs2_nopad_bin'' '''' 1200 ''UCS-2BE'' 2 2 (Some mysql_mbcharlen_ucs2) (Some check_mb_ucs2),
    cset 1115 1 ''ujis'' ''ujis_nopad_bin'' '''' 20932 ''UJIS'' 1 3 (Some mysql_mbcharlen_ujis) (Some check_mb_ujis),
    cset 1116 1 ''geostd8'' ''geostd8_general_nopad_ci'' '''' 0 ''GEORGIAN-PS'' 1 1 None None,
    cset 1117 1 ''geostd8'' ''geostd8_nopad_bin'' '''' 0 ''GEORGIAN-PS'' 1 1 None None,
    cset 1119 1 ''cp932'' ''cp932_japanese_nopad_ci'' '''' 932 ''CP932'' 1 2 (Some mysql_mbcharlen_cp932) (Some check_mb_cp932),
    cset 1120 1 ''cp932'' ''cp932_nopad_bin'' '''' 932 ''CP932'' 1 2 (Some mysql_mbcharlen_cp932) (Some check_mb_cp932),
    cset 1121 1 ''eucjpms'' ''eucjpms_japanese_nopad_ci'' '''' 932 ''EUCJP-MS'' 1 3 (Some mysql_mbcharlen_eucjpms) (Some check_mb_eucjpms),
    cset 1122 1 ''eucjpms'' ''eucjpms_nopad_bin'' '''' 932 ''EUCJP-MS'' 1 3 (Some mysql_mbcharlen_eucjpms) (Some check_mb_eucjpms),
    cset 1125 1 ''utf16'' ''utf16_unicode_nopad_ci'' '''' 1200 ''UTF16'' 2 4 (Some mysql_mbcharlen_utf16) (Some check_mb_utf16),
    cset 1147 1 ''utf16'' ''utf16_unicode_520_nopad_ci'' '''' 1200 ''UTF16'' 2 4 (Some mysql_mbcharlen_utf16) (Some check_mb_utf16),
    cset 1152 1 ''ucs2'' ''ucs2_unicode_nopad_ci'' '''' 1200 ''UCS-2BE'' 2 2 (Some mysql_mbcharlen_ucs2) (Some check_mb_ucs2),
    cset 1174 1 ''ucs2'' ''ucs2_unicode_520_nopad_ci'' '''' 1200 ''UCS-2BE'' 2 2 (Some mysql_mbcharlen_ucs2) (Some check_mb_ucs2),
    cset 1184 1 ''utf32'' ''utf32_unicode_nopad_ci'' '''' 0 ''UTF32'' 4 4 (Some mysql_mbcharlen_utf32) (Some check_mb_utf32),
    cset 1206 1 ''utf32'' ''utf32_unicode_520_nopad_ci'' '''' 0 ''UTF32'' 4 4 (Some mysql_mbcharlen_utf32) (Some check_mb_utf32),
    cset 1216 1 ''utf8'' ''utf8_unicode_nopad_ci'' '''' 65001 ''UTF-8'' 1 3 (Some mysql_mbcharlen_utf8mb3) (Some check_mb_utf8mb3_valid),
    cset 1238 1 ''utf8'' ''utf8_unicode_520_nopad_ci'' '''' 65001 ''UTF-8'' 1 3 (Some mysql_mbcharlen_utf8mb3) (Some check_mb_utf8mb3_valid),
    cset 1248 1 ''utf8mb4'' ''utf8mb4_unicode_nopad_ci'' '''' 65001 ''UTF-8'' 1 4 (Some mysql_mbcharlen_utf8) (Some check_mb_utf8_valid),
    cset 1270 1 ''utf8mb4'' ''utf8mb4_unicode_520_nopad_ci'' '''' 65001 ''UTF-8'' 1 4 (Some mysql_mbcharlen_utf8) (Some check_mb_utf8_valid)]"

text \<open>
  The C table ends with a row whose \<open>nr\<close> is 0; the searches stop there. The model is the
  list of the rows before it.
\<close>

definition mariadb_compiled_charsets :: "charset_info list" where
  "mariadb_compiled_charsets = charsets_a @ charsets_b @ charsets_c"

fun find_charset :: "(charset_info \<Rightarrow> bool) \<Rightarrow> charset_info list \<Rightarrow> charset_info option" where
  "find_charset P [] = None"
| "find_charset P (c # cs) = (if P c then Some c else find_charset P cs)"

definition mysql_find_charset_nr :: "nat \<Rightarrow> charset_info option" where
  "mysql_find_charset_nr charsetnr =
     find_charset (\<lambda>c. cs_nr c = charsetnr) mariadb_compiled_charsets"

definition mariadb_get_charset_by_nr :: "nat \<Rightarrow> charset_info option" where
  "mariadb_get_charset_by_nr csnr = mysql_find_charset_nr csnr"

text \<open>\<open>strcasecmp\<close> on ASCII letters; the OS character set is a parameter.\<close>

definition tolower :: "char \<Rightarrow> char" where
  "tolower c = (let n = of_char c :: nat in if 65 \<le> n \<and> n \<le> 90 then char_of (n + 32) else c)"

definition strcaseeq :: "string \<Rightarrow> string \<Rightarrow> bool" where
  "strcaseeq a b \<longleftrightarrow> map tolower a = map tolower b"

definition mysql_find_charset_name :: "string \<Rightarrow> string \<Rightarrow> charset_info option" where
  "mysql_find_charset_name os_charset name =
     (let csname = (if strcaseeq name ''auto'' then os_charset else name)
      in find_charset (\<lambda>c. strcaseeq (cs_csname c) csname) mariadb_compiled_charsets)"

section \<open>Escaping\<close>

text \<open>
  \<open>newstr\<close> is the list of the bytes written so far; \<open>newstr_e\<close> is
  \<open>newstr + 2 * escapestr_len\<close>. A loop returns the overflow flag and the output. The
  functions return the value of \<open>newstr - newstr_s\<close>, or \<open>(size_t) ~0\<close> on overflow,
  with the bytes written, the terminating zero included.
\<close>

definition mb_valid_call :: "charset_info \<Rightarrow> mb_check" where
  "mb_valid_call cs buf i e =
     (if 1 < char_maxlen cs
      then (case mb_valid cs of None \<Rightarrow> UB | Some f \<Rightarrow> f buf i e) else Ok 0)"

definition mb_charlen_call :: "charset_info \<Rightarrow> u8 \<Rightarrow> (unit, nat) res" where
  "mb_charlen_call cs b =
     (if 1 < char_maxlen cs
      then (case mb_charlen cs of None \<Rightarrow> UB | Some f \<Rightarrow> Ok (f (char_uint b))) else Ok 0)"

function escape_quotes_loop ::
  "charset_info \<Rightarrow> bytes \<Rightarrow> nat \<Rightarrow> nat \<Rightarrow> bytes \<Rightarrow> (unit, bool \<times> bytes) res" where
  "escape_quotes_loop cs buf e i out =
     (if i < e then rbind (mb_valid_call cs buf i e) (\<lambda>len.
        if 0 < len then
          (if 2 * e < length out + len then Ok (True, out)
           else rbind (load_bytes buf i len)
                  (\<lambda>mb. escape_quotes_loop cs buf e (i + len) (out @ mb)))
        else rbind (load1 buf i) (\<lambda>b.
          if b = 0x27 then
            (if 2 * e < length out + 2 then Ok (True, out)
             else escape_quotes_loop cs buf e (i + 1) (out @ [0x27, 0x27]))
          else
            (if 2 * e < length out + 1 then Ok (True, out)
             else escape_quotes_loop cs buf e (i + 1) (out @ [b]))))
      else Ok (False, out))"
  by pat_completeness auto
termination
  by (relation "measure (\<lambda>(cs, buf, e, i, out). e - i)") auto

definition escape_return :: "bool \<times> bytes \<Rightarrow> nat \<times> bytes" where
  "escape_return r = (if fst r then 2 ^ 64 - 1 else length (snd r), snd r @ [0])"

definition mysql_cset_escape_quotes ::
  "charset_info \<Rightarrow> bytes \<Rightarrow> nat \<Rightarrow> (unit, nat \<times> bytes) res" where
  "mysql_cset_escape_quotes cs buf escapestr_len =
     rmap escape_return (escape_quotes_loop cs buf escapestr_len 0 [])"

text \<open>The \<open>switch\<close> of \<open>mysql_cset_escape_slashes\<close>; 0 is "no escape".\<close>

definition slash_esc :: "u8 \<Rightarrow> u8" where
  "slash_esc b =
     (if b = 0 then 0x30 else if b = 0x0A then 0x6E else if b = 0x0D then 0x72
      else if b = 0x5C \<or> b = 0x27 \<or> b = 0x22 then b else if b = 0x1A then 0x5A else 0)"

function escape_slashes_loop ::
  "charset_info \<Rightarrow> bytes \<Rightarrow> nat \<Rightarrow> nat \<Rightarrow> bytes \<Rightarrow> (unit, bool \<times> bytes) res" where
  "escape_slashes_loop cs buf e i out =
     (if i < e then rbind (mb_valid_call cs buf i e) (\<lambda>len.
        if 0 < len then
          (if 2 * e < length out + len then Ok (True, out)
           else rbind (load_bytes buf i len)
                  (\<lambda>mb. escape_slashes_loop cs buf e (i + len) (out @ mb)))
        else rbind (load1 buf i) (\<lambda>b. rbind (mb_charlen_call cs b) (\<lambda>cl.
          let esc = (if 1 < cl then b else slash_esc b) in
          if esc \<noteq> 0 then
            (if 2 * e < length out + 2 then Ok (True, out)
             else escape_slashes_loop cs buf e (i + 1) (out @ [0x5C, esc]))
          else
            (if 2 * e < length out + 1 then Ok (True, out)
             else escape_slashes_loop cs buf e (i + 1) (out @ [b])))))
      else Ok (False, out))"
  by pat_completeness auto
termination
  by (relation "measure (\<lambda>(cs, buf, e, i, out). e - i)") auto

definition mysql_cset_escape_slashes ::
  "charset_info \<Rightarrow> bytes \<Rightarrow> nat \<Rightarrow> (unit, nat \<times> bytes) res" where
  "mysql_cset_escape_slashes cs buf escapestr_len =
     rmap escape_return (escape_slashes_loop cs buf escapestr_len 0 [])"

declare escape_quotes_loop.simps [simp del] escape_slashes_loop.simps [simp del]

section \<open>What escaping means\<close>

text \<open>
  The bytewise specification: each special byte becomes a backslash pair, every other byte
  stays. \<open>unescape\<close> is the reading of a literal: a backslash pair stands for one byte,
  and an unescaped quote would end the literal (\<open>None\<close>).
\<close>

definition esc_byte :: "u8 \<Rightarrow> bytes" where
  "esc_byte b = (if slash_esc b = 0 then [b] else [0x5C, slash_esc b])"

definition unesc :: "u8 \<Rightarrow> u8" where
  "unesc b = (if b = 0x30 then 0 else if b = 0x6E then 0x0A else if b = 0x72 then 0x0D
      else if b = 0x5A then 0x1A else b)"

fun unescape :: "bytes \<Rightarrow> bytes option" where
  "unescape [] = Some []"
| "unescape [b] = (if b = 0x5C \<or> b = 0x27 \<or> b = 0x22 then None else Some [b])"
| "unescape (b # c # bs) =
     (if b = 0x5C then map_option (Cons (unesc c)) (unescape bs)
      else if b = 0x27 \<or> b = 0x22 then None
      else map_option (Cons b) (unescape (c # bs)))"

lemma unescape_Cons_plain:
  "b \<noteq> 0x5C \<Longrightarrow> b \<noteq> 0x27 \<Longrightarrow> b \<noteq> 0x22 \<Longrightarrow>
   unescape (b # bs) = map_option (Cons b) (unescape bs)"
  by (cases bs) auto

lemma unescape_esc_byte: "unescape (esc_byte b @ bs) = map_option (Cons b) (unescape bs)"
proof (cases "slash_esc b = 0")
  case True
  then have "b \<noteq> 0x5C" "b \<noteq> 0x27" "b \<noteq> 0x22"
    by (auto simp: slash_esc_def split: if_splits)
  with True show ?thesis by (simp add: esc_byte_def unescape_Cons_plain)
next
  case False
  then have "unesc (slash_esc b) = b"
    by (auto simp: slash_esc_def unesc_def split: if_splits)
  with False show ?thesis by (simp add: esc_byte_def)
qed

lemma unescape_esc_bytes: "unescape (concat (map esc_byte bs)) = Some bs"
  by (induction bs) (auto simp: unescape_esc_byte)

lemma length_esc_bytes: "length (concat (map esc_byte bs)) \<le> 2 * length bs"
  by (induction bs) (auto simp: esc_byte_def)

text \<open>
  The same for \<open>mysql_cset_escape_quotes\<close>, used when the server runs with
  \<open>NO_BACKSLASH_ESCAPES\<close>: a quote is doubled and nothing else is special.
\<close>

definition quote_byte :: "u8 \<Rightarrow> bytes" where
  "quote_byte b = (if b = 0x27 then [0x27, 0x27] else [b])"

fun unquote :: "bytes \<Rightarrow> bytes option" where
  "unquote [] = Some []"
| "unquote [b] = (if b = 0x27 then None else Some [b])"
| "unquote (b # c # bs) =
     (if b = 0x27 then (if c = 0x27 then map_option (Cons 0x27) (unquote bs) else None)
      else map_option (Cons b) (unquote (c # bs)))"

lemma unquote_quote_byte: "unquote (quote_byte b @ bs) = map_option (Cons b) (unquote bs)"
  by (cases bs) (auto simp: quote_byte_def)

lemma unquote_quote_bytes: "unquote (concat (map quote_byte bs)) = Some bs"
  by (induction bs) (auto simp: unquote_quote_byte)

lemma length_quote_bytes: "length (concat (map quote_byte bs)) \<le> 2 * length bs"
  by (induction bs) (auto simp: quote_byte_def)

text \<open>
  A character set is \<^emph>\<open>ASCII transparent\<close> when the bytes of a recognised multi-byte
  character are not special and a byte that starts none is escaped by the \<open>switch\<close> alone.
\<close>

locale ascii_transparent =
  fixes cs :: charset_info
  assumes valid_in_range:
      "i < e \<Longrightarrow> e \<le> length buf \<Longrightarrow>
       \<exists>len. mb_valid_call cs buf i e = Ok len \<and> i + len \<le> e \<and>
             (\<forall>k. i \<le> k \<and> k < i + len \<longrightarrow> slash_esc (buf ! k) = 0)"
    and charlen_small: "\<exists>cl. mb_charlen_call cs b = Ok cl \<and> cl \<le> 1"
begin

lemma map_plain:
  "(\<And>b. b \<in> set bs \<Longrightarrow> slash_esc b = 0) \<Longrightarrow> concat (map esc_byte bs) = bs"
  by (induction bs) (auto simp: esc_byte_def)

lemma escape_slashes_loop_bytes:
  "i \<le> length buf \<Longrightarrow> length out \<le> 2 * i \<Longrightarrow>
   escape_slashes_loop cs buf (length buf) i out =
     Ok (False, out @ concat (map esc_byte (drop i buf)))"
proof (induction "length buf - i" arbitrary: i out rule: less_induct)
  case less
  let ?e = "length buf"
  show ?case
  proof (cases "i < ?e")
    case False
    with less.prems show ?thesis by (simp add: escape_slashes_loop.simps)
  next
    case True
    obtain len where len: "mb_valid_call cs buf i ?e = Ok len" "i + len \<le> ?e"
      "\<And>k. i \<le> k \<Longrightarrow> k < i + len \<Longrightarrow> slash_esc (buf ! k) = 0"
      using valid_in_range [OF True order_refl] by auto
    show ?thesis
    proof (cases "0 < len")
      case True
      let ?mb = "take len (drop i buf)"
      have "slash_esc b = 0" if "b \<in> set ?mb" for b
        using that len(2,3) by (auto simp: in_set_conv_nth)
      then have mb: "concat (map esc_byte ?mb) = ?mb" by (rule map_plain)
      have split: "drop i buf = ?mb @ drop (i + len) buf"
        by (metis add.commute append_take_drop_id drop_drop)
      have "escape_slashes_loop cs buf ?e (i + len) (out @ ?mb) =
          Ok (False, (out @ ?mb) @ concat (map esc_byte (drop (i + len) buf)))"
        using True len(2) less.prems by (intro less.hyps) auto
      then show ?thesis
        using True \<open>i < ?e\<close> len less.prems mb
        by (subst escape_slashes_loop.simps, subst split) (simp add: mem_simps)
    next
      case False
      obtain cl where cl: "mb_charlen_call cs (buf ! i) = Ok cl" "\<not> 1 < cl"
        using charlen_small [of "buf ! i"] by auto
      have IH: "length out' \<le> 2 * (i + 1) \<Longrightarrow>
          escape_slashes_loop cs buf ?e (Suc i) out' =
            Ok (False, out' @ concat (map esc_byte (drop (Suc i) buf)))" for out'
        using True by (intro less.hyps) auto
      have split: "drop i buf = buf ! i # drop (i + 1) buf"
        using True by (simp add: Cons_nth_drop_Suc)
      show ?thesis
        using True False len cl less.prems
        by (subst escape_slashes_loop.simps, subst split)
          (simp add: mem_simps IH esc_byte_def Let_def)
    qed
  qed
qed

lemma escape_slashes_bytes:
  "mysql_cset_escape_slashes cs buf (length buf) =
     Ok (length (concat (map esc_byte buf)), concat (map esc_byte buf) @ [0])"
  using escape_slashes_loop_bytes [of 0 buf "[]"]
  by (simp add: mysql_cset_escape_slashes_def escape_return_def)

lemma quote_plain:
  "(\<And>b. b \<in> set bs \<Longrightarrow> slash_esc b = 0) \<Longrightarrow> concat (map quote_byte bs) = bs"
proof (induction bs)
  case (Cons b bs)
  have "slash_esc 0x27 \<noteq> 0" by (simp add: slash_esc_def)
  with Cons.prems [of b] have "b \<noteq> 0x27" by auto
  with Cons show ?case by (simp add: quote_byte_def)
qed simp

lemma escape_quotes_loop_bytes:
  "i \<le> length buf \<Longrightarrow> length out \<le> 2 * i \<Longrightarrow>
   escape_quotes_loop cs buf (length buf) i out =
     Ok (False, out @ concat (map quote_byte (drop i buf)))"
proof (induction "length buf - i" arbitrary: i out rule: less_induct)
  case less
  let ?e = "length buf"
  show ?case
  proof (cases "i < ?e")
    case False
    with less.prems show ?thesis by (simp add: escape_quotes_loop.simps)
  next
    case True
    obtain len where len: "mb_valid_call cs buf i ?e = Ok len" "i + len \<le> ?e"
      "\<And>k. i \<le> k \<Longrightarrow> k < i + len \<Longrightarrow> slash_esc (buf ! k) = 0"
      using valid_in_range [OF True order_refl] by auto
    show ?thesis
    proof (cases "0 < len")
      case True
      let ?mb = "take len (drop i buf)"
      have "slash_esc b = 0" if "b \<in> set ?mb" for b
        using that len(2,3) by (auto simp: in_set_conv_nth)
      then have mb: "concat (map quote_byte ?mb) = ?mb" by (rule quote_plain)
      have split: "drop i buf = ?mb @ drop (i + len) buf"
        by (metis add.commute append_take_drop_id drop_drop)
      have "escape_quotes_loop cs buf ?e (i + len) (out @ ?mb) =
          Ok (False, (out @ ?mb) @ concat (map quote_byte (drop (i + len) buf)))"
        using True len(2) less.prems by (intro less.hyps) auto
      then show ?thesis
        using True \<open>i < ?e\<close> len less.prems mb
        by (subst escape_quotes_loop.simps, subst split) (simp add: mem_simps)
    next
      case False
      have IH: "length out' \<le> 2 * (i + 1) \<Longrightarrow>
          escape_quotes_loop cs buf ?e (Suc i) out' =
            Ok (False, out' @ concat (map quote_byte (drop (Suc i) buf)))" for out'
        using True by (intro less.hyps) auto
      have split: "drop i buf = buf ! i # drop (i + 1) buf"
        using True by (simp add: Cons_nth_drop_Suc)
      show ?thesis
        using True False len less.prems
        by (subst escape_quotes_loop.simps, subst split)
          (simp add: mem_simps IH quote_byte_def)
    qed
  qed
qed

lemma escape_quotes_bytes:
  "mysql_cset_escape_quotes cs buf (length buf) =
     Ok (length (concat (map quote_byte buf)), concat (map quote_byte buf) @ [0])"
  using escape_quotes_loop_bytes [of 0 buf "[]"]
  by (simp add: mysql_cset_escape_quotes_def escape_return_def)

end

section \<open>The transparent character sets\<close>

text \<open>\<^verbatim>\<open>mariadb_charset.c\<close>, lines 25--28: named rows of the table.\<close>

definition ma_default_charset_info :: charset_info where
  "ma_default_charset_info = mariadb_compiled_charsets ! 5"

definition ma_charset_bin :: charset_info where
  "ma_charset_bin = mariadb_compiled_charsets ! 32"

definition ma_charset_utf8_general_ci :: charset_info where
  "ma_charset_utf8_general_ci = mariadb_compiled_charsets ! 21"

definition transparent_row :: "charset_info \<Rightarrow> bool" where
  "transparent_row cs \<longleftrightarrow> char_maxlen cs \<le> 1 \<or>
     (mb_valid cs = Some check_mb_utf8mb3_valid \<and> mb_charlen cs = Some mysql_mbcharlen_utf8mb3) \<or>
     (mb_valid cs = Some check_mb_utf8_valid \<and> mb_charlen cs = Some mysql_mbcharlen_utf8)"

lemma utf8_tail_plain: "utf8_tail b \<Longrightarrow> slash_esc b = 0"
  by (auto simp: utf8_tail_def slash_esc_def split: if_splits)

lemma utf8_head_plain: "\<not> b < 0x80 \<Longrightarrow> slash_esc b = 0"
  by (auto simp: slash_esc_def split: if_splits)

lemma charlen_utf8_small: "mysql_mbcharlen_utf8 (char_uint b) \<le> 1"
proof -
  have "list_all (\<lambda>b. mysql_mbcharlen_utf8 (char_uint b) \<le> 1) (map word_of_nat [0..<256])"
    by code_simp
  then show ?thesis by (rule all_u8)
qed

lemma charlen_utf8mb3_small: "mysql_mbcharlen_utf8mb3 (char_uint b) \<le> 1"
proof -
  have "list_all (\<lambda>b. mysql_mbcharlen_utf8mb3 (char_uint b) \<le> 1) (map word_of_nat [0..<256])"
    by code_simp
  then show ?thesis by (rule all_u8)
qed

lemma all_range:
  "(\<forall>k. i \<le> k \<and> k < i + 0 \<longrightarrow> P k) \<longleftrightarrow> True"
  "(\<forall>k. i \<le> k \<and> k < i + 2 \<longrightarrow> P k) \<longleftrightarrow> P i \<and> P (i + 1)"
  "(\<forall>k. i \<le> k \<and> k < i + 3 \<longrightarrow> P k) \<longleftrightarrow> P i \<and> P (i + 1) \<and> P (i + 2)"
  "(\<forall>k. i \<le> k \<and> k < i + 4 \<longrightarrow> P k) \<longleftrightarrow> P i \<and> P (i + 1) \<and> P (i + 2) \<and> P (i + 3)"
  for i :: nat
proof -
  have r: "(\<forall>k. i \<le> k \<and> k < i + n \<longrightarrow> P k) \<longleftrightarrow> (\<forall>j<n. P (i + j))" for n
    by (metis add_less_cancel_left le_add1 le_iff_add)
  show "(\<forall>k. i \<le> k \<and> k < i + 0 \<longrightarrow> P k) \<longleftrightarrow> True" by auto
  show "(\<forall>k. i \<le> k \<and> k < i + 2 \<longrightarrow> P k) \<longleftrightarrow> P i \<and> P (i + 1)"
    unfolding r by (simp add: numeral_2_eq_2 All_less_Suc conj_commute)
  show "(\<forall>k. i \<le> k \<and> k < i + 3 \<longrightarrow> P k) \<longleftrightarrow> P i \<and> P (i + 1) \<and> P (i + 2)"
    unfolding r by (auto simp: numeral_eq_Suc All_less_Suc)
  show "(\<forall>k. i \<le> k \<and> k < i + 4 \<longrightarrow> P k) \<longleftrightarrow> P i \<and> P (i + 1) \<and> P (i + 2) \<and> P (i + 3)"
    unfolding r by (auto simp: numeral_eq_Suc All_less_Suc)
qed

definition mb_range_ok :: "bytes \<Rightarrow> nat \<Rightarrow> nat \<Rightarrow> (unit, nat) res \<Rightarrow> bool" where
  "mb_range_ok buf i e r \<longleftrightarrow> (case r of Ok len \<Rightarrow> i + len \<le> e \<and>
      (\<forall>k. i \<le> k \<and> k < i + len \<longrightarrow> slash_esc (buf ! k) = 0) | _ \<Rightarrow> False)"

lemma mb_range_okD: "mb_range_ok buf i e r \<Longrightarrow>
   \<exists>len. r = Ok len \<and> i + len \<le> e \<and> (\<forall>k. i \<le> k \<and> k < i + len \<longrightarrow> slash_esc (buf ! k) = 0)"
  by (auto simp: mb_range_ok_def split: res.splits)

lemma mb_range_ok_simps:
  "i \<le> e \<Longrightarrow> mb_range_ok buf i e (Ok 0)"
  "mb_range_ok buf i e (Ok 2) \<longleftrightarrow>
     i + 2 \<le> e \<and> slash_esc (buf ! i) = 0 \<and> slash_esc (buf ! (i + 1)) = 0"
  "mb_range_ok buf i e (Ok 3) \<longleftrightarrow> i + 3 \<le> e \<and> slash_esc (buf ! i) = 0 \<and>
     slash_esc (buf ! (i + 1)) = 0 \<and> slash_esc (buf ! (i + 2)) = 0"
  "mb_range_ok buf i e (Ok 4) \<longleftrightarrow> i + 4 \<le> e \<and> slash_esc (buf ! i) = 0 \<and>
     slash_esc (buf ! (i + 1)) = 0 \<and> slash_esc (buf ! (i + 2)) = 0 \<and> slash_esc (buf ! (i + 3)) = 0"
  by (simp_all only: mb_range_ok_def res.case all_range) auto

lemma check_mb_utf8_valid_range:
  assumes "i < e" "e \<le> length buf"
  shows "mb_range_ok buf i e (check_mb_utf8_valid buf i e)"
  using assms
  by (auto simp: check_mb_utf8_valid_def check_mb_utf8_sequence_def load1_def
        mb_range_ok_simps utf8_tail_plain utf8_head_plain)

lemma check_mb_utf8mb3_valid_range:
  assumes "i < e" "e \<le> length buf"
  shows "mb_range_ok buf i e (check_mb_utf8mb3_valid buf i e)"
  using assms
  by (auto simp: check_mb_utf8mb3_valid_def check_mb_utf8mb3_sequence_def load1_def
        mb_range_ok_simps utf8_tail_plain utf8_head_plain)

lemma transparent_row_locale:
  assumes "transparent_row cs"
  shows "ascii_transparent cs"
proof
  fix i e buf
  assume ie: "i < e" "e \<le> length (buf :: bytes)"
  have "mb_range_ok buf i e (mb_valid_call cs buf i e)"
    using assms check_mb_utf8_valid_range [OF ie] check_mb_utf8mb3_valid_range [OF ie] ie
    by (auto simp: transparent_row_def mb_valid_call_def mb_range_ok_simps)
  then show "\<exists>len. mb_valid_call cs buf i e = Ok len \<and> i + len \<le> e \<and>
      (\<forall>k. i \<le> k \<and> k < i + len \<longrightarrow> slash_esc (buf ! k) = 0)"
    by (rule mb_range_okD)
next
  fix b
  show "\<exists>cl. mb_charlen_call cs b = Ok cl \<and> cl \<le> 1"
    using assms charlen_utf8_small charlen_utf8mb3_small
    by (auto simp: transparent_row_def mb_charlen_call_def)
qed

lemma transparent_latin1: "transparent_row ma_default_charset_info"
  by (simp add: transparent_row_def ma_default_charset_info_def mariadb_compiled_charsets_def
        charsets_a_def nth_append)

lemma transparent_utf8: "transparent_row ma_charset_utf8_general_ci"
  by (simp add: transparent_row_def ma_charset_utf8_general_ci_def mariadb_compiled_charsets_def
        charsets_a_def nth_append)

interpretation latin1_cs: ascii_transparent ma_default_charset_info
  by (rule transparent_row_locale [OF transparent_latin1])

interpretation utf8_cs: ascii_transparent ma_charset_utf8_general_ci
  by (rule transparent_row_locale [OF transparent_utf8])

section \<open>Properties\<close>

text \<open>
  C19. Escaping with backslashes under a character set that is single byte, utf8mb3 or
  utf8mb4 (\<open>transparent_row\<close>; the rows of the other multi-byte sets, such as
  ujis, ucs2, utf16 and utf32, are excluded, and for them the statement does not hold) never reads or writes out of bounds and never reports an overflow; the output
  needs at most twice the input (the terminator comes on top), and reading it back as the
  body of an SQL literal gives exactly the input: no unescaped quote survives, so the
  literal cannot be closed from inside.
\<close>
theorem escape_slashes_correct:
  assumes "transparent_row cs"
  shows "\<exists>out. mysql_cset_escape_slashes cs buf (length buf) = Ok (length out, out @ [0]) \<and>
    length out \<le> 2 * length buf \<and> unescape out = Some buf"
proof -
  have "ascii_transparent cs" using assms by (rule transparent_row_locale)
  from ascii_transparent.escape_slashes_bytes [OF this] show ?thesis
    using unescape_esc_bytes length_esc_bytes by blast
qed

theorem escape_slashes_correct_witness:
  "transparent_row ma_charset_utf8_general_ci \<and>
   (\<exists>out. mysql_cset_escape_slashes ma_charset_utf8_general_ci [0x61, 0x27, 0xC3, 0xA9, 0x5C] 5
        = Ok (length out, out @ [0]) \<and> length out \<le> 10 \<and>
      unescape out = Some [0x61, 0x27, 0xC3, 0xA9, 0x5C])"
  using escape_slashes_correct [OF transparent_utf8, of "[0x61, 0x27, 0xC3, 0xA9, 0x5C]"]
    transparent_utf8 by (simp add: numeral_eq_Suc)

text \<open>
  C20. Under the same character sets (single byte, utf8mb3 or utf8mb4, by \<open>transparent_row\<close>;
  not the other multi-byte sets) \<open>mysql_cset_escape_quotes\<close> is memory safe, needs at most twice the input and its output reads back as the input when doubled quotes stand for
  one quote and a single quote would end the literal.
\<close>
theorem escape_quotes_correct:
  assumes "transparent_row cs"
  shows "\<exists>out. mysql_cset_escape_quotes cs buf (length buf) = Ok (length out, out @ [0]) \<and>
    length out \<le> 2 * length buf \<and> unquote out = Some buf"
proof -
  have "ascii_transparent cs" using assms by (rule transparent_row_locale)
  from ascii_transparent.escape_quotes_bytes [OF this] show ?thesis
    using unquote_quote_bytes length_quote_bytes by blast
qed

theorem escape_quotes_correct_witness:
  "transparent_row ma_default_charset_info \<and>
   (\<exists>out. mysql_cset_escape_quotes ma_default_charset_info [0x61, 0x27, 0x62] 3
        = Ok (length out, out @ [0]) \<and> length out \<le> 6 \<and> unquote out = Some [0x61, 0x27, 0x62])"
  using escape_quotes_correct [OF transparent_latin1, of "[0x61, 0x27, 0x62]"]
    transparent_latin1 by (simp add: numeral_eq_Suc)

definition other_mb_csnames :: "string list" where
  "other_mb_csnames = [''big5'', ''cp932'', ''eucjpms'', ''euckr'', ''filename'', ''gb2312'', ''gbk'',
     ''sjis'', ''ucs2'', ''ujis'', ''utf16'', ''utf16le'', ''utf32'']"

lemma transparent_rows_a:
  "list_all (\<lambda>cs. cs_csname cs \<notin> set other_mb_csnames \<longrightarrow> transparent_row cs) charsets_a"
  by (simp add: charsets_a_def transparent_row_def other_mb_csnames_def)

lemma transparent_rows_b:
  "list_all (\<lambda>cs. cs_csname cs \<notin> set other_mb_csnames \<longrightarrow> transparent_row cs) charsets_b"
  by (simp add: charsets_b_def transparent_row_def other_mb_csnames_def)

lemma transparent_rows_c:
  "list_all (\<lambda>cs. cs_csname cs \<notin> set other_mb_csnames \<longrightarrow> transparent_row cs) charsets_c"
  by (simp add: charsets_c_def transparent_row_def other_mb_csnames_def)

text \<open>
  The escaping theorems cover every compiled character set but the rows of thirteen
  named multi-byte sets: in particular all single byte sets and all rows of utf8 and
  utf8mb4, the sets a connection of this client is opened with.
\<close>
theorem transparent_rows:
  "list_all (\<lambda>cs. cs_csname cs \<notin> set other_mb_csnames \<longrightarrow> transparent_row cs)
     mariadb_compiled_charsets"
  using transparent_rows_a transparent_rows_b transparent_rows_c
  by (simp add: mariadb_compiled_charsets_def)

theorem transparent_rows_witness:
  "ma_charset_utf8_general_ci \<in> set mariadb_compiled_charsets \<and>
   cs_csname ma_charset_utf8_general_ci = ''utf8'' \<and> transparent_row ma_charset_utf8_general_ci"
proof -
  let ?cs = "ma_charset_utf8_general_ci"
  have mem: "?cs \<in> set mariadb_compiled_charsets"
    by (simp add: ma_charset_utf8_general_ci_def mariadb_compiled_charsets_def charsets_a_def nth_append)
  have name: "cs_csname ?cs = ''utf8''"
    by (simp add: ma_charset_utf8_general_ci_def mariadb_compiled_charsets_def charsets_a_def nth_append)
  have "transparent_row ?cs"
    using transparent_rows mem name by (simp add: list_all_iff other_mb_csnames_def)
  with mem name show ?thesis by simp
qed

lemma big5_head_never: "\<not> valid_big5head (char_uint c)"
proof -
  have "list_all (\<lambda>c. \<not> valid_big5head (char_uint c)) (map word_of_nat [0..<256])"
    by code_simp
  then show ?thesis by (rule all_u8)
qed

definition big5_row :: charset_info where
  "big5_row = mariadb_compiled_charsets ! 0"

lemma big5_row_eq:
  "big5_row = cset 1 1 ''big5'' ''big5_chinese_ci'' '''' 950 ''BIG5'' 1 2
     (Some mysql_mbcharlen_big5) (Some check_mb_big5)"
  by (simp add: big5_row_def mariadb_compiled_charsets_def charsets_a_def)

text \<open>
  Big5 characters are not recognised: \<open>valid_big5head\<close> is given a sign-extended
  \<open>char\<close>, so \<open>check_mb_big5\<close> answers 0 for every pair of bytes, and the second byte
  \<open>5C\<close> of the character \<open>A1 5C\<close> is escaped as if it were a backslash of its own.
\<close>
theorem big5_never_recognised:
  "check_mb_big5 [a, b] 0 2 = Ok 0 \<and>
   mysql_cset_escape_slashes big5_row [0xA1, 0x5C] 2 = Ok (3, [0xA1, 0x5C, 0x5C, 0])"
proof
  show "check_mb_big5 [a, b] 0 2 = Ok 0"
    by (simp add: check_mb_big5_def big5_head_never mem_simps)
  show "mysql_cset_escape_slashes big5_row [0xA1, 0x5C] 2 = Ok (3, [0xA1, 0x5C, 0x5C, 0])"
    unfolding big5_row_eq by code_simp
qed

lemma find_charset_Some: "find_charset P cs = Some c \<Longrightarrow> P c \<and> c \<in> set cs"
  by (induction cs) (auto split: if_splits)

lemma charset_nr_found: "mariadb_get_charset_by_nr nr = Some cs \<Longrightarrow> cs_nr cs = nr"
  by (auto simp: mariadb_get_charset_by_nr_def mysql_find_charset_nr_def dest: find_charset_Some)

lemma find_charset_append:
  "find_charset P (xs @ ys) =
     (case find_charset P xs of None \<Rightarrow> find_charset P ys | Some c \<Rightarrow> Some c)"
  by (induction xs) auto

lemma find_charset_None: "find_charset P cs = None \<longleftrightarrow> (\<forall>c\<in>set cs. \<not> P c)"
  by (induction cs) auto

text \<open>
  The lookup by number is sound and complete for the numbers of the table: it answers
  \<open>None\<close> exactly when no row has the number, and a row it answers has the number. (The row
  60 \<open>armascii8_bin\<close> of the source is left out by its preprocessor condition, so the number
  60 is the one of \<open>utf32_general_ci\<close>.)
\<close>
theorem charset_lookup:
  "(case mysql_find_charset_nr nr of
      None \<Rightarrow> nr \<notin> set (map cs_nr mariadb_compiled_charsets)
    | Some cs \<Rightarrow> cs_nr cs = nr \<and> cs \<in> set mariadb_compiled_charsets)"
  by (auto simp: mysql_find_charset_nr_def find_charset_None dest: find_charset_Some
      split: option.split)

lemma charset_60: "map_option cs_name (mysql_find_charset_nr 60) = Some ''utf32_general_ci''"
  by (simp add: mysql_find_charset_nr_def mariadb_compiled_charsets_def find_charset_append
      charsets_a_def)

end
