(* ===== verification/Dyncol_Values.thy ===== *)
theory Dyncol_Values
  imports Dynamic_String Charset
begin

text \<open>
  First half of \<^verbatim>\<open>src/src/include/mysql/libmariadb/mariadb_dyncol.c\<close> (compiled with
  \<open>LIBMARIADB\<close>, so without decimals): how one value of a dynamic column is written at the
  end of the record and how it is read back. Writers return the C result code with the
  updated string; readers get the block, the index of the value and its length.
  A shift by 64 or more is undefined in C and is \<open>UB\<close> here.
\<close>

section \<open>Types\<close>

datatype dyncol_rc = ER_DYNCOL_OK | ER_DYNCOL_YES | ER_DYNCOL_FORMAT | ER_DYNCOL_LIMIT
  | ER_DYNCOL_RESOURCE | ER_DYNCOL_DATA | ER_DYNCOL_UNKNOWN_CHARSET | ER_DYNCOL_TRUNCATED

text \<open>The error codes are the negative ones (\<^verbatim>\<open>mariadb_dyncol.h\<close>, lines 78--88).\<close>

fun rc_negative :: "dyncol_rc \<Rightarrow> bool" where
  "rc_negative ER_DYNCOL_OK = False"
| "rc_negative ER_DYNCOL_YES = False"
| "rc_negative ER_DYNCOL_TRUNCATED = False"
| "rc_negative _ = True"

datatype dyncol_format = dyncol_fmt_num | dyncol_fmt_str

datatype timestamp_type = MYSQL_TIMESTAMP_NONE | MYSQL_TIMESTAMP_ERROR | MYSQL_TIMESTAMP_DATE
  | MYSQL_TIMESTAMP_DATETIME | MYSQL_TIMESTAMP_TIME

record mysql_time =
  t_year :: u32
  t_month :: u32
  t_day :: u32
  t_hour :: u32
  t_minute :: u32
  t_second :: u32
  t_second_part :: u32
  t_neg :: bool
  t_type :: timestamp_type

text \<open>
  The tagged union \<open>DYNAMIC_COLUMN_VALUE\<close>. A double is its 64 bit image, a string the
  number of its character set and its bytes. \<open>DYN_COL_DECIMAL\<close> has no payload in this
  build; every \<open>switch\<close> sends it to its \<open>default\<close>.
\<close>

datatype dyncol_value =
    DYN_COL_NULL
  | DYN_COL_INT u64
  | DYN_COL_UINT u64
  | DYN_COL_DOUBLE u64
  | DYN_COL_STRING nat bytes
  | DYN_COL_DECIMAL
  | DYN_COL_DATETIME mysql_time
  | DYN_COL_DATE mysql_time
  | DYN_COL_TIME mysql_time
  | DYN_COL_DYNCOL bytes

fun dyncol_type :: "dyncol_value \<Rightarrow> nat" where
  "dyncol_type DYN_COL_NULL = 0"
| "dyncol_type (DYN_COL_INT _) = 1"
| "dyncol_type (DYN_COL_UINT _) = 2"
| "dyncol_type (DYN_COL_DOUBLE _) = 3"
| "dyncol_type (DYN_COL_STRING _ _) = 4"
| "dyncol_type DYN_COL_DECIMAL = 5"
| "dyncol_type (DYN_COL_DATETIME _) = 6"
| "dyncol_type (DYN_COL_DATE _) = 7"
| "dyncol_type (DYN_COL_TIME _) = 8"
| "dyncol_type (DYN_COL_DYNCOL _) = 9"

section \<open>Variable length integers\<close>

lemma unat_drop_bit_lt:
  assumes "drop_bit n (v :: u64) \<noteq> 0" "0 < n"
  shows "unat (drop_bit n v) < unat v"
proof -
  have "unat (drop_bit n v) = unat v div 2 ^ n"
    by (subst unat_drop_bit_eq) (rule drop_bit_eq_div)
  moreover have "0 < unat v" using assms(1) by (cases "v = 0") (auto simp: unat_gt_0)
  moreover have "1 < (2 :: nat) ^ n" using assms(2) by (intro one_less_power) auto
  ultimately show ?thesis by (metis div_less_dividend)
qed

function dynamic_column_var_uint_bytes :: "u64 \<Rightarrow> nat" where
  "dynamic_column_var_uint_bytes val =
     (let v = drop_bit 7 val in if v = 0 then 1 else Suc (dynamic_column_var_uint_bytes v))"
  by pat_completeness auto
termination
  by (relation "measure unat") (auto intro: unat_drop_bit_lt)

text \<open>The byte the loop of \<open>dynamic_column_var_uint_store\<close> appends.\<close>

definition var_uint_byte :: "u64 \<Rightarrow> u8" where
  "var_uint_byte val = ucast (val AND 0x7f) OR (if drop_bit 7 val \<noteq> 0 then 0x80 else 0x00)"

function var_uint_store_loop :: "dynamic_string \<Rightarrow> u64 \<Rightarrow> (dyncol_rc, dynamic_string) res" where
  "var_uint_store_loop s val =
     rbind (ds_push s (var_uint_byte val)) (\<lambda>s'.
       let rest = drop_bit 7 val in if rest = 0 then Ok s' else var_uint_store_loop s' rest)"
  by pat_completeness auto
termination
  by (relation "measure (\<lambda>(s, v). unat v)") (auto intro: unat_drop_bit_lt)

definition dynamic_column_var_uint_store ::
  "alloc_env \<Rightarrow> dynamic_string \<Rightarrow> u64 \<Rightarrow> (dyncol_rc, dyncol_rc \<times> dynamic_string) res" where
  "dynamic_column_var_uint_store E s val =
     (let (failed, s1) = ma_dynstr_realloc E s 10
      in if failed then Ok (ER_DYNCOL_RESOURCE, s1)
         else rmap (\<lambda>s2. (ER_DYNCOL_OK, s2)) (var_uint_store_loop s1 val))"

text \<open>
  \<open>dynamic_column_var_uint_get\<close>: \<open>i\<close> is the read index, \<open>n\<close> the bytes left before
  \<open>end\<close>, \<open>len\<close> the bytes read. The result is the value and \<open>*len\<close>, which is 0 for a
  truncated number.
\<close>

fun var_uint_get_loop :: "bytes \<Rightarrow> nat \<Rightarrow> nat \<Rightarrow> nat \<Rightarrow> u64 \<Rightarrow> (dyncol_rc, u64 \<times> nat) res" where
  "var_uint_get_loop buf i 0 len val = Ok (0, 0)"
| "var_uint_get_loop buf i (Suc n) len val =
     rbind (load1 buf i) (\<lambda>b.
       if 64 \<le> len * 7 then UB
       else let val' = val + push_bit (len * 7) (ucast (b AND 0x7f))
            in if b AND 0x80 = 0 then Ok (val', Suc len)
               else var_uint_get_loop buf (Suc i) n (Suc len) val')"

definition dynamic_column_var_uint_get ::
  "bytes \<Rightarrow> nat \<Rightarrow> nat \<Rightarrow> (dyncol_rc, u64 \<times> nat) res" where
  "dynamic_column_var_uint_get buf data data_length = var_uint_get_loop buf data data_length 0 0"

section \<open>Fixed length integers\<close>

function dynamic_column_uint_bytes :: "u64 \<Rightarrow> nat" where
  "dynamic_column_uint_bytes val =
     (if val = 0 then 0 else Suc (dynamic_column_uint_bytes (drop_bit 8 val)))"
  by pat_completeness auto

lemma unat_drop8_lt: "(v :: u64) \<noteq> 0 \<Longrightarrow> unat (drop_bit 8 v) < unat v"
  by (cases "drop_bit 8 v = 0") (auto intro: unat_drop_bit_lt simp: unat_gt_0)

termination dynamic_column_uint_bytes
  by (relation "measure unat") (auto intro: unat_drop8_lt)

function uint_store_loop :: "dynamic_string \<Rightarrow> u64 \<Rightarrow> (dyncol_rc, dynamic_string) res" where
  "uint_store_loop s val =
     (if val = 0 then Ok s
      else rbind (ds_push s (ucast (val AND 0xff))) (\<lambda>s'. uint_store_loop s' (drop_bit 8 val)))"
  by pat_completeness auto
termination
  by (relation "measure (\<lambda>(s, v). unat v)") (auto intro: unat_drop8_lt)

definition dynamic_column_uint_store ::
  "alloc_env \<Rightarrow> dynamic_string \<Rightarrow> u64 \<Rightarrow> (dyncol_rc, dyncol_rc \<times> dynamic_string) res" where
  "dynamic_column_uint_store E s val =
     (let (failed, s1) = ma_dynstr_realloc E s 8
      in if failed then Ok (ER_DYNCOL_RESOURCE, s1)
         else rmap (\<lambda>s2. (ER_DYNCOL_OK, s2)) (uint_store_loop s1 val))"

fun uint_read_loop :: "bytes \<Rightarrow> nat \<Rightarrow> nat \<Rightarrow> nat \<Rightarrow> u64 \<Rightarrow> (dyncol_rc, u64) res" where
  "uint_read_loop buf data i 0 val = Ok val"
| "uint_read_loop buf data i (Suc n) val =
     rbind (load1 buf (data + i)) (\<lambda>b.
       if 64 \<le> i * 8 then UB
       else uint_read_loop buf data (Suc i) n (val + push_bit (i * 8) (ucast b)))"

definition dynamic_column_uint_read :: "bytes \<Rightarrow> nat \<Rightarrow> nat \<Rightarrow> (dyncol_rc, u64) res" where
  "dynamic_column_uint_read buf data len = uint_read_loop buf data 0 len 0"

text \<open>The zigzag map: 0, -1, 1, -2, 2 become 0, 1, 2, 3, 4.\<close>

definition zigzag :: "u64 \<Rightarrow> u64" where
  "zigzag val = push_bit 1 val XOR (if val <s 0 then 0xffffffffffffffff else 0)"

definition unzigzag :: "u64 \<Rightarrow> u64" where
  "unzigzag val = (if val AND 1 \<noteq> 0 then drop_bit 1 val XOR 0xffffffffffffffff else drop_bit 1 val)"

definition dynamic_column_sint_bytes :: "u64 \<Rightarrow> nat" where
  "dynamic_column_sint_bytes val = dynamic_column_uint_bytes (zigzag val)"

definition dynamic_column_sint_store ::
  "alloc_env \<Rightarrow> dynamic_string \<Rightarrow> u64 \<Rightarrow> (dyncol_rc, dyncol_rc \<times> dynamic_string) res" where
  "dynamic_column_sint_store E s val = dynamic_column_uint_store E s (zigzag val)"

definition dynamic_column_sint_read :: "bytes \<Rightarrow> nat \<Rightarrow> nat \<Rightarrow> (dyncol_rc, u64) res" where
  "dynamic_column_sint_read buf data len = rmap unzigzag (dynamic_column_uint_read buf data len)"

section \<open>Size of a value\<close>

fun dynamic_column_value_len :: "dyncol_value \<Rightarrow> dyncol_format \<Rightarrow> nat" where
  "dynamic_column_value_len DYN_COL_NULL f = 0"
| "dynamic_column_value_len (DYN_COL_INT v) f = dynamic_column_sint_bytes v"
| "dynamic_column_value_len (DYN_COL_UINT v) f = dynamic_column_uint_bytes v"
| "dynamic_column_value_len (DYN_COL_DOUBLE v) f = 8"
| "dynamic_column_value_len (DYN_COL_STRING nr bs) f =
     dynamic_column_var_uint_bytes (word_of_nat nr) + length bs"
| "dynamic_column_value_len (DYN_COL_DATETIME t) f =
     (if f = dyncol_fmt_num \<or> t_second_part t \<noteq> 0 then 9 else 6)"
| "dynamic_column_value_len (DYN_COL_DATE t) f = 3"
| "dynamic_column_value_len (DYN_COL_TIME t) f =
     (if f = dyncol_fmt_num \<or> t_second_part t \<noteq> 0 then 6 else 3)"
| "dynamic_column_value_len (DYN_COL_DYNCOL bs) f = length bs"
| "dynamic_column_value_len DYN_COL_DECIMAL f = 0"

section \<open>Doubles, strings and nested records\<close>

text \<open>\<open>buf[0..n)= bs; str->length+= n\<close> at the end of the string, after a reservation.\<close>

definition ds_put :: "dynamic_string \<Rightarrow> bytes \<Rightarrow> ('e, dynamic_string) res" where
  "ds_put s bs = rbind (ds_buf s) (\<lambda>buf. rbind (store_bytes buf (ds_length s) bs)
     (\<lambda>buf'. Ok (s\<lparr>ds_str := Some buf', ds_length := ds_length s + length bs\<rparr>)))"

definition reserve_put ::
  "alloc_env \<Rightarrow> dynamic_string \<Rightarrow> nat \<Rightarrow> bytes \<Rightarrow> (dyncol_rc, dyncol_rc \<times> dynamic_string) res" where
  "reserve_put E s n bs =
     (let (failed, s1) = ma_dynstr_realloc E s n
      in if failed then Ok (ER_DYNCOL_RESOURCE, s1)
         else rmap (\<lambda>s2. (ER_DYNCOL_OK, s2)) (ds_put s1 bs))"

definition dynamic_column_double_store ::
  "alloc_env \<Rightarrow> dynamic_string \<Rightarrow> u64 \<Rightarrow> (dyncol_rc, dyncol_rc \<times> dynamic_string) res" where
  "dynamic_column_double_store E s val = reserve_put E s 8 (le_bytes 8 (unat val))"

definition dynamic_column_double_read :: "bytes \<Rightarrow> nat \<Rightarrow> nat \<Rightarrow> (dyncol_rc, u64) res" where
  "dynamic_column_double_read buf data len =
     (if len \<noteq> 8 then Err ER_DYNCOL_FORMAT
      else rmap (\<lambda>bs. word_of_nat (le_val bs)) (load_bytes buf data 8))"

definition append_rc ::
  "alloc_env \<Rightarrow> dynamic_string \<Rightarrow> bytes \<Rightarrow> (dyncol_rc, dyncol_rc \<times> dynamic_string) res" where
  "append_rc E s bs = rmap (\<lambda>(failed, s'). (if failed then ER_DYNCOL_RESOURCE else ER_DYNCOL_OK, s'))
     (ma_dynstr_append_mem E s bs)"

text \<open>\<open>if ((rc= f(str))) return rc;\<close> followed by the rest of the function.\<close>

definition rc_then ::
  "(dyncol_rc, dyncol_rc \<times> 's) res \<Rightarrow> ('s \<Rightarrow> (dyncol_rc, dyncol_rc \<times> 's) res)
     \<Rightarrow> (dyncol_rc, dyncol_rc \<times> 's) res" where
  "rc_then m f = rbind m (\<lambda>(rc, s). if rc \<noteq> ER_DYNCOL_OK then Ok (rc, s) else f s)"

definition dynamic_column_string_store ::
  "alloc_env \<Rightarrow> dynamic_string \<Rightarrow> nat \<Rightarrow> bytes \<Rightarrow> (dyncol_rc, dyncol_rc \<times> dynamic_string) res" where
  "dynamic_column_string_store E s charset_nr bs =
     rc_then (dynamic_column_var_uint_store E s (word_of_nat charset_nr)) (\<lambda>s1. append_rc E s1 bs)"

definition dynamic_column_dyncol_store ::
  "alloc_env \<Rightarrow> dynamic_string \<Rightarrow> bytes \<Rightarrow> (dyncol_rc, dyncol_rc \<times> dynamic_string) res" where
  "dynamic_column_dyncol_store E s bs = append_rc E s bs"

text \<open>The number of the character set is cast to \<open>uint\<close>.\<close>

definition dynamic_column_string_read :: "bytes \<Rightarrow> nat \<Rightarrow> nat \<Rightarrow> (dyncol_rc, nat \<times> bytes) res" where
  "dynamic_column_string_read buf data len =
     rbind (dynamic_column_var_uint_get buf data len) (\<lambda>(v, vlen).
       if vlen = 0 then Err ER_DYNCOL_FORMAT
       else case mariadb_get_charset_by_nr (unat (ucast v :: u32)) of
              None \<Rightarrow> Err ER_DYNCOL_UNKNOWN_CHARSET
            | Some cs \<Rightarrow> rmap (\<lambda>bs. (cs_nr cs, bs)) (load_bytes buf (data + vlen) (len - vlen)))"

definition dynamic_column_dyncol_read :: "bytes \<Rightarrow> nat \<Rightarrow> nat \<Rightarrow> (dyncol_rc, bytes) res" where
  "dynamic_column_dyncol_read buf data len = load_bytes buf data len"

section \<open>Dates and times\<close>

text \<open>The three assignments of \<open>dynamic_column_date_store\<close>; a byte keeps the low 8 bits.\<close>

definition date_image :: "mysql_time \<Rightarrow> bytes" where
  "date_image t =
     [ucast (t_day t OR push_bit 5 (t_month t AND 0x7)),
      ucast (drop_bit 3 (t_month t) OR push_bit 1 (t_year t AND 0x7F)),
      ucast (drop_bit 7 (t_year t))]"

definition date_clear :: "mysql_time \<Rightarrow> mysql_time" where
  "date_clear t = (if t_type t = MYSQL_TIMESTAMP_NONE \<or> t_type t = MYSQL_TIMESTAMP_ERROR \<or>
       t_type t = MYSQL_TIMESTAMP_TIME
     then t\<lparr>t_year := 0, t_month := 0, t_day := 0\<rparr> else t)"

definition dynamic_column_date_store ::
  "alloc_env \<Rightarrow> dynamic_string \<Rightarrow> mysql_time \<Rightarrow> (dyncol_rc, dyncol_rc \<times> dynamic_string) res" where
  "dynamic_column_date_store E s value = reserve_put E s 3 (date_image (date_clear value))"

definition time_image :: "dyncol_format \<Rightarrow> mysql_time \<Rightarrow> bytes" where
  "time_image format t =
     (if format = dyncol_fmt_num \<or> t_second_part t \<noteq> 0
      then [ucast (t_second_part t AND 0xff),
            ucast (drop_bit 8 (t_second_part t AND 0xff00)),
            ucast (push_bit 4 (t_second t AND 0xf) OR drop_bit 16 (t_second_part t AND 0xf0000)),
            ucast (push_bit 2 (t_minute t) OR drop_bit 4 (t_second t AND 0x30)),
            ucast (t_hour t AND 0xff),
            ucast ((if t_neg t then 0x4 else 0) OR drop_bit 8 (t_hour t))]
      else [ucast (t_second t OR push_bit 6 (t_minute t AND 0x3)),
            ucast (drop_bit 2 (t_minute t) OR push_bit 4 (t_hour t AND 0xf)),
            ucast (drop_bit 4 (t_hour t) OR (if t_neg t then 0x80 else 0))])"

definition time_clear :: "mysql_time \<Rightarrow> mysql_time" where
  "time_clear t = (if t_type t = MYSQL_TIMESTAMP_NONE \<or> t_type t = MYSQL_TIMESTAMP_ERROR \<or>
       t_type t = MYSQL_TIMESTAMP_DATE
     then t\<lparr>t_neg := False, t_second_part := 0, t_hour := 0, t_minute := 0, t_second := 0\<rparr> else t)"

definition dynamic_column_time_store ::
  "alloc_env \<Rightarrow> dynamic_string \<Rightarrow> mysql_time \<Rightarrow> dyncol_format
     \<Rightarrow> (dyncol_rc, dyncol_rc \<times> dynamic_string) res" where
  "dynamic_column_time_store E s value format =
     reserve_put E s 6 (time_image format (time_clear value))"

definition dynamic_column_date_time_store ::
  "alloc_env \<Rightarrow> dynamic_string \<Rightarrow> mysql_time \<Rightarrow> dyncol_format
     \<Rightarrow> (dyncol_rc, dyncol_rc \<times> dynamic_string) res" where
  "dynamic_column_date_time_store E s value format =
     rc_then (dynamic_column_date_store E s value)
       (\<lambda>s1. dynamic_column_time_store E s1 (date_clear value) format)"

definition dynamic_column_date_read_internal ::
  "mysql_time \<Rightarrow> bytes \<Rightarrow> nat \<Rightarrow> nat \<Rightarrow> (dyncol_rc, mysql_time) res" where
  "dynamic_column_date_read_internal t buf data len =
     (if len \<noteq> 3 then Err ER_DYNCOL_FORMAT
      else rbind (load1 buf data) (\<lambda>d0. rbind (load1 buf (data + 1)) (\<lambda>d1.
        rbind (load1 buf (data + 2)) (\<lambda>d2.
        let day = ucast (d0 AND 0x1f);
            month = push_bit 3 (ucast (d1 AND 0x1)) OR ucast (drop_bit 5 d0);
            year = push_bit 7 (ucast d2) OR ucast (drop_bit 1 d1)
        in if 31 < day \<or> 12 < month \<or> 9999 < year then Err ER_DYNCOL_FORMAT
           else Ok (t\<lparr>t_day := day, t_month := month, t_year := year\<rparr>)))))"

definition dynamic_column_time_read_internal ::
  "mysql_time \<Rightarrow> bytes \<Rightarrow> nat \<Rightarrow> nat \<Rightarrow> (dyncol_rc, mysql_time) res" where
  "dynamic_column_time_read_internal t buf data len =
     (if len \<noteq> 6 \<and> len \<noteq> 3 then Err ER_DYNCOL_FORMAT
      else rbind (load1 buf data) (\<lambda>d0. rbind (load1 buf (data + 1)) (\<lambda>d1.
        rbind (load1 buf (data + 2)) (\<lambda>d2.
        rbind (if len = 6
               then rbind (load1 buf (data + 3)) (\<lambda>d3. rbind (load1 buf (data + 4)) (\<lambda>d4.
                    rbind (load1 buf (data + 5)) (\<lambda>d5.
                    Ok (t\<lparr>t_second_part := ucast d0 OR push_bit 8 (ucast d1) OR
                                           push_bit 16 (ucast (d2 AND 0xf)),
                          t_second := ucast (drop_bit 4 d2) OR push_bit 4 (ucast (d3 AND 0x3)),
                          t_minute := ucast (drop_bit 2 d3),
                          t_hour := push_bit 8 (ucast d5 AND 0x3) OR ucast d4,
                          t_neg := (d5 AND 0x4 \<noteq> 0)\<rparr>))))
               else Ok (t\<lparr>t_second_part := 0,
                          t_second := ucast (d0 AND 0x3f),
                          t_minute := ucast (drop_bit 6 d0) OR push_bit 2 (ucast (d1 AND 0xf)),
                          t_hour := ucast (drop_bit 4 d1) OR push_bit 4 (ucast (d2 AND 0x3f)),
                          t_neg := (d2 AND 0x80 \<noteq> 0)\<rparr>)) (\<lambda>t1.
        if 59 < t_second t1 \<or> 59 < t_minute t1 \<or> 838 < t_hour t1 \<or> 999999 < t_second_part t1
        then Err ER_DYNCOL_FORMAT else Ok t1)))))"

definition time_zero :: mysql_time where
  "time_zero = \<lparr>t_year = 0, t_month = 0, t_day = 0, t_hour = 0, t_minute = 0, t_second = 0,
     t_second_part = 0, t_neg = False, t_type = MYSQL_TIMESTAMP_NONE\<rparr>"

text \<open>
  The readers overwrite every field of the caller's structure, so they start from
  \<open>time_zero\<close>: the date reader clears the time fields, the time reader the date fields.
\<close>

definition dynamic_column_date_time_read :: "bytes \<Rightarrow> nat \<Rightarrow> nat \<Rightarrow> (dyncol_rc, mysql_time) res" where
  "dynamic_column_date_time_read buf data len =
     (if len \<noteq> 9 \<and> len \<noteq> 6 then Err ER_DYNCOL_FORMAT
      else rbind (dynamic_column_date_read_internal
                    (time_zero\<lparr>t_type := MYSQL_TIMESTAMP_DATETIME\<rparr>) buf data 3)
             (\<lambda>t. dynamic_column_time_read_internal t buf (data + 3) (len - 3)))"

definition dynamic_column_time_read :: "bytes \<Rightarrow> nat \<Rightarrow> nat \<Rightarrow> (dyncol_rc, mysql_time) res" where
  "dynamic_column_time_read buf data len =
     dynamic_column_time_read_internal (time_zero\<lparr>t_type := MYSQL_TIMESTAMP_TIME\<rparr>) buf data len"

definition dynamic_column_date_read :: "bytes \<Rightarrow> nat \<Rightarrow> nat \<Rightarrow> (dyncol_rc, mysql_time) res" where
  "dynamic_column_date_read buf data len =
     dynamic_column_date_read_internal (time_zero\<lparr>t_type := MYSQL_TIMESTAMP_DATE\<rparr>) buf data len"

section \<open>Dispatch\<close>

fun data_store ::
  "alloc_env \<Rightarrow> dynamic_string \<Rightarrow> dyncol_value \<Rightarrow> dyncol_format
     \<Rightarrow> (dyncol_rc, dyncol_rc \<times> dynamic_string) res" where
  "data_store E s (DYN_COL_INT v) format = dynamic_column_sint_store E s v"
| "data_store E s (DYN_COL_UINT v) format = dynamic_column_uint_store E s v"
| "data_store E s (DYN_COL_DOUBLE v) format = dynamic_column_double_store E s v"
| "data_store E s (DYN_COL_STRING nr bs) format = dynamic_column_string_store E s nr bs"
| "data_store E s (DYN_COL_DATETIME t) format = dynamic_column_date_time_store E s t format"
| "data_store E s (DYN_COL_DATE t) format = dynamic_column_date_store E s t"
| "data_store E s (DYN_COL_TIME t) format = dynamic_column_time_store E s t format"
| "data_store E s (DYN_COL_DYNCOL bs) format = dynamic_column_dyncol_store E s bs"
| "data_store E s DYN_COL_NULL format = Ok (ER_DYNCOL_OK, s)"
| "data_store E s DYN_COL_DECIMAL format = Ok (ER_DYNCOL_OK, s)"

text \<open>
  \<open>dynamic_column_get_value\<close>: the type number of the header entry selects the reader.
\<close>

definition dynamic_column_get_value ::
  "nat \<Rightarrow> bytes \<Rightarrow> nat \<Rightarrow> nat \<Rightarrow> (dyncol_rc, dyncol_value) res" where
  "dynamic_column_get_value type buf data len =
     (if type = 1 then rmap DYN_COL_INT (dynamic_column_sint_read buf data len)
      else if type = 2 then rmap DYN_COL_UINT (dynamic_column_uint_read buf data len)
      else if type = 3 then rmap DYN_COL_DOUBLE (dynamic_column_double_read buf data len)
      else if type = 4 then rmap (\<lambda>(nr, bs). DYN_COL_STRING nr bs)
                                  (dynamic_column_string_read buf data len)
      else if type = 6 then rmap DYN_COL_DATETIME (dynamic_column_date_time_read buf data len)
      else if type = 7 then rmap DYN_COL_DATE (dynamic_column_date_read buf data len)
      else if type = 8 then rmap DYN_COL_TIME (dynamic_column_time_read buf data len)
      else if type = 0 then Ok DYN_COL_NULL
      else if type = 9 then rmap DYN_COL_DYNCOL (dynamic_column_dyncol_read buf data len)
      else Err ER_DYNCOL_FORMAT)"

section \<open>The images of integers\<close>


lemma unat_u64_lt: "unat (v :: u64) < 2 ^ 64"
  using unsigned_less [of v] by simp

lemma sless0_bit: "(v :: u64) <s 0 \<longleftrightarrow> bit v 63"
  using bit_last_iff [of v] by (simp add: word_sless_alt)

lemma low_high: "(v :: u64) = (v AND 0x7f) + push_bit 7 (drop_bit 7 v)"
proof -
  have "v AND 0x7f = take_bit 7 v"
    by (simp add: take_bit_eq_mask mask_eq_exp_minus_1)
  then show ?thesis using bits_ident [of 7 v] by (simp add: add.commute)
qed

lemma unzigzag_zigzag: "unzigzag (zigzag v) = v"
proof -
  have m: "(0xffffffffffffffff :: u64) = - 1" by simp
  have b: "(x AND 1 \<noteq> 0) = bit x 0" for x :: u64
    by (simp add: and_one_eq odd_iff_mod_2_eq_one bit_0)
  define p where "p = push_bit 1 v"
  have p: "bit p n \<longleftrightarrow> 0 < n \<and> n < 64 \<and> bit v (n - 1)" for n
    unfolding p_def bit_push_bit_iff by auto
  show ?thesis
    unfolding unzigzag_def zigzag_def m b p_def [symmetric]
  proof (rule bit_word_eqI)
    fix n
    assume "n < LENGTH(64)"
    then consider "n = 63" | "n < 63" by fastforce
    then show "bit (if bit (p XOR (if v <s 0 then - 1 else 0)) 0
          then drop_bit 1 (p XOR (if v <s 0 then - 1 else 0)) XOR - 1
          else drop_bit 1 (p XOR (if v <s 0 then - 1 else 0))) n = bit v n"
      by cases (auto simp: bit_simps p sless0_bit)
  qed
qed

function var_uint_image :: "u64 \<Rightarrow> bytes" where
  "var_uint_image val = var_uint_byte val #
     (if drop_bit 7 val = 0 then [] else var_uint_image (drop_bit 7 val))"
  by pat_completeness auto
termination
  by (relation "measure unat") (auto intro: unat_drop_bit_lt)

function uint_image :: "u64 \<Rightarrow> bytes" where
  "uint_image val = (if val = 0 then [] else ucast (val AND 0xff) # uint_image (drop_bit 8 val))"
  by pat_completeness auto
termination
  by (relation "measure unat") (auto intro: unat_drop8_lt)

declare var_uint_image.simps [simp del] uint_image.simps [simp del]
  dynamic_column_var_uint_bytes.simps [simp del] dynamic_column_uint_bytes.simps [simp del]
  var_uint_store_loop.simps [simp del] uint_store_loop.simps [simp del]

lemma length_var_uint_image: "length (var_uint_image v) = dynamic_column_var_uint_bytes v"
proof (induction v rule: var_uint_image.induct)
  case (1 v)
  then show ?case
    by (subst var_uint_image.simps, subst dynamic_column_var_uint_bytes.simps) (simp add: Let_def)
qed

lemma length_uint_image: "length (uint_image v) = dynamic_column_uint_bytes v"
proof (induction v rule: uint_image.induct)
  case (1 v)
  then show ?case
    by (subst uint_image.simps, subst dynamic_column_uint_bytes.simps) simp
qed

lemma var_uint_bytes_bound:
  "unat v < 2 ^ (7 * Suc k) \<Longrightarrow> dynamic_column_var_uint_bytes v \<le> Suc k"
proof (induction k arbitrary: v)
  case 0
  then have "unat (drop_bit 7 v) = 0"
    by (subst unat_drop_bit_eq, subst drop_bit_eq_div) simp
  then have "drop_bit 7 v = 0" by (simp only: unat_eq_0)
  then show ?case by (subst dynamic_column_var_uint_bytes.simps) simp
next
  case (Suc k)
  have "unat (drop_bit 7 v) < 2 ^ (7 * Suc k)"
    using Suc.prems by (subst unat_drop_bit_eq, subst drop_bit_eq_div)
      (simp add: less_mult_imp_div_less power_add)
  then show ?case
    using Suc.IH [of "drop_bit 7 v"] by (subst dynamic_column_var_uint_bytes.simps) (simp add: Let_def)
qed

lemma var_uint_bytes_le_10: "dynamic_column_var_uint_bytes v \<le> 10"
  using var_uint_bytes_bound [of v 9] unat_u64_lt [of v] by simp

lemma uint_bytes_bound: "unat v < 2 ^ (8 * k) \<Longrightarrow> dynamic_column_uint_bytes v \<le> k"
proof (induction k arbitrary: v)
  case 0
  then show ?case by (subst dynamic_column_uint_bytes.simps) (simp add: unat_eq_0)
next
  case (Suc k)
  have "unat (drop_bit 8 v) < 2 ^ (8 * k)"
    using Suc.prems by (subst unat_drop_bit_eq, subst drop_bit_eq_div)
      (simp add: less_mult_imp_div_less power_add)
  then show ?case
    using Suc.IH [of "drop_bit 8 v"] by (subst dynamic_column_uint_bytes.simps) simp
qed

lemma uint_bytes_le_8: "dynamic_column_uint_bytes v \<le> 8"
  using uint_bytes_bound [of v 8] unat_u64_lt [of v] by simp

lemma var_uint_store_loop_image:
  "var_uint_store_loop s v = push_all ds_push s (var_uint_image v)"
proof (induction s v rule: var_uint_store_loop.induct)
  case (1 s v)
  then show ?case
    by (subst var_uint_store_loop.simps, subst var_uint_image.simps)
      (auto simp: Let_def intro!: rbind_cong)
qed

lemma uint_store_loop_image: "uint_store_loop s v = push_all ds_push s (uint_image v)"
proof (induction s v rule: uint_store_loop.induct)
  case (1 s v)
  then show ?case
    by (subst uint_store_loop.simps, subst uint_image.simps) (auto intro!: rbind_cong)
qed


lemma bit_0x80: "bit (0x80 :: int) n \<longleftrightarrow> n = 7"
  using bit_exp_iff [of 7 n, where ?'a = int] by auto

lemma var_uint_byte_bit:
  "bit (var_uint_byte v) n \<longleftrightarrow> (n < 7 \<and> bit v n) \<or> (n = 7 \<and> drop_bit 7 v \<noteq> 0)"
proof -
  have m: "(0x7f :: u64) = mask 7" by (simp add: mask_eq_exp_minus_1)
  show ?thesis
    unfolding var_uint_byte_def m
    by (cases "drop_bit 7 v = 0")
      (simp_all add: bit_or_iff bit_0x80 bit_unsigned_iff bit_and_iff bit_mask_iff, auto)
qed

lemma var_uint_byte_low: "ucast (var_uint_byte v AND 0x7f) = v AND (0x7f :: u64)"
proof -
  have m: "(0x7f :: u8) = mask 7" "(0x7f :: u64) = mask 7"
    by (simp_all add: mask_eq_exp_minus_1)
  show ?thesis
    unfolding m by (rule bit_word_eqI) (auto simp: bit_simps var_uint_byte_bit)
qed

lemma var_uint_byte_high: "var_uint_byte v AND 0x80 = 0 \<longleftrightarrow> drop_bit 7 v = 0"
proof -
  have "bit (var_uint_byte v AND 0x80) n \<longleftrightarrow> n = 7 \<and> drop_bit 7 v \<noteq> 0" for n
    by (auto simp: bit_and_iff var_uint_byte_bit bit_0x80)
  then show ?thesis by (metis bit_0_eq bot_apply bot_bool_def bit_eq_iff)
qed

lemma drop_eq_Cons:
  assumes "drop i xs = y # ys"
  shows "i < length xs" "xs ! i = y" "drop (Suc i) xs = ys"
proof -
  show l: "i < length xs" using assms by (cases "i < length xs") auto
  with assms show "xs ! i = y" "drop (Suc i) xs = ys"
    by (auto simp: Cons_nth_drop_Suc [symmetric])
qed

lemma var_uint_get_image:
  assumes "drop i buf = var_uint_image v @ rest"
    and "length (var_uint_image v) \<le> n" "len + length (var_uint_image v) \<le> 10"
  shows "var_uint_get_loop buf i n len acc =
    Ok (acc + push_bit (len * 7) v, len + length (var_uint_image v))"
  using assms
proof (induction v arbitrary: i n len acc rule: var_uint_image.induct)
  case (1 v)
  let ?w = "drop_bit 7 v"
  from "1.prems"(1) have d: "drop i buf = var_uint_byte v #
      ((if ?w = 0 then [] else var_uint_image ?w) @ rest)"
    by (subst (asm) var_uint_image.simps) simp
  from "1.prems"(2) obtain m where n: "n = Suc m"
    by (cases n) (auto simp: var_uint_image.simps [of v])
  have len: "\<not> 64 \<le> len * 7"
    using "1.prems"(3) by (auto simp: var_uint_image.simps [of v] split: if_splits)
  show ?case
  proof (cases "?w = 0")
    case True
    then have "v AND 0x7f = v" using low_high [of v] by simp
    with True len d show ?thesis
      by (simp add: n mem_simps drop_eq_Cons [OF d] var_uint_byte_high var_uint_byte_low
            var_uint_image.simps [of v])
  next
    case False
    have "drop (Suc i) buf = var_uint_image ?w @ rest"
      using drop_eq_Cons(3) [OF d] False by simp
    then have "var_uint_get_loop buf (Suc i) m (Suc len) (acc + push_bit (len * 7) (v AND 0x7f)) =
        Ok (acc + push_bit (len * 7) (v AND 0x7f) + push_bit (Suc len * 7) ?w,
            Suc len + length (var_uint_image ?w))"
      using "1.prems"(2,3) False
      by (intro "1.IH") (auto simp: n var_uint_image.simps [of v])
    moreover have "push_bit (len * 7) (v AND 0x7f) + push_bit (Suc len * 7) ?w = push_bit (len * 7) v"
      by (subst (3) low_high [of v]) (simp add: push_bit_add push_bit_push_bit add.commute del: push_bit_of_1)
    ultimately show ?thesis
      using False len d
      by (simp add: n mem_simps drop_eq_Cons [OF d] var_uint_byte_high var_uint_byte_low
            var_uint_image.simps [of v] add.assoc)
  qed
qed


lemma uint_read_image:
  assumes "drop (data + i) buf = uint_image v @ rest" "i + length (uint_image v) \<le> 8"
  shows "uint_read_loop buf data i (length (uint_image v)) acc = Ok (acc + push_bit (i * 8) v)"
  using assms
proof (induction v arbitrary: i acc rule: uint_image.induct)
  case (1 v)
  let ?w = "drop_bit 8 v"
  show ?case
  proof (cases "v = 0")
    case True
    then show ?thesis by (simp add: uint_image.simps [of 0])
  next
    case False
    have img: "uint_image v = ucast (v AND 0xff) # uint_image ?w"
      using False by (simp add: uint_image.simps [of v])
    have d: "drop (data + i) buf = ucast (v AND 0xff) # (uint_image ?w @ rest)"
      using "1.prems"(1) img by simp
    have IH: "uint_read_loop buf data (Suc i) (length (uint_image ?w)) (acc + push_bit (i * 8) (v AND 0xff))
        = Ok (acc + push_bit (i * 8) (v AND 0xff) + push_bit (Suc i * 8) ?w)"
      using "1.prems"(2) img drop_eq_Cons(3) [OF d] False by (intro "1.IH") auto
    have "v AND 0xff = take_bit 8 v"
      by (simp add: take_bit_eq_mask mask_eq_exp_minus_1)
    then have lh: "v = (v AND 0xff) + push_bit 8 ?w"
      using bits_ident [of 8 v] by (simp add: add.commute)
    have sum: "push_bit (i * 8) (v AND 0xff) + push_bit (Suc i * 8) ?w = push_bit (i * 8) v"
      by (subst (3) lh) (simp only: push_bit_add push_bit_push_bit mult_Suc add.commute [of 8])
    have c: "ucast (ucast (v AND 0xff) :: u8) = v AND 0xff"
    proof -
      have m: "(0xff :: u64) = mask 8" by (simp add: mask_eq_exp_minus_1)
      show ?thesis unfolding m by (rule bit_word_eqI) (auto simp: bit_simps)
    qed
    show ?thesis
      using IH "1.prems"(2) img
      by (simp only: add.assoc sum) (simp add: mem_simps drop_eq_Cons [OF d] c)
  qed
qed

lemma and_mask:
  "x AND (0x1 :: 'a::len word) = take_bit 1 x" "x AND (0x3 :: 'a word) = take_bit 2 x"
  "x AND (0x7 :: 'a word) = take_bit 3 x" "x AND (0xf :: 'a word) = take_bit 4 x"
  "x AND (0x1f :: 'a word) = take_bit 5 x" "x AND (0x3f :: 'a word) = take_bit 6 x"
  "x AND (0x7f :: 'a word) = take_bit 7 x" "x AND (0xff :: 'a word) = take_bit 8 x"
  by (simp_all add: take_bit_eq_mask mask_eq_exp_minus_1)

lemma drop_and_field:
  "drop_bit 8 (x AND (0xff00 :: u32)) = take_bit 8 (drop_bit 8 x)"
  "drop_bit 16 (x AND (0xf0000 :: u32)) = take_bit 4 (drop_bit 16 x)"
  "drop_bit 4 (x AND (0x30 :: u32)) = take_bit 2 (drop_bit 4 x)"
  by (simp_all add: drop_bit_and take_bit_eq_mask mask_eq_exp_minus_1)

lemma and_flag:
  "(x :: u8) AND 0x4 \<noteq> 0 \<longleftrightarrow> bit x 2" "x AND 0x80 \<noteq> 0 \<longleftrightarrow> bit x 7"
  using and_exp_eq_0_iff_not_bit [of x 2] and_exp_eq_0_iff_not_bit [of x 7] by simp_all

lemmas bit_iffs = bit_or_iff bit_and_iff bit_push_bit_iff bit_drop_bit_eq bit_unsigned_iff
  bit_take_bit_iff possible_bit_word o_apply

lemma bit_bound:
  assumes "unat (x :: u32) < 2 ^ k" "bit x n"
  shows "n < k"
proof -
  have "take_bit k (unat x) = unat x" using assms(1) by (simp add: take_bit_nat_eq_self)
  moreover have "bit (unat x) n" using assms(2) by (simp add: bit_unsigned_iff)
  ultimately show ?thesis by (metis bit_take_bit_iff)
qed

definition valid_date :: "mysql_time \<Rightarrow> bool" where
  "valid_date t \<longleftrightarrow> t_year t \<le> 9999 \<and> t_month t \<le> 12 \<and> t_day t \<le> 31"

definition valid_time :: "mysql_time \<Rightarrow> bool" where
  "valid_time t \<longleftrightarrow> t_hour t \<le> 838 \<and> t_minute t \<le> 59 \<and> t_second t \<le> 59 \<and>
     t_second_part t \<le> 999999"

lemma date_image_fields:
  assumes "valid_date t"
  defines "d \<equiv> date_image t"
  shows "ucast (d ! 0 AND 0x1f) = t_day t"
    "push_bit 3 (ucast (d ! 1 AND 0x1)) OR ucast (drop_bit 5 (d ! 0)) = t_month t"
    "push_bit 7 (ucast (d ! 2)) OR ucast (drop_bit 1 (d ! 1)) = t_year t"
proof -
  have day: "bit (t_day t) n \<Longrightarrow> n < 5" for n
    using assms by (intro bit_bound [of "t_day t" 5]) (auto simp: valid_date_def word_le_nat_alt)
  have month: "bit (t_month t) n \<Longrightarrow> n < 4" for n
    using assms by (intro bit_bound [of "t_month t" 4]) (auto simp: valid_date_def word_le_nat_alt)
  have year: "bit (t_year t) n \<Longrightarrow> n < 14" for n
    using assms by (intro bit_bound [of "t_year t" 14]) (auto simp: valid_date_def word_le_nat_alt)
  have d: "d ! 0 = ucast (t_day t OR push_bit 5 (t_month t AND 0x7))"
    "d ! 1 = ucast (drop_bit 3 (t_month t) OR push_bit 1 (t_year t AND 0x7F))"
    "d ! 2 = ucast (drop_bit 7 (t_year t))"
    by (simp_all add: d_def date_image_def)
  show "ucast (d ! 0 AND 0x1f) = t_day t"
    unfolding d and_mask
    by (rule bit_word_eqI, simp only: bit_iffs) (auto dest: day)
  show "push_bit 3 (ucast (d ! 1 AND 0x1)) OR ucast (drop_bit 5 (d ! 0)) = t_month t"
    unfolding d and_mask
    by (rule bit_word_eqI, simp only: bit_iffs) (auto dest: day month)
  show "push_bit 7 (ucast (d ! 2)) OR ucast (drop_bit 1 (d ! 1)) = t_year t"
    unfolding d and_mask
    by (rule bit_word_eqI, simp only: bit_iffs) (auto dest: month year)
qed

lemma time_bounds:
  assumes "valid_time t"
  shows "bit (t_hour t) n \<Longrightarrow> n < 10" "bit (t_minute t) n \<Longrightarrow> n < 6"
    "bit (t_second t) n \<Longrightarrow> n < 6" "bit (t_second_part t) n \<Longrightarrow> n < 20"
  using assms
    bit_bound [of "t_hour t" 10 n] bit_bound [of "t_minute t" 6 n]
    bit_bound [of "t_second t" 6 n] bit_bound [of "t_second_part t" 20 n]
  by (auto simp: valid_time_def word_le_nat_alt)

lemma flag_bit:
  "bit (if b then (0x4 :: u32) else 0) n \<longleftrightarrow> b \<and> n = 2"
  "bit (if b then (0x80 :: u32) else 0) n \<longleftrightarrow> b \<and> n = 7"
  using bit_exp_iff [of 2 n, where ?'a = u32] bit_exp_iff [of 7 n, where ?'a = u32]
  by auto

lemma time_image_long_fields:
  assumes "valid_time t" "f = dyncol_fmt_num \<or> t_second_part t \<noteq> 0"
  defines "d \<equiv> time_image f t"
  shows "ucast (d ! 0) OR push_bit 8 (ucast (d ! 1)) OR push_bit 16 (ucast (d ! 2 AND 0xf))
      = t_second_part t"
    "ucast (drop_bit 4 (d ! 2)) OR push_bit 4 (ucast (d ! 3 AND 0x3)) = t_second t"
    "ucast (drop_bit 2 (d ! 3)) = t_minute t"
    "push_bit 8 (ucast (d ! 5) AND 0x3) OR ucast (d ! 4) = t_hour t"
    "(d ! 5 AND 0x4 \<noteq> 0) = t_neg t"
proof -
  note b = time_bounds [OF assms(1)]
  have d: "d ! 0 = ucast (t_second_part t AND 0xff)"
    "d ! 1 = ucast (drop_bit 8 (t_second_part t AND 0xff00))"
    "d ! 2 = ucast (push_bit 4 (t_second t AND 0xf) OR drop_bit 16 (t_second_part t AND 0xf0000))"
    "d ! 3 = ucast (push_bit 2 (t_minute t) OR drop_bit 4 (t_second t AND 0x30))"
    "d ! 4 = ucast (t_hour t AND 0xff)"
    "d ! 5 = ucast ((if t_neg t then 0x4 else 0) OR drop_bit 8 (t_hour t))"
    using assms(2) by (simp_all add: d_def time_image_def)
  show "ucast (d ! 0) OR push_bit 8 (ucast (d ! 1)) OR push_bit 16 (ucast (d ! 2 AND 0xf))
      = t_second_part t"
    unfolding d and_mask drop_and_field
    by (rule bit_word_eqI, simp only: bit_iffs) (auto dest: b)
  show "ucast (drop_bit 4 (d ! 2)) OR push_bit 4 (ucast (d ! 3 AND 0x3)) = t_second t"
    unfolding d and_mask drop_and_field
    by (rule bit_word_eqI, simp only: bit_iffs) (auto dest: b)
  show "ucast (drop_bit 2 (d ! 3)) = t_minute t"
    unfolding d and_mask drop_and_field
    by (rule bit_word_eqI, simp only: bit_iffs) (auto dest: b)
  show "push_bit 8 (ucast (d ! 5) AND 0x3) OR ucast (d ! 4) = t_hour t"
    unfolding d and_mask drop_and_field
    by (rule bit_word_eqI, simp only: bit_iffs flag_bit) (auto dest: b)
  show "(d ! 5 AND 0x4 \<noteq> 0) = t_neg t"
    unfolding d and_flag by (simp only: bit_iffs flag_bit) (auto dest: b)
qed

lemma time_image_short_fields:
  assumes "valid_time t" "\<not> (f = dyncol_fmt_num \<or> t_second_part t \<noteq> 0)"
  defines "d \<equiv> time_image f t"
  shows "ucast (d ! 0 AND 0x3f) = t_second t"
    "ucast (drop_bit 6 (d ! 0)) OR push_bit 2 (ucast (d ! 1 AND 0xf)) = t_minute t"
    "ucast (drop_bit 4 (d ! 1)) OR push_bit 4 (ucast (d ! 2 AND 0x3f)) = t_hour t"
    "(d ! 2 AND 0x80 \<noteq> 0) = t_neg t"
proof -
  note b = time_bounds [OF assms(1)]
  have d: "d ! 0 = ucast (t_second t OR push_bit 6 (t_minute t AND 0x3))"
    "d ! 1 = ucast (drop_bit 2 (t_minute t) OR push_bit 4 (t_hour t AND 0xf))"
    "d ! 2 = ucast (drop_bit 4 (t_hour t) OR (if t_neg t then 0x80 else 0))"
    using assms(2) by (simp_all add: d_def time_image_def)
  show "ucast (d ! 0 AND 0x3f) = t_second t"
    unfolding d and_mask
    by (rule bit_word_eqI, simp only: bit_iffs) (auto dest: b)
  have s2: "2 \<le> n \<Longrightarrow> Suc (Suc (n - 2)) = n" for n :: nat by simp
  show "ucast (drop_bit 6 (d ! 0)) OR push_bit 2 (ucast (d ! 1 AND 0xf)) = t_minute t"
    unfolding d and_mask
    by (rule bit_word_eqI, simp only: bit_iffs) (auto simp: s2 not_less dest: b)
  show "ucast (drop_bit 4 (d ! 1)) OR push_bit 4 (ucast (d ! 2 AND 0x3f)) = t_hour t"
    unfolding d and_mask
    by (rule bit_word_eqI, simp only: bit_iffs flag_bit) (auto dest: b)
  show "(d ! 2 AND 0x80 \<noteq> 0) = t_neg t"
    unfolding d and_flag by (simp only: bit_iffs flag_bit) (auto dest: b)
qed


section \<open>What the writers append\<close>

fun value_image :: "dyncol_format \<Rightarrow> dyncol_value \<Rightarrow> bytes" where
  "value_image f (DYN_COL_INT v) = uint_image (zigzag v)"
| "value_image f (DYN_COL_UINT v) = uint_image v"
| "value_image f (DYN_COL_DOUBLE v) = le_bytes 8 (unat v)"
| "value_image f (DYN_COL_STRING nr bs) = var_uint_image (word_of_nat nr) @ bs"
| "value_image f (DYN_COL_DATETIME t) =
     date_image (date_clear t) @ time_image f (time_clear (date_clear t))"
| "value_image f (DYN_COL_DATE t) = date_image (date_clear t)"
| "value_image f (DYN_COL_TIME t) = time_image f (time_clear t)"
| "value_image f (DYN_COL_DYNCOL bs) = bs"
| "value_image f DYN_COL_NULL = []"
| "value_image f DYN_COL_DECIMAL = []"

text \<open>
  The outcome of a writer on a usable string: never \<open>UB\<close>; success appends exactly the
  image; the only failure is the allocation failure.
\<close>

definition writes :: "alloc_env \<Rightarrow> dynamic_string \<Rightarrow> bytes \<Rightarrow>
    (dyncol_rc, dyncol_rc \<times> dynamic_string) res \<Rightarrow> bool" where
  "writes E s bs r \<longleftrightarrow> (\<exists>rc s'. r = Ok (rc, s') \<and>
     (rc = ER_DYNCOL_OK \<and> ds_inv s' \<and> ds_contents s' = ds_contents s @ bs \<or>
      rc = ER_DYNCOL_RESOURCE \<and> (\<exists>n. \<not> alloc_ok E n)))"

lemma writes_reserve_push:
  assumes "ds_inv s" "length bs \<le> n"
  shows "writes E s bs (let (failed, s1) = ma_dynstr_realloc E s n
      in if failed then Ok (ER_DYNCOL_RESOURCE, s1)
         else rmap (\<lambda>s2. (ER_DYNCOL_OK, s2)) (push_all ds_push s1 bs))"
proof (cases "ma_dynstr_realloc E s n")
  case (Pair failed s1)
  show ?thesis
  proof (cases failed)
    case True
    with Pair assms(1) show ?thesis
      by (auto simp: writes_def dest: ma_dynstr_realloc_fail)
  next
    case False
    with Pair obtain s' where "push_all ds_push s1 bs = (Ok s' :: (dyncol_rc, dynamic_string) res)" "ds_inv s'"
      "ds_contents s' = ds_contents s @ bs"
      using ds.reserve_push_all [of s E n s1 bs] assms by auto
    with Pair False show ?thesis by (auto simp: writes_def)
  qed
qed

lemma ds_put_ok:
  assumes "ds_inv s" "length bs \<le> ds_room s"
  shows "\<exists>s'. ds_put s bs = (Ok s' :: (dyncol_rc, dynamic_string) res) \<and> ds_inv s' \<and>
    ds_contents s' = ds_contents s @ bs"
proof -
  obtain buf where b: "ds_str s = Some buf" "length buf = ds_max_length s"
    "ds_length s \<le> ds_max_length s" "0 < ds_alloc_increment s"
    using assms(1) by (rule ds_invE)
  with assms(2) show ?thesis
    by (simp add: ds_put_def ds_buf_def ds_inv_def ds_contents_def ds_room_def mem_simps)
qed

lemma writes_reserve_put:
  assumes "ds_inv s" "length bs \<le> n"
  shows "writes E s bs (reserve_put E s n bs)"
proof (cases "ma_dynstr_realloc E s n")
  case (Pair failed s1)
  show ?thesis
  proof (cases failed)
    case True
    with Pair assms(1) show ?thesis
      by (auto simp: writes_def reserve_put_def dest: ma_dynstr_realloc_fail)
  next
    case False
    with Pair ma_dynstr_realloc_ok [of s E n s1] assms
    have "ds_inv s1" "ds_contents s1 = ds_contents s" "length bs \<le> ds_room s1" by auto
    with ds_put_ok [of s1 bs] Pair False show ?thesis
      by (auto simp: writes_def reserve_put_def)
  qed
qed

lemma writes_append_rc:
  assumes "ds_inv s"
  shows "writes E s bs (append_rc E s bs)"
proof -
  obtain r s' where r: "ma_dynstr_append_mem E s bs = (Ok (r, s') :: (dyncol_rc, bool \<times> dynamic_string) res)"
    "if r then s' = s else ds_inv s' \<and> ds_contents s' = ds_contents s @ bs"
    using ds.append_mem_ok [OF assms, of E bs] by blast
  then show ?thesis
    using append_mem_fail [OF assms, of E bs s'] by (cases r) (auto simp: writes_def append_rc_def)
qed

lemma writes_then:
  assumes "writes E s xs m" "\<And>s'. ds_inv s' \<Longrightarrow> writes E s' ys (f s')"
  shows "writes E s (xs @ ys) (rc_then m f)"
proof -
  from assms(1) obtain rc s' where m: "m = Ok (rc, s')"
    "rc = ER_DYNCOL_OK \<and> ds_inv s' \<and> ds_contents s' = ds_contents s @ xs \<or>
     rc = ER_DYNCOL_RESOURCE \<and> (\<exists>n. \<not> alloc_ok E n)"
    by (auto simp: writes_def)
  show ?thesis
  proof (cases "rc = ER_DYNCOL_OK")
    case True
    with m have "ds_inv s'" "ds_contents s' = ds_contents s @ xs" by auto
    with assms(2) [of s'] True m(1) show ?thesis
      by (auto simp: writes_def rc_then_def)
  next
    case False
    with m show ?thesis by (auto simp: writes_def rc_then_def)
  qed
qed

lemma length_date_image [simp]: "length (date_image t) = 3"
  by (simp add: date_image_def)

lemma length_time_image: "length (time_image f t) = (if f = dyncol_fmt_num \<or> t_second_part t \<noteq> 0 then 6 else 3)"
  by (simp add: time_image_def)

lemma data_store_writes:
  assumes "ds_inv s"
  shows "writes E s (value_image f v) (data_store E s v f)"
proof -
  note [simp] = length_var_uint_image
    length_uint_image var_uint_bytes_le_10 uint_bytes_le_8
  have uint: "writes E s (uint_image w) (dynamic_column_uint_store E s w)" for w
    using writes_reserve_push [OF assms, of "uint_image w" 8 E]
    unfolding dynamic_column_uint_store_def uint_store_loop_image by simp
  have var: "writes E s (var_uint_image w) (dynamic_column_var_uint_store E s w)" for w
    using writes_reserve_push [OF assms, of "var_uint_image w" 10 E]
    unfolding dynamic_column_var_uint_store_def var_uint_store_loop_image by simp
  have date: "ds_inv s' \<Longrightarrow> writes E s' (date_image (date_clear t)) (dynamic_column_date_store E s' t)" for t s'
    by (simp add: dynamic_column_date_store_def writes_reserve_put)
  have time: "ds_inv s' \<Longrightarrow> writes E s' (time_image f (time_clear t)) (dynamic_column_time_store E s' t f)" for t s'
    by (simp add: dynamic_column_time_store_def writes_reserve_put length_time_image)
  show ?thesis
  proof (cases v)
    case (DYN_COL_STRING nr bs)
    then show ?thesis
      by (simp add: dynamic_column_string_store_def writes_then [OF var writes_append_rc])
  next
    case (DYN_COL_DATETIME t)
    then show ?thesis
      by (simp add: dynamic_column_date_time_store_def writes_then [OF date time] assms)
  qed (simp_all add: uint date time assms dynamic_column_sint_store_def writes_reserve_put
        dynamic_column_double_store_def dynamic_column_dyncol_store_def writes_append_rc,
       simp_all add: writes_def assms)
qed


section \<open>Reading back what was written\<close>

fun valid_value :: "dyncol_value \<Rightarrow> bool" where
  "valid_value (DYN_COL_STRING nr bs) \<longleftrightarrow> nr < 2 ^ 32 \<and> mariadb_get_charset_by_nr nr \<noteq> None"
| "valid_value (DYN_COL_DATETIME t) \<longleftrightarrow> valid_date t \<and> valid_time t"
| "valid_value (DYN_COL_DATE t) \<longleftrightarrow> valid_date t"
| "valid_value (DYN_COL_TIME t) \<longleftrightarrow> valid_time t"
| "valid_value DYN_COL_DECIMAL \<longleftrightarrow> False"
| "valid_value _ \<longleftrightarrow> True"

text \<open>
  The fields a writer clears, or a reader does not store, come back as zero: only the date
  part of a date and the time part of a time survive.
\<close>

definition with_date :: "mysql_time \<Rightarrow> mysql_time \<Rightarrow> mysql_time" where
  "with_date t u = u\<lparr>t_day := t_day (date_clear t), t_month := t_month (date_clear t),
     t_year := t_year (date_clear t)\<rparr>"

definition with_time :: "mysql_time \<Rightarrow> mysql_time \<Rightarrow> mysql_time" where
  "with_time t u = u\<lparr>t_second_part := t_second_part (time_clear t),
     t_second := t_second (time_clear t), t_minute := t_minute (time_clear t),
     t_hour := t_hour (time_clear t), t_neg := t_neg (time_clear t)\<rparr>"

fun norm_value :: "dyncol_value \<Rightarrow> dyncol_value" where
  "norm_value (DYN_COL_DATETIME t) = DYN_COL_DATETIME
     (with_time t (with_date t (time_zero\<lparr>t_type := MYSQL_TIMESTAMP_DATETIME\<rparr>)))"
| "norm_value (DYN_COL_DATE t) = DYN_COL_DATE (with_date t (time_zero\<lparr>t_type := MYSQL_TIMESTAMP_DATE\<rparr>))"
| "norm_value (DYN_COL_TIME t) = DYN_COL_TIME (with_time t (time_zero\<lparr>t_type := MYSQL_TIMESTAMP_TIME\<rparr>))"
| "norm_value v = v"

lemma load1_drop:
  assumes "drop i buf = xs @ rest" "k < length xs"
  shows "load1 buf (i + k) = Ok (xs ! k)"
proof -
  have "i + k < length buf" using assms by (metis add.commute length_append length_drop
        less_diff_conv trans_less_add1)
  moreover have "buf ! (i + k) = (drop i buf) ! k" using calculation by simp
  ultimately show ?thesis using assms by (simp add: load1_def nth_append)
qed

lemma load_bytes_drop:
  assumes "drop i buf = xs @ rest" "n = length xs" "xs \<noteq> [] \<or> i \<le> length buf"
  shows "load_bytes buf i n = Ok xs"
proof -
  have "length buf - i = length xs + length rest" using arg_cong [OF assms(1), of length] by simp
  then have "i + n \<le> length buf" using assms(2,3) by (cases "i \<le> length buf") auto
  with assms show ?thesis by (simp add: load_bytes_def)
qed

lemma valid_date_clear [simp]: "valid_date t \<Longrightarrow> valid_date (date_clear t)"
  by (simp add: valid_date_def date_clear_def)

lemma valid_time_clear [simp]: "valid_time t \<Longrightarrow> valid_time (time_clear t)"
  by (simp add: valid_time_def time_clear_def)

lemma valid_time_date_clear [simp]: "valid_time (date_clear t) \<longleftrightarrow> valid_time t"
  by (simp add: valid_time_def date_clear_def)

lemma time_date_clear [simp]:
  "t_second_part (time_clear (date_clear t)) = t_second_part (time_clear t)"
  "t_second (time_clear (date_clear t)) = t_second (time_clear t)"
  "t_minute (time_clear (date_clear t)) = t_minute (time_clear t)"
  "t_hour (time_clear (date_clear t)) = t_hour (time_clear t)"
  "t_neg (time_clear (date_clear t)) = t_neg (time_clear t)"
  by (simp_all add: time_clear_def date_clear_def)

lemma time_image_date_clear: "time_image f (time_clear (date_clear t)) = time_image f (time_clear t)"
  by (simp add: time_image_def)

lemma date_read_image:
  assumes "drop data buf = date_image t @ rest" "valid_date t"
  shows "dynamic_column_date_read_internal u buf data 3 =
    Ok (u\<lparr>t_day := t_day t, t_month := t_month t, t_year := t_year t\<rparr>)"
proof -
  have v: "\<not> (31 < t_day t \<or> 12 < t_month t \<or> 9999 < t_year t)"
    using assms(2) by (auto simp: valid_date_def not_less)
  have l: "load1 buf data = (Ok (date_image t ! 0) :: (dyncol_rc, u8) res)"
    "load1 buf (data + 1) = (Ok (date_image t ! 1) :: (dyncol_rc, u8) res)"
    "load1 buf (data + 2) = (Ok (date_image t ! 2) :: (dyncol_rc, u8) res)"
    using load1_drop [OF assms(1), of 0] load1_drop [OF assms(1), of 1]
      load1_drop [OF assms(1), of 2] by simp_all
  show ?thesis
    unfolding dynamic_column_date_read_internal_def Let_def
    by (simp only: l rbind.simps date_image_fields [OF assms(2)] v simp_thms if_False)
qed

lemma length_time_image_ge: "2 < length (time_image f t)"
  by (simp add: length_time_image)

lemma time_read_image:
  assumes "drop data buf = time_image f t @ rest" "valid_time t"
  shows "dynamic_column_time_read_internal u buf data (length (time_image f t)) =
    Ok (u\<lparr>t_second_part := t_second_part t, t_second := t_second t, t_minute := t_minute t,
          t_hour := t_hour t, t_neg := t_neg t\<rparr>)"
proof -
  let ?i = "time_image f t"
  have v: "\<not> (59 < t_second t \<or> 59 < t_minute t \<or> 838 < t_hour t \<or> 999999 < t_second_part t)"
    using assms(2) by (auto simp: valid_time_def not_less)
  have l: "load1 buf data = (Ok (?i ! 0) :: (dyncol_rc, u8) res)"
    "load1 buf (data + 1) = (Ok (?i ! 1) :: (dyncol_rc, u8) res)"
    "load1 buf (data + 2) = (Ok (?i ! 2) :: (dyncol_rc, u8) res)"
    using load1_drop [OF assms(1), of 0] load1_drop [OF assms(1), of 1]
      load1_drop [OF assms(1), of 2] length_time_image_ge [of f t]
    by (auto simp del: length_greater_0_conv)
  show ?thesis
  proof (cases "f = dyncol_fmt_num \<or> t_second_part t \<noteq> 0")
    case True
    then have len: "length ?i = 6" by (simp add: length_time_image)
    have m: "load1 buf (data + 3) = (Ok (?i ! 3) :: (dyncol_rc, u8) res)"
      "load1 buf (data + 4) = (Ok (?i ! 4) :: (dyncol_rc, u8) res)"
      "load1 buf (data + 5) = (Ok (?i ! 5) :: (dyncol_rc, u8) res)"
      using load1_drop [OF assms(1), of 3] load1_drop [OF assms(1), of 4]
        load1_drop [OF assms(1), of 5] len by simp_all
    note fields = time_image_long_fields [OF assms(2) True]
    show ?thesis
      unfolding dynamic_column_time_read_internal_def len
      by (simp only: l m rbind.simps fields simp_thms if_True if_False) (use v in simp)
  next
    case False
    then have len: "length ?i = 3" and z: "t_second_part t = 0" by (simp_all add: length_time_image)
    have ne: "(3 :: nat) \<noteq> 6" by simp
    note fields = time_image_short_fields [OF assms(2) False]
    show ?thesis
      unfolding dynamic_column_time_read_internal_def len
      by (simp only: l rbind.simps fields simp_thms if_True if_False ne) (use v z in simp)
  qed
qed

lemma uint_read_full:
  assumes "drop data buf = uint_image v @ rest"
  shows "dynamic_column_uint_read buf data (length (uint_image v)) = Ok v"
  using uint_read_image [of data 0 buf v rest 0] assms uint_bytes_le_8 [of v]
  by (simp add: dynamic_column_uint_read_def length_uint_image)

lemma string_read_image:
  assumes "drop data buf = (var_uint_image (word_of_nat nr) @ bs) @ rest"
    and "nr < 2 ^ 32" "mariadb_get_charset_by_nr nr \<noteq> None"
  shows "dynamic_column_string_read buf data (length (var_uint_image (word_of_nat nr) @ bs)) = Ok (nr, bs)"
proof -
  let ?img = "var_uint_image (word_of_nat nr)"
  have pos: "0 < length ?img" by (simp add: var_uint_image.simps [of "word_of_nat nr"])
  have get: "dynamic_column_var_uint_get buf data (length (?img @ bs)) = Ok (word_of_nat nr, length ?img)"
    using var_uint_get_image [of data buf "word_of_nat nr" "bs @ rest" "length (?img @ bs)" 0 0]
      assms(1) var_uint_bytes_le_10 [of "word_of_nat nr"]
    by (simp add: dynamic_column_var_uint_get_def length_var_uint_image)
  have "unat (ucast (word_of_nat nr :: u64) :: u32) = nr"
    using assms(2) by (simp add: unsigned_ucast_eq unsigned_of_nat take_bit_nat_eq_self)
  moreover have "drop (data + length ?img) buf = bs @ rest"
    using arg_cong [OF assms(1), of "drop (length ?img)"] by (simp add: add.commute)
  moreover have "data + length ?img \<le> length buf"
    using arg_cong [OF assms(1), of length] pos by (auto simp: length_0_conv [symmetric] simp del: length_0_conv length_greater_0_conv)
  ultimately show ?thesis
    using get pos assms(3)
    by (auto simp: dynamic_column_string_read_def load_bytes_drop [of "data + length ?img" buf bs rest]
        dest: charset_nr_found)
qed

lemma get_value_image:
  assumes "valid_value v" "drop data buf = value_image f v @ rest" "data \<le> length buf"
  shows "dynamic_column_get_value (dyncol_type v) buf data (length (value_image f v)) = Ok (norm_value v)"
proof (cases v)
  case (DYN_COL_INT w)
  then show ?thesis using assms uint_read_full [of data buf "zigzag w" rest]
    by (simp add: dynamic_column_get_value_def dynamic_column_sint_read_def unzigzag_zigzag)
next
  case (DYN_COL_UINT w)
  then show ?thesis using assms uint_read_full [of data buf w rest]
    by (simp add: dynamic_column_get_value_def)
next
  case (DYN_COL_DOUBLE w)
  have "le_val (le_bytes 8 (unat w)) = unat w"
    using unat_u64_lt [of w] by (simp add: le_val_bytes)
  then show ?thesis
    using DYN_COL_DOUBLE assms
    by (simp add: dynamic_column_get_value_def dynamic_column_double_read_def
        load_bytes_drop [of data buf "le_bytes 8 (unat w)" rest 8])
next
  case (DYN_COL_STRING nr bs)
  then show ?thesis using assms string_read_image [of data buf nr bs rest]
    by (simp add: dynamic_column_get_value_def)
next
  case (DYN_COL_DATETIME t)
  let ?d = "date_image (date_clear t)" and ?i = "time_image f (time_clear t)"
  have img: "value_image f v = ?d @ ?i"
    using DYN_COL_DATETIME by (simp add: time_image_date_clear)
  have 1: "drop data buf = ?d @ (?i @ rest)" using assms(2) img by simp
  have 2: "drop (data + 3) buf = ?i @ rest"
    using arg_cong [OF 1, of "drop 3"] by (simp add: add.commute)
  have len: "length (value_image f v) - 3 = length ?i"
    "length (value_image f v) = 9 \<or> length (value_image f v) = 6"
    by (auto simp: img length_time_image)
  show ?thesis
    using DYN_COL_DATETIME assms(1) len date_read_image [OF 1] time_read_image [OF 2]
    by (auto simp: dynamic_column_get_value_def dynamic_column_date_time_read_def
          with_date_def with_time_def)
next
  case (DYN_COL_DATE t)
  then show ?thesis using assms date_read_image [of data buf "date_clear t" rest]
    by (simp add: dynamic_column_get_value_def dynamic_column_date_read_def with_date_def)
next
  case (DYN_COL_TIME t)
  then show ?thesis using assms time_read_image [of data buf f "time_clear t" rest]
    by (simp add: dynamic_column_get_value_def dynamic_column_time_read_def with_time_def)
next
  case (DYN_COL_DYNCOL bs)
  then show ?thesis using assms
    by (simp add: dynamic_column_get_value_def dynamic_column_dyncol_read_def
        load_bytes_drop [of data buf bs rest])
qed (use assms in \<open>auto simp: dynamic_column_get_value_def\<close>)

section \<open>Writing without moving the block\<close>

text \<open>
  When the block has room for the value and the reservation, a writer succeeds whatever the
  allocator does, and the block stays where it is.
\<close>

definition appends :: "dynamic_string \<Rightarrow> bytes \<Rightarrow> (dyncol_rc, dyncol_rc \<times> dynamic_string) res \<Rightarrow> bool" where
  "appends s bs r \<longleftrightarrow> (\<exists>s'. r = Ok (ER_DYNCOL_OK, s') \<and> ds_inv s' \<and>
     ds_contents s' = ds_contents s @ bs \<and> ds_max_length s' = ds_max_length s)"

lemma realloc_noop: "ds_inv s \<Longrightarrow> n \<le> ds_room s \<Longrightarrow> ma_dynstr_realloc E s n = (False, s)"
  by (auto simp: ma_dynstr_realloc_def ds_room_def ds_inv_def)

lemma ds_push_max: "ds_push s b = Ok s' \<Longrightarrow> ds_max_length s' = ds_max_length s"
  by (auto simp: ds_push_def res_simps)

lemma push_all_max: "push_all ds_push s bs = Ok s' \<Longrightarrow> ds_max_length s' = ds_max_length s"
  by (induction bs arbitrary: s) (auto simp: res_simps dest: ds_push_max)

lemma appends_reserve_push:
  assumes "ds_inv s" "length bs \<le> n" "n \<le> ds_room s"
  shows "appends s bs (let (failed, s1) = ma_dynstr_realloc E s n
      in if failed then Ok (ER_DYNCOL_RESOURCE, s1)
         else rmap (\<lambda>s2. (ER_DYNCOL_OK, s2)) (push_all ds_push s1 bs))"
proof -
  obtain s' where "push_all ds_push s bs = (Ok s' :: (dyncol_rc, dynamic_string) res)" "ds_inv s'"
    "ds_contents s' = ds_contents s @ bs"
    using ds.push_all_ok [OF assms(1), of bs] assms by auto
  with push_all_max [OF this(1)] show ?thesis
    by (simp add: realloc_noop [OF assms(1,3)] appends_def)
qed

lemma appends_reserve_put:
  assumes "ds_inv s" "length bs \<le> n" "n \<le> ds_room s"
  shows "appends s bs (reserve_put E s n bs)"
proof -
  obtain s' where s': "ds_put s bs = (Ok s' :: (dyncol_rc, dynamic_string) res)" "ds_inv s'"
    "ds_contents s' = ds_contents s @ bs"
    using ds_put_ok [OF assms(1), of bs] assms by auto
  moreover have "ds_max_length s' = ds_max_length s"
    using s'(1) by (auto simp: ds_put_def res_simps)
  ultimately show ?thesis
    by (simp add: realloc_noop [OF assms(1,3)] reserve_put_def appends_def)
qed

lemma appends_append_rc:
  assumes "ds_inv s" "length bs < ds_room s"
  shows "appends s bs (append_rc E s bs)"
proof -
  obtain buf where b: "ds_str s = Some buf" "length buf = ds_max_length s"
    "ds_length s \<le> ds_max_length s" "0 < ds_alloc_increment s"
    using assms(1) by (rule ds_invE)
  have "ds_length s + length bs < ds_max_length s" "\<not> ds_max_length s \<le> ds_length s + length bs"
    using assms(2) by (simp_all add: ds_room_def)
  with b show ?thesis
    by (simp add: appends_def append_rc_def ma_dynstr_append_mem_def ds_buf_def ds_inv_def
        ds_contents_def Let_def mem_simps)
qed

lemma appends_room:
  "appends s bs (Ok (rc, s')) \<Longrightarrow> ds_inv s \<Longrightarrow> ds_room s' = ds_room s - length bs"
proof -
  assume a: "appends s bs (Ok (rc, s'))" "ds_inv s"
  then have c: "ds_inv s'" "ds_contents s' = ds_contents s @ bs" "ds_max_length s' = ds_max_length s"
    by (auto simp: appends_def)
  have "ds_length s' = ds_length s + length bs"
    using arg_cong [OF c(2), of length] c(1) a(2) by simp
  with c(3) show ?thesis by (simp add: ds_room_def)
qed

lemma appends_then:
  assumes "appends s xs m" "ds_inv s"
    "\<And>s'. ds_inv s' \<Longrightarrow> ds_room s' = ds_room s - length xs \<Longrightarrow> appends s' ys (f s')"
  shows "appends s (xs @ ys) (rc_then m f)"
proof -
  from assms(1) obtain s' where m: "m = Ok (ER_DYNCOL_OK, s')" "ds_inv s'"
    "ds_contents s' = ds_contents s @ xs" "ds_max_length s' = ds_max_length s"
    by (auto simp: appends_def)
  have "ds_room s' = ds_room s - length xs"
    using appends_room [of s xs ER_DYNCOL_OK s'] assms(1,2) m(1) by simp
  with assms(3) [OF m(2)] m show ?thesis by (auto simp: appends_def rc_then_def)
qed

lemma data_store_appends:
  assumes "ds_inv s" "length (value_image f v) + 10 < ds_room s"
  shows "appends s (value_image f v) (data_store E s v f)"
proof -
  note [simp] = length_var_uint_image
    length_uint_image var_uint_bytes_le_10 uint_bytes_le_8
  have uint: "appends s (uint_image w) (dynamic_column_uint_store E s w)" for w
    using appends_reserve_push [OF assms(1), of "uint_image w" 8 E] assms(2)
    unfolding dynamic_column_uint_store_def uint_store_loop_image by simp
  have var: "appends s (var_uint_image w) (dynamic_column_var_uint_store E s w)" for w
    using appends_reserve_push [OF assms(1), of "var_uint_image w" 10 E] assms(2)
    unfolding dynamic_column_var_uint_store_def var_uint_store_loop_image by simp
  have date: "appends s (date_image (date_clear t)) (dynamic_column_date_store E s t)" for t
    using assms by (simp add: dynamic_column_date_store_def appends_reserve_put)
  have time: "ds_inv s' \<Longrightarrow> 6 \<le> ds_room s' \<Longrightarrow>
      appends s' (time_image f (time_clear t)) (dynamic_column_time_store E s' t f)" for t s'
    by (simp add: dynamic_column_time_store_def appends_reserve_put length_time_image)
  show ?thesis
  proof (cases v)
    case (DYN_COL_STRING nr bs)
    with assms show ?thesis
      by (auto simp: dynamic_column_string_store_def intro!: appends_then [OF var] appends_append_rc)
  next
    case (DYN_COL_DATETIME t)
    with assms show ?thesis
      by (auto simp: dynamic_column_date_time_store_def intro!: appends_then [OF date] time)
  next
    case DYN_COL_NULL
    with assms show ?thesis by (simp add: appends_def)
  next
    case DYN_COL_DECIMAL
    with assms show ?thesis by (simp add: appends_def)
  qed (use assms in \<open>simp_all add: uint date time dynamic_column_sint_store_def appends_reserve_put
        dynamic_column_double_store_def dynamic_column_dyncol_store_def appends_append_rc\<close>)
qed

section \<open>Properties\<close>

lemma writes_drop:
  assumes "writes E s bs (Ok (ER_DYNCOL_OK, s'))" "ds_inv s"
  shows "ds_inv s' \<and> ds_length s' = ds_length s + length bs \<and>
    take (ds_length s) (the (ds_str s')) = ds_contents s \<and>
    (\<exists>rest. drop (ds_length s) (the (ds_str s')) = bs @ rest)"
proof -
  have inv: "ds_inv s'" and c: "ds_contents s' = ds_contents s @ bs"
    using assms(1) by (auto simp: writes_def)
  from inv obtain buf where b: "ds_str s' = Some buf" "length buf = ds_max_length s'"
    "ds_length s' \<le> ds_max_length s'" by (rule ds_invE)
  have len: "ds_length s' = ds_length s + length bs"
    using arg_cong [OF c, of length] inv assms(2) by simp
  have l: "length (ds_contents s) = ds_length s" using assms(2) by simp
  have t: "take (ds_length s') buf = ds_contents s @ bs" using c b(1) by (simp add: ds_contents_def)
  have "take (ds_length s) buf = take (ds_length s) (take (ds_length s') buf)"
    using len by (simp add: min_def)
  also have "\<dots> = ds_contents s" unfolding t using l by simp
  finally have 1: "take (ds_length s) buf = ds_contents s" .
  have "buf = (ds_contents s @ bs) @ drop (ds_length s') buf"
    unfolding t [symmetric] by simp
  then have "drop (ds_length s) buf = bs @ drop (ds_length s') buf"
    using l by (metis append.assoc append_eq_conv_conj)
  with 1 inv len b(1) show ?thesis by auto
qed

lemma value_len_image: "length (value_image f v) \<le> dynamic_column_value_len v f"
  by (cases v) (auto simp: length_uint_image length_var_uint_image dynamic_column_sint_bytes_def
        length_time_image time_clear_def date_clear_def)

text \<open>
  C6. Writing a value at the end of a usable record string never leaves the block, whatever
  the value and whatever the allocator does. The only error is
  \<open>ER_DYNCOL_RESOURCE\<close> after a refused allocation; otherwise the string keeps its old
  bytes and gains the image of the value, no longer than the size that
  \<open>dynamic_column_value_len\<close> announces.
\<close>
theorem data_store_correct:
  assumes "ds_inv s"
  shows "\<exists>rc s'. data_store E s v f = Ok (rc, s') \<and>
    (rc = ER_DYNCOL_OK \<and> ds_inv s' \<and> ds_contents s' = ds_contents s @ value_image f v \<and>
       ds_length s' \<le> ds_length s + dynamic_column_value_len v f \<or>
     rc = ER_DYNCOL_RESOURCE \<and> (\<exists>n. \<not> alloc_ok E n))"
proof -
  obtain rc s' where r: "data_store E s v f = Ok (rc, s')"
    "rc = ER_DYNCOL_OK \<and> ds_inv s' \<and> ds_contents s' = ds_contents s @ value_image f v \<or>
     rc = ER_DYNCOL_RESOURCE \<and> (\<exists>n. \<not> alloc_ok E n)"
    using data_store_writes [OF assms, of E f v] by (auto simp: writes_def)
  have "ds_length s' \<le> ds_length s + dynamic_column_value_len v f"
    if "ds_inv s'" "ds_contents s' = ds_contents s @ value_image f v"
    using arg_cong [OF that(2), of length] that(1) assms value_len_image [of f v] by simp
  with r show ?thesis by blast
qed

theorem data_store_correct_witness:
  "ds_inv ds_sample \<and>
   (\<exists>rc s'. data_store all_ok ds_sample (DYN_COL_UINT 0x1234) dyncol_fmt_num = Ok (rc, s') \<and>
    (rc = ER_DYNCOL_OK \<and> ds_inv s' \<and>
       ds_contents s' = [1, 2] @ value_image dyncol_fmt_num (DYN_COL_UINT 0x1234) \<and>
       ds_length s' \<le> 2 + dynamic_column_value_len (DYN_COL_UINT 0x1234) dyncol_fmt_num \<or>
     rc = ER_DYNCOL_RESOURCE \<and> (\<exists>n. \<not> alloc_ok all_ok n)))"
proof -
  have "ds_contents ds_sample = [1, 2]" "ds_length ds_sample = 2"
    by (simp_all add: ds_contents_def ds_sample_def)
  then show ?thesis
    using data_store_correct [OF ds_sample_inv, of all_ok "DYN_COL_UINT 0x1234" dyncol_fmt_num]
      ds_sample_inv by simp
qed

text \<open>
  C5. Round trip of a stored value: from what \<open>data_store\<close> wrote to a well-formed string, \<open>dynamic_column_get_value\<close>
  reads back, from the index and over the length it occupies, the \<open>norm_value\<close> of the value,
  for every \<open>valid_value\<close>: one whose fields are in the ranges of the format (a known character
  set; day, month, year, hour, minute, second and microsecond in range) and that is not a
  decimal. A date or time comes back with the fields its type or its time type does not carry set
  to zero and its time type set; only values of the other types come back unchanged.
\<close>
theorem value_roundtrip:
  assumes "ds_inv s" "valid_value v" "data_store E s v f = Ok (ER_DYNCOL_OK, s')"
  shows "dynamic_column_get_value (dyncol_type v) (the (ds_str s')) (ds_length s)
    (ds_length s' - ds_length s) = Ok (norm_value v)"
proof -
  have w: "writes E s (value_image f v) (Ok (ER_DYNCOL_OK, s'))"
    using data_store_writes [OF assms(1), of E f v] assms(3) by simp
  obtain rest where d: "drop (ds_length s) (the (ds_str s')) = value_image f v @ rest"
    and len: "ds_length s' = ds_length s + length (value_image f v)" and inv: "ds_inv s'"
    using writes_drop [OF w assms(1)] by auto
  have "ds_length s \<le> length (the (ds_str s'))"
    using inv len by (auto elim!: ds_invE)
  from get_value_image [OF assms(2) d this] show ?thesis by (simp add: len)
qed

definition sample_time :: mysql_time where
  "sample_time = \<lparr>t_year = 2024, t_month = 12, t_day = 31, t_hour = 23, t_minute = 59,
     t_second = 58, t_second_part = 999999, t_neg = False, t_type = MYSQL_TIMESTAMP_DATETIME\<rparr>"

definition ds_sample_dt :: dynamic_string where
  "ds_sample_dt = \<lparr>ds_str = Some [1, 2, 159, 209, 15, 63, 66, 175, 239, 23, 0, 0],
     ds_length = 11, ds_max_length = 12, ds_alloc_increment = 4\<rparr>"

theorem value_roundtrip_witness:
  "data_store all_ok ds_sample (DYN_COL_DATETIME sample_time) dyncol_fmt_str
     = Ok (ER_DYNCOL_OK, ds_sample_dt) \<and>
   dynamic_column_get_value 6 (the (ds_str ds_sample_dt)) 2 9 = Ok (DYN_COL_DATETIME sample_time)"
proof -
  have v: "valid_value (DYN_COL_DATETIME sample_time)" by code_simp
  have st: "data_store all_ok ds_sample (DYN_COL_DATETIME sample_time) dyncol_fmt_str
     = Ok (ER_DYNCOL_OK, ds_sample_dt)" by code_simp
  have n: "norm_value (DYN_COL_DATETIME sample_time) = DYN_COL_DATETIME sample_time"
    "ds_length ds_sample = 2" "ds_length ds_sample_dt = 11" by code_simp+
  show ?thesis
    using value_roundtrip [OF ds_sample_inv v st, unfolded n dyncol_type.simps] st by simp
qed

text \<open>
  Variable length integers: the writer needs at most ten bytes, exactly as many as
  \<open>dynamic_column_var_uint_bytes\<close> announces, and the reader gives back the number and the
  count of its bytes from any buffer that starts with them, ignoring what follows.
\<close>
theorem var_uint_roundtrip:
  assumes "drop data buf = var_uint_image v @ rest" "length (var_uint_image v) \<le> n"
  shows "dynamic_column_var_uint_get buf data n = Ok (v, dynamic_column_var_uint_bytes v) \<and>
    dynamic_column_var_uint_bytes v \<le> 10"
  using var_uint_get_image [of data buf v rest n 0 0] assms var_uint_bytes_le_10 [of v]
  by (simp add: dynamic_column_var_uint_get_def length_var_uint_image)

theorem var_uint_roundtrip_witness:
  "dynamic_column_var_uint_get [9, 0xAC, 0x02, 7] 1 3 = Ok (300, 2)"
proof -
  have img: "var_uint_image 300 = [0xAC, 0x02]" "dynamic_column_var_uint_bytes 300 = 2"
    by code_simp+
  show ?thesis
    using var_uint_roundtrip [of 1 "[9, 0xAC, 0x02, 7]" 300 "[7]" 3] by (simp add: img)
qed

end
