(* ===== verification/Dyncol_Format.thy ===== *)
theory Dyncol_Format
  imports Dyncol_Values
begin

text \<open>
  The two record formats of \<^verbatim>\<open>mariadb_dyncol.c\<close> (lines 84--700 and 1596--1625): the
  descriptor of a record (\<open>DYN_HEADER\<close>), the functions of the numeric and of the named
  format, and the table \<open>fmt_data\<close> of function pointers. The pointers into the record
  (\<open>header\<close>, \<open>nmpool\<close>, \<open>dtpool\<close>, \<open>data_end\<close>, \<open>entry\<close>, \<open>data\<close>, \<open>name\<close>) are indices
  from \<open>str->str\<close>. The record of function pointers is polymorphic in the key: a column
  number (\<open>uint\<close>, a natural below \<open>2 ^ 32\<close>) or a column name (the bytes of a
  \<open>LEX_STRING\<close>).

  The locale \<open>column_format\<close> is the contract of such a table, as the record writer and the
  readers rely on it; it is interpreted on both tables.
\<close>

section \<open>The descriptor of a record\<close>

record dyn_header =
  h_header :: nat
  h_nmpool :: nat
  h_dtpool :: nat
  h_data_end :: nat
  h_offset_size :: nat
  h_entry_size :: nat
  h_header_size :: nat
  h_nmpool_size :: nat
  h_data_size :: nat
  h_format :: dyncol_format
  h_column_count :: nat
  h_entry :: nat
  h_data :: nat
  h_name :: nat
  h_offset :: nat
  h_length :: nat
  h_type :: nat

text \<open>The descriptor after \<open>memset(&header, 0, sizeof(header))\<close>.\<close>

definition header_zero :: dyn_header where
  "header_zero = \<lparr>h_header = 0, h_nmpool = 0, h_dtpool = 0, h_data_end = 0, h_offset_size = 0,
     h_entry_size = 0, h_header_size = 0, h_nmpool_size = 0, h_data_size = 0,
     h_format = dyncol_fmt_num, h_column_count = 0, h_entry = 0, h_data = 0, h_name = 0,
     h_offset = 0, h_length = 0, h_type = 0\<rparr>"

text \<open>A store through a pointer into the record.\<close>

definition ds_store :: "dynamic_string \<Rightarrow> nat \<Rightarrow> bytes \<Rightarrow> (dyncol_rc, dynamic_string) res" where
  "ds_store s i bs = rbind (ds_buf s) (\<lambda>buf. rmap (\<lambda>buf'. s\<lparr>ds_str := Some buf'\<rparr>) (store_bytes buf i bs))"

section \<open>Keys\<close>

definition name_size_num :: "nat \<Rightarrow> nat" where
  "name_size_num key = 0"

definition name_size_named :: "bytes \<Rightarrow> nat" where
  "name_size_named key = length key"

text \<open>The difference of two \<open>uint\<close> wraps and is converted to \<open>int\<close>.\<close>

definition column_sort_num :: "nat \<Rightarrow> nat \<Rightarrow> int" where
  "column_sort_num a b = sint (word_of_nat a - word_of_nat b :: u32)"

text \<open>\<open>memcmp\<close> on two blocks of the same length: the sign of the first difference.\<close>

fun memcmp :: "bytes \<Rightarrow> bytes \<Rightarrow> int" where
  "memcmp (x # xs) (y # ys) = (if x < y then -1 else if y < x then 1 else memcmp xs ys)"
| "memcmp _ _ = 0"

definition mariadb_dyncol_column_cmp_named :: "bytes \<Rightarrow> bytes \<Rightarrow> int" where
  "mariadb_dyncol_column_cmp_named s1 s2 =
     (let rc = (if length s2 < length s1 then 1 else if length s1 < length s2 then -1 else 0)
      in if rc = 0 then memcmp s1 s2 else rc)"

definition column_sort_named :: "bytes \<Rightarrow> bytes \<Rightarrow> int" where
  "column_sort_named a b = mariadb_dyncol_column_cmp_named a b"

definition check_limit_num :: "nat \<Rightarrow> bool" where
  "check_limit_num key \<longleftrightarrow> 0xFFFF < key"

text \<open>\<open>MAX_NAME_LENGTH\<close> is 65535 / 4.\<close>

definition check_limit_named :: "bytes \<Rightarrow> bool" where
  "check_limit_named key \<longleftrightarrow> 16383 < length key"

section \<open>The fixed header\<close>

definition set_fixed_header ::
  "dynamic_string \<Rightarrow> nat \<Rightarrow> nat \<Rightarrow> (dyncol_rc, dynamic_string) res" where
  "set_fixed_header s offset_size column_count =
     rbind (ds_buf s) (\<lambda>buf. rbind (load1 buf 0) (\<lambda>flags.
     rbind (ds_store s 0 [(flags AND NOT 3) OR word_of_nat (size_sub offset_size 1)]) (\<lambda>s1.
     ds_store s1 1 (le_bytes 2 column_count))))"

definition set_fixed_header_num ::
  "dynamic_string \<Rightarrow> dyn_header \<Rightarrow> (dyncol_rc, dynamic_string \<times> dyn_header) res" where
  "set_fixed_header_num s hdr =
     rmap (\<lambda>s1. let h = 3; d = h + h_header_size hdr in
            (s1, hdr\<lparr>h_header := h, h_nmpool := d, h_dtpool := d\<rparr>))
       (set_fixed_header s (h_offset_size hdr) (h_column_count hdr))"

definition set_fixed_header_named ::
  "dynamic_string \<Rightarrow> dyn_header \<Rightarrow> (dyncol_rc, dynamic_string \<times> dyn_header) res" where
  "set_fixed_header_named s hdr =
     rbind (ds_buf s) (\<lambda>buf. rbind (load1 buf 0) (\<lambda>flags.
     rbind (ds_store s 0 [(flags AND NOT 27) OR word_of_nat (size_sub (h_offset_size hdr) 2) OR 4])
       (\<lambda>s1. rbind (ds_store s1 1 (le_bytes 2 (h_column_count hdr)))
       (\<lambda>s2. rbind (ds_store s2 3 (le_bytes 2 (h_nmpool_size hdr)))
       (\<lambda>s3. let h = 5; n = h + h_header_size hdr; d = n + h_nmpool_size hdr in
             Ok (s3, hdr\<lparr>h_header := h, h_nmpool := n, h_dtpool := d\<rparr>))))))"

section \<open>Type and offset of an entry\<close>

text \<open>
  \<open>ulong\<close> has 32 bits: the shifted offset is cut there. A failing call returns before it
  stores anything.
\<close>

definition type_and_offset_store_num ::
  "dynamic_string \<Rightarrow> nat \<Rightarrow> nat \<Rightarrow> nat \<Rightarrow> nat \<Rightarrow> (dyncol_rc, bool \<times> dynamic_string) res" where
  "type_and_offset_store_num s place offset_size type offset =
     (let val = unat (push_bit 3 (word_of_nat offset :: u32) OR (word_of_nat type - 1));
          p = place + 2;
          put = (\<lambda>lim n. if lim \<le> offset then Ok (True, s)
                         else rmap (\<lambda>s'. (False, s')) (ds_store s p (le_bytes n val)))
      in if offset_size = 1 then put 0x1f 1
         else if offset_size = 2 then put 0x1fff 2
         else if offset_size = 3 then put 0x1fffff 3
         else if offset_size = 4 then put 0x1fffffff 4
         else Ok (True, s))"

definition type_and_offset_store_named ::
  "dynamic_string \<Rightarrow> nat \<Rightarrow> nat \<Rightarrow> nat \<Rightarrow> nat \<Rightarrow> (dyncol_rc, bool \<times> dynamic_string) res" where
  "type_and_offset_store_named s place offset_size type offset =
     (let val = unat (push_bit 4 (word_of_nat offset :: u32) OR (word_of_nat type - 1));
          p = place + 2;
          put = (\<lambda>lim n. if lim \<le> offset then Ok (True, s)
                         else rmap (\<lambda>s'. (False, s')) (ds_store s p (le_bytes n val)))
      in if offset_size = 2 then put 0xfff 2
         else if offset_size = 3 then put 0xfffff 3
         else if offset_size = 4 then put 0xfffffff 4
         else if offset_size = 5 then put 0xfffffffff 5
         else Ok (True, s))"

text \<open>The readers return the flag, the type and the offset.\<close>

definition type_and_offset_read_num ::
  "bytes \<Rightarrow> nat \<Rightarrow> nat \<Rightarrow> (dyncol_rc, bool \<times> nat \<times> nat) res" where
  "type_and_offset_read_num buf place offset_size =
     (let got = (\<lambda>lim val. (lim \<le> val div 8, val mod 8 + 1, val div 8))
      in if offset_size = 1 then rmap (\<lambda>b. got 0x1f (unat b)) (load1 buf place)
         else if offset_size = 2 then rmap (got 0x1fff) (uint2korr buf place)
         else if offset_size = 3 then rmap (got 0x1fffff) (uint3korr buf place)
         else if offset_size = 4 then rmap (got 0x1fffffff) (uint4korr buf place)
         else Ok (True, 0, 0))"

definition type_and_offset_read_named ::
  "bytes \<Rightarrow> nat \<Rightarrow> nat \<Rightarrow> (dyncol_rc, bool \<times> nat \<times> nat) res" where
  "type_and_offset_read_named buf place offset_size =
     (let got = (\<lambda>lim val. (lim \<le> val div 16, val mod 16 + 1, val div 16))
      in if offset_size = 2 then rmap (got 0xfff) (uint2korr buf place)
         else if offset_size = 3 then rmap (got 0xfffff) (uint3korr buf place)
         else if offset_size = 4 then rmap (got 0xfffffff) (uint4korr buf place)
         else if offset_size = 5 then rmap (got 0xfffffffff) (uint5korr buf place)
         else Ok (True, 0, 0))"

definition put_header_entry_num ::
  "dynamic_string \<Rightarrow> dyn_header \<Rightarrow> nat \<Rightarrow> nat \<Rightarrow> nat
     \<Rightarrow> (dyncol_rc, bool \<times> dynamic_string \<times> dyn_header) res" where
  "put_header_entry_num s hdr key type offset =
     rbind (ds_store s (h_entry hdr) (le_bytes 2 key)) (\<lambda>s1.
     rbind (type_and_offset_store_num s1 (h_entry hdr) (h_offset_size hdr) type offset) (\<lambda>(failed, s2).
       if failed then Ok (True, s2, hdr)
       else Ok (False, s2, hdr\<lparr>h_entry := h_entry hdr + h_entry_size hdr\<rparr>)))"

definition put_header_entry_named ::
  "dynamic_string \<Rightarrow> dyn_header \<Rightarrow> bytes \<Rightarrow> nat \<Rightarrow> nat
     \<Rightarrow> (dyncol_rc, bool \<times> dynamic_string \<times> dyn_header) res" where
  "put_header_entry_named s hdr key type offset =
     rbind (ds_store s (h_entry hdr) (le_bytes 2 (h_name hdr - h_nmpool hdr))) (\<lambda>s1.
     rbind (ds_store s1 (h_name hdr) key) (\<lambda>s2.
     rbind (type_and_offset_store_named s2 (h_entry hdr) (h_offset_size hdr) type offset) (\<lambda>(failed, s3).
       if failed then Ok (True, s3, hdr)
       else Ok (False, s3, hdr\<lparr>h_entry := h_entry hdr + h_entry_size hdr,
                               h_name := h_name hdr + length key\<rparr>))))"

definition dynamic_column_offset_bytes_num :: "nat \<Rightarrow> nat" where
  "dynamic_column_offset_bytes_num data_length =
     (if data_length < 0x1f then 1 else if data_length < 0x1fff then 2
      else if data_length < 0x1fffff then 3 else if data_length < 0x1fffffff then 4 else 5)"

definition dynamic_column_offset_bytes_named :: "nat \<Rightarrow> nat" where
  "dynamic_column_offset_bytes_named data_length =
     (if data_length < 0xfff then 2 else if data_length < 0xfffff then 3
      else if data_length < 0xfffffff then 4 else if data_length < 0xfffffffff then 5 else 6)"

section \<open>The table of format functions\<close>

record 'k service_funcs =
  fmt_format :: dyncol_format
  fixed_hdr :: nat
  fixed_hdr_entry :: nat
  max_offset_size :: nat
  name_size :: "'k \<Rightarrow> nat"
  column_sort :: "'k \<Rightarrow> 'k \<Rightarrow> int"
  check_limit :: "'k \<Rightarrow> bool"
  set_fixed_hdr :: "dynamic_string \<Rightarrow> dyn_header \<Rightarrow> (dyncol_rc, dynamic_string \<times> dyn_header) res"
  put_header_entry :: "dynamic_string \<Rightarrow> dyn_header \<Rightarrow> 'k \<Rightarrow> nat \<Rightarrow> nat
    \<Rightarrow> (dyncol_rc, bool \<times> dynamic_string \<times> dyn_header) res"
  dynamic_column_offset_bytes :: "nat \<Rightarrow> nat"
  type_and_offset_read :: "bytes \<Rightarrow> nat \<Rightarrow> nat \<Rightarrow> (dyncol_rc, bool \<times> nat \<times> nat) res"

definition fmt_num :: "nat service_funcs" where
  "fmt_num = \<lparr>fmt_format = dyncol_fmt_num, fixed_hdr = 3, fixed_hdr_entry = 2,
     max_offset_size = 4, name_size = name_size_num, column_sort = column_sort_num,
     check_limit = check_limit_num, set_fixed_hdr = set_fixed_header_num,
     put_header_entry = put_header_entry_num,
     dynamic_column_offset_bytes = dynamic_column_offset_bytes_num,
     type_and_offset_read = type_and_offset_read_num\<rparr>"

definition fmt_str :: "bytes service_funcs" where
  "fmt_str = \<lparr>fmt_format = dyncol_fmt_str, fixed_hdr = 5, fixed_hdr_entry = 2,
     max_offset_size = 5, name_size = name_size_named, column_sort = column_sort_named,
     check_limit = check_limit_named, set_fixed_hdr = set_fixed_header_named,
     put_header_entry = put_header_entry_named,
     dynamic_column_offset_bytes = dynamic_column_offset_bytes_named,
     type_and_offset_read = type_and_offset_read_named\<rparr>"

text \<open>The fields a reader selects with the format of the record: \<open>fmt_data[hdr->format]\<close>.\<close>

fun fmt_fixed_hdr :: "dyncol_format \<Rightarrow> nat" where
  "fmt_fixed_hdr dyncol_fmt_num = fixed_hdr fmt_num"
| "fmt_fixed_hdr dyncol_fmt_str = fixed_hdr fmt_str"

fun fmt_fixed_hdr_entry :: "dyncol_format \<Rightarrow> nat" where
  "fmt_fixed_hdr_entry dyncol_fmt_num = fixed_hdr_entry fmt_num"
| "fmt_fixed_hdr_entry dyncol_fmt_str = fixed_hdr_entry fmt_str"

fun fmt_type_and_offset_read ::
  "dyncol_format \<Rightarrow> bytes \<Rightarrow> nat \<Rightarrow> nat \<Rightarrow> (dyncol_rc, bool \<times> nat \<times> nat) res" where
  "fmt_type_and_offset_read dyncol_fmt_num = type_and_offset_read fmt_num"
| "fmt_type_and_offset_read dyncol_fmt_str = type_and_offset_read fmt_str"

section \<open>Reading the header of a record\<close>

text \<open>\<open>str->str[0] & ~DYNCOL_FLG_KNOWN\<close> on a signed \<open>char\<close>: any bit but the low three.\<close>

definition read_fixed_header ::
  "dyn_header \<Rightarrow> dynamic_string \<Rightarrow> (dyncol_rc, bool \<times> dyn_header) res" where
  "read_fixed_header hdr s =
     (if ds_length s < 1 then Ok (True, hdr)
      else rbind (ds_buf s) (\<lambda>buf. rbind (load1 buf 0) (\<lambda>flags.
        if flags AND NOT 7 \<noteq> 0 then Ok (True, hdr)
        else let fm = (if flags AND 4 \<noteq> 0 then dyncol_fmt_str else dyncol_fmt_num);
                 h1 = hdr\<lparr>h_format := fm\<rparr> in
             if ds_length s < fmt_fixed_hdr fm then Ok (True, h1)
             else rbind (uint2korr buf 1) (\<lambda>cc.
                  rbind (if fm = dyncol_fmt_str then uint2korr buf 3 else Ok 0) (\<lambda>nm.
                  Ok (False, h1\<lparr>h_offset_size := unat (flags AND 3) + 1 +
                                    (if fm = dyncol_fmt_str then 1 else 0),
                                h_column_count := cc, h_nmpool_size := nm\<rparr>))))))"

definition init_read_hdr ::
  "dyn_header \<Rightarrow> dynamic_string \<Rightarrow> (dyncol_rc, dyn_header) res" where
  "init_read_hdr hdr s =
     rbind (read_fixed_header hdr s) (\<lambda>(bad, h).
       if bad then Err ER_DYNCOL_FORMAT
       else let hd = fmt_fixed_hdr (h_format h);
                es = h_offset_size h + fmt_fixed_hdr_entry (h_format h);
                hs = es * h_column_count h;
                np = hd + hs;
                dt = np + h_nmpool_size h
            in Ok (h\<lparr>h_header := hd, h_entry_size := es, h_header_size := hs, h_nmpool := np,
                     h_dtpool := dt,
                     h_data_size := size_sub (size_sub (size_sub (ds_length s) hd) hs) (h_nmpool_size h),
                     h_data_end := ds_length s\<rparr>))"

definition mariadb_dyncol_has_names :: "dynamic_string \<Rightarrow> (dyncol_rc, bool) res" where
  "mariadb_dyncol_has_names s =
     (if ds_length s < 1 then Ok False
      else rbind (ds_buf s) (\<lambda>buf. rmap (\<lambda>b. b AND 4 \<noteq> 0) (load1 buf 0)))"

section \<open>Stores into the record\<close>

lemma ds_store_mid:
  assumes "ds_inv s" "ds_contents s = xs @ ys @ zs" "length bs = length ys" "i = length xs"
  shows "\<exists>s'. ds_store s i bs = Ok s' \<and> ds_inv s' \<and> ds_contents s' = xs @ bs @ zs \<and>
    ds_length s' = ds_length s \<and> ds_max_length s' = ds_max_length s \<and>
    ds_alloc_increment s' = ds_alloc_increment s"
proof -
  obtain buf where b: "ds_str s = Some buf" "length buf = ds_max_length s"
    "ds_length s \<le> ds_max_length s" "0 < ds_alloc_increment s"
    using assms(1) by (rule ds_invE)
  have c: "take (ds_length s) buf = xs @ ys @ zs" using assms(2) b by (simp add: ds_contents_def)
  define tl where "tl = drop (ds_length s) buf"
  have buf: "buf = xs @ ys @ (zs @ tl)"
    using c append_take_drop_id [of "ds_length s" buf] by (simp add: tl_def)
  have len: "ds_length s = length xs + length ys + length zs"
    using arg_cong [OF c, of length] b by simp
  have st: "store_bytes buf i bs = (Ok (xs @ bs @ zs @ tl) :: (dyncol_rc, bytes) res)"
    unfolding buf using assms(3,4) by (simp add: store_bytes_mid)
  define s' where "s' = s\<lparr>ds_str := Some (xs @ bs @ zs @ tl)\<rparr>"
  have "ds_store s i bs = Ok s'"
    using b st by (simp add: ds_store_def ds_buf_def s'_def)
  moreover have "ds_inv s'"
    using b buf assms(3) by (auto simp: s'_def ds_inv_def)
  moreover have "ds_contents s' = xs @ bs @ zs"
    using len assms(3) by (simp add: s'_def ds_contents_def)
  moreover have "ds_length s' = ds_length s" "ds_max_length s' = ds_max_length s"
    "ds_alloc_increment s' = ds_alloc_increment s" by (simp_all add: s'_def)
  ultimately show ?thesis by blast
qed

lemma le_bytes_1: "le_bytes 1 v = [word_of_nat v]"
  by (simp only: One_nat_def le_bytes.simps)

lemma unat_or_add:
  assumes "off * 2 ^ k + t < 2 ^ 32" "t < 2 ^ k"
  shows "unat (push_bit k (word_of_nat off :: u32) OR word_of_nat t) = off * 2 ^ k + t"
proof -
  let ?a = "push_bit k (word_of_nat off :: u32)" and ?b = "word_of_nat t :: u32"
  have tb: "take_bit k t = t" using assms(2) by (simp add: take_bit_nat_eq_self)
  have bitb: "bit ?b n \<Longrightarrow> n < k" for n
    using tb bit_take_bit_iff [of k t n] by (simp add: bit_of_nat_iff)
  have "?a AND ?b = 0"
    by (rule bit_word_eqI) (auto simp: bit_and_iff bit_push_bit_iff dest: bitb)
  then have "?a OR ?b = ?a + ?b" by (simp add: disjunctive_add_eq_or)
  also have "\<dots> = word_of_nat (off * 2 ^ k + t)"
    by (simp add: push_bit_eq_mult)
  finally show ?thesis using assms(1)
    by (simp add: unsigned_of_nat take_bit_nat_eq_self del: of_nat_add of_nat_mult)
qed

lemma word_of_nat_pred: "0 < t \<Longrightarrow> word_of_nat t - 1 = (word_of_nat (t - 1) :: 'a::len word)"
  by (simp add: of_nat_diff)

section \<open>The contract of a format\<close>

text \<open>
  The image of an entry: two bytes for the key, then type and offset in \<open>osz\<close> bytes with
  \<open>tb\<close> bits for the type. The all-ones offset is reserved, so an offset stays below
  \<open>offset_lim\<close>.
\<close>

definition offset_lim :: "nat \<Rightarrow> nat \<Rightarrow> nat" where
  "offset_lim tb osz = 2 ^ (8 * osz - tb) - 1"

definition entry_image :: "nat \<Rightarrow> nat \<Rightarrow> nat \<Rightarrow> nat \<Rightarrow> nat \<Rightarrow> bytes" where
  "entry_image tb osz key t off = le_bytes 2 key @ le_bytes osz (off * 2 ^ tb + (t - 1))"

lemma length_entry_image [simp]: "length (entry_image tb osz key t off) = 2 + osz"
  by (simp add: entry_image_def)

locale column_format =
  fixes fmt :: "'k service_funcs"
    and key_name :: "'k \<Rightarrow> bytes"
    and key_val :: "'k \<Rightarrow> nat \<Rightarrow> nat"
    and nm_field :: "nat \<Rightarrow> bytes"
    and tb osz_min :: nat
    and flag_bits :: nat
    and lt :: "'k \<Rightarrow> 'k \<Rightarrow> bool"
  assumes type_bits: "3 \<le> tb" "tb \<le> 4"
    and name_size: "name_size fmt k = length (key_name k)"
    and entry_fixed: "fixed_hdr_entry fmt = 2"
    and read_by_format: "fmt_type_and_offset_read (fmt_format fmt) = type_and_offset_read fmt"
      "fmt_fixed_hdr (fmt_format fmt) = fixed_hdr fmt" "fmt_fixed_hdr_entry (fmt_format fmt) = 2"
    and hdr_size: "fixed_hdr fmt = 3 + length (nm_field m)"
    and offset_bytes: "dynamic_column_offset_bytes fmt n < max_offset_size fmt \<Longrightarrow>
      osz_min \<le> dynamic_column_offset_bytes fmt n \<and> dynamic_column_offset_bytes fmt n \<le> 4 \<and>
      n < offset_lim tb (dynamic_column_offset_bytes fmt n) \<and>
      (dynamic_column_offset_bytes fmt n = 3 \<longrightarrow> 0 < n)"
    and put_ok: "ds_inv s \<Longrightarrow> ds_contents s = A @ J @ B @ K @ D \<Longrightarrow>
      length J = 2 + h_offset_size h \<Longrightarrow> h_entry_size h = 2 + h_offset_size h \<Longrightarrow>
      length K = length (key_name k) \<Longrightarrow> h_entry h = length A \<Longrightarrow>
      h_name h = length A + length J + length B \<Longrightarrow>
      osz_min \<le> h_offset_size h \<Longrightarrow> h_offset_size h \<le> 4 \<Longrightarrow>
      off < offset_lim tb (h_offset_size h) \<Longrightarrow> 0 < t \<Longrightarrow> t \<le> 2 ^ tb \<Longrightarrow>
      \<exists>s'. put_header_entry fmt s h k t off = Ok (False, s', h\<lparr>h_entry := h_entry h + h_entry_size h,
               h_name := h_name h + length (key_name k)\<rparr>) \<and>
        ds_inv s' \<and> ds_max_length s' = ds_max_length s \<and> ds_alloc_increment s' = ds_alloc_increment s \<and>
        ds_contents s' = A @ entry_image tb (h_offset_size h) (key_val k (h_name h - h_nmpool h)) t off
          @ B @ key_name k @ D"
    and read_ok: "osz_min \<le> osz \<Longrightarrow> osz \<le> 4 \<Longrightarrow> off < offset_lim tb osz \<Longrightarrow> 0 < t \<Longrightarrow> t \<le> 2 ^ tb \<Longrightarrow>
      drop p buf = le_bytes osz (off * 2 ^ tb + (t - 1)) @ rest \<Longrightarrow> (osz = 3 \<Longrightarrow> rest \<noteq> []) \<Longrightarrow>
      type_and_offset_read fmt buf p osz = Ok (False, t, off)"
    and set_hdr_ok: "ds_inv s \<Longrightarrow> ds_contents s = replicate (fixed_hdr fmt) 0 \<Longrightarrow>
      osz_min \<le> h_offset_size h \<Longrightarrow> h_offset_size h \<le> 4 \<Longrightarrow>
      h_nmpool_size h = length (concat (map key_name ks)) \<Longrightarrow>
      \<exists>s'. set_fixed_hdr fmt s h = Ok (s', h\<lparr>h_header := fixed_hdr fmt,
          h_nmpool := fixed_hdr fmt + h_header_size h,
          h_dtpool := fixed_hdr fmt + h_header_size h + h_nmpool_size h\<rparr>) \<and>
        ds_inv s' \<and> ds_max_length s' = ds_max_length s \<and> ds_alloc_increment s' = ds_alloc_increment s \<and>
        ds_contents s' = word_of_nat (flag_bits + (h_offset_size h - osz_min))
          # le_bytes 2 (h_column_count h) @ nm_field (h_nmpool_size h)"
    and sort_sign: "\<not> check_limit fmt a \<Longrightarrow> \<not> check_limit fmt b \<Longrightarrow>
      (column_sort fmt a b < 0 \<longleftrightarrow> lt a b) \<and> (column_sort fmt a b = 0 \<longleftrightarrow> a = b)"
    and sort_lt: "\<not> lt a a" "lt a b \<Longrightarrow> lt b c \<Longrightarrow> lt a c" "lt a b \<or> a = b \<or> lt b a"

lemma offset_bytes_num:
  assumes "dynamic_column_offset_bytes fmt_num n < max_offset_size fmt_num"
  shows "1 \<le> dynamic_column_offset_bytes fmt_num n \<and> dynamic_column_offset_bytes fmt_num n \<le> 4 \<and>
    n < offset_lim 3 (dynamic_column_offset_bytes fmt_num n) \<and>
    (dynamic_column_offset_bytes fmt_num n = 3 \<longrightarrow> 0 < n)"
  using assms by (auto simp: fmt_num_def dynamic_column_offset_bytes_num_def offset_lim_def split: if_splits)

lemma offset_bytes_str:
  assumes "dynamic_column_offset_bytes fmt_str n < max_offset_size fmt_str"
  shows "2 \<le> dynamic_column_offset_bytes fmt_str n \<and> dynamic_column_offset_bytes fmt_str n \<le> 4 \<and>
    n < offset_lim 4 (dynamic_column_offset_bytes fmt_str n) \<and>
    (dynamic_column_offset_bytes fmt_str n = 3 \<longrightarrow> 0 < n)"
  using assms by (auto simp: fmt_str_def dynamic_column_offset_bytes_named_def offset_lim_def split: if_splits)

lemma osz_cases: "1 \<le> n \<Longrightarrow> n \<le> (4 :: nat) \<Longrightarrow> (n = 1 \<Longrightarrow> P) \<Longrightarrow> (n = 2 \<Longrightarrow> P) \<Longrightarrow> (n = 3 \<Longrightarrow> P) \<Longrightarrow> (n = 4 \<Longrightarrow> P) \<Longrightarrow> P"
  by linarith

lemma entry_val_bound:
  assumes "1 \<le> osz" "osz \<le> 4" "off < offset_lim tb osz" "t \<le> 2 ^ tb" "0 < t" "tb \<le> 4"
  shows "off * 2 ^ tb + (t - 1) < 2 ^ (8 * osz)" "off * 2 ^ tb + (t - 1) < 2 ^ 32"
proof -
  have le: "tb \<le> 8 * osz" using assms by linarith
  have "Suc off \<le> 2 ^ (8 * osz - tb)" using assms(3) by (simp add: offset_lim_def)
  then have "Suc off * 2 ^ tb \<le> 2 ^ (8 * osz - tb) * 2 ^ tb" by (rule mult_right_mono) simp
  also have "\<dots> = 2 ^ (8 * osz)" using le by (simp flip: power_add)
  finally have "off * 2 ^ tb + 2 ^ tb \<le> 2 ^ (8 * osz)" by simp
  then show 1: "off * 2 ^ tb + (t - 1) < 2 ^ (8 * osz)" using assms(4,5) by linarith
  have "(2 :: nat) ^ (8 * osz) \<le> 2 ^ 32" using assms(2) by (intro power_increasing) auto
  with 1 show "off * 2 ^ tb + (t - 1) < 2 ^ 32" by (rule less_le_trans)
qed

lemma store_num_at:
  assumes "1 \<le> osz" "osz \<le> 4" "off < offset_lim 3 osz" "t \<le> 2 ^ 3" "0 < t"
  shows "type_and_offset_store_num s p osz t off =
    rmap (\<lambda>s'. (False, s')) (ds_store s (p + 2) (le_bytes osz (off * 2 ^ 3 + (t - 1))))"
proof -
  have v: "unat (push_bit 3 (word_of_nat off :: u32) OR (word_of_nat t - 1)) = off * 2 ^ 3 + (t - 1)"
    unfolding word_of_nat_pred [OF assms(5)]
    using assms entry_val_bound(2) [OF assms] by (intro unat_or_add) auto
  from assms(1,2) show ?thesis
    by (rule osz_cases) (use assms(3) in \<open>simp_all only: type_and_offset_store_num_def Let_def v, simp_all add: offset_lim_def\<close>)
qed

lemma store_named_at:
  assumes "2 \<le> osz" "osz \<le> 4" "off < offset_lim 4 osz" "t \<le> 2 ^ 4" "0 < t"
  shows "type_and_offset_store_named s p osz t off =
    rmap (\<lambda>s'. (False, s')) (ds_store s (p + 2) (le_bytes osz (off * 2 ^ 4 + (t - 1))))"
proof -
  have 1: "1 \<le> osz" using assms(1) by simp
  have v: "unat (push_bit 4 (word_of_nat off :: u32) OR (word_of_nat t - 1)) = off * 2 ^ 4 + (t - 1)"
    unfolding word_of_nat_pred [OF assms(5)]
    using assms entry_val_bound(2) [OF 1 assms(2,3,4,5)] by (intro unat_or_add) auto
  from 1 assms(2) show ?thesis
    by (rule osz_cases) (use assms(1,3) in \<open>simp_all only: type_and_offset_store_named_def Let_def v, simp_all add: offset_lim_def\<close>)
qed

lemma put_num:
  assumes "ds_inv s" "ds_contents s = A @ J @ B @ K @ D"
    "length J = 2 + h_offset_size h" "h_entry_size h = 2 + h_offset_size h" "length K = 0"
    "h_entry h = length A" "1 \<le> h_offset_size h" "h_offset_size h \<le> 4"
    "off < offset_lim 3 (h_offset_size h)" "0 < t" "t \<le> 2 ^ 3"
  shows "\<exists>s'. put_header_entry_num s h k t off = Ok (False, s', h\<lparr>h_entry := h_entry h + h_entry_size h\<rparr>) \<and>
    ds_inv s' \<and> ds_max_length s' = ds_max_length s \<and> ds_alloc_increment s' = ds_alloc_increment s \<and>
    ds_contents s' = A @ entry_image 3 (h_offset_size h) k t off @ B @ D"
proof -
  obtain J1 J2 where J: "J = J1 @ J2" "length J1 = 2" "length J2 = h_offset_size h"
    using assms(3) by (metis append_take_drop_id length_append length_take min_absorb2 le_add1 add_left_cancel)
  obtain s1 where s1: "ds_store s (length A) (le_bytes 2 k) = Ok s1" "ds_inv s1"
    "ds_contents s1 = A @ le_bytes 2 k @ (J2 @ B @ K @ D)"
    "ds_max_length s1 = ds_max_length s" "ds_alloc_increment s1 = ds_alloc_increment s"
    using ds_store_mid [OF assms(1), of A J1 "J2 @ B @ K @ D" "le_bytes 2 k" "length A"] assms(2) J by auto
  let ?v = "le_bytes (h_offset_size h) (off * 2 ^ 3 + (t - 1))"
  obtain s2 where s2: "ds_store s1 (length A + 2) ?v = Ok s2" "ds_inv s2"
    "ds_contents s2 = (A @ le_bytes 2 k) @ ?v @ (B @ K @ D)"
    "ds_max_length s2 = ds_max_length s1" "ds_alloc_increment s2 = ds_alloc_increment s1"
    using ds_store_mid [OF s1(2), of "A @ le_bytes 2 k" J2 "B @ K @ D" ?v "length A + 2"] s1(3) J by auto
  have "put_header_entry_num s h k t off = Ok (False, s2, h\<lparr>h_entry := h_entry h + h_entry_size h\<rparr>)"
    using s1(1) s2(1) assms store_num_at [of "h_offset_size h" off t s1 "length A"]
    by (simp add: put_header_entry_num_def)
  with s1 s2 assms(5) show ?thesis by (simp add: entry_image_def)
qed

lemma put_named:
  assumes "ds_inv s" "ds_contents s = A @ J @ B @ K @ D"
    "length J = 2 + h_offset_size h" "h_entry_size h = 2 + h_offset_size h" "length K = length k"
    "h_entry h = length A" "h_name h = length A + length J + length B"
    "2 \<le> h_offset_size h" "h_offset_size h \<le> 4"
    "off < offset_lim 4 (h_offset_size h)" "0 < t" "t \<le> 2 ^ 4"
  shows "\<exists>s'. put_header_entry_named s h k t off = Ok (False, s', h\<lparr>h_entry := h_entry h + h_entry_size h,
      h_name := h_name h + length k\<rparr>) \<and>
    ds_inv s' \<and> ds_max_length s' = ds_max_length s \<and> ds_alloc_increment s' = ds_alloc_increment s \<and>
    ds_contents s' = A @ entry_image 4 (h_offset_size h) (h_name h - h_nmpool h) t off @ B @ k @ D"
proof -
  obtain J1 J2 where J: "J = J1 @ J2" "length J1 = 2" "length J2 = h_offset_size h"
    using assms(3) by (metis append_take_drop_id length_append length_take min_absorb2 le_add1 add_left_cancel)
  let ?n = "le_bytes 2 (h_name h - h_nmpool h)"
  obtain s1 where s1: "ds_store s (length A) ?n = Ok s1" "ds_inv s1"
    "ds_contents s1 = A @ ?n @ (J2 @ B @ K @ D)"
    "ds_max_length s1 = ds_max_length s" "ds_alloc_increment s1 = ds_alloc_increment s"
    using ds_store_mid [OF assms(1), of A J1 "J2 @ B @ K @ D" ?n "length A"] assms(2) J by auto
  obtain s2 where s2: "ds_store s1 (h_name h) k = Ok s2" "ds_inv s2"
    "ds_contents s2 = (A @ ?n @ J2 @ B) @ k @ D"
    "ds_max_length s2 = ds_max_length s1" "ds_alloc_increment s2 = ds_alloc_increment s1"
    using ds_store_mid [OF s1(2), of "A @ ?n @ J2 @ B" K D k "h_name h"] s1(3) J assms(3,5,7) by auto
  let ?v = "le_bytes (h_offset_size h) (off * 2 ^ 4 + (t - 1))"
  obtain s3 where s3: "ds_store s2 (length A + 2) ?v = Ok s3" "ds_inv s3"
    "ds_contents s3 = (A @ ?n) @ ?v @ (B @ k @ D)"
    "ds_max_length s3 = ds_max_length s2" "ds_alloc_increment s3 = ds_alloc_increment s2"
    using ds_store_mid [OF s2(2), of "A @ ?n" J2 "B @ k @ D" ?v "length A + 2"] s2(3) J by auto
  have "put_header_entry_named s h k t off = Ok (False, s3, h\<lparr>h_entry := h_entry h + h_entry_size h,
      h_name := h_name h + length k\<rparr>)"
    using s1(1) s2(1) s3(1) assms store_named_at [of "h_offset_size h" off t s2 "length A"]
    by (simp add: put_header_entry_named_def)
  with s1 s2 s3 show ?thesis by (simp add: entry_image_def)
qed

lemma uintN_load_image:
  assumes "drop p buf = le_bytes n v @ rest" "v < 256 ^ n" "0 < n"
  shows "uintN_load n buf p = Ok v"
proof -
  have "length buf - p = n + length rest" using arg_cong [OF assms(1), of length] by simp
  with assms(3) have "p + n \<le> length buf" by linarith
  with assms show ?thesis by (simp add: uintN_load_Ok le_val_bytes)
qed

lemma uint3korr_image:
  assumes "drop p buf = le_bytes 3 v @ rest" "v < 256 ^ 3" "rest \<noteq> []"
  shows "uint3korr buf p = Ok v"
proof -
  obtain b r where r: "rest = b # r" using assms(3) by (cases rest) auto
  have "length buf - p = 4 + length r" using arg_cong [OF assms(1), of length] r by simp
  then have "p + 4 \<le> length buf" by linarith
  moreover have "take 4 (drop p buf) = le_bytes 3 v @ [b]" using assms(1) r by simp
  ultimately show ?thesis
    using assms(2) by (simp add: uint3korr_def uintN_load_Ok le_val_append le_val_bytes)
qed

lemma entry_split:
  assumes "0 < t" "t \<le> (m :: nat)"
  shows "(off * m + (t - 1)) div m = off" "(off * m + (t - 1)) mod m + 1 = t"
proof -
  obtain u where u: "t = Suc u" using assms(1) by (cases t) auto
  with assms(2) show "(off * m + (t - 1)) div m = off" by simp
  from u assms(2) show "(off * m + (t - 1)) mod m + 1 = t" by simp
qed

lemma read_num:
  assumes "1 \<le> osz" "osz \<le> 4" "off < offset_lim 3 osz" "0 < t" "t \<le> 2 ^ 3"
    "drop p buf = le_bytes osz (off * 2 ^ 3 + (t - 1)) @ rest" "osz = 3 \<Longrightarrow> rest \<noteq> []"
  shows "type_and_offset_read_num buf p osz = Ok (False, t, off)"
proof -
  define v where "v = off * 2 ^ 3 + (t - 1)"
  have o1: "1 \<le> osz" using assms(1) by simp
  have b: "v < 256 ^ osz"
    using entry_val_bound(1) [OF o1 assms(2,3,5,4)] by (simp add: power_mult v_def)
  have dm: "v div 8 = off" "v mod 8 + 1 = t"
    using entry_split [of t 8 off] assms(4,5) by (simp_all add: v_def)
  note d = assms(6) [folded v_def]
  have n: "uintN_load osz buf p = (Ok v :: (dyncol_rc, nat) res)"
    using uintN_load_image [OF d b] o1 by simp
  have one: "load1 buf p = (Ok (word_of_nat v) :: (dyncol_rc, u8) res)" if "osz = 1"
    using load1_drop [of p buf "[word_of_nat v]" rest 0] d that
    by (simp add: le_bytes_1 [unfolded One_nat_def])
  have u: "unat (word_of_nat v :: u8) = v" if "osz = 1"
    using b that by (simp add: unsigned_of_nat take_bit_nat_eq_self)
  from o1 assms(2) show ?thesis
  proof (rule osz_cases)
    assume osz: "osz = 1"
    show ?thesis
      using dm assms(3) osz one [OF osz] u [OF osz]
      by (simp add: type_and_offset_read_num_def Let_def offset_lim_def)
  next
    assume osz: "osz = 2"
    show ?thesis
      using dm assms(3) n by (simp add: osz type_and_offset_read_num_def Let_def uint2korr_def offset_lim_def)
  next
    assume osz: "osz = 3"
    have "uint3korr buf p = (Ok v :: (dyncol_rc, nat) res)"
      using uint3korr_image [of p buf v rest] d b assms(7) osz by simp
    then show ?thesis
      using dm assms(3) by (simp add: osz type_and_offset_read_num_def Let_def offset_lim_def)
  next
    assume osz: "osz = 4"
    show ?thesis
      using dm assms(3) n by (simp add: osz type_and_offset_read_num_def Let_def uint4korr_def offset_lim_def)
  qed
qed

lemma read_named:
  assumes "2 \<le> osz" "osz \<le> 4" "off < offset_lim 4 osz" "0 < t" "t \<le> 2 ^ 4"
    "drop p buf = le_bytes osz (off * 2 ^ 4 + (t - 1)) @ rest" "osz = 3 \<Longrightarrow> rest \<noteq> []"
  shows "type_and_offset_read_named buf p osz = Ok (False, t, off)"
proof -
  define v where "v = off * 2 ^ 4 + (t - 1)"
  have o1: "1 \<le> osz" using assms(1) by simp
  have b: "v < 256 ^ osz"
    using entry_val_bound(1) [OF o1 assms(2,3,5,4)] by (simp add: power_mult v_def)
  have dm: "v div 16 = off" "v mod 16 + 1 = t"
    using entry_split [of t 16 off] assms(4,5) by (simp_all add: v_def)
  note d = assms(6) [folded v_def]
  have n: "uintN_load osz buf p = (Ok v :: (dyncol_rc, nat) res)"
    using uintN_load_image [OF d b] o1 by simp
  from o1 assms(2) show ?thesis
  proof (rule osz_cases)
    assume osz: "osz = 1"
    with assms(1) show ?thesis by simp
  next
    assume osz: "osz = 2"
    show ?thesis
      using dm assms(3) n by (simp add: osz type_and_offset_read_named_def Let_def uint2korr_def offset_lim_def)
  next
    assume osz: "osz = 3"
    have "uint3korr buf p = (Ok v :: (dyncol_rc, nat) res)"
      using uint3korr_image [of p buf v rest] d b assms(7) osz by simp
    then show ?thesis
      using dm assms(3) by (simp add: osz type_and_offset_read_named_def Let_def offset_lim_def)
  next
    assume osz: "osz = 4"
    show ?thesis
      using dm assms(3) n by (simp add: osz type_and_offset_read_named_def Let_def uint4korr_def offset_lim_def)
  qed
qed

lemma ds_buf_head:
  assumes "ds_inv s" "ds_contents s = x # xs"
  shows "\<exists>buf. ds_str s = Some buf \<and> ds_buf s = (Ok buf :: (dyncol_rc, bytes) res) \<and>
    load1 buf 0 = (Ok x :: (dyncol_rc, u8) res)"
proof -
  obtain buf where b: "ds_str s = Some buf" "length buf = ds_max_length s"
    "ds_length s \<le> ds_max_length s" "0 < ds_alloc_increment s"
    using assms(1) by (rule ds_invE)
  with assms(2) show ?thesis
    by (cases buf; cases "ds_length s") (auto simp: ds_contents_def ds_buf_def load1_def)
qed

lemma set_hdr_num:
  assumes "ds_inv s" "ds_contents s = replicate 3 0" "1 \<le> h_offset_size h" "h_offset_size h \<le> 4"
  shows "\<exists>s'. set_fixed_header s (h_offset_size h) cc = Ok s' \<and>
    ds_inv s' \<and> ds_max_length s' = ds_max_length s \<and> ds_alloc_increment s' = ds_alloc_increment s \<and>
    ds_contents s' = word_of_nat (h_offset_size h - 1) # le_bytes 2 cc"
proof -
  obtain buf where b: "ds_buf s = (Ok buf :: (dyncol_rc, bytes) res)" "load1 buf 0 = (Ok 0 :: (dyncol_rc, u8) res)"
    using ds_buf_head [OF assms(1), of 0 "replicate 2 0"] assms(2) by (auto simp: numeral_eq_Suc)
  let ?f = "word_of_nat (h_offset_size h - 1) :: u8"
  obtain s1 where s1: "ds_store s 0 [?f] = Ok s1" "ds_inv s1" "ds_contents s1 = [?f] @ replicate 2 0 @ []"
    "ds_max_length s1 = ds_max_length s" "ds_alloc_increment s1 = ds_alloc_increment s"
    using ds_store_mid [OF assms(1), of "[]" "[0]" "replicate 2 0" "[?f]" 0] assms(2)
    by (auto simp: numeral_eq_Suc)
  obtain s2 where s2: "ds_store s1 1 (le_bytes 2 cc) = Ok s2" "ds_inv s2"
    "ds_contents s2 = [?f] @ le_bytes 2 cc @ []"
    "ds_max_length s2 = ds_max_length s1" "ds_alloc_increment s2 = ds_alloc_increment s1"
    using ds_store_mid [OF s1(2), of "[?f]" "replicate 2 0" "[]" "le_bytes 2 cc" 1] s1(3) by auto
  have "set_fixed_header s (h_offset_size h) cc = Ok s2"
    using b s1(1) s2(1) assms(3) by (simp add: set_fixed_header_def)
  with s1 s2 show ?thesis by simp
qed

lemma flags_named: "2 \<le> n \<Longrightarrow> n \<le> 4 \<Longrightarrow>
    (0 AND NOT 27) OR word_of_nat (n - 2) OR 4 = (word_of_nat (4 + (n - 2)) :: u8)"
proof -
  assume "2 \<le> n" "n \<le> 4"
  then consider "n = 2" | "n = 3" | "n = 4" by linarith
  then show ?thesis by cases simp_all
qed

lemma set_hdr_named:
  assumes "ds_inv s" "ds_contents s = replicate 5 0" "2 \<le> h_offset_size h" "h_offset_size h \<le> 4"
  shows "\<exists>s'. set_fixed_header_named s h = Ok (s', h\<lparr>h_header := 5, h_nmpool := 5 + h_header_size h,
          h_dtpool := 5 + h_header_size h + h_nmpool_size h\<rparr>) \<and>
    ds_inv s' \<and> ds_max_length s' = ds_max_length s \<and> ds_alloc_increment s' = ds_alloc_increment s \<and>
    ds_contents s' = word_of_nat (4 + (h_offset_size h - 2)) # le_bytes 2 (h_column_count h)
      @ le_bytes 2 (h_nmpool_size h)"
proof -
  obtain buf where b: "ds_buf s = (Ok buf :: (dyncol_rc, bytes) res)" "load1 buf 0 = (Ok 0 :: (dyncol_rc, u8) res)"
    using ds_buf_head [OF assms(1), of 0 "replicate 4 0"] assms(2) by (auto simp: numeral_eq_Suc)
  let ?f = "word_of_nat (4 + (h_offset_size h - 2)) :: u8"
  let ?c = "le_bytes 2 (h_column_count h)" and ?n = "le_bytes 2 (h_nmpool_size h)"
  have r: "replicate 5 0 = [] @ [0] @ (replicate 2 0 @ replicate 2 (0 :: u8))"
    by (simp add: numeral_eq_Suc)
  obtain s1 where s1: "ds_store s 0 [?f] = Ok s1" "ds_inv s1"
    "ds_contents s1 = [?f] @ replicate 2 0 @ replicate 2 0"
    "ds_max_length s1 = ds_max_length s" "ds_alloc_increment s1 = ds_alloc_increment s"
    using ds_store_mid [OF assms(1), of "[]" "[0]" "replicate 2 0 @ replicate 2 0" "[?f]" 0] assms(2) r
    by auto
  obtain s2 where s2: "ds_store s1 1 ?c = Ok s2" "ds_inv s2"
    "ds_contents s2 = ([?f] @ ?c) @ replicate 2 0 @ []"
    "ds_max_length s2 = ds_max_length s1" "ds_alloc_increment s2 = ds_alloc_increment s1"
    using ds_store_mid [OF s1(2,3), of ?c 1] by auto
  obtain s3 where s3: "ds_store s2 3 ?n = Ok s3" "ds_inv s3"
    "ds_contents s3 = ([?f] @ ?c) @ ?n @ []"
    "ds_max_length s3 = ds_max_length s2" "ds_alloc_increment s3 = ds_alloc_increment s2"
    using ds_store_mid [OF s2(2,3), of ?n 3] by auto
  have f: "(0 AND NOT 27) OR word_of_nat (size_sub (h_offset_size h) 2) OR 4 = ?f"
    using flags_named [OF assms(3,4)] assms(3) by simp
  have "set_fixed_header_named s h = Ok (s3, h\<lparr>h_header := 5, h_nmpool := 5 + h_header_size h,
          h_dtpool := 5 + h_header_size h + h_nmpool_size h\<rparr>)"
    unfolding set_fixed_header_named_def b rbind.simps f s1(1) s2(1) s3(1) Let_def ..
  with s1 s2 s3 show ?thesis by simp
qed

section \<open>The order of the keys\<close>

lemma column_sort_num_sign:
  assumes "a < 2 ^ 31" "b < 2 ^ 31"
  shows "column_sort_num a b = int a - int b"
proof -
  have "sint (word_of_int (int a - int b) :: u32) = int a - int b"
    using assms by (subst signed_of_int) (simp add: signed_take_bit_int_eq_self)
  then show ?thesis by (simp add: column_sort_num_def)
qed

lemma memcmp_eq_0: "length xs = length ys \<Longrightarrow> memcmp xs ys = 0 \<longleftrightarrow> xs = ys"
  by (induction xs ys rule: memcmp.induct) (auto simp: not_less)

text \<open>Names are ordered by length, then by their bytes.\<close>

definition name_less :: "bytes \<Rightarrow> bytes \<Rightarrow> bool" where
  "name_less a b \<longleftrightarrow> mariadb_dyncol_column_cmp_named a b < 0"

lemma memcmp_less:
  "length xs = length ys \<Longrightarrow> length ys = length zs \<Longrightarrow> memcmp xs ys < 0 \<Longrightarrow> memcmp ys zs < 0 \<Longrightarrow>
   memcmp xs zs < 0"
proof (induction xs ys zs rule: list_induct3)
  case (Cons x xs y ys z zs)
  consider "x < y" "y < z" | "x < y" "y = z" | "x = y" "y < z" | "x = y" "y = z" "memcmp xs ys < 0" "memcmp ys zs < 0"
    using Cons.prems by (force split: if_splits)
  then show ?case by cases (use Cons.IH in auto)
qed simp

lemma memcmp_swap: "memcmp ys xs = - memcmp xs ys"
  by (induction xs ys rule: memcmp.induct) auto

lemma cmp_named_swap: "mariadb_dyncol_column_cmp_named b a = - mariadb_dyncol_column_cmp_named a b"
  by (auto simp: mariadb_dyncol_column_cmp_named_def Let_def memcmp_swap [of b a])

lemma cmp_named_eq: "mariadb_dyncol_column_cmp_named a b = 0 \<longleftrightarrow> a = b"
  by (auto simp: mariadb_dyncol_column_cmp_named_def Let_def memcmp_eq_0)

lemma name_less_trans: "name_less a b \<Longrightarrow> name_less b c \<Longrightarrow> name_less a c"
  using memcmp_less [of a b c]
  by (auto simp: name_less_def mariadb_dyncol_column_cmp_named_def Let_def split: if_splits)

lemma name_less_total: "name_less a b \<or> a = b \<or> name_less b a"
  using cmp_named_swap [of a b] cmp_named_eq [of a b] by (auto simp: name_less_def)

lemma name_less_irrefl: "\<not> name_less a a"
  using cmp_named_eq [of a a] by (simp add: name_less_def)

section \<open>Both tables satisfy the contract\<close>

interpretation num: column_format fmt_num "\<lambda>k. []" "\<lambda>k m. k" "\<lambda>m. []" 3 1 0 "(<)"
proof unfold_locales
  fix s A J B K D and h :: dyn_header and k off t
  assume *: "ds_inv s" "ds_contents s = A @ J @ B @ K @ D"
    "length J = 2 + h_offset_size h" "h_entry_size h = 2 + h_offset_size h"
    "length K = length ([] :: bytes)" "h_entry h = length A"
    "h_name h = length A + length J + length B"
    "1 \<le> h_offset_size h" "h_offset_size h \<le> 4" "off < offset_lim 3 (h_offset_size h)"
    "0 < t" "t \<le> (2 :: nat) ^ 3"
  then show "\<exists>s'. put_header_entry fmt_num s h k t off =
      Ok (False, s', h\<lparr>h_entry := h_entry h + h_entry_size h, h_name := h_name h + length ([] :: bytes)\<rparr>) \<and>
      ds_inv s' \<and> ds_max_length s' = ds_max_length s \<and> ds_alloc_increment s' = ds_alloc_increment s \<and>
      ds_contents s' = A @ entry_image 3 (h_offset_size h) k t off @ B @ [] @ D"
  proof -
    have same: "h\<lparr>h_entry := h_entry h + h_entry_size h, h_name := h_name h + length ([] :: bytes)\<rparr>
        = h\<lparr>h_entry := h_entry h + h_entry_size h\<rparr>" by simp
    have "put_header_entry fmt_num = put_header_entry_num" by (simp add: fmt_num_def)
    with put_num [of s A J B K D h off t k] * show ?thesis unfolding same by simp
  qed
next
  fix osz off t p buf rest
  assume *: "1 \<le> osz" "osz \<le> 4" "off < offset_lim 3 osz" "0 < t" "t \<le> (2 :: nat) ^ 3"
    "drop p buf = le_bytes osz (off * 2 ^ 3 + (t - 1)) @ rest" "osz = 3 \<Longrightarrow> rest \<noteq> []"
  then show "type_and_offset_read fmt_num buf p osz = Ok (False, t, off)"
    using read_num by (simp add: fmt_num_def)
next
  fix s and h :: dyn_header and ks :: "nat list"
  assume *: "ds_inv s" "ds_contents s = replicate (fixed_hdr fmt_num) 0"
    "1 \<le> h_offset_size h" "h_offset_size h \<le> 4" "h_nmpool_size h = length (concat (map (\<lambda>k. [] :: bytes) ks))"
  then show "\<exists>s'. set_fixed_hdr fmt_num s h = Ok (s', h\<lparr>h_header := fixed_hdr fmt_num,
          h_nmpool := fixed_hdr fmt_num + h_header_size h,
          h_dtpool := fixed_hdr fmt_num + h_header_size h + h_nmpool_size h\<rparr>) \<and>
        ds_inv s' \<and> ds_max_length s' = ds_max_length s \<and> ds_alloc_increment s' = ds_alloc_increment s \<and>
        ds_contents s' = word_of_nat (0 + (h_offset_size h - 1)) # le_bytes 2 (h_column_count h) @ []"
    using set_hdr_num [OF *(1) _ *(3,4), of "h_column_count h"]
    by (auto simp: fmt_num_def set_fixed_header_num_def Let_def concat_replicate_trivial map_replicate_const)
qed (use offset_bytes_num in \<open>auto simp: fmt_num_def name_size_num_def check_limit_num_def column_sort_num_sign\<close>)

interpretation str: column_format fmt_str "\<lambda>k. k" "\<lambda>k m. m" "le_bytes 2" 4 2 4 name_less
proof unfold_locales
  fix s A J B K D and h :: dyn_header and k off t
  assume *: "ds_inv s" "ds_contents s = A @ J @ B @ K @ D"
    "length J = 2 + h_offset_size h" "h_entry_size h = 2 + h_offset_size h"
    "length K = length (k :: bytes)" "h_entry h = length A"
    "h_name h = length A + length J + length B"
    "2 \<le> h_offset_size h" "h_offset_size h \<le> 4" "off < offset_lim 4 (h_offset_size h)"
    "0 < t" "t \<le> (2 :: nat) ^ 4"
  then show "\<exists>s'. put_header_entry fmt_str s h k t off =
      Ok (False, s', h\<lparr>h_entry := h_entry h + h_entry_size h, h_name := h_name h + length k\<rparr>) \<and>
      ds_inv s' \<and> ds_max_length s' = ds_max_length s \<and> ds_alloc_increment s' = ds_alloc_increment s \<and>
      ds_contents s' = A @ entry_image 4 (h_offset_size h) (h_name h - h_nmpool h) t off @ B @ k @ D"
    using put_named [OF *] by (simp add: fmt_str_def)
next
  fix osz off t p buf rest
  assume *: "2 \<le> osz" "osz \<le> 4" "off < offset_lim 4 osz" "0 < t" "t \<le> (2 :: nat) ^ 4"
    "drop p buf = le_bytes osz (off * 2 ^ 4 + (t - 1)) @ rest" "osz = 3 \<Longrightarrow> rest \<noteq> []"
  then show "type_and_offset_read fmt_str buf p osz = Ok (False, t, off)"
    using read_named by (simp add: fmt_str_def)
next
  fix s and h :: dyn_header and ks :: "bytes list"
  assume *: "ds_inv s" "ds_contents s = replicate (fixed_hdr fmt_str) 0"
    "2 \<le> h_offset_size h" "h_offset_size h \<le> 4" "h_nmpool_size h = length (concat (map (\<lambda>k. k) ks))"
  then show "\<exists>s'. set_fixed_hdr fmt_str s h = Ok (s', h\<lparr>h_header := fixed_hdr fmt_str,
          h_nmpool := fixed_hdr fmt_str + h_header_size h,
          h_dtpool := fixed_hdr fmt_str + h_header_size h + h_nmpool_size h\<rparr>) \<and>
        ds_inv s' \<and> ds_max_length s' = ds_max_length s \<and> ds_alloc_increment s' = ds_alloc_increment s \<and>
        ds_contents s' = word_of_nat (4 + (h_offset_size h - 2)) # le_bytes 2 (h_column_count h) @
          le_bytes 2 (h_nmpool_size h)"
    using set_hdr_named [OF *(1) _ *(3,4)] by (auto simp: fmt_str_def)
qed (use offset_bytes_str name_less_trans name_less_total in
     \<open>auto simp: fmt_str_def name_size_named_def column_sort_named_def name_less_irrefl
        cmp_named_eq name_less_def [symmetric]\<close>)

end
