(* ===== verification/Dyncol_Create.thy ===== *)
theory Dyncol_Create
  imports Dyncol_Format "HOL-Library.Multiset"
begin

text \<open>
  Creating a record of dynamic columns (\<^verbatim>\<open>mariadb_dyncol.c\<close>, lines 1625--1925). The arrays
  of keys and of values become one list of pairs, in the order of the arrays; the array
  \<open>columns_order\<close> of pointers into the keys becomes the sorted list of these pairs.
  The pointers \<open>hdr->entry\<close> and \<open>hdr->name\<close> keep pointing into the block that was
  allocated first: \<open>store_columns_ok\<close> shows that the stores of the values keep \<open>ds_max_length\<close>,
  so no later call moves the block.
\<close>

section \<open>Sizes\<close>

text \<open>\<open>qsort\<close> as insertion sort; its result is unique when no two elements compare equal.\<close>

fun qsort_insert :: "('a \<Rightarrow> 'a \<Rightarrow> int) \<Rightarrow> 'a \<Rightarrow> 'a list \<Rightarrow> 'a list" where
  "qsort_insert cmp x [] = [x]"
| "qsort_insert cmp x (y # ys) = (if cmp x y \<le> 0 then x # y # ys else y # qsort_insert cmp x ys)"

definition qsort :: "('a \<Rightarrow> 'a \<Rightarrow> int) \<Rightarrow> 'a list \<Rightarrow> 'a list" where
  "qsort cmp xs = foldr (qsort_insert cmp) xs []"

fun var_sizes_loop :: "'k service_funcs \<Rightarrow> ('k \<times> dyncol_value) list \<Rightarrow> dyn_header \<Rightarrow> dyncol_rc \<times> dyn_header" where
  "var_sizes_loop fmt [] hdr = (ER_DYNCOL_OK, hdr)"
| "var_sizes_loop fmt ((k, v) # cols) hdr =
     (if v \<noteq> DYN_COL_NULL then
        (let tmp = dynamic_column_value_len v (h_format hdr);
             h1 = hdr\<lparr>h_column_count := Suc (h_column_count hdr), h_data_size := h_data_size hdr + tmp\<rparr>
         in if tmp = 2 ^ 64 - 1 then (ER_DYNCOL_DATA, h1)
            else var_sizes_loop fmt cols (h1\<lparr>h_nmpool_size := h_nmpool_size hdr + name_size fmt k\<rparr>))
      else var_sizes_loop fmt cols hdr)"

definition calc_var_sizes ::
  "'k service_funcs \<Rightarrow> ('k \<times> dyncol_value) list \<Rightarrow> dyn_header \<Rightarrow> dyncol_rc \<times> dyn_header" where
  "calc_var_sizes fmt cols hdr =
     (let (rc, h1) = var_sizes_loop fmt cols (hdr\<lparr>h_nmpool_size := 0, h_data_size := 0, h_column_count := 0\<rparr>)
      in if rc \<noteq> ER_DYNCOL_OK then (rc, h1)
         else let h2 = h1\<lparr>h_offset_size := dynamic_column_offset_bytes fmt (h_data_size h1)\<rparr>
              in if max_offset_size fmt \<le> h_offset_size h2 then (ER_DYNCOL_LIMIT, h2)
                 else let es = fixed_hdr_entry fmt + h_offset_size h2
                      in (ER_DYNCOL_OK, h2\<lparr>h_entry_size := es, h_header_size := h_column_count h2 * es\<rparr>))"

section \<open>Writing the record\<close>

definition dynamic_column_init_named ::
  "alloc_env \<Rightarrow> dynamic_string \<Rightarrow> nat \<Rightarrow> (dyncol_rc, bool \<times> dynamic_string) res" where
  "dynamic_column_init_named E s sz = ma_init_dynamic_string E None sz 80 s"

text \<open>The loop that looks for a key over the limit or two equal neighbours.\<close>

fun order_invalid :: "'k service_funcs \<Rightarrow> ('k \<times> dyncol_value) list \<Rightarrow> bool" where
  "order_invalid fmt [] = False"
| "order_invalid fmt [c] = check_limit fmt (fst c)"
| "order_invalid fmt (c # d # cs) =
     (check_limit fmt (fst c) \<or> column_sort fmt (fst c) (fst d) = 0 \<or> order_invalid fmt (d # cs))"

text \<open>The sorted array \<open>columns_order\<close>.\<close>

definition column_cmp :: "'k service_funcs \<Rightarrow> ('k \<times> dyncol_value) \<Rightarrow> ('k \<times> dyncol_value) \<Rightarrow> int" where
  "column_cmp fmt c d = column_sort fmt (fst c) (fst d)"

definition columns_order :: "'k service_funcs \<Rightarrow> ('k \<times> dyncol_value) list \<Rightarrow> ('k \<times> dyncol_value) list" where
  "columns_order fmt cols = qsort (column_cmp fmt) cols"

fun store_columns ::
  "'k service_funcs \<Rightarrow> alloc_env \<Rightarrow> nat \<Rightarrow> dyn_header \<Rightarrow> dynamic_string \<Rightarrow> ('k \<times> dyncol_value) list
     \<Rightarrow> (dyncol_rc, dyncol_rc \<times> dynamic_string) res" where
  "store_columns fmt E all_headers_size hdr s [] = Ok (ER_DYNCOL_OK, s)"
| "store_columns fmt E all_headers_size hdr s ((k, v) # cols) =
     (if v \<noteq> DYN_COL_NULL then
        rbind (put_header_entry fmt s hdr k (dyncol_type v) (size_sub (ds_length s) all_headers_size))
          (\<lambda>(failed, s1, h1).
             if failed then Ok (ER_DYNCOL_FORMAT, s1)
             else rc_then (data_store E s1 v (h_format hdr))
                    (\<lambda>s2. store_columns fmt E all_headers_size h1 s2 cols))
      else store_columns fmt E all_headers_size hdr s cols)"

text \<open>The part of \<open>dynamic_new_column_store\<close> after the string has been allocated.\<close>

definition fill_columns ::
  "'k service_funcs \<Rightarrow> alloc_env \<Rightarrow> dynamic_string \<Rightarrow> dyn_header \<Rightarrow> ('k \<times> dyncol_value) list
     \<Rightarrow> (dyncol_rc, dyncol_rc \<times> dynamic_string) res" where
  "fill_columns fmt E s hdr cols =
     rbind (ds_store s 0 (replicate (fixed_hdr fmt) 0)) (\<lambda>s1.
     let s2 = s1\<lparr>ds_length := fixed_hdr fmt\<rparr>;
         order = columns_order fmt cols
     in if order_invalid fmt order then Ok (ER_DYNCOL_DATA, s2)
        else rbind (set_fixed_hdr fmt s2 hdr) (\<lambda>(s3, h1).
             let s4 = s3\<lparr>ds_length := ds_length s3 + (h_header_size h1 + h_nmpool_size h1)\<rparr>;
                 h2 = h1\<lparr>h_entry := h_header h1, h_name := h_nmpool h1\<rparr>;
                 ahs = fixed_hdr fmt + h_header_size h1 + h_nmpool_size h1
             in store_columns fmt E ahs h2 s4 order))"

definition dynamic_new_column_store ::
  "'k service_funcs \<Rightarrow> alloc_env \<Rightarrow> dynamic_string \<Rightarrow> dyn_header \<Rightarrow> ('k \<times> dyncol_value) list \<Rightarrow> bool
     \<Rightarrow> (dyncol_rc, dyncol_rc \<times> dynamic_string) res" where
  "dynamic_new_column_store fmt E s hdr cols new_str =
     (if \<not> alloc_ok E (8 * length cols) then Ok (ER_DYNCOL_RESOURCE, s)
      else let sz = fixed_hdr fmt + h_header_size hdr + h_nmpool_size hdr + h_data_size hdr + 80
           in rbind (if new_str \<or> ds_str s = None
                     then (if cols \<noteq> [] then dynamic_column_init_named E s sz
                           else Ok (False, ds_null))
                     else Ok (ma_dynstr_realloc E (s\<lparr>ds_length := 0\<rparr>) sz))
                (\<lambda>(failed, s1).
                   if failed then Ok (ER_DYNCOL_RESOURCE, s1)
                   else if cols = [] then Ok (ER_DYNCOL_OK, s1)
                   else fill_columns fmt E s1 hdr cols))"

definition dynamic_column_create_many_internal_fmt ::
  "'k service_funcs \<Rightarrow> alloc_env \<Rightarrow> dynamic_string \<Rightarrow> ('k \<times> dyncol_value) list \<Rightarrow> bool
     \<Rightarrow> (dyncol_rc, dyncol_rc \<times> dynamic_string) res" where
  "dynamic_column_create_many_internal_fmt fmt E s cols new_str =
     (let s1 = (if new_str then ds_null else s);
          (rc, hdr) = calc_var_sizes fmt cols (header_zero\<lparr>h_format := fmt_format fmt\<rparr>)
      in if rc_negative rc then Ok (rc, s1)
         else dynamic_new_column_store fmt E s1 hdr cols new_str)"

definition mariadb_dyncol_create_many_num ::
  "alloc_env \<Rightarrow> dynamic_string \<Rightarrow> (nat \<times> dyncol_value) list \<Rightarrow> bool
     \<Rightarrow> (dyncol_rc, dyncol_rc \<times> dynamic_string) res" where
  "mariadb_dyncol_create_many_num E s cols new_string =
     dynamic_column_create_many_internal_fmt fmt_num E s cols new_string"

definition mariadb_dyncol_create_many_named ::
  "alloc_env \<Rightarrow> dynamic_string \<Rightarrow> (bytes \<times> dyncol_value) list \<Rightarrow> bool
     \<Rightarrow> (dyncol_rc, dyncol_rc \<times> dynamic_string) res" where
  "mariadb_dyncol_create_many_named E s cols new_string =
     dynamic_column_create_many_internal_fmt fmt_str E s cols new_string"

definition dynamic_column_create_many ::
  "alloc_env \<Rightarrow> dynamic_string \<Rightarrow> (nat \<times> dyncol_value) list
     \<Rightarrow> (dyncol_rc, dyncol_rc \<times> dynamic_string) res" where
  "dynamic_column_create_many E s cols = dynamic_column_create_many_internal_fmt fmt_num E s cols True"

definition dynamic_column_create ::
  "alloc_env \<Rightarrow> dynamic_string \<Rightarrow> nat \<Rightarrow> dyncol_value \<Rightarrow> (dyncol_rc, dyncol_rc \<times> dynamic_string) res" where
  "dynamic_column_create E s column_nr v = dynamic_column_create_many E s [(column_nr, v)]"

section \<open>The image of a record\<close>

fun entries_image ::
  "nat \<Rightarrow> nat \<Rightarrow> ('k \<Rightarrow> nat \<Rightarrow> nat) \<Rightarrow> ('k \<Rightarrow> bytes) \<Rightarrow> dyncol_format \<Rightarrow> nat \<Rightarrow> nat
     \<Rightarrow> ('k \<times> dyncol_value) list \<Rightarrow> bytes" where
  "entries_image tb osz kv kn f nm off [] = []"
| "entries_image tb osz kv kn f nm off ((k, v) # cols) =
     entry_image tb osz (kv k nm) (dyncol_type v) off
       @ entries_image tb osz kv kn f (nm + length (kn k)) (off + length (value_image f v)) cols"

definition data_image :: "dyncol_format \<Rightarrow> ('k \<times> dyncol_value) list \<Rightarrow> bytes" where
  "data_image f cols = concat (map (\<lambda>c. value_image f (snd c)) cols)"

definition names_image :: "('k \<Rightarrow> bytes) \<Rightarrow> ('k \<times> dyncol_value) list \<Rightarrow> bytes" where
  "names_image kn cols = concat (map (\<lambda>c. kn (fst c)) cols)"

definition not_null :: "('k \<times> dyncol_value) list \<Rightarrow> ('k \<times> dyncol_value) list" where
  "not_null cols = filter (\<lambda>c. snd c \<noteq> DYN_COL_NULL) cols"

lemma length_entries_image [simp]:
  "length (entries_image tb osz kv kn f nm off cols) = length cols * (2 + osz)"
  by (induction tb osz kv kn f nm off cols rule: entries_image.induct) auto

lemma data_image_simps [simp]:
  "data_image f [] = []" "data_image f (c # cs) = value_image f (snd c) @ data_image f cs"
  by (simp_all add: data_image_def)

lemma names_image_simps [simp]:
  "names_image kn [] = []" "names_image kn (c # cs) = kn (fst c) @ names_image kn cs"
  by (simp_all add: names_image_def)

lemma dyncol_type_pos: "v \<noteq> DYN_COL_NULL \<Longrightarrow> 0 < dyncol_type v"
  by (cases v) auto

lemma store_columns_not_null:
  "store_columns fmt E ahs hdr s cols = store_columns fmt E ahs hdr s (not_null cols)"
proof (induction fmt E ahs hdr s cols rule: store_columns.induct)
  case (2 fmt E ahs hdr s k v cols)
  show ?case
  proof (cases "v = DYN_COL_NULL")
    case True
    with 2 show ?thesis by (simp add: not_null_def)
  next
    case False
    then have "not_null ((k, v) # cols) = (k, v) # not_null cols" by (simp add: not_null_def)
    moreover have "rbind (put_header_entry fmt s hdr k (dyncol_type v) (size_sub (ds_length s) ahs))
          (\<lambda>(failed, s1, h1). if failed then Ok (ER_DYNCOL_FORMAT, s1)
             else rc_then (data_store E s1 v (h_format hdr)) (\<lambda>s2. store_columns fmt E ahs h1 s2 cols))
       = rbind (put_header_entry fmt s hdr k (dyncol_type v) (size_sub (ds_length s) ahs))
          (\<lambda>(failed, s1, h1). if failed then Ok (ER_DYNCOL_FORMAT, s1)
             else rc_then (data_store E s1 v (h_format hdr)) (\<lambda>s2. store_columns fmt E ahs h1 s2 (not_null cols)))"
      using 2(1) [OF False] by (intro rbind_cong refl) (auto simp: rc_then_def intro!: rbind_cong)
    ultimately show ?thesis using False by simp
  qed
qed (simp add: not_null_def)

lemma list_split_at:
  "n \<le> length xs \<Longrightarrow> \<exists>ys zs. xs = ys @ zs \<and> length ys = n"
  by (intro exI [of _ "take n xs"] exI [of _ "drop n xs"]) simp

context column_format
begin

lemma store_columns_ok:
  assumes "ds_inv s" "ds_contents s = F @ EI @ J @ NI @ K @ DI"
    and "h_entry h = length F + length EI" "length J = length cols * h_entry_size h"
    and "h_entry_size h = 2 + h_offset_size h"
    and "h_nmpool h = length F + length EI + length J" "h_name h = h_nmpool h + length NI"
    and "length K = length (names_image key_name cols)"
    and "ahs = length F + length EI + length J + length NI + length K"
    and "osz_min \<le> h_offset_size h" "h_offset_size h \<le> 4"
    and "length DI + length (data_image (h_format h) cols) < offset_lim tb (h_offset_size h)"
    and "length (data_image (h_format h) cols) + 10 < ds_room s"
    and "\<And>k v. (k, v) \<in> set cols \<Longrightarrow> v \<noteq> DYN_COL_NULL \<and> dyncol_type v \<le> 2 ^ tb"
  shows "\<exists>s'. store_columns fmt E ahs h s cols = Ok (ER_DYNCOL_OK, s') \<and> ds_inv s' \<and>
    ds_max_length s' = ds_max_length s \<and>
    ds_contents s' = F @ EI @ entries_image tb (h_offset_size h) key_val key_name (h_format h)
        (length NI) (length DI) cols @ NI @ names_image key_name cols @ DI @ data_image (h_format h) cols"
  using assms
proof (induction cols arbitrary: s h EI J NI K DI)
  case Nil
  then show ?case by simp
next
  case (Cons c cols)
  obtain k v where c: "c = (k, v)" by (cases c)
  have v: "v \<noteq> DYN_COL_NULL" "0 < dyncol_type v" "dyncol_type v \<le> 2 ^ tb"
    using Cons.prems(14) [of k v] c dyncol_type_pos by auto
  let ?osz = "h_offset_size h" and ?f = "h_format h"
  obtain J0 J1 where J: "J = J0 @ J1" "length J0 = 2 + ?osz"
    using list_split_at [of "2 + ?osz" J] Cons.prems(4,5) by auto
  obtain K0 K1 where K: "K = K0 @ K1" "length K0 = length (key_name k)"
    using list_split_at [of "length (key_name k)" K] Cons.prems(8) c by auto
  have len: "ds_length s = ahs + length DI"
    using arg_cong [OF Cons.prems(2), of length] Cons.prems(1,9) by simp
  let ?h' = "h\<lparr>h_entry := h_entry h + h_entry_size h, h_name := h_name h + length (key_name k)\<rparr>"
  let ?e = "entry_image tb ?osz (key_val k (length NI)) (dyncol_type v) (length DI)"
  obtain s1 where s1: "put_header_entry fmt s h k (dyncol_type v) (length DI) = Ok (False, s1, ?h')"
    "ds_inv s1" "ds_max_length s1 = ds_max_length s"
    "ds_contents s1 = (F @ EI) @ ?e @ (J1 @ NI) @ key_name k @ (K1 @ DI)"
    using put_ok [of s "F @ EI" J0 "J1 @ NI" K0 "K1 @ DI" h k "length DI" "dyncol_type v"]
      Cons.prems(1-7,10-12) J K v by (auto simp: c)
  have len1: "ds_length s1 = ds_length s"
    using arg_cong [OF s1(4), of length] arg_cong [OF Cons.prems(2), of length] s1(2) Cons.prems(1) J K
    by simp
  have room1: "ds_room s1 = ds_room s" using len1 s1(3) by (simp add: ds_room_def)
  have "appends s1 (value_image ?f v) (data_store E s1 v ?f)"
    using Cons.prems(13) room1 s1(2) by (intro data_store_appends) (simp_all add: c)
  then obtain s2 where s2: "data_store E s1 v ?f = Ok (ER_DYNCOL_OK, s2)" "ds_inv s2"
    "ds_contents s2 = ds_contents s1 @ value_image ?f v" "ds_max_length s2 = ds_max_length s1"
    by (auto simp: appends_def)
  have room2: "ds_room s2 = ds_room s1 - length (value_image ?f v)"
    using arg_cong [OF s2(3), of length] s2(2,4) s1(2) by (simp add: ds_room_def)
  have "\<exists>s'. store_columns fmt E ahs ?h' s2 cols = Ok (ER_DYNCOL_OK, s') \<and> ds_inv s' \<and>
    ds_max_length s' = ds_max_length s2 \<and>
    ds_contents s' = F @ (EI @ ?e) @ entries_image tb (h_offset_size ?h') key_val key_name (h_format ?h')
        (length (NI @ key_name k)) (length (DI @ value_image ?f v)) cols @ (NI @ key_name k) @
        names_image key_name cols @ (DI @ value_image ?f v) @ data_image (h_format ?h') cols"
  proof (rule Cons.IH [where J = J1 and K = K1])
    show "ds_contents s2 = F @ (EI @ ?e) @ J1 @ (NI @ key_name k) @ K1 @ (DI @ value_image ?f v)"
      using s2(3) s1(4) by simp
  qed (use Cons.prems s2(2) J K c room1 room2 in auto)
  then obtain s' where "store_columns fmt E ahs ?h' s2 cols = Ok (ER_DYNCOL_OK, s')" "ds_inv s'"
    "ds_max_length s' = ds_max_length s2"
    "ds_contents s' = F @ (EI @ ?e) @ entries_image tb ?osz key_val key_name ?f
        (length NI + length (key_name k)) (length DI + length (value_image ?f v)) cols @ (NI @ key_name k) @
        names_image key_name cols @ (DI @ value_image ?f v) @ data_image ?f cols"
    by auto
  moreover have "size_sub (ds_length s) ahs = length DI" by (simp add: len)
  ultimately show ?case
    using v s1 s2 by (auto simp: c rc_then_def)
qed

end

section \<open>Sorting\<close>

lemma mset_qsort_insert [simp]: "mset (qsort_insert cmp x xs) = add_mset x (mset xs)"
  by (induction xs) auto

lemma mset_qsort [simp]: "mset (qsort cmp xs) = mset xs"
  by (induction xs) (auto simp: qsort_def)

lemma set_qsort [simp]: "set (qsort cmp xs) = set xs"
  by (metis mset_qsort set_mset_mset)

lemma sorted_qsort_insert:
  assumes "\<And>a b. a \<in> V \<Longrightarrow> b \<in> V \<Longrightarrow> \<not> cmp a b \<le> 0 \<Longrightarrow> cmp b a \<le> 0"
    and "\<And>a b c. a \<in> V \<Longrightarrow> b \<in> V \<Longrightarrow> c \<in> V \<Longrightarrow> cmp a b \<le> 0 \<Longrightarrow> cmp b c \<le> 0 \<Longrightarrow> cmp a c \<le> (0 :: int)"
    and "sorted_wrt (\<lambda>a b. cmp a b \<le> 0) xs" "insert x (set xs) \<subseteq> V"
  shows "sorted_wrt (\<lambda>a b. cmp a b \<le> 0) (qsort_insert cmp x xs)"
  using assms(3,4)
proof (induction xs)
  case (Cons y ys)
  have st: "set (qsort_insert cmp x ys) = insert x (set ys)"
    by (metis mset_qsort_insert set_mset_add_mset_insert set_mset_mset)
  show ?case
  proof (cases "cmp x y \<le> 0")
    case True
    have "cmp x z \<le> 0" if "z \<in> set ys" for z
      using Cons.prems True that by (intro assms(2) [of x y z]) auto
    with True Cons.prems(1) show ?thesis by simp
  next
    case False
    have "cmp y x \<le> 0" using Cons.prems(2) False by (intro assms(1)) simp_all
    with False Cons show ?thesis by (simp add: st)
  qed
qed simp

lemma sorted_qsort:
  assumes "\<And>a b. a \<in> V \<Longrightarrow> b \<in> V \<Longrightarrow> \<not> cmp a b \<le> 0 \<Longrightarrow> cmp b a \<le> 0"
    and "\<And>a b c. a \<in> V \<Longrightarrow> b \<in> V \<Longrightarrow> c \<in> V \<Longrightarrow> cmp a b \<le> 0 \<Longrightarrow> cmp b c \<le> 0 \<Longrightarrow> cmp a c \<le> (0 :: int)"
    and "set xs \<subseteq> V"
  shows "sorted_wrt (\<lambda>a b. cmp a b \<le> 0) (qsort cmp xs)"
  using assms(3)
proof (induction xs)
  case (Cons x xs)
  have "set (foldr (qsort_insert cmp) xs []) = set xs" using set_qsort [of cmp xs] by (simp add: qsort_def)
  then have "sorted_wrt (\<lambda>a b. cmp a b \<le> 0) (qsort_insert cmp x (qsort cmp xs))"
    using Cons by (intro sorted_qsort_insert [where V = V and cmp = cmp, OF assms(1,2)]) (auto simp: qsort_def)
  then show ?case by (simp add: qsort_def)
qed (simp add: qsort_def)

lemma order_invalid_limit: "order_invalid fmt cs = False \<Longrightarrow> c \<in> set cs \<Longrightarrow> \<not> check_limit fmt (fst c)"
  by (induction fmt cs rule: order_invalid.induct) auto

definition keys_valid :: "'k service_funcs \<Rightarrow> ('k \<times> dyncol_value) list \<Rightarrow> bool" where
  "keys_valid fmt cols \<longleftrightarrow> (\<forall>c\<in>set cols. \<not> check_limit fmt (fst c)) \<and> distinct (map fst cols)"

lemma columns_order_set [simp]:
  "set (columns_order fmt cols) = set cols" "mset (columns_order fmt cols) = mset cols"
  by (simp_all add: columns_order_def)

lemma columns_order_length [simp]: "length (columns_order fmt cols) = length cols"
  by (metis columns_order_set(2) size_mset)

lemma columns_order_distinct: "distinct (map fst (columns_order fmt cols)) = distinct (map fst cols)"
  by (metis columns_order_set(2) mset_eq_imp_distinct_iff mset_map)

context column_format
begin

lemma sort_le: "\<not> check_limit fmt a \<Longrightarrow> \<not> check_limit fmt b \<Longrightarrow>
   column_sort fmt a b \<le> 0 \<longleftrightarrow> lt a b \<or> a = b"
  using sort_sign [of a b] by auto

lemma order_sorted:
  assumes "\<forall>c\<in>set cols. \<not> check_limit fmt (fst c)"
  shows "sorted_wrt (\<lambda>c d. lt (fst c) (fst d) \<or> fst c = fst d) (columns_order fmt cols)"
proof -
  have "sorted_wrt (\<lambda>c d. column_cmp fmt c d \<le> 0) (columns_order fmt cols)"
    unfolding columns_order_def
  proof (rule sorted_qsort [where V = "set cols"])
    fix a b
    assume "a \<in> set cols" "b \<in> set cols" "\<not> column_cmp fmt a b \<le> 0"
    then show "column_cmp fmt b a \<le> 0"
      using assms sort_lt(3) [of "fst a" "fst b"] by (auto simp: column_cmp_def sort_le)
  next
    fix a b c
    assume "a \<in> set cols" "b \<in> set cols" "c \<in> set cols" "column_cmp fmt a b \<le> 0" "column_cmp fmt b c \<le> 0"
    then show "column_cmp fmt a c \<le> 0"
      using assms sort_lt(2) [of "fst a" "fst b" "fst c"] by (auto simp: column_cmp_def sort_le)
  qed simp
  then show ?thesis
    by (rule sorted_wrt_mono_rel [rotated]) (use assms in \<open>auto simp: column_cmp_def sort_le\<close>)
qed

lemma sorted_distinct_strict:
  "sorted_wrt (\<lambda>c d. lt (fst c) (fst d) \<or> fst c = fst d) cs \<Longrightarrow> distinct (map fst cs) \<Longrightarrow>
   sorted_wrt (\<lambda>c d. lt (fst c) (fst d)) cs"
  by (induction cs) (auto simp: image_iff)

lemma order_strict:
  assumes "keys_valid fmt cols"
  shows "sorted_wrt (\<lambda>c d. lt (fst c) (fst d)) (columns_order fmt cols)"
  using assms
  by (intro sorted_distinct_strict order_sorted) (simp_all add: keys_valid_def columns_order_distinct)

lemma order_invalid_adjacent:
  assumes "sorted_wrt (\<lambda>c d. lt (fst c) (fst d) \<or> fst c = fst d) cs"
    "\<forall>c\<in>set cs. \<not> check_limit fmt (fst c)"
  shows "order_invalid fmt cs \<longleftrightarrow> \<not> distinct (map fst cs)"
  using assms
proof (induction fmt\<equiv>fmt cs rule: order_invalid.induct)
  case (3 c d cs)
  have e: "column_sort fmt (fst c) (fst d) = 0 \<longleftrightarrow> fst c = fst d"
    using "3.prems" sort_sign [of "fst c" "fst d"] by simp
  have "fst c \<notin> fst ` set cs" if "fst c \<noteq> fst d"
  proof
    assume "fst c \<in> fst ` set cs"
    then obtain x where "x \<in> set cs" "fst x = fst c" by auto
    with "3.prems"(1) that have "lt (fst c) (fst d)" "lt (fst d) (fst c) \<or> fst d = fst c" by auto
    with sort_lt(1,2) that show False by metis
  qed
  with 3 e show ?case by auto
qed auto

lemma order_invalid_iff: "order_invalid fmt (columns_order fmt cols) \<longleftrightarrow> \<not> keys_valid fmt cols"
proof (cases "\<forall>c\<in>set cols. \<not> check_limit fmt (fst c)")
  case True
  with order_invalid_adjacent [OF order_sorted [OF True]] show ?thesis
    by (simp add: keys_valid_def columns_order_distinct)
next
  case False
  then have "order_invalid fmt (columns_order fmt cols)"
    using order_invalid_limit [of fmt "columns_order fmt cols"] by fastforce
  with False show ?thesis by (auto simp: keys_valid_def)
qed

end

section \<open>Creating a record\<close>

definition total_len :: "dyncol_format \<Rightarrow> ('k \<times> dyncol_value) list \<Rightarrow> nat" where
  "total_len f cols = sum_list (map (\<lambda>c. dynamic_column_value_len (snd c) f) (not_null cols))"

lemma not_null_simps [simp]:
  "not_null [] = []"
  "not_null (c # cols) = (if snd c = DYN_COL_NULL then not_null cols else c # not_null cols)"
  by (simp_all add: not_null_def)

lemma not_null_set [simp]: "set (not_null cols) = {c \<in> set cols. snd c \<noteq> DYN_COL_NULL}"
  by (simp add: not_null_def)

lemma length_data_image_le: "length (data_image f (not_null cols)) \<le> total_len f cols"
  by (induction cols) (auto simp: total_len_def intro!: add_mono value_len_image)

lemma perm_data_image_length:
  "mset cols = mset cols' \<Longrightarrow> length (data_image f (not_null cols)) = length (data_image f (not_null cols'))"
proof -
  have "length (data_image f (not_null xs)) =
      sum_mset (image_mset (\<lambda>c. length (value_image f (snd c))) (filter_mset (\<lambda>c. snd c \<noteq> DYN_COL_NULL) (mset xs)))"
    for xs :: "('a \<times> dyncol_value) list"
    by (induction xs) auto
  then show "mset cols = mset cols' \<Longrightarrow> ?thesis" by simp
qed

lemma perm_names_length:
  "mset cols = mset cols' \<Longrightarrow> length (names_image kn (not_null cols)) = length (names_image kn (not_null cols'))"
proof -
  have "length (names_image kn (not_null xs)) =
      sum_mset (image_mset (\<lambda>c. length (kn (fst c))) (filter_mset (\<lambda>c. snd c \<noteq> DYN_COL_NULL) (mset xs)))" for xs
    by (induction xs) auto
  then show "mset cols = mset cols' \<Longrightarrow> ?thesis" by simp
qed

lemma perm_length_not_null: "mset cols = mset cols' \<Longrightarrow> length (not_null cols) = length (not_null cols')"
  by (metis mset_filter not_null_def size_mset)

lemma var_sizes_loop_ok:
  assumes "h_format hdr = f" "\<And>c. c \<in> set cols \<Longrightarrow> dynamic_column_value_len (snd c) f \<noteq> 2 ^ 64 - 1"
  shows "var_sizes_loop fmt cols hdr = (ER_DYNCOL_OK, hdr\<lparr>
      h_column_count := h_column_count hdr + length (not_null cols),
      h_data_size := h_data_size hdr + total_len f cols,
      h_nmpool_size := h_nmpool_size hdr + sum_list (map (\<lambda>c. name_size fmt (fst c)) (not_null cols))\<rparr>)"
  using assms
proof (induction cols arbitrary: hdr)
  case (Cons c cols)
  obtain k v where c: "c = (k, v)" by (cases c)
  show ?case
  proof (cases "v = DYN_COL_NULL")
    case True
    with Cons show ?thesis by (simp add: c total_len_def)
  next
    case False
    have "dynamic_column_value_len v f \<noteq> 2 ^ 64 - 1" using Cons.prems(2) [of c] c by simp
    with False Cons show ?thesis
      by (simp add: c total_len_def Let_def del: dynamic_column_value_len.simps)
  qed
qed (simp add: total_len_def)

lemma var_sizes_loop_rc: "fst (var_sizes_loop fmt cols hdr) \<in> {ER_DYNCOL_OK, ER_DYNCOL_DATA}"
  by (induction fmt cols hdr rule: var_sizes_loop.induct) (auto simp: Let_def)

lemma var_sizes_loop_lens:
  "fst (var_sizes_loop fmt cols hdr) = ER_DYNCOL_OK \<Longrightarrow> h_format hdr = f \<Longrightarrow> c \<in> set cols \<Longrightarrow>
   dynamic_column_value_len (snd c) f \<noteq> 2 ^ 64 - 1"
  by (induction fmt cols hdr rule: var_sizes_loop.induct)
    (auto simp: Let_def simp del: dynamic_column_value_len.simps(2-) split: if_splits)

lemma ds_store_front:
  assumes "ds_inv s" "length bs \<le> ds_max_length s" "n = length bs"
  shows "\<exists>s1. ds_store s 0 bs = Ok s1 \<and> ds_inv (s1\<lparr>ds_length := n\<rparr>) \<and>
    ds_contents (s1\<lparr>ds_length := n\<rparr>) = bs \<and> ds_max_length s1 = ds_max_length s"
proof -
  obtain buf where b: "ds_str s = Some buf" "length buf = ds_max_length s"
    "ds_length s \<le> ds_max_length s" "0 < ds_alloc_increment s"
    using assms(1) by (rule ds_invE)
  with assms(2,3) show ?thesis
    by (simp add: ds_store_def ds_buf_def store_bytes_Ok ds_inv_def ds_contents_def)
qed

lemma ds_extend:
  assumes "ds_inv s" "n \<le> ds_room s"
  shows "\<exists>junk. length junk = n \<and> ds_inv (s\<lparr>ds_length := ds_length s + n\<rparr>) \<and>
    ds_contents (s\<lparr>ds_length := ds_length s + n\<rparr>) = ds_contents s @ junk"
proof -
  obtain buf where b: "ds_str s = Some buf" "length buf = ds_max_length s"
    "ds_length s \<le> ds_max_length s" "0 < ds_alloc_increment s"
    using assms(1) by (rule ds_invE)
  then show ?thesis using assms(2)
    by (intro exI [of _ "take n (drop (ds_length s) buf)"])
      (auto simp: ds_inv_def ds_contents_def ds_room_def take_add)
qed

definition record_image ::
  "nat \<Rightarrow> nat \<Rightarrow> ('k \<Rightarrow> nat \<Rightarrow> nat) \<Rightarrow> ('k \<Rightarrow> bytes) \<Rightarrow> (nat \<Rightarrow> bytes) \<Rightarrow> nat \<Rightarrow> dyncol_format
     \<Rightarrow> ('k \<times> dyncol_value) list \<Rightarrow> bytes" where
  "record_image tb osz kv kn nmf flags f cols =
     word_of_nat flags # le_bytes 2 (length cols) @ nmf (length (names_image kn cols))
       @ entries_image tb osz kv kn f 0 0 cols @ names_image kn cols @ data_image f cols"

context column_format
begin

definition osz_of :: "('k \<times> dyncol_value) list \<Rightarrow> nat" where
  "osz_of cols = dynamic_column_offset_bytes fmt (total_len (fmt_format fmt) cols)"

lemma sum_name_size:
  "sum_list (map (\<lambda>c. name_size fmt (fst c)) cols) = length (names_image key_name cols)"
  by (induction cols) (auto simp: name_size)

definition sized_hdr :: "('k \<times> dyncol_value) list \<Rightarrow> dyn_header" where
  "sized_hdr cols = header_zero\<lparr>h_format := fmt_format fmt,
     h_nmpool_size := length (names_image key_name (not_null cols)),
     h_data_size := total_len (fmt_format fmt) cols,
     h_column_count := length (not_null cols), h_offset_size := osz_of cols,
     h_entry_size := 2 + osz_of cols, h_header_size := length (not_null cols) * (2 + osz_of cols)\<rparr>"

lemma calc_var_sizes_ok:
  assumes "\<And>c. c \<in> set cols \<Longrightarrow> dynamic_column_value_len (snd c) (fmt_format fmt) \<noteq> 2 ^ 64 - 1"
  shows "if osz_of cols < max_offset_size fmt
    then calc_var_sizes fmt cols (header_zero\<lparr>h_format := fmt_format fmt\<rparr>) = (ER_DYNCOL_OK, sized_hdr cols)
    else fst (calc_var_sizes fmt cols (header_zero\<lparr>h_format := fmt_format fmt\<rparr>)) = ER_DYNCOL_LIMIT"
proof -
  let ?h = "header_zero\<lparr>h_format := fmt_format fmt, h_nmpool_size := 0, h_data_size := 0, h_column_count := 0\<rparr>"
  have loop: "var_sizes_loop fmt cols ?h = (ER_DYNCOL_OK, ?h\<lparr>h_column_count := length (not_null cols),
      h_data_size := total_len (fmt_format fmt) cols,
      h_nmpool_size := length (names_image key_name (not_null cols))\<rparr>)"
    using var_sizes_loop_ok [of ?h "fmt_format fmt" cols fmt] assms by (simp add: sum_name_size)
  show ?thesis
    unfolding calc_var_sizes_def loop
    by (simp add: Let_def osz_of_def sized_hdr_def header_zero_def entry_fixed)
qed

lemma fill_columns_ok:
  assumes "ds_inv s" "osz_of cols < max_offset_size fmt" "keys_valid fmt cols"
    and "fixed_hdr fmt + length (not_null cols) * (2 + osz_of cols)
      + length (names_image key_name (not_null cols)) + total_len (fmt_format fmt) cols + 80 \<le> ds_max_length s"
    and "\<And>c. c \<in> set cols \<Longrightarrow> dyncol_type (snd c) \<le> 2 ^ tb"
  shows "\<exists>s'. fill_columns fmt E s (sized_hdr cols) cols = Ok (ER_DYNCOL_OK, s') \<and> ds_inv s' \<and>
    ds_max_length s' = ds_max_length s \<and>
    ds_contents s' = record_image tb (osz_of cols) key_val key_name nm_field
      (flag_bits + (osz_of cols - osz_min)) (fmt_format fmt) (not_null (columns_order fmt cols))"
proof -
  let ?h = "sized_hdr cols" and ?fh = "fixed_hdr fmt" and ?o = "columns_order fmt cols"
  let ?osz = "osz_of cols" and ?f = "fmt_format fmt"
  let ?nn = "not_null ?o"
  have sz: "osz_min \<le> ?osz" "?osz \<le> 4" "total_len ?f cols < offset_lim tb ?osz"
    using offset_bytes [of "total_len ?f cols"] assms(2) by (auto simp: osz_of_def)
  have perm: "length ?nn = length (not_null cols)"
    "length (names_image key_name ?nn) = length (names_image key_name (not_null cols))"
    "length (data_image ?f ?nn) = length (data_image ?f (not_null cols))"
    using perm_length_not_null [of ?o cols] perm_names_length [of ?o cols key_name]
      perm_data_image_length [of ?o cols ?f] by simp_all
  obtain s1 where s1: "ds_store s 0 (replicate ?fh 0) = Ok s1" "ds_inv (s1\<lparr>ds_length := ?fh\<rparr>)"
    "ds_contents (s1\<lparr>ds_length := ?fh\<rparr>) = replicate ?fh 0" "ds_max_length s1 = ds_max_length s"
    using ds_store_front [OF assms(1), of "replicate ?fh 0" ?fh] assms(4) by auto
  let ?h1 = "?h\<lparr>h_header := ?fh, h_nmpool := ?fh + h_header_size ?h,
      h_dtpool := ?fh + h_header_size ?h + h_nmpool_size ?h\<rparr>"
  let ?F = "word_of_nat (flag_bits + (?osz - osz_min)) # le_bytes 2 (length ?nn) @
      nm_field (length (names_image key_name ?nn))"
  obtain s3 where s3: "set_fixed_hdr fmt (s1\<lparr>ds_length := ?fh\<rparr>) ?h = Ok (s3, ?h1)"
    "ds_inv s3" "ds_max_length s3 = ds_max_length s" "ds_contents s3 = ?F"
    using set_hdr_ok [OF s1(2,3), of ?h "map fst (not_null cols)"] sz s1(4) perm
    by (auto simp: sized_hdr_def names_image_def comp_def)
  have F: "length ?F = ?fh" using hdr_size [of "length (names_image key_name ?nn)"] by simp
  have len3: "ds_length s3 = ?fh" using arg_cong [OF s3(4), of length] s3(2) F by simp
  let ?n = "length ?nn * (2 + ?osz) + length (names_image key_name ?nn)"
  let ?s4 = "s3\<lparr>ds_length := ds_length s3 + ?n\<rparr>"
  have "?n \<le> ds_room s3" using assms(4) len3 s3(3) perm by (simp add: ds_room_def)
  then obtain junk where junk: "length junk = ?n" "ds_inv ?s4" "ds_contents ?s4 = ?F @ junk"
    using ds_extend [OF s3(2), of ?n] s3(4) by metis
  obtain J K where JK: "junk = J @ K" "length J = length ?nn * (2 + ?osz)"
    "length K = length (names_image key_name ?nn)"
    using list_split_at [of "length ?nn * (2 + ?osz)" junk] junk(1) by auto
  let ?h2 = "?h1\<lparr>h_entry := h_header ?h1, h_name := h_nmpool ?h1\<rparr>"
  let ?ahs = "?fh + h_header_size ?h1 + h_nmpool_size ?h1"
  have dl: "length (data_image ?f ?nn) \<le> total_len ?f cols"
    using length_data_image_le [of ?f cols] perm by simp
  have "\<exists>s'. store_columns fmt E ?ahs ?h2 ?s4 ?nn = Ok (ER_DYNCOL_OK, s') \<and> ds_inv s' \<and>
    ds_max_length s' = ds_max_length ?s4 \<and>
    ds_contents s' = ?F @ [] @ entries_image tb (h_offset_size ?h2) key_val key_name (h_format ?h2)
        (length ([] :: bytes)) (length ([] :: bytes)) ?nn @ [] @ names_image key_name ?nn @ [] @
        data_image (h_format ?h2) ?nn"
  proof (rule store_columns_ok [where J = J and K = K])
    show "ds_contents ?s4 = ?F @ [] @ J @ [] @ K @ []" using junk(3) JK by simp
  next
    show "length (data_image (h_format ?h2) ?nn) + 10 < ds_room ?s4"
      using assms(4) len3 s3(3) dl perm by (simp add: sized_hdr_def ds_room_def)
  next
    fix k v
    assume "(k, v) \<in> set ?nn"
    then show "v \<noteq> DYN_COL_NULL \<and> dyncol_type v \<le> 2 ^ tb" using assms(5) by auto
  qed (use junk(2) F JK perm sz dl in \<open>simp_all add: sized_hdr_def\<close>)
  then obtain s' where s': "store_columns fmt E ?ahs ?h2 ?s4 ?nn = Ok (ER_DYNCOL_OK, s')" "ds_inv s'"
    "ds_max_length s' = ds_max_length s" "ds_contents s' = record_image tb ?osz key_val key_name nm_field
      (flag_bits + (?osz - osz_min)) ?f ?nn"
    using s3(3) by (auto simp: record_image_def sized_hdr_def)
  have "\<not> order_invalid fmt ?o" using order_invalid_iff assms(3) by simp
  moreover have "h_header_size ?h1 + h_nmpool_size ?h1 = ?n" by (simp add: sized_hdr_def perm)
  ultimately have "fill_columns fmt E s ?h cols = store_columns fmt E ?ahs ?h2 ?s4 ?o"
    unfolding fill_columns_def s1(1) rbind.simps Let_def s3(1) prod.case by simp
  with s' store_columns_not_null [of fmt E ?ahs ?h2 ?s4 ?o] show ?thesis by auto
qed

end

context column_format
begin

lemma fill_columns_invalid:
  assumes "ds_inv s" "\<not> keys_valid fmt cols" "fixed_hdr fmt \<le> ds_max_length s"
  shows "\<exists>s'. fill_columns fmt E s h cols = Ok (ER_DYNCOL_DATA, s')"
proof -
  obtain s1 where "ds_store s 0 (replicate (fixed_hdr fmt) 0) = Ok s1"
    using ds_store_front [OF assms(1), of "replicate (fixed_hdr fmt) 0" "fixed_hdr fmt"] assms(3) by auto
  with assms(2) order_invalid_iff [of cols] show ?thesis by (simp add: fill_columns_def Let_def)
qed

definition is_record :: "('k \<times> dyncol_value) list \<Rightarrow> dynamic_string \<Rightarrow> bool" where
  "is_record cols s \<longleftrightarrow> ds_inv s \<and> ds_contents s = record_image tb (osz_of cols) key_val key_name nm_field
     (flag_bits + (osz_of cols - osz_min)) (fmt_format fmt) (not_null (columns_order fmt cols))"

lemma fill_columns_result:
  assumes "ds_inv s" "osz_of cols < max_offset_size fmt"
    and "fixed_hdr fmt + length (not_null cols) * (2 + osz_of cols)
      + length (names_image key_name (not_null cols)) + total_len (fmt_format fmt) cols + 80 \<le> ds_max_length s"
    and "\<And>c. c \<in> set cols \<Longrightarrow> dyncol_type (snd c) \<le> 2 ^ tb"
  shows "\<exists>s'. fill_columns fmt E s (sized_hdr cols) cols =
      Ok (if keys_valid fmt cols then ER_DYNCOL_OK else ER_DYNCOL_DATA, s') \<and>
    (keys_valid fmt cols \<longrightarrow> is_record cols s')"
proof (cases "keys_valid fmt cols")
  case True
  with fill_columns_ok [OF assms(1,2) True assms(3,4), of E] show ?thesis
    by (auto simp: is_record_def)
next
  case False
  with fill_columns_invalid [OF assms(1) False, of E "sized_hdr cols"] assms(3) show ?thesis by auto
qed

lemma new_column_store_result:
  assumes "new_str \<or> ds_str s = None \<or> ds_inv s" "osz_of cols < max_offset_size fmt"
    and "\<And>c. c \<in> set cols \<Longrightarrow> dyncol_type (snd c) \<le> 2 ^ tb"
  shows "\<exists>rc s'. dynamic_new_column_store fmt E s (sized_hdr cols) cols new_str = Ok (rc, s') \<and>
    (rc = ER_DYNCOL_RESOURCE \<and> (\<exists>n. \<not> alloc_ok E n) \<or>
     cols = [] \<and> rc = ER_DYNCOL_OK \<and> ds_length s' = 0 \<or>
     cols \<noteq> [] \<and> rc = (if keys_valid fmt cols then ER_DYNCOL_OK else ER_DYNCOL_DATA) \<and>
       (keys_valid fmt cols \<longrightarrow> is_record cols s'))"
proof (cases "alloc_ok E (8 * length cols)")
  case False
  then show ?thesis by (auto simp: dynamic_new_column_store_def)
next
  case True
  let ?h = "sized_hdr cols"
  let ?sz = "fixed_hdr fmt + h_header_size ?h + h_nmpool_size ?h + h_data_size ?h + 80"
  have sz: "?sz = fixed_hdr fmt + length (not_null cols) * (2 + osz_of cols)
      + length (names_image key_name (not_null cols)) + total_len (fmt_format fmt) cols + 80"
    by (simp add: sized_hdr_def)
  note fill = fill_columns_result [OF _ assms(2) _ assms(3), of _ E, folded sz]
  show ?thesis
  proof (cases "new_str \<or> ds_str s = None")
    case new: True
    show ?thesis
    proof (cases "cols = []")
      case True
      with new \<open>alloc_ok E (8 * length cols)\<close> show ?thesis
        by (simp add: dynamic_new_column_store_def ds_null_def)
    next
      case False
      show ?thesis
      proof (cases "malloc E ?sz")
        case None
        then have "\<not> alloc_ok E ?sz" by (auto simp: malloc_def split: if_splits)
        with None new True False show ?thesis
          by (auto simp: dynamic_new_column_store_def dynamic_column_init_named_def
              ma_init_dynamic_string_def Let_def)
      next
        case (Some buf)
        obtain s1 where s1: "dynamic_column_init_named E s ?sz = Ok (False, s1)"
          using Some by (simp add: dynamic_column_init_named_def ma_init_dynamic_string_def Let_def)
        then have "ds_inv s1" "ds_max_length s1 = ?sz"
          using ma_init_dynamic_string_None [of E ?sz 80 s s1] by (simp_all add: dynamic_column_init_named_def)
        then obtain s' where "fill_columns fmt E s1 ?h cols =
            Ok (if keys_valid fmt cols then ER_DYNCOL_OK else ER_DYNCOL_DATA, s')"
          "keys_valid fmt cols \<longrightarrow> is_record cols s'"
          using fill [of s1] by auto
        with s1 new True False show ?thesis
          by (simp add: dynamic_new_column_store_def Let_def)
      qed
    qed
  next
    case old: False
    let ?s0 = "s\<lparr>ds_length := 0\<rparr>"
    have inv: "ds_inv ?s0" using assms(1) old by (auto simp: ds_inv_def)
    obtain failed s1 where s1: "ma_dynstr_realloc E ?s0 ?sz = (failed, s1)" by force
    show ?thesis
    proof (cases failed)
      case True
      with s1 inv have "\<exists>m. \<not> alloc_ok E m" by (auto dest: ma_dynstr_realloc_fail)
      with True s1 old \<open>alloc_ok E (8 * length cols)\<close> show ?thesis
        by (auto simp: dynamic_new_column_store_def Let_def)
    next
      case False
      with ma_dynstr_realloc_ok [OF inv, of E ?sz s1] s1
      have r: "ds_inv s1" "ds_length s1 = 0" "?sz \<le> ds_max_length s1" by (auto simp: ds_room_def)
      then obtain s' where "fill_columns fmt E s1 ?h cols =
          Ok (if keys_valid fmt cols then ER_DYNCOL_OK else ER_DYNCOL_DATA, s')"
        "keys_valid fmt cols \<longrightarrow> is_record cols s'"
        using fill [of s1] by auto
      moreover have "\<not> (new_str \<or> ds_str s = None)" using old by simp
      ultimately show ?thesis using r s1 False True
        by (cases "cols = []") (simp_all only: dynamic_new_column_store_def Let_def if_False if_True
            not_False_eq_True rbind.simps prod.case, simp_all)
    qed
  qed
qed

lemma create_ok_lens:
  assumes "dynamic_column_create_many_internal_fmt fmt E s cols new_str = Ok (ER_DYNCOL_OK, s')" "c \<in> set cols"
  shows "dynamic_column_value_len (snd c) (fmt_format fmt) \<noteq> 2 ^ 64 - 1"
proof -
  let ?h = "header_zero\<lparr>h_format := fmt_format fmt\<rparr>"
  have "\<not> rc_negative (fst (calc_var_sizes fmt cols ?h))"
    using assms(1) by (cases "calc_var_sizes fmt cols ?h")
      (auto simp: dynamic_column_create_many_internal_fmt_def split: if_splits)
  then have "fst (var_sizes_loop fmt cols (?h\<lparr>h_nmpool_size := 0, h_data_size := 0, h_column_count := 0\<rparr>)) = ER_DYNCOL_OK"
    using var_sizes_loop_rc [of fmt cols "?h\<lparr>h_nmpool_size := 0, h_data_size := 0, h_column_count := 0\<rparr>"]
    by (auto simp: calc_var_sizes_def split: prod.splits)
  then show ?thesis by (rule var_sizes_loop_lens [OF _ _ assms(2)]) simp
qed

lemma create_result:
  assumes "new_str \<or> ds_str s = None \<or> ds_inv s"
    and "\<And>c. c \<in> set cols \<Longrightarrow> dyncol_type (snd c) \<le> 2 ^ tb"
    and "\<And>c. c \<in> set cols \<Longrightarrow> dynamic_column_value_len (snd c) (fmt_format fmt) \<noteq> 2 ^ 64 - 1"
  shows "\<exists>rc s'. dynamic_column_create_many_internal_fmt fmt E s cols new_str = Ok (rc, s') \<and>
    (if \<not> osz_of cols < max_offset_size fmt then rc = ER_DYNCOL_LIMIT
     else rc = ER_DYNCOL_RESOURCE \<and> (\<exists>n. \<not> alloc_ok E n) \<or>
       cols = [] \<and> rc = ER_DYNCOL_OK \<and> ds_length s' = 0 \<or>
       cols \<noteq> [] \<and> rc = (if keys_valid fmt cols then ER_DYNCOL_OK else ER_DYNCOL_DATA) \<and>
       (keys_valid fmt cols \<longrightarrow> is_record cols s'))"
proof (cases "osz_of cols < max_offset_size fmt")
  case True
  have "calc_var_sizes fmt cols (header_zero\<lparr>h_format := fmt_format fmt\<rparr>) = (ER_DYNCOL_OK, sized_hdr cols)"
    using calc_var_sizes_ok [of cols, OF assms(3)] True by simp
  moreover have "new_str \<or> ds_str (if new_str then ds_null else s) = None \<or> ds_inv (if new_str then ds_null else s)"
    using assms(1) by auto
  ultimately show ?thesis
    using new_column_store_result [of new_str "if new_str then ds_null else s" cols E] True assms(2)
    by (simp add: dynamic_column_create_many_internal_fmt_def)
next
  case False
  obtain rc h where c: "calc_var_sizes fmt cols (header_zero\<lparr>h_format := fmt_format fmt\<rparr>) = (rc, h)" by force
  with calc_var_sizes_ok [of cols, OF assms(3)] False have "rc = ER_DYNCOL_LIMIT" by simp
  with c False show ?thesis by (simp add: dynamic_column_create_many_internal_fmt_def)
qed

end

end
