(* ===== verification/Dyncol_Read.thy ===== *)
theory Dyncol_Read
  imports Dyncol_Create "HOL-Library.Code_Target_Nat"
begin

text \<open>
  Reading a record of dynamic columns (\<^verbatim>\<open>mariadb_dyncol.c\<close>, lines 1935--2580 and
  4225--4367): the search for an entry by number or by name, the reading of a column, the
  test for a column, the lists of columns and the unpacking of a whole record. A reader
  gets the string; \<open>Err\<close> is a negative return code (the caller's value is then
  \<open>DYN_COL_NULL\<close> or its lists are empty), \<open>Ok\<close> the result of a successful call.
\<close>

section \<open>Lengths\<close>

text \<open>
  \<open>hdr_interval_length\<close>: the result is the length and the descriptor with the type and
  offset of the entry. \<open>0xffffffff\<close> is \<open>DYNCOL_OFFSET_ERROR\<close>.
\<close>

definition hdr_interval_length ::
  "bytes \<Rightarrow> dyn_header \<Rightarrow> nat \<Rightarrow> (dyncol_rc, nat \<times> dyn_header) res" where
  "hdr_interval_length buf hdr next_entry =
     (let read = (\<lambda>e. fmt_type_and_offset_read (h_format hdr) buf
                        (e + fmt_fixed_hdr_entry (h_format hdr)) (h_offset_size hdr))
      in rbind (read (h_entry hdr)) (\<lambda>(bad, ty, off).
         let h1 = hdr\<lparr>h_type := ty, h_offset := off\<rparr> in
         if bad then Ok (0xffffffff, h1)
         else if next_entry = h_header hdr + h_header_size hdr
         then Ok (size_sub (h_data_size hdr) off, h1)
         else rbind (read next_entry) (\<lambda>(bad', ty', off').
              if bad' then Ok (0xffffffff, h1) else Ok (size_sub off' off, h1))))"

section \<open>Finding an entry\<close>

text \<open>
  The comparison of two entries by their numbers, and \<open>bsearch\<close> of the C library on an
  array of \<open>n\<close> elements of \<open>esz\<close> bytes from \<open>base\<close>: a binary search that compares the
  key with the middle element and returns the address of a match.
\<close>

definition header_compar_num :: "nat \<Rightarrow> nat \<Rightarrow> int" where
  "header_compar_num va vb = (if vb < va then 1 else if va < vb then -1 else 0)"

function bsearch ::
  "(nat \<Rightarrow> ('e, int) res) \<Rightarrow> nat \<Rightarrow> nat \<Rightarrow> nat \<Rightarrow> ('e, nat option) res" where
  "bsearch cmp base n esz =
     (if n = 0 then Ok None
      else let mid = n div 2; p = base + mid * esz in
           rbind (cmp p) (\<lambda>c.
             if c = 0 then Ok (Some p)
             else if c < 0 then bsearch cmp base mid esz
             else bsearch cmp (p + esz) (n - mid - 1) esz))"
  by pat_completeness auto
termination
  by (relation "measure (\<lambda>(cmp, base, n, esz). n)") auto

text \<open>The key is stored in two bytes before the search.\<close>

definition find_entry_num :: "bytes \<Rightarrow> dyn_header \<Rightarrow> nat \<Rightarrow> (dyncol_rc, nat option) res" where
  "find_entry_num buf hdr key =
     bsearch (\<lambda>p. rmap (header_compar_num (le_val (le_bytes 2 key))) (uint2korr buf p))
       (h_header hdr) (h_column_count hdr) (h_entry_size hdr)"

text \<open>\<open>read_name\<close>: the flag, the index of the name and its length.\<close>

definition read_name :: "bytes \<Rightarrow> dyn_header \<Rightarrow> nat \<Rightarrow> (dyncol_rc, bool \<times> nat \<times> nat) res" where
  "read_name buf hdr entry =
     rbind (uint2korr buf entry) (\<lambda>nmoffset.
       let next_entry = entry + h_entry_size hdr in
       if h_nmpool_size hdr < nmoffset then Ok (True, 0, 0)
       else if next_entry = h_header hdr + h_header_size hdr
       then Ok (False, h_nmpool hdr + nmoffset, h_nmpool_size hdr - nmoffset)
       else rbind (uint2korr buf next_entry) (\<lambda>next_nmoffset.
            if h_nmpool_size hdr < next_nmoffset then Ok (True, 0, 0)
            else Ok (False, h_nmpool hdr + nmoffset, size_sub next_nmoffset nmoffset)))"

text \<open>
  Comparison of a name in the record with a key. The length is compared first; the bytes
  are read only when the lengths agree.
\<close>

definition cmp_name_at :: "bytes \<Rightarrow> nat \<Rightarrow> nat \<Rightarrow> bytes \<Rightarrow> (dyncol_rc, int) res" where
  "cmp_name_at buf p len key =
     (if length key < len then Ok 1 else if len < length key then Ok (-1)
      else rmap (\<lambda>bs. memcmp bs key) (load_bytes buf p len))"

lemma div_mult_bounds: "0 < (es :: int) \<Longrightarrow> x div es * es \<le> x \<and> x < x div es * es + es"
  by (metis add.commute div_mult_mod_eq le_add_same_cancel2 add_le_cancel_left
      pos_mod_bound pos_mod_sign add_strict_left_mono)

text \<open>
  \<open>find_entry_named\<close>: \<open>lo\<close> and \<open>hi\<close> are \<open>min - hdr->header\<close> and \<open>max - hdr->header\<close>; the
  latter may become negative.
\<close>

function find_entry_named_loop ::
  "bytes \<Rightarrow> dyn_header \<Rightarrow> bytes \<Rightarrow> int \<Rightarrow> int \<Rightarrow> (dyncol_rc, nat option) res" where
  "find_entry_named_loop buf hdr key lo hi =
     (let es = int (h_entry_size hdr) in
      if es \<le> 0 then UB
      else if lo \<le> hi then
        (let mid = (lo + hi) div 2 div es * es; p = nat (int (h_header hdr) + mid) in
         rbind (read_name buf hdr p) (\<lambda>(bad, np, nl).
           if bad then Ok None
           else rbind (cmp_name_at buf np nl key) (\<lambda>cmp.
             if cmp < 0 then find_entry_named_loop buf hdr key (mid + es) hi
             else if 0 < cmp then find_entry_named_loop buf hdr key lo (mid - es)
             else Ok (Some p))))
      else Ok None)"
  by pat_completeness auto

termination
proof (relation "measure (\<lambda>(buf, hdr, key, lo, hi). nat (hi - lo + 1))", goal_cases)
  case 1
  then show ?case by simp
next
  case (2 buf hdr key lo hi es mid)
  then show ?case using div_mult_bounds [of es "(lo + hi) div 2"] by auto
next
  case (3 buf hdr key lo hi es mid)
  then show ?case using div_mult_bounds [of es "(lo + hi) div 2"] by auto
qed

definition find_entry_named :: "bytes \<Rightarrow> dyn_header \<Rightarrow> bytes \<Rightarrow> (dyncol_rc, nat option) res" where
  "find_entry_named buf hdr key =
     find_entry_named_loop buf hdr key 0 ((int (h_column_count hdr) - 1) * int (h_entry_size hdr))"

text \<open>
  \<open>backwritenum\<close> writes the digits of a number backwards from index \<open>i\<close> of a buffer; a
  write before its start is undefined. The result is the buffer and the index of the first
  digit.
\<close>

fun backwritenum_loop :: "bytes \<Rightarrow> nat \<Rightarrow> nat \<Rightarrow> (dyncol_rc, bytes \<times> nat) res" where
  "backwritenum_loop buf i numkey =
     (if 0 < numkey then
        (if i = 0 then UB
         else rbind (store1 buf (i - 1) (0x30 + word_of_nat (numkey mod 10)))
                (\<lambda>buf'. backwritenum_loop buf' (i - 1) (numkey div 10)))
      else Ok (buf, i))"

definition backwritenum :: "bytes \<Rightarrow> nat \<Rightarrow> nat \<Rightarrow> (dyncol_rc, bytes \<times> nat) res" where
  "backwritenum buf i numkey =
     (if numkey = 0
      then (if i = 0 then UB else rmap (\<lambda>buf'. (buf', i - 1)) (store1 buf (i - 1) 0x30))
      else backwritenum_loop buf i numkey)"

text \<open>
  \<open>strtoul(s, &end, 10)\<close> on a terminated string with a 32 bit \<open>ulong\<close>: the value and the
  number of characters consumed (0 when there is no digit).
\<close>

definition is_space :: "u8 \<Rightarrow> bool" where
  "is_space b \<longleftrightarrow> b = 0x20 \<or> (9 \<le> b \<and> b \<le> 13)"

definition is_digit :: "u8 \<Rightarrow> bool" where
  "is_digit b \<longleftrightarrow> 0x30 \<le> b \<and> b \<le> 0x39"

definition dec_val :: "bytes \<Rightarrow> nat" where
  "dec_val ds = foldl (\<lambda>a b. 10 * a + unat (b - 0x30)) 0 ds"

definition strtoul10 :: "bytes \<Rightarrow> nat \<times> nat" where
  "strtoul10 s =
     (let sp = takeWhile is_space s; r = dropWhile is_space s;
          neg = (r \<noteq> [] \<and> hd r = 0x2D); sign = (r \<noteq> [] \<and> (hd r = 0x2D \<or> hd r = 0x2B));
          ds = takeWhile is_digit (if sign then tl r else r);
          v = dec_val ds
      in if ds = [] then (0, 0)
         else (if 2 ^ 32 \<le> v then 2 ^ 32 - 1 else if neg then (2 ^ 32 - v) mod 2 ^ 32 else v,
               length sp + (if sign then 1 else 0) + length ds))"

text \<open>The key is adapted to the format of the record before the search.\<close>

definition find_entry ::
  "bytes \<Rightarrow> dyn_header \<Rightarrow> nat \<Rightarrow> bytes option \<Rightarrow> (dyncol_rc, nat option) res" where
  "find_entry buf hdr numkey strkey =
     (case (h_format hdr, strkey) of
        (dyncol_fmt_num, Some k) \<Rightarrow>
          (let (v, n) = strtoul10 k
           in if n \<noteq> length k then Ok None else find_entry_num buf hdr v)
      | (dyncol_fmt_num, None) \<Rightarrow> find_entry_num buf hdr numkey
      | (dyncol_fmt_str, None) \<Rightarrow>
          rbind (backwritenum (replicate 6 0) 6 numkey) (\<lambda>(nb, i). find_entry_named buf hdr (drop i nb))
      | (dyncol_fmt_str, Some k) \<Rightarrow> find_entry_named buf hdr k)"

text \<open>
  What \<open>find_column\<close> and \<open>mariadb_dyncol_unpack\<close> do with an entry: its type, the index and the
  length of its data, and the check that they are in range.
\<close>

definition locate_data :: "bytes \<Rightarrow> dyn_header \<Rightarrow> (dyncol_rc, bool \<times> dyn_header) res" where
  "locate_data buf hdr =
     rbind (hdr_interval_length buf hdr (h_entry hdr + h_entry_size hdr)) (\<lambda>(len, h1).
       let h2 = h1\<lparr>h_length := len, h_data := h_dtpool h1 + h_offset h1\<rparr>
       in Ok (len = 0xffffffff \<or> 0x7fffffff < len \<or> h_data_size h2 < h_offset h2, h2))"

text \<open>
  \<open>find_column\<close>: the flag of the C function and the descriptor; a column that is not there
  has the type 0 (\<open>DYN_COL_NULL\<close>).
\<close>

definition find_column ::
  "bytes \<Rightarrow> dyn_header \<Rightarrow> nat \<Rightarrow> bytes option \<Rightarrow> (dyncol_rc, bool \<times> dyn_header) res" where
  "find_column buf hdr numkey strkey =
     (if h_data_end hdr < h_header hdr + h_header_size hdr then Ok (True, hdr)
      else rbind (find_entry buf hdr numkey strkey) (\<lambda>found.
        case found of
          None \<Rightarrow> Ok (False, hdr\<lparr>h_type := 0\<rparr>)
        | Some e \<Rightarrow> locate_data buf (hdr\<lparr>h_entry := e\<rparr>)))"

section \<open>Getting a column\<close>

definition dynamic_column_get_internal ::
  "dynamic_string \<Rightarrow> nat \<Rightarrow> bytes option \<Rightarrow> (dyncol_rc, dyncol_value) res" where
  "dynamic_column_get_internal s num_key str_key =
     (if ds_length s = 0 then Ok DYN_COL_NULL
      else rbind (init_read_hdr header_zero s) (\<lambda>h.
        if h_column_count h = 0 then Ok DYN_COL_NULL
        else rbind (ds_buf s) (\<lambda>buf. rbind (find_column buf h num_key str_key) (\<lambda>(bad, h1).
          if bad then Ok DYN_COL_NULL
          else dynamic_column_get_value (h_type h1) buf (h_data h1) (h_length h1)))))"

definition mariadb_dyncol_get_num :: "dynamic_string \<Rightarrow> nat \<Rightarrow> (dyncol_rc, dyncol_value) res" where
  "mariadb_dyncol_get_num s column_nr = dynamic_column_get_internal s column_nr None"

definition dynamic_column_get :: "dynamic_string \<Rightarrow> nat \<Rightarrow> (dyncol_rc, dyncol_value) res" where
  "dynamic_column_get s column_nr = dynamic_column_get_internal s column_nr None"

definition mariadb_dyncol_get_named :: "dynamic_string \<Rightarrow> bytes \<Rightarrow> (dyncol_rc, dyncol_value) res" where
  "mariadb_dyncol_get_named s name = dynamic_column_get_internal s 0 (Some name)"

section \<open>Existence, lists and unpacking\<close>

definition dynamic_column_exists_internal ::
  "dynamic_string \<Rightarrow> nat \<Rightarrow> bytes option \<Rightarrow> (dyncol_rc, bool) res" where
  "dynamic_column_exists_internal s num_key str_key =
     (if ds_length s = 0 then Ok False
      else rbind (init_read_hdr header_zero s) (\<lambda>h.
        if h_column_count h = 0 then Ok False
        else rbind (ds_buf s) (\<lambda>buf. rbind (find_column buf h num_key str_key) (\<lambda>(bad, h1).
          if bad then Err ER_DYNCOL_FORMAT else Ok (h_type h1 \<noteq> 0)))))"

definition mariadb_dyncol_exists_num :: "dynamic_string \<Rightarrow> nat \<Rightarrow> (dyncol_rc, bool) res" where
  "mariadb_dyncol_exists_num s column_nr = dynamic_column_exists_internal s column_nr None"

definition mariadb_dyncol_exists_named :: "dynamic_string \<Rightarrow> bytes \<Rightarrow> (dyncol_rc, bool) res" where
  "mariadb_dyncol_exists_named s name = dynamic_column_exists_internal s 0 (Some name)"

fun list_num_loop :: "bytes \<Rightarrow> nat \<Rightarrow> nat \<Rightarrow> nat \<Rightarrow> (dyncol_rc, nat list) res" where
  "list_num_loop buf read esz 0 = Ok []"
| "list_num_loop buf read esz (Suc n) =
     rbind (uint2korr buf read) (\<lambda>nr. rmap (Cons nr) (list_num_loop buf (read + esz) esz n))"

definition mariadb_dyncol_list_num :: "alloc_env \<Rightarrow> dynamic_string \<Rightarrow> (dyncol_rc, nat list) res" where
  "mariadb_dyncol_list_num E s =
     (if ds_length s = 0 then Ok []
      else rbind (init_read_hdr header_zero s) (\<lambda>h.
        if h_format h \<noteq> dyncol_fmt_num then Err ER_DYNCOL_FORMAT
        else if ds_length s < h_entry_size h * h_column_count h + 3 then Err ER_DYNCOL_FORMAT
        else if \<not> alloc_ok E (4 * h_column_count h) then Err ER_DYNCOL_RESOURCE
        else rbind (ds_buf s) (\<lambda>buf. list_num_loop buf (h_header h) (h_entry_size h) (h_column_count h))))"

text \<open>
  \<open>mariadb_dyncol_unpack\<close>: the names and the values of all columns. The name of a numeric
  column is what \<open>snprintf\<close> prints for its number, at most five digits; the structures
  \<open>LEX_STRING\<close> and \<open>DYNAMIC_COLUMN_VALUE\<close> have 16 and 48 bytes.
\<close>

fun unpack_loop :: "bytes \<Rightarrow> dyn_header \<Rightarrow> nat \<Rightarrow> (dyncol_rc, (bytes \<times> dyncol_value) list) res" where
  "unpack_loop buf h 0 = Ok []"
| "unpack_loop buf h (Suc n) =
     rbind (locate_data buf h) (\<lambda>(bad, h1).
       if bad then Err ER_DYNCOL_FORMAT
       else rbind (dynamic_column_get_value (h_type h1) buf (h_data h1) (h_length h1)) (\<lambda>v.
            rbind (if h_format h1 = dyncol_fmt_num then rmap dec_digits (uint2korr buf (h_entry h1))
                   else rbind (read_name buf h1 (h_entry h1)) (\<lambda>(nbad, p, len).
                        if nbad then Err ER_DYNCOL_FORMAT else load_bytes buf p len)) (\<lambda>name.
            rmap (Cons (name, v)) (unpack_loop buf (h1\<lparr>h_entry := h_entry h1 + h_entry_size h1\<rparr>) n))))"

definition mariadb_dyncol_unpack ::
  "alloc_env \<Rightarrow> dynamic_string \<Rightarrow> (dyncol_rc, (bytes \<times> dyncol_value) list) res" where
  "mariadb_dyncol_unpack E s =
     (if ds_length s = 0 then Ok []
      else rbind (init_read_hdr header_zero s) (\<lambda>h.
        if ds_length s < h_entry_size h * h_column_count h + 3 then Err ER_DYNCOL_FORMAT
        else if \<not> alloc_ok E (48 * h_column_count h) \<or>
                \<not> alloc_ok E (if h_format h = dyncol_fmt_num then 16 * h_column_count h + 6 * h_column_count h
                               else 16 * h_column_count h)
        then Err ER_DYNCOL_RESOURCE
        else rbind (ds_buf s) (\<lambda>buf. unpack_loop buf (h\<lparr>h_entry := h_header h\<rparr>) (h_column_count h))))"

definition mariadb_dyncol_column_count :: "dynamic_string \<Rightarrow> (dyncol_rc, nat) res" where
  "mariadb_dyncol_column_count s =
     (if ds_length s = 0 then Ok 0 else rmap h_column_count (init_read_hdr header_zero s))"

definition mariadb_dyncol_free :: "dynamic_string \<Rightarrow> dynamic_string" where
  "mariadb_dyncol_free s = ma_dynstr_free s"

section \<open>Binary search\<close>

lemma bsearch_correct:
  assumes "\<And>i. i < n \<Longrightarrow> cmp (base + i * esz) = Ok (c i)"
    and "\<And>i j. i < j \<Longrightarrow> j < n \<Longrightarrow> c i \<le> 0 \<Longrightarrow> c j < (0 :: int)"
  shows "(\<exists>i<n. c i = 0 \<and> bsearch cmp base n esz = Ok (Some (base + i * esz))) \<or>
    (\<forall>i<n. c i \<noteq> 0) \<and> bsearch cmp base n esz = Ok None"
  using assms
proof (induction cmp base n esz arbitrary: c rule: bsearch.induct)
  case (1 cmp base n esz)
  show ?case
  proof (cases "n = 0")
    case True
    then show ?thesis by (simp add: bsearch.simps)
  next
    case False
    let ?m = "n div 2"
    have m: "?m < n" using False by simp
    have at: "cmp (base + ?m * esz) = Ok (c ?m)" using "1.prems"(1) m by blast
    consider "c ?m = 0" | "c ?m < 0" | "0 < c ?m" by linarith
    then show ?thesis
    proof cases
      case 1
      with at False m show ?thesis by (subst (1 2) bsearch.simps) (auto simp: Let_def)
    next
      case 2
      have "(\<exists>i<?m. c i = 0 \<and> bsearch cmp base ?m esz = Ok (Some (base + i * esz))) \<or>
          (\<forall>i<?m. c i \<noteq> 0) \<and> bsearch cmp base ?m esz = Ok None"
        using 2 m "1.prems" by (intro "1.IH"(1) [OF False refl refl, of "c ?m"]) auto
      moreover have "c i \<noteq> 0" if "?m \<le> i" "i < n" for i
        using "1.prems"(2) [of ?m i] 2 that by (cases "i = ?m") auto
      moreover have "bsearch cmp base n esz = bsearch cmp base ?m esz"
        using at False 2 by (subst bsearch.simps) (simp add: Let_def)
      ultimately show ?thesis using m by (metis leI order.strict_trans)
    next
      case 3
      let ?b = "base + ?m * esz + esz" and ?c = "\<lambda>i. c (?m + 1 + i)"
      have idx: "?b + i * esz = base + (?m + 1 + i) * esz" for i by (simp add: algebra_simps)
      have "(\<exists>i<n - ?m - 1. ?c i = 0 \<and> bsearch cmp ?b (n - ?m - 1) esz = Ok (Some (?b + i * esz))) \<or>
          (\<forall>i<n - ?m - 1. ?c i \<noteq> 0) \<and> bsearch cmp ?b (n - ?m - 1) esz = Ok None"
      proof (rule "1.IH"(2) [OF False refl refl, of "c ?m"])
        show "cmp (base + ?m * esz) = Ok (c ?m)" by (rule at)
        show "\<not> c ?m = 0" "\<not> c ?m < 0" using 3 by auto
        show "cmp (?b + i * esz) = Ok (?c i)" if "i < n - ?m - 1" for i
          using "1.prems"(1) [of "?m + 1 + i"] that unfolding idx by simp
        show "?c j < 0" if "i < j" "j < n - ?m - 1" "?c i \<le> 0" for i j
          using "1.prems"(2) [of "?m + 1 + i" "?m + 1 + j"] that by simp
      qed
      then consider (found) i where "i < n - ?m - 1" "?c i = 0"
          "bsearch cmp ?b (n - ?m - 1) esz = Ok (Some (base + (?m + 1 + i) * esz))"
        | (none) "\<forall>i<n - ?m - 1. ?c i \<noteq> 0" "bsearch cmp ?b (n - ?m - 1) esz = Ok None"
        unfolding idx by blast
      moreover have eq: "bsearch cmp base n esz = bsearch cmp ?b (n - ?m - 1) esz"
        using at False 3 by (subst bsearch.simps) (simp add: Let_def)
      ultimately show ?thesis
      proof cases
        case found
        then show ?thesis unfolding eq by (intro disjI1 exI [of _ "?m + 1 + i"]) auto
      next
        case none
        have "c i \<noteq> 0" if "i < n" for i
        proof (cases "i \<le> ?m")
          case True
          then show ?thesis using "1.prems"(2) [of i ?m] 3 m by (cases "i = ?m") auto
        next
          case False
          then show ?thesis using none(1) [rule_format, of "i - ?m - 1"] that by simp
        qed
        with none(2) show ?thesis unfolding eq by blast
      qed
    qed
  qed
qed

declare find_entry_named_loop.simps [simp del] bsearch.simps [simp del]

lemma mid_index:
  assumes "0 < es"
  shows "(l * es + h * es) div 2 div es * es = ((l + h) div 2) * (es :: int)"
proof -
  have "(l * es + h * es) div 2 div es = (l * es + h * es) div (2 * es)"
    using assms by (simp add: zdiv_zmult2_eq)
  also have "\<dots> = (l + h) * es div es div 2"
    using zdiv_zmult2_eq [of 2 "(l + h) * es" es] by (simp only: distrib_right mult.commute [of 2])
  finally show ?thesis using assms by simp
qed

lemma find_entry_named_loop_correct:
  fixes l h :: int
  assumes es: "0 < h_entry_size hdr"
    and name: "\<And>i. i < n \<Longrightarrow> read_name buf hdr (h_header hdr + i * h_entry_size hdr) = Ok (False, np i, nl i)"
    and cmp: "\<And>i. i < n \<Longrightarrow> cmp_name_at buf (np i) (nl i) key = Ok (c i)"
    and mono: "\<And>i j. i < j \<Longrightarrow> j < n \<Longrightarrow> 0 \<le> c i \<Longrightarrow> 0 < c j"
    and range: "0 \<le> l" "h < int n"
  shows "(\<exists>i. l \<le> int i \<and> int i \<le> h \<and> c i = 0 \<and>
      find_entry_named_loop buf hdr key (l * int (h_entry_size hdr)) (h * int (h_entry_size hdr)) =
        Ok (Some (h_header hdr + i * h_entry_size hdr))) \<or>
    (\<forall>i. l \<le> int i \<and> int i \<le> h \<longrightarrow> c i \<noteq> 0) \<and>
      find_entry_named_loop buf hdr key (l * int (h_entry_size hdr)) (h * int (h_entry_size hdr)) = Ok None"
  using range
proof (induction "nat (h - l + 1)" arbitrary: l h rule: less_induct)
  case less
  let ?es = "int (h_entry_size hdr)"
  let ?loop = "\<lambda>l h. find_entry_named_loop buf hdr key (l * ?es) (h * ?es)"
  have pos: "0 < ?es" using es by simp
  show ?case
  proof (cases "l \<le> h")
    case False
    then have "\<not> l * ?es \<le> h * ?es" using pos by simp
    then have "?loop l h = Ok None" using pos by (simp add: find_entry_named_loop.simps Let_def)
    with False show ?thesis by auto
  next
    case True
    define m where "m = nat ((l + h) div 2)"
    have m: "int m = (l + h) div 2" "l \<le> int m" "int m \<le> h" "m < n"
      using True less.prems by (auto simp: m_def)
    have mid: "(l * ?es + h * ?es) div 2 div ?es * ?es = int m * ?es"
      using mid_index [OF pos] m(1) by simp
    have p: "nat (int (h_header hdr) + int m * ?es) = h_header hdr + m * h_entry_size hdr"
      by (simp add: nat_int_add flip: of_nat_mult of_nat_add)
    have le: "l * ?es \<le> h * ?es" using True pos by simp
    have step: "?loop l h = (if c m < 0 then ?loop (int m + 1) h
        else if 0 < c m then ?loop l (int m - 1) else Ok (Some (h_header hdr + m * h_entry_size hdr)))"
    proof -
      have n1: "(int m + 1) * ?es = int m * ?es + ?es" "(int m - 1) * ?es = int m * ?es - ?es"
        by (simp_all add: algebra_simps)
      have g: "(?es \<le> 0) = False" "(l * ?es \<le> h * ?es) = True" using le pos by auto
      show ?thesis
        unfolding n1
        by (subst find_entry_named_loop.simps)
          (simp only: Let_def mid p name [OF m(4)] cmp [OF m(4)] rbind.simps prod.case g if_True if_False)
    qed
    consider "c m = 0" | "c m < 0" | "0 < c m" by linarith
    then show ?thesis
    proof cases
      case 1
      with step have "?loop l h = Ok (Some (h_header hdr + m * h_entry_size hdr))" by simp
      with 1 m(2,3) show ?thesis by blast
    next
      case 2
      have "c i \<noteq> 0" if "i \<le> m" for i
        using mono [of i m] m(4) 2 that by (cases "i = m") auto
      then have range: "int m + 1 \<le> int i \<and> int i \<le> h \<longleftrightarrow> l \<le> int i \<and> int i \<le> h" if "c i = 0" for i
        using that m by (metis add1_zle_eq linorder_not_le of_nat_le_iff order_trans zless_add1_eq order_less_imp_le)
      from less.hyps [of h "int m + 1"] m less.prems 2 step range show ?thesis by auto
    next
      case 3
      have "c i \<noteq> 0" if "m \<le> i" "int i \<le> h" for i
        using mono [of m i] less.prems 3 that by (cases "i = m") auto
      then have range: "l \<le> int i \<and> int i \<le> int m - 1 \<longleftrightarrow> l \<le> int i \<and> int i \<le> h" if "c i = 0" for i
        using that m by (metis linorder_not_le of_nat_le_iff order_trans zle_diff1_eq order_less_imp_le)
      from less.hyps [of "int m - 1" l] m less.prems 3 step range show ?thesis by auto
    qed
  qed
qed

section \<open>Entries of a record\<close>

lemma data_image_append [simp]: "data_image f (xs @ ys) = data_image f xs @ data_image f ys"
  by (simp add: data_image_def)

lemma names_image_append [simp]: "names_image kn (xs @ ys) = names_image kn xs @ names_image kn ys"
  by (simp add: names_image_def)

lemma entries_image_append:
  "entries_image tb osz kv kn f nm off (xs @ ys) = entries_image tb osz kv kn f nm off xs
     @ entries_image tb osz kv kn f (nm + length (names_image kn xs)) (off + length (data_image f xs)) ys"
proof (induction xs arbitrary: nm off)
  case (Cons x xs)
  obtain k v where x: "x = (k, v)" by (cases x)
  show ?case using Cons by (simp add: x add.assoc)
qed simp

definition col_off :: "dyncol_format \<Rightarrow> ('k \<times> dyncol_value) list \<Rightarrow> nat \<Rightarrow> nat" where
  "col_off f cols i = length (data_image f (take i cols))"

definition name_off :: "('k \<Rightarrow> bytes) \<Rightarrow> ('k \<times> dyncol_value) list \<Rightarrow> nat \<Rightarrow> nat" where
  "name_off kn cols i = length (names_image kn (take i cols))"

lemma cols_split: "i < length cols \<Longrightarrow> cols = take i cols @ cols ! i # drop (Suc i) cols"
  by (simp add: Cons_nth_drop_Suc)

lemma entries_split:
  assumes "i < length cols" "cols ! i = (k, v)"
  shows "entries_image tb osz kv kn f 0 0 cols = entries_image tb osz kv kn f 0 0 (take i cols)
    @ entry_image tb osz (kv k (name_off kn cols i)) (dyncol_type v) (col_off f cols i)
    @ entries_image tb osz kv kn f (name_off kn cols (Suc i)) (col_off f cols (Suc i)) (drop (Suc i) cols)"
proof -
  have s: "take (Suc i) cols = take i cols @ [(k, v)]"
    using assms by (simp add: take_Suc_conv_app_nth)
  show ?thesis
    by (subst cols_split [OF assms(1)], subst entries_image_append)
      (simp add: assms(2) name_off_def col_off_def s)
qed

lemma data_split:
  assumes "i < length cols" "cols ! i = (k, v)"
  shows "data_image f cols = data_image f (take i cols) @ value_image f v @ data_image f (drop (Suc i) cols)"
  by (subst cols_split [OF assms(1)]) (simp add: assms(2))

lemma names_split:
  assumes "i < length cols" "cols ! i = (k, v)"
  shows "names_image kn cols = names_image kn (take i cols) @ kn k @ names_image kn (drop (Suc i) cols)"
  by (subst cols_split [OF assms(1)]) (simp add: assms(2))

lemma col_off_Suc:
  "i < length cols \<Longrightarrow> cols ! i = (k, v) \<Longrightarrow> col_off f cols (Suc i) = col_off f cols i + length (value_image f v)"
  by (simp add: col_off_def take_Suc_conv_app_nth)

lemma name_off_Suc:
  "i < length cols \<Longrightarrow> cols ! i = (k, v) \<Longrightarrow> name_off kn cols (Suc i) = name_off kn cols i + length (kn k)"
  by (simp add: name_off_def take_Suc_conv_app_nth)

lemma col_off_all: "col_off f cols (length cols) = length (data_image f cols)"
  by (simp add: col_off_def)

lemma col_off_le: "col_off f cols i \<le> length (data_image f cols)"
  unfolding col_off_def by (metis append_take_drop_id data_image_append le_add1 length_append)

lemma name_off_all: "name_off kn cols (length cols) = length (names_image kn cols)"
  by (simp add: name_off_def)

lemma name_off_le: "name_off kn cols i \<le> length (names_image kn cols)"
  unfolding name_off_def by (metis append_take_drop_id names_image_append le_add1 length_append)

lemma value_image_nonempty: "0 < dynamic_column_value_len v f \<Longrightarrow> 0 < length (value_image f v)"
  by (cases v) (auto simp: length_uint_image length_var_uint_image dynamic_column_sint_bytes_def
        length_time_image simp del: length_greater_0_conv dynamic_column_var_uint_bytes.simps
        dynamic_column_uint_bytes.simps)

lemma data_image_nonempty: "0 < total_len f cols \<Longrightarrow> data_image f (not_null cols) \<noteq> []"
proof (induction cols)
  case (Cons c cols)
  then show ?case using value_image_nonempty [of "snd c" f]
    by (cases "snd c = DYN_COL_NULL"; cases "0 < total_len f cols")
      (auto simp: total_len_def simp del: dynamic_column_value_len.simps value_image.simps)
qed (simp add: total_len_def)

text \<open>The descriptor that reading the header of a record yields.\<close>

definition describes ::
  "dyncol_format \<Rightarrow> nat \<Rightarrow> nat \<Rightarrow> ('k \<Rightarrow> bytes) \<Rightarrow> ('k \<times> dyncol_value) list \<Rightarrow> nat \<Rightarrow> dyn_header \<Rightarrow> bool" where
  "describes f fh osz kn cols len h \<longleftrightarrow>
     h_format h = f \<and> h_header h = fh \<and> h_offset_size h = osz \<and> h_entry_size h = 2 + osz \<and>
     h_header_size h = length cols * (2 + osz) \<and> h_column_count h = length cols \<and>
     h_nmpool h = fh + length cols * (2 + osz) \<and> h_nmpool_size h = length (names_image kn cols) \<and>
     h_dtpool h = fh + length cols * (2 + osz) + length (names_image kn cols) \<and>
     h_data_size h = length (data_image f cols) \<and> h_data_end h = len \<and>
     len = fh + length cols * (2 + osz) + length (names_image kn cols) + length (data_image f cols)"

context column_format
begin

definition image_of :: "nat \<Rightarrow> ('k \<times> dyncol_value) list \<Rightarrow> bytes" where
  "image_of osz cols = record_image tb osz key_val key_name nm_field (flag_bits + (osz - osz_min)) (fmt_format fmt) cols"

lemma drop_fixed: "drop (fixed_hdr fmt + n) (image_of osz cols @ tail) =
    drop n (entries_image tb osz key_val key_name (fmt_format fmt) 0 0 cols @ names_image key_name cols
      @ data_image (fmt_format fmt) cols @ tail)"
proof -
  let ?F = "word_of_nat (flag_bits + (osz - osz_min)) # le_bytes 2 (length cols) @
    nm_field (length (names_image key_name cols)) :: bytes"
  have "length ?F = fixed_hdr fmt" using hdr_size [of "length (names_image key_name cols)"] by simp
  moreover have "drop (length ?F + n) (?F @ X) = drop n X" for X by simp
  ultimately show ?thesis by (simp only: image_of_def record_image_def append.assoc append_Cons)
qed

lemma length_image_of: "length (image_of osz cols) = fixed_hdr fmt + length cols * (2 + osz)
    + length (names_image key_name cols) + length (data_image (fmt_format fmt) cols)"
  using hdr_size [of "length (names_image key_name cols)"] by (simp add: image_of_def record_image_def)

lemma drop_entry:
  assumes "i < length cols" "cols ! i = (k, v)"
  shows "drop (fixed_hdr fmt + i * (2 + osz)) (image_of osz cols @ tail) =
    entry_image tb osz (key_val k (name_off key_name cols i)) (dyncol_type v) (col_off (fmt_format fmt) cols i)
    @ entries_image tb osz key_val key_name (fmt_format fmt) (name_off key_name cols (Suc i))
        (col_off (fmt_format fmt) cols (Suc i)) (drop (Suc i) cols)
    @ names_image key_name cols @ data_image (fmt_format fmt) cols @ tail"
  unfolding drop_fixed entries_split [OF assms] using assms(1) by simp

lemma read_entry:
  assumes "i < length cols" "cols ! i = (k, v)" "osz_min \<le> osz" "osz \<le> 4"
    and "length (data_image (fmt_format fmt) cols) < offset_lim tb osz" "v \<noteq> DYN_COL_NULL" "dyncol_type v \<le> 2 ^ tb"
    and "osz = 3 \<Longrightarrow> data_image (fmt_format fmt) cols \<noteq> []"
  shows "type_and_offset_read fmt (image_of osz cols @ tail) (fixed_hdr fmt + i * (2 + osz) + 2) osz
    = Ok (False, dyncol_type v, col_off (fmt_format fmt) cols i)"
proof (rule read_ok [OF assms(3,4) _ _ assms(7)])
  show "col_off (fmt_format fmt) cols i < offset_lim tb osz"
    using col_off_le [of "fmt_format fmt" cols i] assms(5) by simp
  show "0 < dyncol_type v" using assms(6) by (rule dyncol_type_pos)
  have "drop (fixed_hdr fmt + i * (2 + osz) + 2) (image_of osz cols @ tail) =
      drop 2 (drop (fixed_hdr fmt + i * (2 + osz)) (image_of osz cols @ tail))" by (metis drop_drop add.commute)
  also have "\<dots> = le_bytes osz (col_off (fmt_format fmt) cols i * 2 ^ tb + (dyncol_type v - 1))
    @ (entries_image tb osz key_val key_name (fmt_format fmt) (name_off key_name cols (Suc i))
        (col_off (fmt_format fmt) cols (Suc i)) (drop (Suc i) cols)
    @ names_image key_name cols @ data_image (fmt_format fmt) cols @ tail)" (is "_ = _ @ ?rest")
    unfolding drop_entry [OF assms(1,2)] entry_image_def by simp
  finally show "drop (fixed_hdr fmt + i * (2 + osz) + 2) (image_of osz cols @ tail) =
      le_bytes osz (col_off (fmt_format fmt) cols i * 2 ^ tb + (dyncol_type v - 1)) @ ?rest" .
  show "osz = 3 \<Longrightarrow> ?rest \<noteq> []" using assms(8) by simp
qed

lemma interval_length:
  assumes "i < length cols" "cols ! i = (k, v)" "osz_min \<le> osz" "osz \<le> 4"
    and "length (data_image (fmt_format fmt) cols) < offset_lim tb osz"
    and "\<And>c. c \<in> set cols \<Longrightarrow> snd c \<noteq> DYN_COL_NULL \<and> dyncol_type (snd c) \<le> 2 ^ tb"
    and "osz = 3 \<Longrightarrow> data_image (fmt_format fmt) cols \<noteq> []"
    and "describes (fmt_format fmt) (fixed_hdr fmt) osz key_name cols len h"
    and "h_entry h = fixed_hdr fmt + i * (2 + osz)"
  shows "hdr_interval_length (image_of osz cols @ tail) h (h_entry h + h_entry_size h) =
    Ok (length (value_image (fmt_format fmt) v),
        h\<lparr>h_type := dyncol_type v, h_offset := col_off (fmt_format fmt) cols i\<rparr>)"
proof -
  let ?f = "fmt_format fmt" and ?buf = "image_of osz cols @ tail"
  have h: "h_format h = ?f" "h_header h = fixed_hdr fmt" "h_offset_size h = osz" "h_entry_size h = 2 + osz"
    "h_header_size h = length cols * (2 + osz)" "h_data_size h = length (data_image ?f cols)"
    using assms(8) by (auto simp: describes_def)
  have r: "type_and_offset_read fmt ?buf (fixed_hdr fmt + j * (2 + osz) + 2) osz
      = Ok (False, dyncol_type (snd (cols ! j)), col_off ?f cols j)" if "j < length cols" for j
    using read_entry [of j cols "fst (cols ! j)" "snd (cols ! j)" osz tail] assms(3-7) that by simp
  have off: "col_off ?f cols (Suc i) = col_off ?f cols i + length (value_image ?f v)"
    by (rule col_off_Suc [OF assms(1,2)])
  have next_e: "h_entry h + h_entry_size h = fixed_hdr fmt + Suc i * (2 + osz)"
    using assms(9) h by simp
  have next_p: "fixed_hdr fmt + i * (2 + osz) + (2 + osz) = fixed_hdr fmt + Suc i * (2 + osz)" by simp
  show ?thesis
  proof (cases "Suc i = length cols")
    case True
    then have e: "h_entry h + h_entry_size h = h_header h + h_header_size h"
      unfolding next_e using h by simp
    have "length (data_image ?f cols) = col_off ?f cols i + length (value_image ?f v)"
      using off True col_off_all [of ?f cols] by simp
    then show ?thesis
      using r [OF assms(1)] assms(2,9) h e read_by_format
      by (simp add: hdr_interval_length_def Let_def)
  next
    case False
    then have lt: "Suc i < length cols" using assms(1) by simp
    then have "Suc i * (2 + osz) < length cols * (2 + osz)" by (simp only: mult_less_cancel2) simp
    then have e: "fixed_hdr fmt + Suc i * (2 + osz) \<noteq> h_header h + h_header_size h"
      using h by linarith
    show ?thesis
      using e [unfolded h] off assms(2)
      unfolding hdr_interval_length_def Let_def h assms(9) next_p read_by_format
      by (simp only: r [OF assms(1)] r [OF lt] rbind.simps prod.case if_False simp_thms) simp
  qed
qed

end

lemma offset_lim_int: "3 \<le> tb \<Longrightarrow> osz \<le> 4 \<Longrightarrow> n < offset_lim tb osz \<Longrightarrow> n < 0x7fffffff"
proof -
  assume a: "3 \<le> tb" "osz \<le> 4" "n < offset_lim tb osz"
  have "(2 :: nat) ^ (8 * osz - tb) \<le> 2 ^ 29" using a(1,2) by (intro power_increasing) auto
  with a(3) show ?thesis by (simp add: offset_lim_def)
qed

lemma ds_prefix:
  assumes "ds_inv s" "ds_contents s = img"
  shows "\<exists>tail. ds_buf s = (Ok (img @ tail) :: (dyncol_rc, bytes) res) \<and> ds_str s = Some (img @ tail) \<and>
    ds_length s = length img"
proof -
  obtain buf where b: "ds_str s = Some buf" "length buf = ds_max_length s"
    "ds_length s \<le> ds_max_length s" "0 < ds_alloc_increment s"
    using assms(1) by (rule ds_invE)
  have "buf = img @ drop (ds_length s) buf"
    using assms(2) b(1) by (metis append_take_drop_id ds_contents_def option.simps(5))
  moreover have "ds_length s = length img" using assms by auto
  ultimately show ?thesis using b(1) by (auto simp: ds_buf_def)
qed

context column_format
begin

lemma drop_data:
  assumes "i < length cols" "cols ! i = (k, v)"
  shows "drop (fixed_hdr fmt + length cols * (2 + osz) + length (names_image key_name cols)
      + col_off (fmt_format fmt) cols i) (image_of osz cols @ tail) =
    value_image (fmt_format fmt) v @ data_image (fmt_format fmt) (drop (Suc i) cols) @ tail"
proof -
  let ?f = "fmt_format fmt"
  let ?E = "entries_image tb osz key_val key_name ?f 0 0 cols" and ?N = "names_image key_name cols"
  have "drop (fixed_hdr fmt + (length ?E + length ?N + col_off ?f cols i)) (image_of osz cols @ tail) =
      drop (length ?E + length ?N + col_off ?f cols i) (?E @ ?N @ data_image ?f cols @ tail)"
    by (rule drop_fixed)
  also have "\<dots> = drop (col_off ?f cols i) (data_image ?f cols @ tail)" by simp
  also have "\<dots> = value_image ?f v @ data_image ?f (drop (Suc i) cols) @ tail"
    unfolding data_split [OF assms] by (simp add: col_off_def)
  finally show ?thesis by (simp only: add.assoc length_entries_image)
qed

lemma locate_data_ok:
  assumes "i < length cols" "cols ! i = (k, v)" "osz_min \<le> osz" "osz \<le> 4"
    and "length (data_image (fmt_format fmt) cols) < offset_lim tb osz"
    and "\<And>c. c \<in> set cols \<Longrightarrow> snd c \<noteq> DYN_COL_NULL \<and> dyncol_type (snd c) \<le> 2 ^ tb"
    and "osz = 3 \<Longrightarrow> data_image (fmt_format fmt) cols \<noteq> []"
    and "describes (fmt_format fmt) (fixed_hdr fmt) osz key_name cols len h"
    and "h_entry h = fixed_hdr fmt + i * (2 + osz)"
  shows "\<exists>h2. locate_data (image_of osz cols @ tail) h = Ok (False, h2) \<and> h_type h2 = dyncol_type v \<and>
    h_length h2 = length (value_image (fmt_format fmt) v) \<and>
    h_data h2 = fixed_hdr fmt + length cols * (2 + osz) + length (names_image key_name cols)
      + col_off (fmt_format fmt) cols i"
proof -
  let ?f = "fmt_format fmt"
  have il: "hdr_interval_length (image_of osz cols @ tail) h (h_entry h + h_entry_size h) =
      Ok (length (value_image ?f v), h\<lparr>h_type := dyncol_type v, h_offset := col_off ?f cols i\<rparr>)"
    by (rule interval_length [OF assms(1-5) _ _ assms(8,9)]) (use assms(6,7) in auto)
  have lens: "length (value_image ?f v) \<le> length (data_image ?f cols)"
    using data_split [OF assms(1,2), of ?f] by simp
  then have "length (value_image ?f v) < 0x7fffffff"
    using offset_lim_int [OF type_bits(1) assms(4,5)] by simp
  moreover have "h_dtpool h = fixed_hdr fmt + length cols * (2 + osz) + length (names_image key_name cols)"
    "h_data_size h = length (data_image ?f cols)"
    using assms(8) by (auto simp: describes_def)
  ultimately show ?thesis
    unfolding locate_data_def il using col_off_le [of ?f cols i] by (simp add: Let_def)
qed

lemma get_value_at:
  assumes "i < length cols" "cols ! i = (k, v)" "valid_value v"
  shows "dynamic_column_get_value (dyncol_type v) (image_of osz cols @ tail)
      (fixed_hdr fmt + length cols * (2 + osz) + length (names_image key_name cols)
        + col_off (fmt_format fmt) cols i) (length (value_image (fmt_format fmt) v)) = Ok (norm_value v)"
proof (rule get_value_image [OF assms(3) drop_data [OF assms(1,2)]])
  show "fixed_hdr fmt + length cols * (2 + osz) + length (names_image key_name cols)
        + col_off (fmt_format fmt) cols i \<le> length (image_of osz cols @ tail)"
    using col_off_le [of "fmt_format fmt" cols i] by (simp add: length_image_of)
qed

end

section \<open>Reading the header back\<close>

lemma le_bytes_2: "le_bytes 2 n = [word_of_nat n, word_of_nat (n div 256)]"
  by (simp add: numeral_2_eq_2)

lemma Suc_Suc_diff: "2 \<le> n \<Longrightarrow> Suc (Suc (n - 2)) = n"
  by simp

lemma init_read_num:
  assumes "ds_inv s" "ds_contents s = num.image_of osz cols" "1 \<le> osz" "osz \<le> 4" "length cols < 65536"
  shows "\<exists>h. init_read_hdr header_zero s = Ok h \<and>
    describes dyncol_fmt_num 3 osz (\<lambda>k. []) cols (ds_length s) h"
proof -
  obtain tail where t: "ds_buf s = (Ok (num.image_of osz cols @ tail) :: (dyncol_rc, bytes) res)"
    "ds_length s = length (num.image_of osz cols)"
    using ds_prefix [OF assms(1,2)] by blast
  define B where "B = num.image_of osz cols @ tail"
  have t1: "ds_buf s = (Ok B :: (dyncol_rc, bytes) res)" using t(1) by (simp only: B_def)
  define rest where "rest = entries_image 3 osz (\<lambda>k m. k) (\<lambda>k. []) dyncol_fmt_num 0 0 cols @ names_image (\<lambda>k. []) cols
      @ data_image dyncol_fmt_num cols @ tail"
  define fl where "fl = (word_of_nat (osz - 1) :: u8)"
  have f: "fmt_format fmt_num = dyncol_fmt_num" "fixed_hdr fmt_num = 3" "fixed_hdr_entry fmt_num = 2"
    by (simp_all add: fmt_num_def)
  have buf: "B = fl # le_bytes 2 (length cols) @ rest"
    unfolding B_def num.image_of_def record_image_def rest_def f fl_def by simp
  have l0: "load1 B 0 = (Ok fl :: (dyncol_rc, u8) res)"
    unfolding buf by (simp add: load1_def)
  have cc: "uint2korr B (Suc 0) = (Ok (length cols) :: (dyncol_rc, nat) res)"
    unfolding uint2korr_def buf using assms(5) by (intro uintN_load_image [of "Suc 0" _ 2 _ rest]) simp_all
  have flags: "fl AND - 8 = 0" "fl AND 4 = 0"
    "unat (fl AND 3) = osz - 1"
    by (rule osz_cases [OF assms(3,4)]; simp add: fl_def)+
  have nn: "names_image (\<lambda>k. []) cols = []" by (induction cols) simp_all
  have len: "ds_length s = 3 + length cols * (2 + osz) + length (data_image dyncol_fmt_num cols)"
    using t(2) num.length_image_of [of osz cols] by (simp add: f nn)
  show ?thesis
    using assms(3) len nn
    by (simp add: init_read_hdr_def read_fixed_header_def t1 l0 flags cc f Let_def describes_def
        algebra_simps)
qed

lemma init_read_str:
  assumes "ds_inv s" "ds_contents s = str.image_of osz cols" "2 \<le> osz" "osz \<le> 4" "length cols < 65536"
    "length (names_image (\<lambda>k. k) cols) < 65536"
  shows "\<exists>h. init_read_hdr header_zero s = Ok h \<and>
    describes dyncol_fmt_str 5 osz (\<lambda>k. k) cols (ds_length s) h"
proof -
  obtain tail where t: "ds_buf s = (Ok (str.image_of osz cols @ tail) :: (dyncol_rc, bytes) res)"
    "ds_length s = length (str.image_of osz cols)"
    using ds_prefix [OF assms(1,2)] by blast
  let ?buf = "str.image_of osz cols @ tail" and ?N = "names_image (\<lambda>k. k) cols"
  define rest where "rest = entries_image 4 osz (\<lambda>k m. m) (\<lambda>k. k) dyncol_fmt_str 0 0 cols @ ?N
      @ data_image dyncol_fmt_str cols @ tail"
  define fl where "fl = (word_of_nat (4 + (osz - 2)) :: u8)"
  have f: "fmt_format fmt_str = dyncol_fmt_str" "fixed_hdr fmt_str = 5" "fixed_hdr_entry fmt_str = 2"
    by (simp_all add: fmt_str_def)
  have buf: "?buf = fl # le_bytes 2 (length cols) @ le_bytes 2 (length ?N) @ rest"
    unfolding str.image_of_def record_image_def rest_def f fl_def by simp
  have l0: "load1 ?buf 0 = (Ok fl :: (dyncol_rc, u8) res)"
    unfolding buf by (simp add: load1_def)
  have cc: "uint2korr ?buf (Suc 0) = (Ok (length cols) :: (dyncol_rc, nat) res)"
    unfolding uint2korr_def buf using assms(5)
    by (intro uintN_load_image [of "Suc 0" _ 2 _ "le_bytes 2 (length ?N) @ rest"]) simp_all
  have nm: "uint2korr ?buf 3 = (Ok (length ?N) :: (dyncol_rc, nat) res)"
    unfolding uint2korr_def buf using assms(6)
    by (intro uintN_load_image [of 3 _ 2 _ rest]) (simp_all add: le_bytes_2)
  have o1: "1 \<le> osz" using assms(3) by simp
  have flags: "fl AND - 8 = 0" "fl AND 4 \<noteq> 0"
    "unat (fl AND 3) = osz - 2"
    by (rule osz_cases [OF o1 assms(4)]; use assms(3) in \<open>simp add: fl_def\<close>)+
  have len: "ds_length s = 5 + length cols * (2 + osz) + length ?N + length (data_image dyncol_fmt_str cols)"
    using t(2) str.length_image_of [of osz cols] by (simp add: f)
  show ?thesis
    using Suc_Suc_diff [OF assms(3)] len
    by (simp add: init_read_hdr_def read_fixed_header_def t(1) l0 flags cc nm f Let_def describes_def
        algebra_simps)
qed

section \<open>Finding a column in a created record\<close>

text \<open>What a lookup of the key must return.\<close>

definition lookup_value :: "('k \<times> dyncol_value) list \<Rightarrow> 'k \<Rightarrow> dyncol_value" where
  "lookup_value cols k = (case map_of cols k of None \<Rightarrow> DYN_COL_NULL | Some v \<Rightarrow> norm_value v)"

text \<open>The conditions under which a list of columns is a readable record.\<close>

definition readable :: "nat \<Rightarrow> nat \<Rightarrow> dyncol_format \<Rightarrow> ('k \<times> dyncol_value) list \<Rightarrow> bool" where
  "readable tb osz f cols \<longleftrightarrow> length cols < 65536 \<and> length (data_image f cols) < offset_lim tb osz \<and>
     (osz = 3 \<longrightarrow> data_image f cols \<noteq> []) \<and>
     (\<forall>c\<in>set cols. snd c \<noteq> DYN_COL_NULL \<and> dyncol_type (snd c) \<le> 2 ^ tb \<and> valid_value (snd c))"

context column_format
begin

lemma get_found:
  assumes "readable tb osz (fmt_format fmt) cols" "osz_min \<le> osz" "osz \<le> 4"
    and "describes (fmt_format fmt) (fixed_hdr fmt) osz key_name cols len h" "distinct (map fst cols)"
    and "find_entry (image_of osz cols @ tail) h nk sk = Ok (Some (fixed_hdr fmt + i * (2 + osz)))"
    and "i < length cols" "fst (cols ! i) = k"
  shows "rbind (find_column (image_of osz cols @ tail) h nk sk) (\<lambda>(bad, h1).
      if bad then Ok DYN_COL_NULL
      else dynamic_column_get_value (h_type h1) (image_of osz cols @ tail) (h_data h1) (h_length h1))
    = Ok (lookup_value cols k)"
proof -
  obtain v where v: "cols ! i = (k, v)" using assms(8) by (metis prod.collapse)
  let ?h = "h\<lparr>h_entry := fixed_hdr fmt + i * (2 + osz)\<rparr>"
  have d: "describes (fmt_format fmt) (fixed_hdr fmt) osz key_name cols len ?h"
    using assms(4) by (simp add: describes_def)
  obtain h2 where h2: "locate_data (image_of osz cols @ tail) ?h = Ok (False, h2)" "h_type h2 = dyncol_type v"
    "h_length h2 = length (value_image (fmt_format fmt) v)"
    "h_data h2 = fixed_hdr fmt + length cols * (2 + osz) + length (names_image key_name cols)
      + col_off (fmt_format fmt) cols i"
    using locate_data_ok [OF assms(7) v assms(2,3) _ _ _ d, of tail] assms(1) by (auto simp: readable_def)
  have mem: "(k, v) \<in> set cols" using v assms(7) by (metis nth_mem)
  then have "map_of cols k = Some v" using assms(5) by simp
  moreover have "valid_value v" using mem assms(1) by (auto simp: readable_def)
  moreover have "\<not> h_data_end h < h_header h + h_header_size h" using assms(4) by (simp add: describes_def)
  ultimately show ?thesis
    using h2 assms(6) get_value_at [OF assms(7) v, of osz tail]
    by (simp add: find_column_def lookup_value_def)
qed

lemma get_missing:
  assumes "describes (fmt_format fmt) (fixed_hdr fmt) osz key_name cols len h"
    and "find_entry buf h nk sk = Ok None" "k \<notin> fst ` set cols"
  shows "rbind (find_column buf h nk sk) (\<lambda>(bad, h1).
      if bad then Ok DYN_COL_NULL
      else dynamic_column_get_value (h_type h1) buf (h_data h1) (h_length h1)) = Ok (lookup_value cols k)"
proof -
  have "map_of cols k = None" using assms(3) by (simp add: map_of_eq_None_iff)
  moreover have "\<not> h_data_end h < h_header h + h_header_size h" using assms(1) by (simp add: describes_def)
  ultimately show ?thesis
    using assms(2) by (simp add: find_column_def lookup_value_def dynamic_column_get_value_def)
qed

end

lemma entry_key_load:
  assumes "drop p buf = entry_image tb osz key t off @ rest" "key < 65536"
  shows "uint2korr buf p = Ok key"
  using uintN_load_image [of p buf 2 key "le_bytes osz (off * 2 ^ tb + (t - 1)) @ rest"] assms
  by (simp add: uint2korr_def entry_image_def)

lemma not_key_iff: "k \<notin> fst ` set cols \<longleftrightarrow> (\<forall>i<length cols. fst (cols ! i) \<noteq> k)"
  by (metis (no_types, opaque_lifting) image_iff in_set_conv_nth)

lemma get_internal_eq:
  assumes "init_read_hdr header_zero s = Ok h" "h_column_count h \<noteq> 0" "ds_buf s = (Ok buf :: (dyncol_rc, bytes) res)" "ds_length s \<noteq> 0"
  shows "dynamic_column_get_internal s nk sk = rbind (find_column buf h nk sk) (\<lambda>(bad, h1).
      if bad then Ok DYN_COL_NULL
      else dynamic_column_get_value (h_type h1) buf (h_data h1) (h_length h1))"
  using assms by (simp add: dynamic_column_get_internal_def)

lemma sorted_distinct:
  assumes "\<And>a. \<not> lt a a" "sorted_wrt (\<lambda>c d. lt (fst c) (fst d)) cols"
  shows "distinct (map fst cols)"
  using assms(2)
proof (induction cols)
  case (Cons c cols)
  then have "lt (fst c) (fst d)" if "d \<in> set cols" for d using that by simp
  with assms(1) Cons show ?case by fastforce
qed simp

lemma find_num:
  assumes "sorted_wrt (\<lambda>c d. fst c < fst d) cols" "\<And>c. c \<in> set cols \<Longrightarrow> fst c < 65536" "k < 65536"
    and "describes dyncol_fmt_num 3 osz (\<lambda>k. []) cols len h"
  shows "(\<exists>i<length cols. fst (cols ! i) = k \<and>
      find_entry_num (num.image_of osz cols @ tail) h k = Ok (Some (3 + i * (2 + osz)))) \<or>
    k \<notin> fst ` set cols \<and> find_entry_num (num.image_of osz cols @ tail) h k = Ok None"
proof -
  let ?buf = "num.image_of osz cols @ tail"
  let ?cmp = "\<lambda>p. rmap (header_compar_num k) (uint2korr ?buf p) :: (dyncol_rc, int) res"
  let ?c = "\<lambda>i. header_compar_num k (fst (cols ! i))"
  have f: "fixed_hdr fmt_num = 3" by (simp add: fmt_num_def)
  have at: "?cmp (3 + i * (2 + osz)) = Ok (?c i)" if "i < length cols" for i
  proof -
    have "fst (cols ! i) < 65536" using assms(2) that by simp
    moreover obtain v where "cols ! i = (fst (cols ! i), v)" by (metis prod.collapse)
    ultimately show ?thesis
      using entry_key_load [OF num.drop_entry [OF that, unfolded f]] by (metis rmap.simps(1))
  qed
  have mono: "?c j < 0" if "i < j" "j < length cols" "?c i \<le> 0" for i j
    using sorted_wrt_nth_less [OF assms(1) that(1,2)] that(3)
    by (auto simp: header_compar_num_def split: if_splits)
  have "find_entry_num ?buf h k = bsearch ?cmp 3 (length cols) (2 + osz)"
    using assms(3,4) by (simp add: find_entry_num_def describes_def le_val_bytes)
  moreover have "?c i = 0 \<longleftrightarrow> fst (cols ! i) = k" for i by (simp add: header_compar_num_def)
  moreover have "(\<exists>i<length cols. ?c i = 0 \<and> bsearch ?cmp 3 (length cols) (2 + osz) = Ok (Some (3 + i * (2 + osz)))) \<or>
      (\<forall>i<length cols. ?c i \<noteq> 0) \<and> bsearch ?cmp 3 (length cols) (2 + osz) = Ok None"
    by (rule bsearch_correct) (use at mono in blast)+
  ultimately show ?thesis unfolding not_key_iff by metis
qed

lemma get_num_image:
  assumes "ds_inv s" "ds_contents s = num.image_of osz cols" "1 \<le> osz" "osz \<le> 4"
    and "readable 3 osz dyncol_fmt_num cols" "sorted_wrt (\<lambda>c d. fst c < fst d) cols"
    and "\<And>c. c \<in> set cols \<Longrightarrow> fst c < 65536" "k < 65536"
  shows "mariadb_dyncol_get_num s k = Ok (lookup_value cols k)"
proof -
  have f: "fmt_format fmt_num = dyncol_fmt_num" "fixed_hdr fmt_num = 3" by (simp_all add: fmt_num_def)
  obtain tail where t: "ds_buf s = (Ok (num.image_of osz cols @ tail) :: (dyncol_rc, bytes) res)"
    "ds_length s = length (num.image_of osz cols)"
    using ds_prefix [OF assms(1,2)] by blast
  let ?buf = "num.image_of osz cols @ tail"
  obtain h where h: "init_read_hdr header_zero s = Ok h"
    "describes dyncol_fmt_num 3 osz (\<lambda>k. []) cols (ds_length s) h"
    using init_read_num [OF assms(1-4)] assms(5) by (auto simp: readable_def)
  have fe: "find_entry ?buf h k None = find_entry_num ?buf h k"
    using h(2) by (simp add: find_entry_def describes_def)
  have dist: "distinct (map fst cols)"
    using sorted_distinct [of "(<)" cols] assms(6) by simp
  show ?thesis
  proof (cases "cols = []")
    case True
    with h have "h_column_count h = 0" by (simp add: describes_def)
    with h(1) True show ?thesis
      by (simp add: mariadb_dyncol_get_num_def dynamic_column_get_internal_def lookup_value_def)
  next
    case False
    with h(2) have n: "h_column_count h \<noteq> 0" by (simp add: describes_def)
    have "rbind (find_column ?buf h k None) (\<lambda>(bad, h1).
      if bad then Ok DYN_COL_NULL
      else dynamic_column_get_value (h_type h1) ?buf (h_data h1) (h_length h1)) = Ok (lookup_value cols k)"
      using find_num [OF assms(6,7,8) h(2), of tail]
        num.get_found [of osz cols "ds_length s" h tail k None _ k] num.get_missing [of osz cols "ds_length s" h ?buf k None k]
        assms(3-5) h(2) dist unfolding f fe by blast
    moreover have "ds_length s \<noteq> 0" using t(2) num.length_image_of [of osz cols] by (simp add: f)
    ultimately show ?thesis
      unfolding mariadb_dyncol_get_num_def using get_internal_eq [OF h(1) n t(1), of k None] by argo
  qed
qed

lemma cmp_name_at_load:
  assumes "drop p buf = name @ rest" "p \<le> length buf"
  shows "cmp_name_at buf p (length name) key = Ok (mariadb_dyncol_column_cmp_named name key)"
  using assms
  by (simp add: cmp_name_at_def mariadb_dyncol_column_cmp_named_def Let_def load_bytes_drop [of p buf name rest])

lemma drop_name:
  assumes "i < length cols" "cols ! i = (k, v)"
  shows "drop (5 + length cols * (2 + osz) + name_off (\<lambda>k. k) cols i) (str.image_of osz cols @ tail) =
    k @ names_image (\<lambda>k. k) (drop (Suc i) cols) @ data_image dyncol_fmt_str cols @ tail"
proof -
  have f: "fmt_format fmt_str = dyncol_fmt_str" "fixed_hdr fmt_str = 5" by (simp_all add: fmt_str_def)
  let ?E = "entries_image 4 osz (\<lambda>k m. m) (\<lambda>k. k) dyncol_fmt_str 0 0 cols"
  have "drop (5 + (length ?E + name_off (\<lambda>k. k) cols i)) (str.image_of osz cols @ tail) =
      drop (length ?E + name_off (\<lambda>k. k) cols i) (?E @ names_image (\<lambda>k. k) cols @ data_image dyncol_fmt_str cols @ tail)"
    using str.drop_fixed [of "length ?E + name_off (\<lambda>k. k) cols i" osz cols tail] by (simp only: f)
  also have "\<dots> = drop (name_off (\<lambda>k. k) cols i) (names_image (\<lambda>k. k) cols @ data_image dyncol_fmt_str cols @ tail)"
    by simp
  also have "\<dots> = k @ names_image (\<lambda>k. k) (drop (Suc i) cols) @ data_image dyncol_fmt_str cols @ tail"
    unfolding names_split [OF assms] by (simp add: name_off_def)
  finally show ?thesis by (simp only: add.assoc length_entries_image)
qed

lemma read_name_str:
  assumes "i < length cols" "length (names_image (\<lambda>k. k) cols) < 65536"
    and "describes dyncol_fmt_str 5 osz (\<lambda>k. k) cols len h"
  shows "read_name (str.image_of osz cols @ tail) h (5 + i * (2 + osz)) =
    Ok (False, 5 + length cols * (2 + osz) + name_off (\<lambda>k. k) cols i, length (fst (cols ! i)))"
proof -
  have f: "fixed_hdr fmt_str = 5" by (simp add: fmt_str_def)
  have h: "h_header h = 5" "h_entry_size h = 2 + osz" "h_header_size h = length cols * (2 + osz)"
    "h_nmpool h = 5 + length cols * (2 + osz)" "h_nmpool_size h = length (names_image (\<lambda>k. k) cols)"
    using assms(3) by (auto simp: describes_def)
  have off: "uint2korr (str.image_of osz cols @ tail) (5 + j * (2 + osz)) = (Ok (name_off (\<lambda>k. k) cols j) :: (dyncol_rc, nat) res)"
    if "j < length cols" for j
  proof -
    have "name_off (\<lambda>k. k) cols j < 65536" using name_off_le [of "\<lambda>k. k" cols j] assms(2) by simp
    moreover obtain v where "cols ! j = (fst (cols ! j), v)" by (metis prod.collapse)
    ultimately show ?thesis using entry_key_load [OF str.drop_entry [OF that, unfolded f]] by metis
  qed
  have Suc_off: "name_off (\<lambda>k. k) cols (Suc i) = name_off (\<lambda>k. k) cols i + length (fst (cols ! i))"
    using name_off_Suc [OF assms(1), of "fst (cols ! i)" "snd (cols ! i)" "\<lambda>k. k"] by simp
  note le = name_off_le [of "\<lambda>k. k" cols]
  have next_p: "5 + i * (2 + osz) + (2 + osz) = 5 + Suc i * (2 + osz)" by simp
  show ?thesis
  proof (cases "Suc i = length cols")
    case True
    then have "length (names_image (\<lambda>k. k) cols) = name_off (\<lambda>k. k) cols i + length (fst (cols ! i))"
      using Suc_off name_off_all [of "\<lambda>k. k" cols] by simp
    then show ?thesis
      unfolding read_name_def Let_def h next_p True
      by (simp only: off [OF assms(1)] rbind.simps) simp
  next
    case False
    then have lt: "Suc i < length cols" using assms(1) by simp
    then have "Suc i * (2 + osz) < length cols * (2 + osz)" by (simp only: mult_less_cancel2) simp
    then have e: "(5 + Suc i * (2 + osz) = 5 + length cols * (2 + osz)) = False"
      by (metis add_left_cancel nat_neq_iff)
    have g: "(length (names_image (\<lambda>k. k) cols) < name_off (\<lambda>k. k) cols j) = False" for j
      using le [of j] by (simp add: not_less)
    show ?thesis
      unfolding read_name_def Let_def h next_p
      by (simp only: off [OF assms(1)] off [OF lt] rbind.simps e g if_False) (simp add: Suc_off)
  qed
qed

lemma find_named:
  assumes "sorted_wrt (\<lambda>c d. name_less (fst c) (fst d)) cols" "cols \<noteq> []"
    and "length (names_image (\<lambda>k. k) cols) < 65536"
    and "describes dyncol_fmt_str 5 osz (\<lambda>k. k) cols len h"
  shows "(\<exists>i<length cols. fst (cols ! i) = k \<and>
      find_entry_named (str.image_of osz cols @ tail) h k = Ok (Some (5 + i * (2 + osz)))) \<or>
    k \<notin> fst ` set cols \<and> find_entry_named (str.image_of osz cols @ tail) h k = Ok None"
proof -
  let ?buf = "str.image_of osz cols @ tail" and ?n = "length cols"
  let ?c = "\<lambda>i. mariadb_dyncol_column_cmp_named (fst (cols ! i)) k"
  let ?np = "\<lambda>i. 5 + length cols * (2 + osz) + name_off (\<lambda>k. k) cols i"
  have h: "h_header h = 5" "h_entry_size h = 2 + osz" "h_column_count h = ?n"
    using assms(4) by (auto simp: describes_def)
  have f: "fmt_format fmt_str = dyncol_fmt_str" "fixed_hdr fmt_str = 5" by (simp_all add: fmt_str_def)
  have cmp: "cmp_name_at ?buf (?np i) (length (fst (cols ! i))) k = Ok (?c i)" if "i < ?n" for i
  proof (rule cmp_name_at_load [OF drop_name [OF that]])
    show "cols ! i = (fst (cols ! i), snd (cols ! i))" by simp
    show "?np i \<le> length ?buf"
      using name_off_le [of "\<lambda>k. k" cols i] str.length_image_of [of osz cols] by (simp add: f)
  qed
  have mono: "0 < ?c j" if "i < j" "j < ?n" "0 \<le> ?c i" for i j
  proof -
    have "name_less (fst (cols ! i)) (fst (cols ! j))" using sorted_wrt_nth_less [OF assms(1) that(1,2)] .
    moreover have "\<not> name_less (fst (cols ! i)) k" using that(3) by (simp add: name_less_def)
    ultimately have "name_less k (fst (cols ! j))"
      using name_less_total [of "fst (cols ! i)" k] name_less_trans by blast
    then show ?thesis using cmp_named_swap [of k "fst (cols ! j)"] by (simp add: name_less_def)
  qed
  have "(\<exists>i. 0 \<le> int i \<and> int i \<le> int ?n - 1 \<and> ?c i = 0 \<and>
      find_entry_named_loop ?buf h k (0 * int (h_entry_size h)) ((int ?n - 1) * int (h_entry_size h)) =
        Ok (Some (h_header h + i * h_entry_size h))) \<or>
    (\<forall>i. 0 \<le> int i \<and> int i \<le> int ?n - 1 \<longrightarrow> ?c i \<noteq> 0) \<and>
      find_entry_named_loop ?buf h k (0 * int (h_entry_size h)) ((int ?n - 1) * int (h_entry_size h)) = Ok None"
  proof (rule find_entry_named_loop_correct [where n = ?n and np = ?np and nl = "\<lambda>i. length (fst (cols ! i))"])
    show "read_name ?buf h (h_header h + i * h_entry_size h) = Ok (False, ?np i, length (fst (cols ! i)))"
      if "i < ?n" for i using read_name_str [OF that assms(3,4), of tail] by (simp only: h)
  qed (use cmp mono h in auto)
  then have "(\<exists>i<?n. ?c i = 0 \<and> find_entry_named ?buf h k = Ok (Some (5 + i * (2 + osz)))) \<or>
    (\<forall>i<?n. ?c i \<noteq> 0) \<and> find_entry_named ?buf h k = Ok None"
    unfolding find_entry_named_def h mult_zero_left by (metis of_nat_0_le_iff zle_diff1_eq of_nat_less_iff)
  then show ?thesis unfolding cmp_named_eq not_key_iff .
qed

lemma get_named_image:
  assumes "ds_inv s" "ds_contents s = str.image_of osz cols" "2 \<le> osz" "osz \<le> 4"
    and "readable 4 osz dyncol_fmt_str cols" "sorted_wrt (\<lambda>c d. name_less (fst c) (fst d)) cols"
    and "length (names_image (\<lambda>k. k) cols) < 65536"
  shows "mariadb_dyncol_get_named s k = Ok (lookup_value cols k)"
proof -
  have f: "fmt_format fmt_str = dyncol_fmt_str" "fixed_hdr fmt_str = 5" by (simp_all add: fmt_str_def)
  obtain tail where t: "ds_buf s = (Ok (str.image_of osz cols @ tail) :: (dyncol_rc, bytes) res)"
    "ds_length s = length (str.image_of osz cols)"
    using ds_prefix [OF assms(1,2)] by blast
  let ?buf = "str.image_of osz cols @ tail"
  obtain h where h: "init_read_hdr header_zero s = Ok h"
    "describes dyncol_fmt_str 5 osz (\<lambda>k. k) cols (ds_length s) h"
    using init_read_str [OF assms(1-4) _ assms(7)] assms(5) by (auto simp: readable_def)
  have fe: "find_entry ?buf h 0 (Some k) = find_entry_named ?buf h k"
    using h(2) by (simp add: find_entry_def describes_def)
  have dist: "distinct (map fst cols)"
    using sorted_distinct [of name_less cols] assms(6) name_less_irrefl by simp
  show ?thesis
  proof (cases "cols = []")
    case True
    with h have "h_column_count h = 0" by (simp add: describes_def)
    with h(1) True show ?thesis
      by (simp add: mariadb_dyncol_get_named_def dynamic_column_get_internal_def lookup_value_def)
  next
    case False
    with h(2) have n: "h_column_count h \<noteq> 0" by (simp add: describes_def)
    have "rbind (find_column ?buf h 0 (Some k)) (\<lambda>(bad, h1).
      if bad then Ok DYN_COL_NULL
      else dynamic_column_get_value (h_type h1) ?buf (h_data h1) (h_length h1)) = Ok (lookup_value cols k)"
      using find_named [OF assms(6) False assms(7) h(2), of k tail]
        str.get_found [of osz cols "ds_length s" h tail 0 "Some k" _ k]
        str.get_missing [of osz cols "ds_length s" h ?buf 0 "Some k" k]
        assms(3-5) h(2) dist unfolding f fe by blast
    moreover have "ds_length s \<noteq> 0" using t(2) str.length_image_of [of osz cols] by (simp add: f)
    ultimately show ?thesis
      unfolding mariadb_dyncol_get_named_def using get_internal_eq [OF h(1) n t(1), of 0 "Some k"] by argo
  qed
qed

section \<open>Create, then get\<close>

lemma norm_null [simp]: "norm_value DYN_COL_NULL = DYN_COL_NULL"
  by simp

lemma map_of_perm:
  assumes "distinct (map fst xs)" "mset xs = mset ys"
  shows "map_of xs = map_of ys"
proof -
  have "distinct (map fst ys)" using assms by (metis mset_eq_imp_distinct_iff mset_map)
  moreover have "set xs = set ys" using assms(2) by (metis set_mset_mset)
  ultimately show ?thesis using assms(1) by (simp add: map_of_inject_set)
qed

lemma lookup_not_null:
  assumes "distinct (map fst cols)"
  shows "lookup_value (not_null cols) k = lookup_value cols k"
  using assms
proof (induction cols)
  case (Cons c cols)
  have "map_of (not_null cols) (fst c) = None"
    using Cons.prems by (auto simp: map_of_eq_None_iff)
  then show ?case using Cons by (cases c) (auto simp: lookup_value_def)
qed simp

lemma lookup_order:
  assumes "distinct (map fst cols)"
  shows "lookup_value (not_null (columns_order fmt cols)) k = lookup_value cols k"
proof -
  have "distinct (map fst (columns_order fmt cols))" using assms by (simp add: columns_order_distinct)
  moreover have "map_of (columns_order fmt cols) = map_of cols"
    using map_of_perm [OF calculation, of cols] by simp
  ultimately show ?thesis using lookup_not_null [of "columns_order fmt cols" k] by (simp add: lookup_value_def)
qed

lemma sorted_not_null: "sorted_wrt P cols \<Longrightarrow> sorted_wrt P (not_null cols)"
  by (simp add: not_null_def sorted_wrt_filter)

lemma length_not_null_le: "length (not_null cols) \<le> length cols"
  by (simp add: not_null_def)

context column_format
begin

lemma record_facts:
  assumes "osz_of cols < max_offset_size fmt" "keys_valid fmt cols" "is_record cols s" "length cols < 65536"
    and "\<And>c. c \<in> set cols \<Longrightarrow> valid_value (snd c) \<and> dyncol_type (snd c) \<le> 2 ^ tb"
  shows "ds_inv s" "ds_contents s = image_of (osz_of cols) (not_null (columns_order fmt cols))"
    "osz_min \<le> osz_of cols" "osz_of cols \<le> 4"
    "readable tb (osz_of cols) (fmt_format fmt) (not_null (columns_order fmt cols))"
    "sorted_wrt (\<lambda>c d. lt (fst c) (fst d)) (not_null (columns_order fmt cols))"
proof -
  let ?f = "fmt_format fmt" and ?nn = "not_null (columns_order fmt cols)"
  show "ds_inv s" "ds_contents s = image_of (osz_of cols) ?nn"
    using assms(3) by (simp_all add: is_record_def image_of_def)
  have ob: "osz_min \<le> osz_of cols \<and> osz_of cols \<le> 4 \<and> total_len ?f cols < offset_lim tb (osz_of cols)"
    using offset_bytes [of "total_len ?f cols"] assms(1) by (simp add: osz_of_def)
  then show "osz_min \<le> osz_of cols" "osz_of cols \<le> 4" by auto
  have perm: "length (data_image ?f ?nn) = length (data_image ?f (not_null cols))"
    by (rule perm_data_image_length) simp
  then have "length (data_image ?f ?nn) < offset_lim tb (osz_of cols)"
    using length_data_image_le [of ?f cols] ob by simp
  moreover have "length ?nn < 65536"
    using length_not_null_le [of "columns_order fmt cols"] assms(4) by simp
  moreover have "data_image ?f ?nn \<noteq> []" if "osz_of cols = 3"
  proof -
    have "0 < total_len ?f cols"
      using offset_bytes [of "total_len ?f cols"] assms(1) that by (simp add: osz_of_def)
    from data_image_nonempty [OF this] perm show ?thesis by (metis length_0_conv)
  qed
  ultimately show "readable tb (osz_of cols) ?f ?nn"
    using assms(5) by (auto simp: readable_def)
  show "sorted_wrt (\<lambda>c d. lt (fst c) (fst d)) ?nn" using order_strict [OF assms(2)] by (rule sorted_not_null)
qed

lemma create_ok_cases:
  assumes "dynamic_column_create_many_internal_fmt fmt E s cols new_str = Ok (ER_DYNCOL_OK, s')"
    and "new_str \<or> ds_str s = None \<or> ds_inv s"
    and "\<And>c. c \<in> set cols \<Longrightarrow> dyncol_type (snd c) \<le> 2 ^ tb"
  shows "osz_of cols < max_offset_size fmt \<and>
    (cols = [] \<and> ds_length s' = 0 \<or> cols \<noteq> [] \<and> keys_valid fmt cols \<and> is_record cols s')"
  using create_result [OF assms(2,3), of cols E] create_ok_lens [OF assms(1)] assms(1)
  by (auto split: if_splits)

end

lemma get_empty: "ds_length s = 0 \<Longrightarrow> dynamic_column_get_internal s nk sk = Ok DYN_COL_NULL"
  by (simp add: dynamic_column_get_internal_def)

end
