(* ===== verification/Dyncol_Roundtrip.thy ===== *)
theory Dyncol_Roundtrip
  imports Dyncol_Read
begin

text \<open>
  What the readers of \<^verbatim>\<open>mariadb_dyncol.c\<close> return on the records its writers create: the
  composition of the theories on values, formats, creation and reading. The section on
  samples evaluates the model on concrete records; the last section shows where the code
  departs from what it means to do.
\<close>

section \<open>Existence, lists and unpacking of a created record\<close>

context column_format
begin

lemma find_found:
  assumes "readable tb osz (fmt_format fmt) cols" "osz_min \<le> osz" "osz \<le> 4"
    and "describes (fmt_format fmt) (fixed_hdr fmt) osz key_name cols len h"
    and "find_entry (image_of osz cols @ tail) h nk sk = Ok (Some (fixed_hdr fmt + i * (2 + osz)))"
    and "i < length cols"
  shows "\<exists>h2. find_column (image_of osz cols @ tail) h nk sk = Ok (False, h2) \<and> h_type h2 \<noteq> 0"
proof -
  obtain k v where v: "cols ! i = (k, v)" by (cases "cols ! i")
  let ?h = "h\<lparr>h_entry := fixed_hdr fmt + i * (2 + osz)\<rparr>"
  have d: "describes (fmt_format fmt) (fixed_hdr fmt) osz key_name cols len ?h"
    using assms(4) by (simp add: describes_def)
  obtain h2 where h2: "locate_data (image_of osz cols @ tail) ?h = Ok (False, h2)" "h_type h2 = dyncol_type v"
    using locate_data_ok [OF assms(6) v assms(2,3) _ _ _ d, of tail] assms(1) by (auto simp: readable_def)
  have "(k, v) \<in> set cols" using v assms(6) by (metis nth_mem)
  then have "dyncol_type v \<noteq> 0" using assms(1) dyncol_type_pos by (fastforce simp: readable_def)
  moreover have "\<not> h_data_end h < h_header h + h_header_size h" using assms(4) by (simp add: describes_def)
  ultimately show ?thesis using h2 assms(5) by (simp add: find_column_def)
qed

lemma find_missing:
  assumes "describes (fmt_format fmt) (fixed_hdr fmt) osz key_name cols len h" "find_entry buf h nk sk = Ok None"
  shows "find_column buf h nk sk = Ok (False, h\<lparr>h_type := 0\<rparr>)"
proof -
  have "\<not> h_data_end h < h_header h + h_header_size h" using assms(1) by (simp add: describes_def)
  with assms(2) show ?thesis by (simp add: find_column_def)
qed

lemma unpack_loop_image:
  assumes "readable tb osz (fmt_format fmt) cols" "osz_min \<le> osz" "osz \<le> 4"
    and "describes (fmt_format fmt) (fixed_hdr fmt) osz key_name cols len h"
    and name: "\<And>i h. i < length cols \<Longrightarrow> describes (fmt_format fmt) (fixed_hdr fmt) osz key_name cols len h \<Longrightarrow>
      h_entry h = fixed_hdr fmt + i * (2 + osz) \<Longrightarrow>
      (if h_format h = dyncol_fmt_num then rmap dec_digits (uint2korr (image_of osz cols @ tail) (h_entry h))
       else rbind (read_name (image_of osz cols @ tail) h (h_entry h)) (\<lambda>(nbad, p, len).
         if nbad then Err ER_DYNCOL_FORMAT else load_bytes (image_of osz cols @ tail) p len))
        = Ok (nm (fst (cols ! i)))"
    and "h_entry h = fixed_hdr fmt + i * (2 + osz)" "i \<le> length cols"
  shows "unpack_loop (image_of osz cols @ tail) h (length cols - i) =
    Ok (map (\<lambda>c. (nm (fst c), norm_value (snd c))) (drop i cols))"
  using assms(4,6,7)
proof (induction "length cols - i" arbitrary: h i)
  case 0
  then show ?case by simp
next
  case (Suc n)
  let ?buf = "image_of osz cols @ tail"
  have i: "i < length cols" using Suc.hyps(2) by simp
  obtain k v where v: "cols ! i = (k, v)" by (cases "cols ! i")
  obtain h2 where h2: "locate_data ?buf h = Ok (False, h2)" "h_type h2 = dyncol_type v"
    "h_length h2 = length (value_image (fmt_format fmt) v)"
    "h_data h2 = fixed_hdr fmt + length cols * (2 + osz) + length (names_image key_name cols)
      + col_off (fmt_format fmt) cols i"
    using locate_data_ok [OF i v assms(2,3) _ _ _ Suc.prems(1,2), of tail] assms(1) by (auto simp: readable_def)
  have same: "h_entry h2 = h_entry h" "describes (fmt_format fmt) (fixed_hdr fmt) osz key_name cols len h2"
    using h2(1) Suc.prems(1)
    by (auto simp: locate_data_def hdr_interval_length_def Let_def res_simps describes_def
        split: prod.splits if_splits)
  have "(k, v) \<in> set cols" using v i by (metis nth_mem)
  then have "valid_value v" using assms(1) by (auto simp: readable_def)
  then have get: "dynamic_column_get_value (h_type h2) ?buf (h_data h2) (h_length h2) = Ok (norm_value v)"
    using get_value_at [OF i v, of osz tail] h2 by simp
  have nm: "(if h_format h2 = dyncol_fmt_num then rmap dec_digits (uint2korr ?buf (h_entry h2))
       else rbind (read_name ?buf h2 (h_entry h2)) (\<lambda>(nbad, p, len).
         if nbad then Err ER_DYNCOL_FORMAT else load_bytes ?buf p len)) = Ok (nm k)"
    using name [OF i same(2)] same(1) Suc.prems(2) v by simp
  let ?h3 = "h2\<lparr>h_entry := h_entry h2 + h_entry_size h2\<rparr>"
  have es: "h_entry_size h2 = 2 + osz" using same(2) by (simp add: describes_def)
  have "unpack_loop ?buf ?h3 (length cols - Suc i) =
      Ok (map (\<lambda>c. (nm (fst c), norm_value (snd c))) (drop (Suc i) cols))"
  proof (rule Suc.hyps(1))
    show "describes (fmt_format fmt) (fixed_hdr fmt) osz key_name cols len ?h3"
      using same(2) by (simp add: describes_def)
    show "h_entry ?h3 = fixed_hdr fmt + Suc i * (2 + osz)" using same(1) Suc.prems(2) es by simp
  qed (use Suc.hyps(2) i in simp_all)
  moreover have "length cols - i = Suc (length cols - Suc i)" using i by simp
  moreover have "drop i cols = (k, v) # drop (Suc i) cols" using i v by (metis Cons_nth_drop_Suc)
  ultimately show ?case
    using h2(1) get nm by (simp only: unpack_loop.simps rbind.simps prod.case if_False rmap.simps) simp
qed

end

lemma num_keys:
  assumes "\<And>c. c \<in> set cols \<Longrightarrow> fst c < 65536" "i < length cols"
  shows "uint2korr (num.image_of osz cols @ tail) (3 + i * (2 + osz)) = Ok (fst (cols ! i))"
proof -
  have f: "fixed_hdr fmt_num = 3" by (simp add: fmt_num_def)
  have "fst (cols ! i) < 65536" using assms by simp
  moreover obtain v where "cols ! i = (fst (cols ! i), v)" by (metis prod.collapse)
  ultimately show ?thesis
    using entry_key_load [OF num.drop_entry [OF assms(2), unfolded f]] by metis
qed

lemma list_num_loop_image:
  assumes "\<And>c. c \<in> set cols \<Longrightarrow> fst c < 65536" "i \<le> length cols"
  shows "list_num_loop (num.image_of osz cols @ tail) (3 + i * (2 + osz)) (2 + osz) (length cols - i) =
    Ok (map fst (drop i cols))"
  using assms(2)
proof (induction "length cols - i" arbitrary: i)
  case (Suc n)
  have i: "i < length cols" using Suc.hyps(2) by simp
  have p: "3 + i * (2 + osz) + (2 + osz) = 3 + Suc i * (2 + osz)" by simp
  have "list_num_loop (num.image_of osz cols @ tail) (3 + Suc i * (2 + osz)) (2 + osz) (length cols - Suc i) =
      Ok (map fst (drop (Suc i) cols))"
    by (rule Suc.hyps(1)) (use Suc.hyps(2) i in simp_all)
  moreover have "length cols - i = Suc (length cols - Suc i)" using i by simp
  moreover have "drop i cols = cols ! i # drop (Suc i) cols" using i by (metis Cons_nth_drop_Suc)
  ultimately show ?case
    by (simp only: list_num_loop.simps p num_keys [OF assms(1) i] rbind.simps rmap.simps) simp
qed simp

section \<open>Properties\<close>

text \<open>The hypotheses the properties of created records share.\<close>

definition storable :: "('k \<times> dyncol_value) list \<Rightarrow> bool" where
  "storable cols \<longleftrightarrow> (\<forall>c\<in>set cols. valid_value (snd c)) \<and> length cols < 65536"

definition usable :: "bool \<Rightarrow> dynamic_string \<Rightarrow> bool" where
  "usable new_string s \<longleftrightarrow> new_string \<or> ds_str s = None \<or> ds_inv s"

text \<open>The columns a record holds: the non-null ones, by ascending key.\<close>

definition stored_num :: "(nat \<times> dyncol_value) list \<Rightarrow> (nat \<times> dyncol_value) list" where
  "stored_num cols = not_null (columns_order fmt_num cols)"

definition stored_named :: "(bytes \<times> dyncol_value) list \<Rightarrow> (bytes \<times> dyncol_value) list" where
  "stored_named cols = not_null (columns_order fmt_str cols)"

lemma fmt_fields [simp]:
  "fmt_format fmt_num = dyncol_fmt_num" "fixed_hdr fmt_num = 3" "max_offset_size fmt_num = 4"
  "fmt_format fmt_str = dyncol_fmt_str" "fixed_hdr fmt_str = 5" "max_offset_size fmt_str = 5"
  by (simp_all add: fmt_num_def fmt_str_def)

lemma created_num:
  assumes "mariadb_dyncol_create_many_num E s cols new_string = Ok (ER_DYNCOL_OK, s')"
    and "usable new_string s" "storable cols" "\<forall>c\<in>set cols. dyncol_type (snd c) \<noteq> 9"
  shows "cols = [] \<and> ds_length s' = 0 \<or> cols \<noteq> [] \<and>
    (\<exists>osz. ds_inv s' \<and> ds_contents s' = num.image_of osz (stored_num cols) \<and> 1 \<le> osz \<and> osz \<le> 4 \<and>
      readable 3 osz dyncol_fmt_num (stored_num cols) \<and> sorted_wrt (\<lambda>c d. fst c < fst d) (stored_num cols) \<and>
      (\<forall>c\<in>set (stored_num cols). fst c < 65536) \<and> distinct (map fst cols))"
proof -
  have ty: "valid_value (snd c) \<and> dyncol_type (snd c) \<le> 2 ^ 3" if "c \<in> set cols" for c
    using assms(3,4) that by (cases "snd c") (auto simp: storable_def)
  have len: "length cols < 65536" using assms(3) by (simp add: storable_def)
  have us: "new_string \<or> ds_str s = None \<or> ds_inv s" using assms(2) by (simp add: usable_def)
  have c: "num.osz_of cols < max_offset_size fmt_num \<and>
    (cols = [] \<and> ds_length s' = 0 \<or> cols \<noteq> [] \<and> keys_valid fmt_num cols \<and> num.is_record cols s')"
    by (rule num.create_ok_cases [OF assms(1) [unfolded mariadb_dyncol_create_many_num_def] us])
      (use ty in blast)
  show ?thesis
  proof (cases "cols = []")
    case False
    with c have k: "num.osz_of cols < max_offset_size fmt_num" "keys_valid fmt_num cols" "num.is_record cols s'"
      by metis+
    note r = num.record_facts [OF k len ty, folded stored_num_def, unfolded fmt_fields]
    have "\<forall>c\<in>set (stored_num cols). fst c < 65536" "distinct (map fst cols)"
      using k(2) by (auto simp: stored_num_def keys_valid_def fmt_num_def check_limit_num_def not_less)
    with r False show ?thesis by blast
  qed (use c in metis)
qed

lemma created_named:
  assumes "mariadb_dyncol_create_many_named E s cols new_string = Ok (ER_DYNCOL_OK, s')"
    and "usable new_string s" "storable cols"
  shows "cols = [] \<and> ds_length s' = 0 \<or> cols \<noteq> [] \<and>
    (\<exists>osz. ds_inv s' \<and> ds_contents s' = str.image_of osz (stored_named cols) \<and> 2 \<le> osz \<and> osz \<le> 4 \<and>
      readable 4 osz dyncol_fmt_str (stored_named cols) \<and>
      sorted_wrt (\<lambda>c d. name_less (fst c) (fst d)) (stored_named cols) \<and> distinct (map fst cols))"
proof -
  have ty: "valid_value (snd c) \<and> dyncol_type (snd c) \<le> 2 ^ 4" if "c \<in> set cols" for c
    using assms(3) that by (cases "snd c") (auto simp: storable_def)
  have len: "length cols < 65536" using assms(3) by (simp add: storable_def)
  have us: "new_string \<or> ds_str s = None \<or> ds_inv s" using assms(2) by (simp add: usable_def)
  have c: "str.osz_of cols < max_offset_size fmt_str \<and>
    (cols = [] \<and> ds_length s' = 0 \<or> cols \<noteq> [] \<and> keys_valid fmt_str cols \<and> str.is_record cols s')"
    by (rule str.create_ok_cases [OF assms(1) [unfolded mariadb_dyncol_create_many_named_def] us])
      (use ty in blast)
  show ?thesis
  proof (cases "cols = []")
    case False
    with c have k: "str.osz_of cols < max_offset_size fmt_str" "keys_valid fmt_str cols" "str.is_record cols s'"
      by metis+
    note r = str.record_facts [OF k len ty, folded stored_named_def, unfolded fmt_fields]
    have "distinct (map fst cols)" using k(2) by (simp add: keys_valid_def)
    with r False show ?thesis by blast
  qed (use c in metis)
qed

text \<open>
  C1. Write/read round trip of a numbered record. Let fewer than 65536 columns be given, all with
  valid values (\<open>valid_value\<close>: known character sets, dates and times in range, no decimals) and
  none a nested record (type 9, see \<open>nested_numeric_corrupt\<close>), and let the string be new, empty
  or well formed. When \<open>mariadb_dyncol_create_many_num\<close> then succeeds,
  \<open>mariadb_dyncol_get_num\<close> returns for every 16-bit column number the \<open>norm_value\<close> of the value
  given for it (the value itself, but for a date or time the fields its type or its time
  type does not carry are cleared and its time type is set), and \<open>DYN_COL_NULL\<close> for a number that was not given:
  the binary search, the offsets and the lengths computed from them are right, and no
  access leaves the record.
\<close>
theorem create_get_num:
  assumes "mariadb_dyncol_create_many_num E s cols new_string = Ok (ER_DYNCOL_OK, s')"
    and "usable new_string s" "storable cols" "\<forall>c\<in>set cols. dyncol_type (snd c) \<noteq> 9" "k < 65536"
  shows "mariadb_dyncol_get_num s' k = Ok (lookup_value cols k)"
  using created_num [OF assms(1-4)]
proof (elim disjE conjE exE)
  assume "cols = []" "ds_length s' = 0"
  then show ?thesis by (simp add: mariadb_dyncol_get_num_def get_empty lookup_value_def)
next
  fix osz
  assume "ds_inv s'" "ds_contents s' = num.image_of osz (stored_num cols)" "1 \<le> osz" "osz \<le> 4"
    "readable 3 osz dyncol_fmt_num (stored_num cols)" "sorted_wrt (\<lambda>c d. fst c < fst d) (stored_num cols)"
    "\<forall>c\<in>set (stored_num cols). fst c < 65536" "distinct (map fst cols)"
  then show ?thesis
    using get_num_image [of s' osz "stored_num cols" k] lookup_order [of cols fmt_num k] assms(5)
    by (metis stored_num_def)
qed

text \<open>
  C2. Write/read round trip of a record with named columns, in a string that is new, empty or
  well formed. Let fewer than 65536 columns be
  given, all with valid values, and let the names of the columns that are not null together
  take less than 65536 bytes (a larger pool is not refused, but its size is stored in two bytes
  and truncated). When \<open>mariadb_dyncol_create_many_named\<close> then succeeds,
  \<open>mariadb_dyncol_get_named\<close> returns for every name the \<open>norm_value\<close> of the value given for it
  (the value itself, but for a date or time the fields its type or its time type does not carry
  are cleared and its time type is set), and \<open>DYN_COL_NULL\<close> for a name that was not given.
\<close>
theorem create_get_named:
  assumes "mariadb_dyncol_create_many_named E s cols new_string = Ok (ER_DYNCOL_OK, s')"
    and "usable new_string s" "storable cols" "length (names_image (\<lambda>k. k) (stored_named cols)) < 65536"
  shows "mariadb_dyncol_get_named s' k = Ok (lookup_value cols k)"
  using created_named [OF assms(1-3)]
proof (elim disjE conjE exE)
  assume "cols = []" "ds_length s' = 0"
  then show ?thesis by (simp add: mariadb_dyncol_get_named_def get_empty lookup_value_def)
next
  fix osz
  assume "ds_inv s'" "ds_contents s' = str.image_of osz (stored_named cols)" "2 \<le> osz" "osz \<le> 4"
    "readable 4 osz dyncol_fmt_str (stored_named cols)"
    "sorted_wrt (\<lambda>c d. name_less (fst c) (fst d)) (stored_named cols)" "distinct (map fst cols)"
  then show ?thesis
    using get_named_image [of s' osz "stored_named cols" k] lookup_order [of cols fmt_str k] assms(4)
    by (metis stored_named_def)
qed

lemma exists_internal_eq:
  assumes "init_read_hdr header_zero s = Ok h" "h_column_count h \<noteq> 0"
    "ds_buf s = (Ok buf :: (dyncol_rc, bytes) res)" "ds_length s \<noteq> 0"
  shows "dynamic_column_exists_internal s nk sk = rbind (find_column buf h nk sk) (\<lambda>(bad, h1).
      if bad then Err ER_DYNCOL_FORMAT else Ok (h_type h1 \<noteq> 0))"
  using assms by (simp add: dynamic_column_exists_internal_def)

lemma stored_num_keys: "distinct (map fst cols) \<Longrightarrow> k \<in> fst ` set (stored_num cols) \<longleftrightarrow>
    (\<exists>v. v \<noteq> DYN_COL_NULL \<and> (k, v) \<in> set cols)"
  by (auto simp: stored_num_def image_iff)

text \<open>
  After a successful creation \<open>mariadb_dyncol_exists_num\<close> answers whether the column
  was given with a value other than null.
\<close>
theorem create_exists_num:
  assumes "mariadb_dyncol_create_many_num E s cols new_string = Ok (ER_DYNCOL_OK, s')"
    and "usable new_string s" "storable cols" "\<forall>c\<in>set cols. dyncol_type (snd c) \<noteq> 9" "k < 65536"
  shows "mariadb_dyncol_exists_num s' k = Ok (\<exists>v. v \<noteq> DYN_COL_NULL \<and> (k, v) \<in> set cols)"
  using created_num [OF assms(1-4)]
proof (elim disjE conjE exE)
  assume "cols = []" "ds_length s' = 0"
  then show ?thesis by (simp add: mariadb_dyncol_exists_num_def dynamic_column_exists_internal_def)
next
  fix osz
  let ?cs = "stored_num cols"
  assume r: "ds_inv s'" "ds_contents s' = num.image_of osz ?cs" "1 \<le> osz" "osz \<le> 4"
    "readable 3 osz dyncol_fmt_num ?cs" "sorted_wrt (\<lambda>c d. fst c < fst d) ?cs"
    "\<forall>c\<in>set ?cs. fst c < 65536" "distinct (map fst cols)"
  obtain tail where t: "ds_buf s' = (Ok (num.image_of osz ?cs @ tail) :: (dyncol_rc, bytes) res)"
    "ds_length s' = length (num.image_of osz ?cs)"
    using ds_prefix [OF r(1,2)] by blast
  let ?buf = "num.image_of osz ?cs @ tail"
  obtain h where h: "init_read_hdr header_zero s' = Ok h"
    "describes dyncol_fmt_num 3 osz (\<lambda>k. []) ?cs (ds_length s') h"
    using init_read_num [OF r(1-4)] r(5) by (auto simp: readable_def)
  have fe: "find_entry ?buf h k None = find_entry_num ?buf h k"
    using h(2) by (simp add: find_entry_def describes_def)
  have pos: "ds_length s' \<noteq> 0" using t(2) num.length_image_of [of osz ?cs] by simp
  show ?thesis
  proof (cases "?cs = []")
    case True
    with h have "h_column_count h = 0" by (simp add: describes_def)
    moreover have "\<not> (\<exists>v. v \<noteq> DYN_COL_NULL \<and> (k, v) \<in> set cols)"
      using stored_num_keys [OF r(8), of k] True by simp
    ultimately show ?thesis
      using h(1) by (simp add: mariadb_dyncol_exists_num_def dynamic_column_exists_internal_def)
  next
    case False
    with h(2) have n: "h_column_count h \<noteq> 0" by (simp add: describes_def)
    note ee = exists_internal_eq [OF h(1) n t(1) pos, of k None]
    consider i where "i < length ?cs" "fst (?cs ! i) = k" "find_entry_num ?buf h k = Ok (Some (3 + i * (2 + osz)))"
      | "k \<notin> fst ` set ?cs" "find_entry_num ?buf h k = Ok None"
      using find_num [OF r(6) _ assms(5) h(2), of tail] r(7) by metis
    then show ?thesis
    proof cases
      case 1
      have "\<exists>h2. find_column ?buf h k None = Ok (False, h2) \<and> h_type h2 \<noteq> 0"
        by (rule num.find_found [unfolded fmt_fields, OF r(5,3,4) h(2) _ 1(1)]) (simp only: fe 1(3))
      moreover have "k \<in> fst ` set ?cs" using 1(1,2) by (metis image_iff nth_mem)
      ultimately show ?thesis
        using stored_num_keys [OF r(8), of k] unfolding mariadb_dyncol_exists_num_def ee by auto
    next
      case 2
      have "find_column ?buf h k None = Ok (False, h\<lparr>h_type := 0\<rparr>)"
        by (rule num.find_missing [unfolded fmt_fields, OF h(2)]) (simp only: fe 2(2))
      then show ?thesis
        using stored_num_keys [OF r(8), of k] 2(1) unfolding mariadb_dyncol_exists_num_def ee by auto
    qed
  qed
qed

text \<open>
  After a successful creation \<open>mariadb_dyncol_list_num\<close> returns the numbers of the
  non-null columns in strictly ascending order, and \<open>mariadb_dyncol_column_count\<close> their
  number.
\<close>
theorem create_list_num:
  assumes "mariadb_dyncol_create_many_num E s cols new_string = Ok (ER_DYNCOL_OK, s')"
    and "usable new_string s" "storable cols" "\<forall>c\<in>set cols. dyncol_type (snd c) \<noteq> 9" "\<forall>n. alloc_ok E' n"
  shows "mariadb_dyncol_list_num E' s' = Ok (map fst (stored_num cols)) \<and>
    mariadb_dyncol_column_count s' = Ok (length (stored_num cols)) \<and>
    sorted_wrt (<) (map fst (stored_num cols))"
  using created_num [OF assms(1-4)]
proof (elim disjE conjE exE)
  assume "cols = []" "ds_length s' = 0"
  then show ?thesis
    by (simp add: mariadb_dyncol_list_num_def mariadb_dyncol_column_count_def stored_num_def columns_order_def qsort_def)
next
  fix osz
  let ?cs = "stored_num cols"
  assume r: "ds_inv s'" "ds_contents s' = num.image_of osz ?cs" "1 \<le> osz" "osz \<le> 4"
    "readable 3 osz dyncol_fmt_num ?cs" "sorted_wrt (\<lambda>c d. fst c < fst d) ?cs"
    "\<forall>c\<in>set ?cs. fst c < 65536" "distinct (map fst cols)"
  obtain tail where t: "ds_buf s' = (Ok (num.image_of osz ?cs @ tail) :: (dyncol_rc, bytes) res)"
    "ds_length s' = length (num.image_of osz ?cs)"
    using ds_prefix [OF r(1,2)] by blast
  define buf where "buf = num.image_of osz ?cs @ tail"
  have t1: "ds_buf s' = (Ok buf :: (dyncol_rc, bytes) res)" using t(1) by (simp only: buf_def)
  obtain h where h: "init_read_hdr header_zero s' = Ok h"
    "describes dyncol_fmt_num 3 osz (\<lambda>k. []) ?cs (ds_length s') h"
    using init_read_num [OF r(1-4)] r(5) by (auto simp: readable_def)
  have loop: "list_num_loop buf 3 (2 + osz) (length ?cs) = Ok (map fst ?cs)"
    using list_num_loop_image [of ?cs 0 osz tail] r(7) unfolding buf_def by (simp only: mult_zero_left) simp
  have pos: "ds_length s' \<noteq> 0" using t(2) num.length_image_of [of osz ?cs] by simp
  have f: "h_format h = dyncol_fmt_num" "h_header h = 3" "h_entry_size h = 2 + osz"
    "h_column_count h = length ?cs" "ds_length s' \<ge> 3 + length ?cs * (2 + osz)"
    using h(2) by (auto simp: describes_def)
  have "mariadb_dyncol_list_num E' s' = Ok (map fst ?cs)"
    using pos h(1) t1 loop f assms(5)
    by (simp add: mariadb_dyncol_list_num_def not_less mult.commute)
  moreover have "mariadb_dyncol_column_count s' = Ok (length ?cs)"
    using pos h(1) f(4) by (simp add: mariadb_dyncol_column_count_def)
  moreover have "sorted_wrt (<) (map fst ?cs)" using r(6) by (simp add: sorted_wrt_map)
  ultimately show ?thesis by blast
qed

text \<open>
  C35. Let a named record be created, in a new, empty or well-formed string, from fewer than 65536 columns with valid values, the names
  of the non-null ones taking together less than 65536 bytes, and let every allocation of
  \<open>mariadb_dyncol_unpack\<close> succeed. Then it returns every non-null column with its name and the
  \<open>norm_value\<close> of its value, as above, in the
  order of the record.
\<close>
theorem create_unpack_named:
  assumes "mariadb_dyncol_create_many_named E s cols new_string = Ok (ER_DYNCOL_OK, s')"
    and "usable new_string s" "storable cols" "length (names_image (\<lambda>k. k) (stored_named cols)) < 65536"
    and "\<forall>n. alloc_ok E' n"
  shows "mariadb_dyncol_unpack E' s' = Ok (map (\<lambda>c. (fst c, norm_value (snd c))) (stored_named cols))"
  using created_named [OF assms(1-3)]
proof (elim disjE conjE exE)
  assume "cols = []" "ds_length s' = 0"
  then show ?thesis
    by (simp add: mariadb_dyncol_unpack_def stored_named_def columns_order_def qsort_def)
next
  fix osz
  let ?cs = "stored_named cols"
  assume r: "ds_inv s'" "ds_contents s' = str.image_of osz ?cs" "2 \<le> osz" "osz \<le> 4"
    "readable 4 osz dyncol_fmt_str ?cs" "sorted_wrt (\<lambda>c d. name_less (fst c) (fst d)) ?cs" "distinct (map fst cols)"
  obtain tail where t: "ds_buf s' = (Ok (str.image_of osz ?cs @ tail) :: (dyncol_rc, bytes) res)"
    "ds_length s' = length (str.image_of osz ?cs)"
    using ds_prefix [OF r(1,2)] by blast
  let ?buf = "str.image_of osz ?cs @ tail"
  obtain h where h: "init_read_hdr header_zero s' = Ok h"
    "describes dyncol_fmt_str 5 osz (\<lambda>k. k) ?cs (ds_length s') h"
    using init_read_str [OF r(1-4) _ assms(4)] r(5) by (auto simp: readable_def)
  have pos: "ds_length s' \<noteq> 0" using t(2) str.length_image_of [of osz ?cs] by simp
  have f: "h_format h = dyncol_fmt_str" "h_header h = 5" "h_entry_size h = 2 + osz"
    "h_column_count h = length ?cs" "ds_length s' \<ge> 5 + length ?cs * (2 + osz)"
    using h(2) by (auto simp: describes_def)
  have "unpack_loop ?buf (h\<lparr>h_entry := h_header h\<rparr>) (length ?cs - 0) =
      Ok (map (\<lambda>c. (fst c, norm_value (snd c))) (drop 0 ?cs))"
  proof (rule str.unpack_loop_image [unfolded fmt_fields, where nm = "\<lambda>k. k", OF r(5,3,4)])
    show "describes dyncol_fmt_str 5 osz (\<lambda>k. k) ?cs (ds_length s') (h\<lparr>h_entry := h_header h\<rparr>)"
      using h(2) by (simp add: describes_def)
    show "h_entry (h\<lparr>h_entry := h_header h\<rparr>) = 5 + 0 * (2 + osz)" using f(2) by simp
  next
    fix i h'
    assume a: "i < length ?cs" "describes dyncol_fmt_str 5 osz (\<lambda>k. k) ?cs (ds_length s') h'"
      "h_entry h' = 5 + i * (2 + osz)"
    obtain v where v: "?cs ! i = (fst (?cs ! i), v)" by (metis prod.collapse)
    have "load_bytes ?buf (5 + length ?cs * (2 + osz) + name_off (\<lambda>k. k) ?cs i) (length (fst (?cs ! i))) =
        (Ok (fst (?cs ! i)) :: (dyncol_rc, bytes) res)"
      using name_off_le [of "\<lambda>k. k" ?cs i] str.length_image_of [of osz ?cs]
      by (intro load_bytes_drop [OF drop_name [OF a(1) v]]) simp_all
    moreover have "h_format h' = dyncol_fmt_str" using a(2) by (simp add: describes_def)
    ultimately show "(if h_format h' = dyncol_fmt_num then rmap dec_digits (uint2korr ?buf (h_entry h'))
       else rbind (read_name ?buf h' (h_entry h')) (\<lambda>(nbad, p, len).
         if nbad then Err ER_DYNCOL_FORMAT else load_bytes ?buf p len)) = Ok (fst (?cs ! i))"
      unfolding a(3) read_name_str [OF a(1) assms(4) a(2)] by simp
  qed simp
  then show ?thesis
    using pos h(1) t(1) f assms(5)
    by (simp add: mariadb_dyncol_unpack_def not_less mult.commute)
qed

text \<open>
  C26. For every list of columns whose values have a computable length, none of them a nested
  record, \<open>mariadb_dyncol_create_many_num\<close> returns without leaving a block: with
  \<open>ER_DYNCOL_LIMIT\<close> exactly when the images of the values take 0x1fffff bytes or more,
  otherwise with \<open>ER_DYNCOL_RESOURCE\<close> only when an allocation is refused, and then with
  success exactly when the column numbers are distinct and fit 16 bits, and with
  \<open>ER_DYNCOL_DATA\<close> when they do not.
\<close>
theorem create_num_result:
  assumes "usable new_string s"
    and "\<forall>c\<in>set cols. dyncol_type (snd c) \<noteq> 9 \<and> dynamic_column_value_len (snd c) dyncol_fmt_num \<noteq> 2 ^ 64 - 1"
  shows "\<exists>rc s'. mariadb_dyncol_create_many_num E s cols new_string = Ok (rc, s') \<and>
    (if 0x1fffff \<le> total_len dyncol_fmt_num cols then rc = ER_DYNCOL_LIMIT
     else rc = ER_DYNCOL_RESOURCE \<and> (\<exists>n. \<not> alloc_ok E n) \<or>
       rc = (if distinct (map fst cols) \<and> (\<forall>c\<in>set cols. fst c \<le> 0xffff) then ER_DYNCOL_OK else ER_DYNCOL_DATA))"
proof -
  have ty: "dyncol_type (snd c) \<le> 2 ^ 3" if "c \<in> set cols" for c
    using assms(2) that by (cases "snd c") auto
  have us: "new_string \<or> ds_str s = None \<or> ds_inv s" using assms(1) by (simp add: usable_def)
  have lim: "num.osz_of cols < max_offset_size fmt_num \<longleftrightarrow> \<not> 0x1fffff \<le> total_len dyncol_fmt_num cols"
    unfolding num.osz_of_def by (auto simp: fmt_num_def dynamic_column_offset_bytes_num_def)
  have kv: "keys_valid fmt_num cols \<longleftrightarrow> distinct (map fst cols) \<and> (\<forall>c\<in>set cols. fst c \<le> 0xffff)"
    by (auto simp: keys_valid_def fmt_num_def check_limit_num_def not_less)
  have "\<exists>rc s'. mariadb_dyncol_create_many_num E s cols new_string = Ok (rc, s') \<and>
    (if \<not> num.osz_of cols < max_offset_size fmt_num then rc = ER_DYNCOL_LIMIT
     else rc = ER_DYNCOL_RESOURCE \<and> (\<exists>n. \<not> alloc_ok E n) \<or>
       cols = [] \<and> rc = ER_DYNCOL_OK \<and> ds_length s' = 0 \<or>
       cols \<noteq> [] \<and> rc = (if keys_valid fmt_num cols then ER_DYNCOL_OK else ER_DYNCOL_DATA) \<and>
       (keys_valid fmt_num cols \<longrightarrow> num.is_record cols s'))"
    unfolding mariadb_dyncol_create_many_num_def
    using assms(2) ty by (intro num.create_result [OF us]) auto
  then show ?thesis unfolding lim kv by (elim exE conjE) (auto split: if_splits)
qed

section \<open>Samples\<close>

definition sample_cols :: "(nat \<times> dyncol_value) list" where
  "sample_cols = [(7, DYN_COL_UINT 300), (3, DYN_COL_STRING 8 [97, 98]), (5, DYN_COL_NULL)]"

definition sample_record :: dynamic_string where
  "sample_record = \<lparr>ds_str = Some ([0, 2, 0, 3, 0, 3, 7, 0, 25, 8, 97, 98, 44, 1] @ replicate 80 0),
     ds_length = 14, ds_max_length = 94, ds_alloc_increment = 80\<rparr>"

lemma sample_created:
  "mariadb_dyncol_create_many_num all_ok ds_null sample_cols True = Ok (ER_DYNCOL_OK, sample_record)"
  by code_simp

lemma sample_storable: "storable sample_cols" "\<forall>c\<in>set sample_cols. dyncol_type (snd c) \<noteq> 9" "usable True ds_null"
  by code_simp+

theorem create_get_num_witness:
  "mariadb_dyncol_get_num sample_record 7 = Ok (DYN_COL_UINT 300) \<and>
   mariadb_dyncol_get_num sample_record 3 = Ok (DYN_COL_STRING 8 [97, 98]) \<and>
   mariadb_dyncol_get_num sample_record 5 = Ok DYN_COL_NULL \<and>
   mariadb_dyncol_get_num sample_record 4 = Ok DYN_COL_NULL"
  using create_get_num [OF sample_created sample_storable(3,1,2), of 7]
    create_get_num [OF sample_created sample_storable(3,1,2), of 3]
    create_get_num [OF sample_created sample_storable(3,1,2), of 5]
    create_get_num [OF sample_created sample_storable(3,1,2), of 4]
  by (simp add: sample_cols_def lookup_value_def)

definition sample_names :: "(bytes \<times> dyncol_value) list" where
  "sample_names = [([98, 98], DYN_COL_UINT 300), ([97], DYN_COL_DYNCOL [0]), ([99], DYN_COL_NULL)]"

definition sample_named :: dynamic_string where
  "sample_named = \<lparr>ds_str = Some ([4, 2, 0, 3, 0, 0, 0, 8, 0, 1, 0, 17, 0, 97, 98, 98, 0, 44, 1] @ replicate 80 0),
     ds_length = 19, ds_max_length = 99, ds_alloc_increment = 80\<rparr>"

lemma sample_named_created:
  "mariadb_dyncol_create_many_named all_ok ds_null sample_names True = Ok (ER_DYNCOL_OK, sample_named)"
  by code_simp

lemma sample_named_storable: "usable True ds_null" "storable sample_names"
  "length (names_image (\<lambda>k. k) (stored_named sample_names)) < 65536"
  by code_simp+

theorem create_get_named_witness:
  "mariadb_dyncol_get_named sample_named [98, 98] = Ok (DYN_COL_UINT 300) \<and>
   mariadb_dyncol_get_named sample_named [97] = Ok (DYN_COL_DYNCOL [0]) \<and>
   mariadb_dyncol_get_named sample_named [100] = Ok DYN_COL_NULL"
  using create_get_named [OF sample_named_created sample_named_storable, of "[98, 98]"]
    create_get_named [OF sample_named_created sample_named_storable, of "[97]"]
    create_get_named [OF sample_named_created sample_named_storable, of "[100]"]
  by (simp add: sample_names_def lookup_value_def)

theorem create_exists_num_witness:
  "mariadb_dyncol_exists_num sample_record 7 = Ok True \<and> mariadb_dyncol_exists_num sample_record 5 = Ok False"
  using create_exists_num [OF sample_created sample_storable(3,1,2), of 7]
    create_exists_num [OF sample_created sample_storable(3,1,2), of 5]
  by (simp add: sample_cols_def)

lemma sample_stored: "map fst (stored_num sample_cols) = [3, 7]"
  by code_simp

lemma all_ok_all: "\<forall>n. alloc_ok all_ok n"
  by simp

theorem create_list_num_witness:
  "mariadb_dyncol_list_num all_ok sample_record = Ok [3, 7] \<and> mariadb_dyncol_column_count sample_record = Ok 2"
proof -
  have "length (stored_num sample_cols) = 2" using arg_cong [OF sample_stored, of length] by simp
  then show ?thesis
    using create_list_num [OF sample_created sample_storable(3,1,2) all_ok_all] by (simp add: sample_stored)
qed

lemma sample_named_stored:
  "map (\<lambda>c. (fst c, norm_value (snd c))) (stored_named sample_names) =
     [([97], DYN_COL_DYNCOL [0]), ([98, 98], DYN_COL_UINT 300)]"
  by code_simp

theorem create_unpack_named_witness:
  "mariadb_dyncol_unpack all_ok sample_named = Ok [([97], DYN_COL_DYNCOL [0]), ([98, 98], DYN_COL_UINT 300)]"
  using create_unpack_named [OF sample_named_created sample_named_storable all_ok_all]
  by (simp only: sample_named_stored)

theorem create_num_result_witness:
  "\<exists>rc s'. mariadb_dyncol_create_many_num all_ok ds_null [(1, DYN_COL_UINT 5), (1, DYN_COL_UINT 6)] True = Ok (rc, s') \<and>
     rc = ER_DYNCOL_DATA"
proof -
  let ?cols = "[(1 :: nat, DYN_COL_UINT 5), (1, DYN_COL_UINT 6)]"
  have l: "\<forall>c\<in>set ?cols. dyncol_type (snd c) \<noteq> 9 \<and> dynamic_column_value_len (snd c) dyncol_fmt_num \<noteq> 2 ^ 64 - 1"
    by code_simp
  have t: "total_len dyncol_fmt_num ?cols = 2" by code_simp
  show ?thesis
    using create_num_result [OF sample_storable(3) l, of all_ok] by (simp add: t del: One_nat_def)
qed

section \<open>Departures\<close>

lemma find_column_alias:
  "h_format h = dyncol_fmt_num \<Longrightarrow> find_column buf h (k + 65536 * j) None = find_column buf h k None"
  by (simp add: find_column_def find_entry_def find_entry_num_def le_val_bytes)

text \<open>
  The reader truncates the column number to 16 bits before it searches, so the number
  \<open>k + 65536 * j\<close>, that no record can hold, is answered with column \<open>k\<close>.
\<close>
theorem get_num_aliases:
  assumes "mariadb_dyncol_create_many_num E s cols new_string = Ok (ER_DYNCOL_OK, s')"
    and "usable new_string s" "storable cols" "\<forall>c\<in>set cols. dyncol_type (snd c) \<noteq> 9" "k < 65536"
  shows "mariadb_dyncol_get_num s' (k + 65536 * j) = mariadb_dyncol_get_num s' k"
  using created_num [OF assms(1-4)]
proof (elim disjE conjE exE)
  assume "cols = []" "ds_length s' = 0"
  then show ?thesis by (simp add: mariadb_dyncol_get_num_def get_empty)
next
  fix osz
  assume r: "ds_inv s'" "ds_contents s' = num.image_of osz (stored_num cols)" "1 \<le> osz" "osz \<le> 4"
    "readable 3 osz dyncol_fmt_num (stored_num cols)"
  obtain h where h: "init_read_hdr header_zero s' = Ok h"
    "describes dyncol_fmt_num 3 osz (\<lambda>k. []) (stored_num cols) (ds_length s') h"
    using init_read_num [OF r(1-4)] r(5) by (auto simp: readable_def)
  then have "find_column buf h (k + 65536 * j) None = find_column buf h k None" for buf
    by (intro find_column_alias) (simp add: describes_def)
  with h(1) show ?thesis
    by (simp add: mariadb_dyncol_get_num_def dynamic_column_get_internal_def)
qed

theorem get_num_aliases_witness:
  "mariadb_dyncol_get_num sample_record (7 + 65536 * 1) = mariadb_dyncol_get_num sample_record 7"
  by (rule get_num_aliases [OF sample_created sample_storable(3,1,2)]) simp

text \<open>
  Asking a record with named columns for a number of seven digits writes before the
  six byte buffer the number is printed into.
\<close>
theorem get_num_on_names_overflows:
  "mariadb_dyncol_get_num sample_named 1000000 = UB"
  by code_simp

definition broken_record :: dynamic_string where
  "broken_record = \<lparr>ds_str = Some [0, 1, 0, 3, 0, 0xff], ds_length = 6, ds_max_length = 6, ds_alloc_increment = 80\<rparr>"

text \<open>
  On a malformed record \<open>mariadb_dyncol_get_num\<close> reports success with a null value,
  although the search found the record broken, while \<open>mariadb_dyncol_exists_num\<close> reports
  \<open>ER_DYNCOL_FORMAT\<close> for the same record and column.
\<close>
theorem get_hides_format_error:
  "ds_inv broken_record \<and> mariadb_dyncol_get_num broken_record 3 = Ok DYN_COL_NULL \<and>
   mariadb_dyncol_exists_num broken_record 3 = Err ER_DYNCOL_FORMAT"
  by code_simp

text \<open>
  Nested records have type code 9, which the three type bits of a numbered record cannot
  hold: creating such a record succeeds and the nested column reads back as an integer.
\<close>
theorem nested_numeric_corrupt:
  "rbind (mariadb_dyncol_create_many_num all_ok ds_null [(1, DYN_COL_DYNCOL [1]), (2, DYN_COL_DYNCOL [7, 8])] True)
     (\<lambda>(rc, s). if rc = ER_DYNCOL_OK then mariadb_dyncol_get_num s 1 else Err rc) = Ok (DYN_COL_INT 0)"
  by code_simp

end
