(* ===== verification/Bt_Tablet.thy ===== *)
theory Bt_Tablet
  imports Complex_Main Prelude "HOL-Library.Code_Target_Nat"
begin

text \<open>
  The connection to one tablet (\<^verbatim>\<open>bluetooth/btTabObj.hpp\<close>): reading and writing whole
  messages over a stream socket, the acknowledgements, and the two directions of the
  transfer protocol.

  Winsock, the clock and the allocator are parameters. A \<open>peer\<close> holds what they will
  answer: the results of the coming calls of \<open>recv\<close>, \<open>send\<close> and \<open>select\<close>, in order. Since
  the theorems quantify over these lists, the other side and the system may do anything. A
  function returns \<open>None\<close> when the answers run out before it does: it has not returned yet.
  The peer also records what the code did: the bytes handed to the system, the blocks that
  are allocated and not freed, and the calls of \<open>closesocket\<close>. The clock is the one of
  \<open>GetTime\<close>, in seconds: its readings are rationals, which include all values of a \<open>double\<close>;
  the sum \<open>GetTime() + 10.0\<close> is taken exactly. Sizes passed to \<open>recv\<close> and
  \<open>send\<close> are below \<open>2 ^ 31\<close>, since every caller passes a constant or a non-negative \<open>int\<close>.
\<close>

section \<open>The socket\<close>

text \<open>
  \<open>Received []\<close> is a graceful close. A poll carries the seconds that pass until the
  first and from there until the second reading of the clock in an iteration.
\<close>

datatype recv_result = Received bytes | Recv_error int

datatype poll = Poll rat rat recv_result

datatype send_result = Sent nat | Send_error int

record peer =
  px_rx :: "poll list"
  px_tx :: "send_result list"
  px_sel :: "int list"
  px_now :: rat
  px_out :: bytes
  px_live :: nat
  px_closed :: nat

definition WSAEWOULDBLOCK :: int where "WSAEWOULDBLOCK = 10035"
definition WSAEINPROGRESS :: int where "WSAEINPROGRESS = 10036"

text \<open>What does not fit the buffer stays in the stream.\<close>

fun recv :: "nat \<Rightarrow> peer \<Rightarrow> (rat \<times> rat \<times> recv_result \<times> peer) option" where
  "recv n p = (case px_rx p of [] \<Rightarrow> None
    | Poll t l (Received bs) # rest \<Rightarrow>
        if length bs \<le> n then Some (t, l, Received bs, p\<lparr>px_rx := rest\<rparr>)
        else Some (t, l, Received (take n bs), p\<lparr>px_rx := Poll 0 0 (Received (drop n bs)) # rest\<rparr>)
    | Poll t l (Recv_error e) # rest \<Rightarrow> Some (t, l, Recv_error e, p\<lparr>px_rx := rest\<rparr>))"

text \<open>No request of the size of the 47-bit user address space succeeds.\<close>

definition bt_malloc :: "alloc_env \<Rightarrow> nat \<Rightarrow> bool" where
  "bt_malloc E n = (n < 2 ^ 47 \<and> alloc_ok E n)"

definition px_free :: "peer \<Rightarrow> peer" where
  "px_free p = p\<lparr>px_live := px_live p - 1\<rparr>"

section \<open>Whole messages\<close>

text \<open>
  \<open>invertEndianness\<close>: the loop stores the copy backwards; \<open>None\<close> is the failed allocation.
\<close>

definition invertEndianness :: "alloc_env \<Rightarrow> bytes \<Rightarrow> bytes option" where
  "invertEndianness E ptr =
     (if bt_malloc E (length ptr)
      then Some (map (\<lambda>i. ptr ! (length ptr - i - 1)) [0..<length ptr]) else None)"

text \<open>
  The loop of \<open>readAllSocketData\<close>: \<open>rem\<close> bytes are missing, \<open>acc\<close> were received. The result
  is the block, or null, and the flag \<open>success\<close>. No failing path frees the block.
\<close>

function read_loop :: "nat \<Rightarrow> bytes \<Rightarrow> rat \<Rightarrow> peer \<Rightarrow> ((bytes option \<times> bool) \<times> peer) option" where
  "read_loop rem acc timeoutTime p =
     (if rem = 0 then Some ((Some acc, True), p)
      else case recv rem p of None \<Rightarrow> None
      | Some (t, l, Received bs, q) \<Rightarrow>
          let t1 = px_now p + t; t2 = t1 + l; r = q\<lparr>px_now := t2\<rparr>;
              timeoutTime = (if bs \<noteq> [] then t1 + 10 else timeoutTime)
          in if timeoutTime < t2 then Some ((None, False), r)
             else if bs = [] then Some ((None, False), r)
             else read_loop (rem - length bs) (acc @ bs) timeoutTime r
      | Some (t, l, Recv_error e, q) \<Rightarrow>
          let t2 = px_now p + t + l; r = q\<lparr>px_now := t2\<rparr>
          in if timeoutTime < t2 then Some ((None, False), r)
             else if e = WSAEWOULDBLOCK \<or> e = WSAEINPROGRESS then read_loop rem acc timeoutTime r
             else Some ((None, False), r))"
  by pat_completeness auto
termination
  by (relation "measure (\<lambda>(rem, acc, timeoutTime, p). rem + length (px_rx p))")
    (auto split: list.splits poll.splits recv_result.splits if_splits)

declare read_loop.simps [simp del]

definition readAllSocketData ::
  "alloc_env \<Rightarrow> nat \<Rightarrow> peer \<Rightarrow> ((bytes option \<times> bool) \<times> peer) option" where
  "readAllSocketData E sizeExpected p =
     (let timeoutTime = px_now p + 10 in
      if sizeExpected < 1 then Some ((None, True), p)
      else if \<not> bt_malloc E sizeExpected then Some ((None, False), p)
      else read_loop sizeExpected [] timeoutTime (p\<lparr>px_live := px_live p + 1\<rparr>))"

text \<open>
  The loop of \<open>sendToSocket\<close>: \<open>data\<close> are the bytes not yet sent; the result has the flag, the
  remaining answers and what was sent so far.
\<close>

fun send_loop :: "bytes \<Rightarrow> send_result list \<Rightarrow> bytes \<Rightarrow> (bool \<times> send_result list \<times> bytes) option" where
  "send_loop [] tx out = Some (True, tx, out)"
| "send_loop data [] out = None"
| "send_loop data (Sent n # tx) out = send_loop (drop n data) tx (out @ take n data)"
| "send_loop data (Send_error e # tx) out =
     (if e = WSAEWOULDBLOCK then send_loop data tx out else Some (False, tx, out))"

definition sendToSocket :: "bytes \<Rightarrow> peer \<Rightarrow> (bool \<times> peer) option" where
  "sendToSocket data p =
     (if length data < 1 then Some (True, p)
      else case send_loop data (px_tx p) (px_out p) of None \<Rightarrow> None
        | Some (ok, tx, out) \<Rightarrow> Some (ok, p\<lparr>px_tx := tx, px_out := out\<rparr>))"

section \<open>Acknowledgements\<close>

definition ACK :: bytes where "ACK = [0x41, 0x43, 0x4b]"
definition NCK :: bytes where "NCK = [0x4e, 0x43, 0x4b]"

definition send_block :: "alloc_env \<Rightarrow> bytes \<Rightarrow> peer \<Rightarrow> (bool \<times> peer) option" where
  "send_block E data p =
     (if \<not> bt_malloc E (length data) then Some (False, p)
      else case sendToSocket data (p\<lparr>px_live := px_live p + 1\<rparr>) of None \<Rightarrow> None
        | Some (ok, q) \<Rightarrow> Some (ok, px_free q))"

definition sendAck :: "alloc_env \<Rightarrow> peer \<Rightarrow> (bool \<times> peer) option" where
  "sendAck E p = send_block E ACK p"

definition sendNack :: "alloc_env \<Rightarrow> peer \<Rightarrow> (bool \<times> peer) option" where
  "sendNack E p = send_block E NCK p"

text \<open>\<open>strncmp\<close> of the C library, up to the sign of its result.\<close>

fun strncmp :: "nat \<Rightarrow> bytes \<Rightarrow> bytes \<Rightarrow> int" where
  "strncmp n (a # as) (b # bs) =
     (if n = 0 then 0 else if a \<noteq> b then (if a < b then -1 else 1)
      else if a = 0 then 0 else strncmp (n - 1) as bs)"
| "strncmp n as bs = 0"

text \<open>Neither block of \<open>readAck\<close> is freed on any path.\<close>

definition readAck :: "alloc_env \<Rightarrow> peer \<Rightarrow> (bool \<times> peer) option" where
  "readAck E p =
     (if \<not> bt_malloc E 3 then Some (False, p)
      else case readAllSocketData E 3 (p\<lparr>px_live := px_live p + 1\<rparr>) of None \<Rightarrow> None
        | Some ((Some dataRecvd, True), q) \<Rightarrow> Some (strncmp 3 ACK dataRecvd = 0, q)
        | Some (_, q) \<Rightarrow> Some (False, q))"

section \<open>Readiness\<close>

definition select_answer :: "peer \<Rightarrow> (bool \<times> peer) option" where
  "select_answer p = (case px_sel p of [] \<Rightarrow> None
     | s # rest \<Rightarrow> Some (if s = -1 then False else s \<noteq> 0, p\<lparr>px_sel := rest\<rparr>))"

definition readyToRead :: "peer \<Rightarrow> (bool \<times> peer) option" where
  "readyToRead p = select_answer p"

definition readyToWrite :: "peer \<Rightarrow> (bool \<times> peer) option" where
  "readyToWrite p = select_answer p"

definition sockSuicide :: "peer \<Rightarrow> peer" where
  "sockSuicide p = p\<lparr>px_closed := px_closed p + 1\<rparr>"

section \<open>Transfers\<close>

text \<open>The codes of \<^verbatim>\<open>bluetoothTransactionType.hpp\<close>, of type \<open>char\<close>.\<close>

definition TRANS_SOCKET_ERROR :: u8 where "TRANS_SOCKET_ERROR = - 128"
definition TRANS_SEND_LOCAL_DB :: u8 where "TRANS_SEND_LOCAL_DB = - 2"
definition TRANS_SEND_LOCAL_DB_HASH :: u8 where "TRANS_SEND_LOCAL_DB_HASH = - 1"
definition TRANS_CLOSE_SOCKET :: u8 where "TRANS_CLOSE_SOCKET = 0"
definition TRANS_RECV_MATCH :: u8 where "TRANS_RECV_MATCH = 1"
definition TRANS_RECV_TABLET_INFO :: u8 where "TRANS_RECV_TABLET_INFO = 2"

definition getTransactionType :: "alloc_env \<Rightarrow> peer \<Rightarrow> (u8 \<times> peer) option" where
  "getTransactionType E p =
     (case readAllSocketData E 1 p of None \<Rightarrow> None
      | Some ((Some (b # bs), True), q) \<Rightarrow> Some (b, px_free q)
      | Some (_, q) \<Rightarrow> Some (TRANS_SOCKET_ERROR, q))"

text \<open>An \<open>int\<close> read from four bytes, and its conversion to \<open>size_t\<close>.\<close>

definition int_of_bytes :: "bytes \<Rightarrow> int" where
  "int_of_bytes bs = sint (word_of_nat (le_val bs) :: u32)"

definition size_of_int :: "int \<Rightarrow> nat" where
  "size_of_int i = nat (i mod 2 ^ 64)"

definition internalRead :: "alloc_env \<Rightarrow> peer \<Rightarrow> ((bytes \<times> bool) \<times> peer) option" where
  "internalRead E p =
     (case sendAck E p of None \<Rightarrow> None
      | Some (False, p1) \<Rightarrow> Some (([], False), p1)
      | Some (True, p1) \<Rightarrow>
     (case readAllSocketData E 4 p1 of None \<Rightarrow> None
      | Some ((Some numOfByte, True), p2) \<Rightarrow>
          (let bytesExpected = int_of_bytes numOfByte; p2 = px_free p2 in
           case sendAck E p2 of None \<Rightarrow> None
           | Some (False, p3) \<Rightarrow> Some (([], False), p3)
           | Some (True, p3) \<Rightarrow>
          (case readAllSocketData E (size_of_int bytesExpected) p3 of None \<Rightarrow> None
           | Some ((Some message, True), p4) \<Rightarrow> Some ((take (nat bytesExpected) message, True), px_free p4)
           | Some ((None, True), p4) \<Rightarrow> Some (([], True), p4)
           | Some ((_, False), p4) \<Rightarrow>
               (case sendNack E p4 of None \<Rightarrow> None | Some (_, p5) \<Rightarrow> Some (([], False), p5))))
      | Some (_, p2) \<Rightarrow>
          (case sendNack E p2 of None \<Rightarrow> None | Some (_, p3) \<Rightarrow> Some (([], False), p3))))"

text \<open>The result of \<open>internalWrite\<close> is always the empty optional: only the flag is returned.\<close>

definition internalWrite :: "alloc_env \<Rightarrow> bytes \<Rightarrow> peer \<Rightarrow> (bool \<times> peer) option" where
  "internalWrite E data p =
     (case sendToSocket (le_bytes 4 (length data)) p of None \<Rightarrow> None
      | Some (False, p1) \<Rightarrow> Some (False, p1)
      | Some (True, p1) \<Rightarrow>
     (case readAck E p1 of None \<Rightarrow> None
      | Some (False, p2) \<Rightarrow> Some (False, p2)
      | Some (True, p2) \<Rightarrow>
     (case sendToSocket data p2 of None \<Rightarrow> None
      | Some (False, p3) \<Rightarrow> Some (False, p3)
      | Some (True, p3) \<Rightarrow> readAck E p3)))"

section \<open>Streams\<close>

text \<open>The bytes a sequence of answers delivers.\<close>

fun stream :: "poll list \<Rightarrow> bytes" where
  "stream [] = []"
| "stream (Poll t l (Received bs) # rest) = bs @ stream rest"
| "stream (Poll t l (Recv_error e) # rest) = stream rest"

text \<open>
  A link on which no silence lasts longer than the timeout; \<open>b\<close> are the seconds that
  are left of it.
\<close>

fun prompt :: "rat \<Rightarrow> poll list \<Rightarrow> bool" where
  "prompt b [] = True"
| "prompt b (Poll t l (Received bs) # rest) =
     (bs \<noteq> [] \<and> 0 \<le> t \<and> 0 \<le> l \<and> l \<le> 10 \<and> prompt (10 - l) rest)"
| "prompt b (Poll t l (Recv_error e) # rest) =
     ((e = WSAEWOULDBLOCK \<or> e = WSAEINPROGRESS) \<and> 0 \<le> t \<and> 0 \<le> l \<and> t + l \<le> b \<and> prompt (b - t - l) rest)"

lemma prompt_mono: "prompt b rx \<Longrightarrow> b \<le> b' \<Longrightarrow> prompt b' rx"
proof (induction b rx arbitrary: b' rule: prompt.induct)
  case (3 b t l e rest)
  then show ?case using "3.IH" [of "b' - t - l"] by auto
qed auto

text \<open>The fields a call of the reader keeps.\<close>

definition keeps :: "peer \<Rightarrow> peer \<Rightarrow> bool" where
  "keeps p q \<longleftrightarrow> px_tx q = px_tx p \<and> px_sel q = px_sel p \<and> px_out q = px_out p \<and>
     px_live q = px_live p \<and> px_closed q = px_closed p"

lemma keeps_refl [simp]: "keeps p p"
  by (simp add: keeps_def)

lemma keeps_step [simp]: "keeps (p\<lparr>px_rx := rx, px_now := n\<rparr>) q \<longleftrightarrow> keeps p q"
  by (simp add: keeps_def)

lemma keeps_upd [simp]: "keeps p (p\<lparr>px_rx := rx, px_now := n\<rparr>)"
  by (simp add: keeps_def)

lemma read_loop_0 [simp]: "read_loop 0 acc d p = Some ((Some acc, True), p)"
  by (subst read_loop.simps) simp

lemma read_loop_Nil: "0 < n \<Longrightarrow> px_rx p = [] \<Longrightarrow> read_loop n acc d p = None"
  by (subst read_loop.simps) simp

lemma read_loop_error:
  assumes "0 < n" "px_rx p = Poll t l (Recv_error e) # rest"
  shows "read_loop n acc d p =
    (let q = p\<lparr>px_rx := rest, px_now := px_now p + t + l\<rparr>
     in if d < px_now p + t + l \<or> \<not> (e = WSAEWOULDBLOCK \<or> e = WSAEINPROGRESS) then Some ((None, False), q)
        else read_loop n acc d q)"
  using assms by (subst read_loop.simps) (simp add: Let_def)

lemma read_loop_closed:
  assumes "0 < n" "px_rx p = Poll t l (Received []) # rest"
  shows "read_loop n acc d p = Some ((None, False), p\<lparr>px_rx := rest, px_now := px_now p + t + l\<rparr>)"
  using assms by (subst read_loop.simps) (simp add: Let_def)

lemma read_loop_data:
  assumes "0 < n" "px_rx p = Poll t l (Received bs) # rest" "bs \<noteq> []"
  shows "read_loop n acc d p =
    (let q = p\<lparr>px_rx := (if length bs \<le> n then rest else Poll 0 0 (Received (drop n bs)) # rest),
               px_now := px_now p + t + l\<rparr>
     in if 10 < l then Some ((None, False), q)
        else read_loop (n - length bs) (acc @ take n bs) (px_now p + t + 10) q)"
  using assms by (subst read_loop.simps) (auto simp: Let_def)

lemmas read_loop_cases = read_loop_error read_loop_closed read_loop_data

lemma read_loop_ok:
  assumes "prompt b (px_rx p)" "b \<le> 10" "n \<le> length (stream (px_rx p))"
  shows "\<exists>q. read_loop n acc (px_now p + b) p = Some ((Some (acc @ take n (stream (px_rx p))), True), q) \<and>
    stream (px_rx q) = drop n (stream (px_rx p)) \<and> prompt 10 (px_rx q) \<and> keeps p q"
  using assms
proof (induction "px_rx p" arbitrary: p n acc b)
  case Nil
  then show ?case by simp
next
  case (Cons x rest)
  show ?case
  proof (cases "n = 0")
    case True
    then show ?thesis using Cons.prems prompt_mono by auto
  next
    case n: False
    obtain t l r where x: "x = Poll t l r" by (cases x)
    show ?thesis
    proof (cases r)
      case (Received bs)
      with Cons.prems(1) Cons.hyps(2) [symmetric] x
      have b: "bs \<noteq> []" "0 \<le> l" "l \<le> 10" "prompt (10 - l) rest" by auto
      have rx: "px_rx p = Poll t l (Received bs) # rest" using Cons.hyps(2) x Received by simp
      let ?q = "p\<lparr>px_rx := rest, px_now := px_now p + t + l\<rparr>"
      show ?thesis
      proof (cases "length bs \<le> n")
        case True
        have "\<exists>q. read_loop (n - length bs) (acc @ bs) (px_now ?q + (10 - l)) ?q =
            Some ((Some ((acc @ bs) @ take (n - length bs) (stream (px_rx ?q))), True), q) \<and>
            stream (px_rx q) = drop (n - length bs) (stream (px_rx ?q)) \<and> prompt 10 (px_rx q) \<and> keeps ?q q"
          using b Cons.prems(3) rx by (intro Cons.hyps(1)) auto
        then show ?thesis
          using True b n by (auto simp: read_loop_data [OF _ rx] rx Let_def add.assoc)
      next
        case False
        then show ?thesis
          using b n rx prompt_mono [OF b(4), of 10]
          by (auto simp: read_loop_data [OF _ rx] Let_def)
      qed
    next
      case (Recv_error e)
      have rx: "px_rx p = Poll t l (Recv_error e) # rest" using Cons.hyps(2) x Recv_error by simp
      with Cons.prems(1) have b: "e = WSAEWOULDBLOCK \<or> e = WSAEINPROGRESS" "0 \<le> t" "0 \<le> l" "t + l \<le> b"
        "prompt (b - t - l) rest" by auto
      let ?q = "p\<lparr>px_rx := rest, px_now := px_now p + t + l\<rparr>"
      have "\<exists>q. read_loop n acc (px_now ?q + (b - t - l)) ?q =
          Some ((Some (acc @ take n (stream (px_rx ?q))), True), q) \<and>
          stream (px_rx q) = drop n (stream (px_rx ?q)) \<and> prompt 10 (px_rx q) \<and> keeps ?q q"
        using b Cons.prems(2,3) rx by (intro Cons.hyps(1)) auto
      then show ?thesis
        using b n by (auto simp: read_loop_error [OF _ rx] rx Let_def)
    qed
  qed
qed

lemma read_loop_sound:
  assumes "read_loop n acc d p = Some ((r, True), q)"
  shows "\<exists>bs. r = Some (acc @ bs) \<and> length bs = n \<and> stream (px_rx p) = bs @ stream (px_rx q) \<and> keeps p q"
  using assms
proof (induction "px_rx p" arbitrary: p n acc d)
  case Nil
  then show ?case by (cases "n = 0") (auto simp: read_loop_Nil)
next
  case (Cons x rest)
  obtain t l res where x: "x = Poll t l res" by (cases x)
  show ?case
  proof (cases "n = 0")
    case n: False
    let ?q = "p\<lparr>px_rx := rest, px_now := px_now p + t + l\<rparr>"
    show ?thesis
    proof (cases res)
      case (Recv_error e)
      have rx: "px_rx p = Poll t l (Recv_error e) # rest" using Cons.hyps(2) x Recv_error by simp
      with Cons.prems n have "read_loop n acc d ?q = Some ((r, True), q)"
        by (auto simp: read_loop_error Let_def split: if_splits)
      from Cons.hyps(1) [OF _ this] rx show ?thesis by auto
    next
      case (Received bs)
      have rx: "px_rx p = Poll t l (Received bs) # rest" using Cons.hyps(2) x Received by simp
      have bs: "bs \<noteq> []" using Cons.prems n rx by (auto simp: read_loop_closed)
      show ?thesis
      proof (cases "length bs \<le> n")
        case True
        with Cons.prems n rx bs have "read_loop (n - length bs) (acc @ bs) (px_now p + t + 10) ?q = Some ((r, True), q)"
          by (auto simp: read_loop_data Let_def split: if_splits)
        from Cons.hyps(1) [OF _ this] rx True show ?thesis by auto
      next
        case False
        with Cons.prems n rx bs show ?thesis
          by (auto simp: read_loop_data Let_def split: if_splits)
      qed
    qed
  qed (use Cons.prems in auto)
qed

section \<open>Termination of the reader\<close>

text \<open>
  Every poll advances the clock by at least \<open>step\<close> seconds; after \<open>silent_polls step\<close> polls
  more than ten seconds have passed.
\<close>

definition ticking :: "rat \<Rightarrow> poll list \<Rightarrow> bool" where
  "ticking step rx = list_all (\<lambda>x. case x of Poll t l r \<Rightarrow> 0 \<le> t \<and> 0 \<le> l \<and> step \<le> t + l) rx"

definition silent_polls :: "rat \<Rightarrow> nat" where
  "silent_polls step = nat \<lfloor>10 / step\<rfloor> + 1"

lemma floor_tick:
  fixes step :: rat
  assumes "0 < step" "step \<le> e" "e \<le> s"
  shows "nat (\<lfloor>(s - e) / step\<rfloor> + 1) < nat (\<lfloor>s / step\<rfloor> + 1)"
proof -
  have "(s - e) / step \<le> s / step - 1"
    using assms by (simp add: field_simps)
  then have "\<lfloor>(s - e) / step\<rfloor> \<le> \<lfloor>s / step\<rfloor> - 1"
    by (metis floor_diff_one floor_mono)
  moreover have "0 \<le> \<lfloor>(s - e) / step\<rfloor>"
    using assms by simp
  ultimately show ?thesis by linarith
qed

lemma floor_silent:
  fixes step :: rat
  assumes "0 < step" "s \<le> 10"
  shows "nat (\<lfloor>s / step\<rfloor> + 1) \<le> silent_polls step"
proof -
  have "\<lfloor>s / step\<rfloor> \<le> \<lfloor>10 / step\<rfloor>"
    using assms by (intro floor_mono divide_right_mono) auto
  moreover have "0 \<le> \<lfloor>10 / step\<rfloor>" using assms(1) by simp
  ultimately show ?thesis by (simp add: silent_polls_def)
qed

lemma read_loop_returns:
  assumes "ticking step (px_rx p)" "0 < step"
    "n * Suc (silent_polls step) + nat (\<lfloor>(d - px_now p) / step\<rfloor> + 1) \<le> length (px_rx p)"
  shows "read_loop n acc d p \<noteq> None"
  using assms
proof (induction "px_rx p" arbitrary: p n acc d)
  case Nil
  then show ?case by simp
next
  case (Cons x rest)
  obtain t l res where x: "x = Poll t l res" by (cases x)
  have tick: "0 \<le> t" "0 \<le> l" "step \<le> t + l" "ticking step rest"
    using Cons.prems(1) Cons.hyps(2) [symmetric] x by (auto simp: ticking_def)
  have len: "length (px_rx p) = Suc (length rest)" using Cons.hyps(2) by (metis length_Cons)
  let ?q = "p\<lparr>px_rx := rest, px_now := px_now p + t + l\<rparr>"
  show ?case
  proof (cases "n = 0")
    case n: False
    show ?thesis
    proof (cases res)
      case (Recv_error e)
      have rx: "px_rx p = Poll t l (Recv_error e) # rest" using Cons.hyps(2) x Recv_error by simp
      have "read_loop n acc d ?q \<noteq> None" if d: "\<not> d < px_now p + t + l"
      proof -
        have e: "d - px_now ?q = (d - px_now p) - (t + l)" and rxq: "px_rx ?q = rest" by simp_all
        have "nat (\<lfloor>(d - px_now ?q) / step\<rfloor> + 1) < nat (\<lfloor>(d - px_now p) / step\<rfloor> + 1)"
          unfolding e by (rule floor_tick [OF Cons.prems(2) tick(3)]) (use d in simp)
        then have "n * Suc (silent_polls step) + nat (\<lfloor>(d - px_now ?q) / step\<rfloor> + 1) < length (px_rx p)"
          using Cons.prems(3) by (rule less_le_trans [OF add_strict_left_mono])
        then have "n * Suc (silent_polls step) + nat (\<lfloor>(d - px_now ?q) / step\<rfloor> + 1) \<le> length (px_rx ?q)"
          unfolding rxq len less_Suc_eq_le .
        then show ?thesis
          by (intro Cons.hyps(1) [OF rxq [symmetric] _ Cons.prems(2)]) (simp_all only: tick rxq)
      qed
      then show ?thesis using n by (auto simp: read_loop_error [OF _ rx] Let_def)
    next
      case (Received bs)
      have rx: "px_rx p = Poll t l (Received bs) # rest" using Cons.hyps(2) x Received by simp
      show ?thesis
      proof (cases "bs = [] \<or> n < length bs")
        case True
        then show ?thesis using n rx by (cases "bs = []") (auto simp: read_loop_closed read_loop_data Let_def)
      next
        case False
        let ?k = "silent_polls step"
        have "n - length bs \<le> n - 1" using False by (cases bs) auto
        then have "(n - length bs) * Suc ?k \<le> (n - 1) * Suc ?k" by (rule mult_le_mono1)
        then have "(n - length bs) * Suc ?k + ?k < n * Suc ?k" using n by (cases n) auto
        moreover have "nat (\<lfloor>(px_now p + t + 10 - px_now ?q) / step\<rfloor> + 1) \<le> ?k"
          using tick by (intro floor_silent [OF Cons.prems(2)]) simp
        ultimately have "read_loop (n - length bs) (acc @ bs) (px_now p + t + 10) ?q \<noteq> None"
          using tick(4) len Cons.prems(2,3) by (intro Cons.hyps(1)) auto
        then show ?thesis using n False by (auto simp: read_loop_data [OF _ rx] Let_def)
      qed
    qed
  qed simp
qed

section \<open>Sending\<close>

definition healthy :: "send_result list \<Rightarrow> bool" where
  "healthy tx = list_all (\<lambda>s. case s of Sent n \<Rightarrow> True | Send_error e \<Rightarrow> e = WSAEWOULDBLOCK) tx"

text \<open>The calls of \<open>send\<close> that accept at least one byte.\<close>

definition accepts :: "send_result list \<Rightarrow> nat" where
  "accepts tx = length (filter (\<lambda>s. case s of Sent n \<Rightarrow> 0 < n | Send_error e \<Rightarrow> False) tx)"

lemma send_loop_ok:
  assumes "healthy tx" "length data \<le> accepts tx"
  shows "\<exists>tx'. send_loop data tx out = Some (True, tx', out @ data) \<and> healthy tx' \<and>
    accepts tx \<le> accepts tx' + length data"
  using assms
proof (induction data tx out rule: send_loop.induct)
  case (3 v va n tx out)
  then show ?case by (cases n) (fastforce simp: healthy_def accepts_def)+
qed (auto simp: healthy_def accepts_def)

lemma send_loop_sound:
  assumes "send_loop data tx out = Some (True, tx', out')"
  shows "out' = out @ data"
  using assms by (induction data tx out rule: send_loop.induct) (auto split: if_splits)

lemma sendToSocket_ok:
  assumes "healthy (px_tx p)" "length data \<le> accepts (px_tx p)"
  shows "\<exists>tx. sendToSocket data p = Some (True, p\<lparr>px_tx := tx, px_out := px_out p @ data\<rparr>) \<and> healthy tx \<and>
    accepts (px_tx p) \<le> accepts tx + length data"
proof (cases "data = []")
  case True
  then show ?thesis using assms by (intro exI [of _ "px_tx p"]) (simp add: sendToSocket_def)
next
  case False
  then show ?thesis using send_loop_ok [OF assms, of "px_out p"] by (auto simp: sendToSocket_def)
qed

lemma sendToSocket_sound:
  assumes "sendToSocket data p = Some (True, q)"
  shows "px_out q = px_out p @ data \<and> px_rx q = px_rx p \<and> px_live q = px_live p"
  using assms send_loop_sound by (auto simp: sendToSocket_def split: if_splits option.splits)

lemma send_block_ok:
  assumes "healthy (px_tx p)" "length data \<le> accepts (px_tx p)" "bt_malloc E (length data)"
  shows "\<exists>tx. send_block E data p = Some (True, p\<lparr>px_tx := tx, px_out := px_out p @ data\<rparr>) \<and> healthy tx \<and>
    accepts (px_tx p) \<le> accepts tx + length data"
  using sendToSocket_ok [of "p\<lparr>px_live := px_live p + 1\<rparr>" data] assms
  by (auto simp: send_block_def px_free_def)

lemma send_block_sound:
  assumes "send_block E data p = Some (True, q)"
  shows "px_out q = px_out p @ data \<and> px_rx q = px_rx p \<and> px_live q = px_live p"
  using assms by (auto simp: send_block_def px_free_def split: if_splits option.splits dest!: sendToSocket_sound)

lemma length_ACK [simp]: "length ACK = 3" "length NCK = 3"
  by (simp_all add: ACK_def NCK_def)

section \<open>Reading\<close>

lemma readAll_ok:
  assumes "prompt 10 (px_rx p)" "n \<le> length (stream (px_rx p))" "0 < n" "bt_malloc E n"
  shows "\<exists>q. readAllSocketData E n p = Some ((Some (take n (stream (px_rx p))), True), q) \<and>
    stream (px_rx q) = drop n (stream (px_rx p)) \<and> prompt 10 (px_rx q) \<and>
    keeps (p\<lparr>px_live := px_live p + 1\<rparr>) q"
  using read_loop_ok [of 10 "p\<lparr>px_live := px_live p + 1\<rparr>" n "[]"] assms
  by (auto simp: readAllSocketData_def)

lemma readAll_sound:
  assumes "readAllSocketData E n p = Some ((r, True), q)"
  shows "n = 0 \<and> r = None \<and> q = p \<or>
    (\<exists>bs. 0 < n \<and> bt_malloc E n \<and> r = Some bs \<and> length bs = n \<and>
      stream (px_rx p) = bs @ stream (px_rx q) \<and> keeps (p\<lparr>px_live := px_live p + 1\<rparr>) q)"
  using assms by (auto simp: readAllSocketData_def split: if_splits dest!: read_loop_sound)

lemma readAll_0: "readAllSocketData E 0 p = Some ((None, True), p)"
  by (simp add: readAllSocketData_def)

lemma strncmp_ACK: "length bs = 3 \<Longrightarrow> strncmp 3 ACK bs = 0 \<longleftrightarrow> bs = ACK"
  by (auto simp: ACK_def numeral_3_eq_3 length_Suc_conv split: if_splits)

lemma readAck_ok:
  assumes "prompt 10 (px_rx p)" "stream (px_rx p) = ACK @ rest" "bt_malloc E 3"
  shows "\<exists>q. readAck E p = Some (True, q) \<and> stream (px_rx q) = rest \<and> prompt 10 (px_rx q) \<and>
    keeps (p\<lparr>px_live := px_live p + 2\<rparr>) q"
proof -
  let ?p = "p\<lparr>px_live := px_live p + 1\<rparr>"
  obtain q where "readAllSocketData E 3 ?p = Some ((Some ACK, True), q)"
    "stream (px_rx q) = rest" "prompt 10 (px_rx q)" "keeps (?p\<lparr>px_live := px_live ?p + 1\<rparr>) q"
    using readAll_ok [of ?p 3 E] assms by auto
  then show ?thesis using assms(3) by (simp add: readAck_def strncmp_ACK)
qed

lemma readAck_sound:
  assumes "readAck E p = Some (True, q)"
  shows "stream (px_rx p) = ACK @ stream (px_rx q) \<and> keeps (p\<lparr>px_live := px_live p + 2\<rparr>) q"
  using assms readAll_sound [of E 3 "p\<lparr>px_live := px_live p + 1\<rparr>"]
  by (auto simp: readAck_def strncmp_ACK split: if_splits option.splits bool.splits)

section \<open>Properties\<close>

lemma int_of_le_bytes: "n < 2 ^ 31 \<Longrightarrow> int_of_bytes (le_bytes 4 n) = int n"
  by (simp add: int_of_bytes_def le_val_bytes signed_of_nat signed_take_bit_int_eq_self)

lemma size_of_int_small: "n < 2 ^ 64 \<Longrightarrow> size_of_int (int n) = n"
  by (simp add: size_of_int_def)

lemma size_of_int_neg: "i < 0 \<Longrightarrow> - (2 ^ 31) \<le> i \<Longrightarrow> 2 ^ 63 \<le> size_of_int i"
proof -
  assume i: "i < 0" "- (2 ^ 31) \<le> i"
  then have "(i + 2 ^ 64) mod 2 ^ 64 = i + 2 ^ 64" by (intro mod_pos_pos_trivial) auto
  with i show ?thesis by (simp add: size_of_int_def)
qed

lemma int_of_bytes_ge: "- (2 ^ 31) \<le> int_of_bytes bs"
  using sint_ge [of "word_of_nat (le_val bs) :: u32"] by (simp add: int_of_bytes_def)

definition link_ok :: "alloc_env \<Rightarrow> nat \<Rightarrow> peer \<Rightarrow> bool" where
  "link_ok E k p \<longleftrightarrow> prompt 10 (px_rx p) \<and> healthy (px_tx p) \<and> k \<le> accepts (px_tx p) \<and>
     (\<forall>n < 2 ^ 47. alloc_ok E n)"

lemma internalRead_ok:
  assumes "link_ok E 6 p" "stream (px_rx p) = le_bytes 4 (length msg) @ msg @ rest" "length msg < 2 ^ 31"
  shows "\<exists>q. internalRead E p = Some ((msg, True), q) \<and> px_out q = px_out p @ ACK @ ACK \<and>
    stream (px_rx q) = rest \<and> px_live q = px_live p"
proof -
  have E: "bt_malloc E n" if "n < 2 ^ 31" for n using assms(1) that by (simp add: link_ok_def bt_malloc_def)
  have l: "prompt 10 (px_rx p)" "healthy (px_tx p)" "6 \<le> accepts (px_tx p)"
    using assms(1) by (auto simp: link_ok_def)
  obtain tx where a: "sendAck E p = Some (True, p\<lparr>px_tx := tx, px_out := px_out p @ ACK\<rparr>)" "healthy tx" "3 \<le> accepts tx"
    using send_block_ok [of p ACK E] E [of 3] l by (auto simp: sendAck_def)
  let ?p1 = "p\<lparr>px_tx := tx, px_out := px_out p @ ACK\<rparr>"
  obtain p2 where b: "readAllSocketData E 4 ?p1 = Some ((Some (le_bytes 4 (length msg)), True), p2)"
    "stream (px_rx p2) = msg @ rest" "prompt 10 (px_rx p2)" "keeps (?p1\<lparr>px_live := px_live ?p1 + 1\<rparr>) p2"
    using readAll_ok [of ?p1 4 E] E [of 4] l(1) assms(2) by auto
  let ?p3 = "px_free p2"
  obtain tx' where c: "sendAck E ?p3 = Some (True, ?p3\<lparr>px_tx := tx', px_out := px_out ?p3 @ ACK\<rparr>)"
    using send_block_ok [of ?p3 ACK E] E [of 3] a b(4) by (auto simp: sendAck_def px_free_def keeps_def)
  let ?p4 = "?p3\<lparr>px_tx := tx', px_out := px_out ?p3 @ ACK\<rparr>"
  have out: "px_out ?p4 = px_out p @ ACK @ ACK" "px_live ?p4 = px_live p"
    using b(4) by (simp_all add: keeps_def px_free_def)
  note h = int_of_le_bytes [OF assms(3)]
  have s: "size_of_int (int (length msg)) = length msg" using assms(3) by (simp add: size_of_int_small)
  show ?thesis
  proof (cases "msg = []")
    case True
    then show ?thesis
      using a(1) b c out h by (simp add: internalRead_def Let_def size_of_int_def readAll_0 px_free_def)
  next
    case False
    obtain p5 where "readAllSocketData E (length msg) ?p4 = Some ((Some msg, True), p5)"
      "stream (px_rx p5) = rest" "keeps (?p4\<lparr>px_live := px_live ?p4 + 1\<rparr>) p5"
      using readAll_ok [of ?p4 "length msg" E] E [OF assms(3)] b False by (auto simp: px_free_def)
    then show ?thesis
      using a(1) b(1) c out h s by (simp add: internalRead_def Let_def keeps_def px_free_def)
  qed
qed

text \<open>
  C4. Whatever the tablet and the network do: when \<open>internalRead\<close> reports success, its result
  is the message that followed a four byte header with its length in the stream, complete
  and in order; no truncated or mixed-up message is ever reported as read.
\<close>
theorem read_sound:
  assumes "internalRead E p = Some ((msg, True), q)"
  shows "px_out q = px_out p @ ACK @ ACK \<and> px_live q = px_live p \<and>
    (\<exists>hd. length hd = 4 \<and> int_of_bytes hd = int (length msg) \<and>
      stream (px_rx p) = hd @ msg @ stream (px_rx q))"
proof -
  obtain p1 where a: "sendAck E p = Some (True, p1)"
    using assms by (auto simp: internalRead_def split: option.splits bool.splits)
  obtain hd p2 where b: "readAllSocketData E 4 p1 = Some ((Some hd, True), p2)"
    using assms a by (auto simp: internalRead_def split: option.splits bool.splits)
  obtain p3 where c: "sendAck E (px_free p2) = Some (True, p3)"
    using assms a b by (auto simp: internalRead_def Let_def split: option.splits bool.splits)
  note s = send_block_sound [OF a [unfolded sendAck_def]] send_block_sound [OF c [unfolded sendAck_def]]
    readAll_sound [OF b]
  obtain m p4 where d: "readAllSocketData E (size_of_int (int_of_bytes hd)) p3 = Some ((m, True), p4)"
    "m = Some y \<Longrightarrow> msg = take (nat (int_of_bytes hd)) y \<and> q = px_free p4" "m = None \<Longrightarrow> msg = [] \<and> q = p4" for y
    using assms a b c by (auto simp: internalRead_def Let_def split: option.splits bool.splits)
  from readAll_sound [OF d(1)] show ?thesis
  proof (elim disjE exE conjE)
    assume e: "size_of_int (int_of_bytes hd) = 0" "m = None" "p4 = p3"
    then have "int_of_bytes hd = 0"
      using size_of_int_neg [OF _ int_of_bytes_ge, of hd] sint_lt [of "word_of_nat (le_val hd) :: u32"]
      by (cases "int_of_bytes hd < 0") (auto simp: size_of_int_def int_of_bytes_def)
    then show ?thesis using s e d by (auto simp: keeps_def px_free_def)
  next
    fix bs
    assume e: "bt_malloc E (size_of_int (int_of_bytes hd))" "m = Some bs"
      "length bs = size_of_int (int_of_bytes hd)" "stream (px_rx p3) = bs @ stream (px_rx p4)"
      "keeps (p3\<lparr>px_live := px_live p3 + 1\<rparr>) p4"
    have "\<not> int_of_bytes hd < 0"
      using size_of_int_neg [OF _ int_of_bytes_ge, of hd] e(1) by (auto simp: bt_malloc_def)
    moreover have "int_of_bytes hd < 2 ^ 31"
      using sint_lt [of "word_of_nat (le_val hd) :: u32"] by (simp add: int_of_bytes_def)
    ultimately have "int_of_bytes hd = int (length bs)" using e(3) by (simp add: size_of_int_def)
    then show ?thesis using s e d by (auto simp: keeps_def px_free_def)
  qed
qed

lemma internalWrite_ok:
  assumes "link_ok E (4 + length data) p" "stream (px_rx p) = ACK @ ACK @ rest"
  shows "\<exists>q. internalWrite E data p = Some (True, q) \<and>
    px_out q = px_out p @ le_bytes 4 (length data) @ data \<and> stream (px_rx q) = rest \<and> px_live q = px_live p + 4"
proof -
  have E: "bt_malloc E 3" and l: "prompt 10 (px_rx p)" "healthy (px_tx p)" "4 + length data \<le> accepts (px_tx p)"
    using assms(1) by (auto simp: link_ok_def bt_malloc_def)
  let ?n = "le_bytes 4 (length data)"
  obtain tx where a: "sendToSocket ?n p = Some (True, p\<lparr>px_tx := tx, px_out := px_out p @ ?n\<rparr>)"
    "healthy tx" "length data \<le> accepts tx"
    using sendToSocket_ok [of p ?n] l by auto
  let ?p1 = "p\<lparr>px_tx := tx, px_out := px_out p @ ?n\<rparr>"
  obtain p2 where b: "readAck E ?p1 = Some (True, p2)" "stream (px_rx p2) = ACK @ rest" "prompt 10 (px_rx p2)"
    "keeps (?p1\<lparr>px_live := px_live ?p1 + 2\<rparr>) p2"
    using readAck_ok [of ?p1 "ACK @ rest" E] E l(1) assms(2) by auto
  obtain tx' where c: "sendToSocket data p2 = Some (True, p2\<lparr>px_tx := tx', px_out := px_out p2 @ data\<rparr>)"
    using sendToSocket_ok [of p2 data] a b(4) by (auto simp: keeps_def)
  let ?p3 = "p2\<lparr>px_tx := tx', px_out := px_out p2 @ data\<rparr>"
  obtain p4 where "readAck E ?p3 = Some (True, p4)" "stream (px_rx p4) = rest"
    "keeps (?p3\<lparr>px_live := px_live ?p3 + 2\<rparr>) p4"
    using readAck_ok [of ?p3 rest E] E b by auto
  then show ?thesis using a(1) b c by (simp add: internalWrite_def keeps_def)
qed

lemma write_sound:
  assumes "internalWrite E data p = Some (True, q)"
  shows "px_out q = px_out p @ le_bytes 4 (length data) @ data \<and>
    stream (px_rx p) = ACK @ ACK @ stream (px_rx q) \<and> px_live q = px_live p + 4"
proof -
  obtain p1 p2 p3 where "sendToSocket (le_bytes 4 (length data)) p = Some (True, p1)" "readAck E p1 = Some (True, p2)"
    "sendToSocket data p2 = Some (True, p3)" "readAck E p3 = Some (True, q)"
    using assms by (auto simp: internalWrite_def split: option.splits bool.splits)
  then show ?thesis by (auto simp: keeps_def dest!: sendToSocket_sound readAck_sound)
qed

text \<open>
  C21. Reading from a tablet that follows the protocol: on a link whose silences are shorter than
  the timeout, however its bytes are cut into pieces, \<open>internalRead\<close> returns exactly the
  announced message, leaves what follows in the stream, frees what it allocated and has
  answered with two acknowledgements (not with the third one its comment announces).
\<close>
theorem read_protocol:
  assumes "link_ok E 6 p" "stream (px_rx p) = le_bytes 4 (length msg) @ msg @ rest" "length msg < 2 ^ 31"
  shows "\<exists>q. internalRead E p = Some ((msg, True), q) \<and> px_out q = px_out p @ ACK @ ACK \<and>
    stream (px_rx q) = rest \<and> px_live q = px_live p"
  using assms by (rule internalRead_ok)

text \<open>
  Writing to a tablet that acknowledges: \<open>internalWrite\<close> sends the length in four bytes and
  then the data, succeeds, and leaks the four blocks of its two calls of \<open>readAck\<close>.
\<close>
theorem write_protocol:
  assumes "link_ok E (4 + length data) p" "stream (px_rx p) = ACK @ ACK @ rest"
  shows "\<exists>q. internalWrite E data p = Some (True, q) \<and>
    px_out q = px_out p @ le_bytes 4 (length data) @ data \<and> stream (px_rx q) = rest \<and> px_live q = px_live p + 4"
  using assms by (rule internalWrite_ok)

text \<open>
  C34. Liveness of \<open>readAllSocketData\<close>. Let every poll of the socket advance the clock by at least
  \<open>step\<close> seconds, for some positive \<open>step\<close>, however small; without such a bound the loop may
  poll forever. Then at most \<open>k = floor (10 / step) + 1\<close> polls pass before ten seconds of
  silence are over, and the call for \<open>n\<close> bytes returns within \<open>n * (k + 1) + k\<close> polls,
  whatever arrives.
\<close>
theorem read_returns:
  assumes "0 < step" "ticking step (px_rx p)"
    "n * (silent_polls step + 1) + silent_polls step \<le> length (px_rx p)"
  shows "\<exists>r q. readAllSocketData E n p = Some (r, q)"
proof -
  let ?p = "p\<lparr>px_live := px_live p + 1\<rparr>"
  have "nat (\<lfloor>(px_now p + 10 - px_now ?p) / step\<rfloor> + 1) \<le> silent_polls step"
    using assms(1) by (intro floor_silent) auto
  then have "read_loop n [] (px_now p + 10) ?p \<noteq> None"
    using assms by (intro read_loop_returns [of step]) auto
  then show ?thesis by (auto simp: readAllSocketData_def)
qed

text \<open>
  A tablet that announces a negative length gets a negative acknowledgement: the length
  becomes a size no allocation satisfies, the read fails and nothing is leaked.
\<close>
theorem read_negative:
  assumes "link_ok E 9 p" "stream (px_rx p) = hdr @ rest" "length hdr = 4" "int_of_bytes hdr < 0"
  shows "\<exists>q. internalRead E p = Some (([], False), q) \<and> px_out q = px_out p @ ACK @ ACK @ NCK \<and>
    stream (px_rx q) = rest \<and> px_live q = px_live p"
proof -
  have E: "bt_malloc E n" if "n < 2 ^ 31" for n using assms(1) that by (simp add: link_ok_def bt_malloc_def)
  have l: "prompt 10 (px_rx p)" "healthy (px_tx p)" "9 \<le> accepts (px_tx p)"
    using assms(1) by (auto simp: link_ok_def)
  obtain tx where a: "sendAck E p = Some (True, p\<lparr>px_tx := tx, px_out := px_out p @ ACK\<rparr>)" "healthy tx" "6 \<le> accepts tx"
    using send_block_ok [of p ACK E] E [of 3] l by (auto simp: sendAck_def)
  let ?p1 = "p\<lparr>px_tx := tx, px_out := px_out p @ ACK\<rparr>"
  obtain p2 where b: "readAllSocketData E 4 ?p1 = Some ((Some hdr, True), p2)"
    "stream (px_rx p2) = rest" "keeps (?p1\<lparr>px_live := px_live ?p1 + 1\<rparr>) p2"
    using readAll_ok [of ?p1 4 E] E [of 4] l(1) assms(2,3) by auto
  let ?p3 = "px_free p2"
  obtain tx' where c: "sendAck E ?p3 = Some (True, ?p3\<lparr>px_tx := tx', px_out := px_out ?p3 @ ACK\<rparr>)"
    "healthy tx'" "3 \<le> accepts tx'"
    using send_block_ok [of ?p3 ACK E] E [of 3] a b(3) by (auto simp: sendAck_def px_free_def keeps_def)
  let ?p4 = "?p3\<lparr>px_tx := tx', px_out := px_out ?p3 @ ACK\<rparr>"
  have "2 ^ 63 \<le> size_of_int (int_of_bytes hdr)" using size_of_int_neg [OF assms(4) int_of_bytes_ge] .
  then have d: "readAllSocketData E (size_of_int (int_of_bytes hdr)) ?p4 = Some ((None, False), ?p4)"
    by (simp add: readAllSocketData_def bt_malloc_def)
  obtain tx'' where "sendNack E ?p4 = Some (True, ?p4\<lparr>px_tx := tx'', px_out := px_out ?p4 @ NCK\<rparr>)"
    using send_block_ok [of ?p4 NCK E] E [of 3] c by (auto simp: sendNack_def)
  then show ?thesis
    using a(1) b c(1) d by (simp add: internalRead_def Let_def keeps_def px_free_def)
qed

section \<open>Samples\<close>

definition sample_rx :: "poll list" where
  "sample_rx = [Poll (1/200) 0 (Recv_error 10035), Poll (1/1000) 0 (Received [2, 0]),
     Poll (1/1000) (1/1000) (Received [0, 0, 104]), Poll 9 0 (Recv_error 10036),
     Poll (1/1000) 0 (Received [105, 7])]"

definition sample_peer :: peer where
  "sample_peer = \<lparr>px_rx = sample_rx, px_tx = Send_error 10035 # replicate 9 (Sent 1), px_sel = [1, 1],
     px_now = 0, px_out = [], px_live = 0, px_closed = 0\<rparr>"

lemma link_okI:
  "prompt 10 (px_rx p) \<and> healthy (px_tx p) \<and> k \<le> accepts (px_tx p) \<Longrightarrow> link_ok all_ok k p"
  by (simp add: link_ok_def)

theorem read_protocol_witness:
  "\<exists>q. internalRead all_ok sample_peer = Some (([104, 105], True), q) \<and> px_out q = [] @ ACK @ ACK \<and>
     stream (px_rx q) = [7] \<and> px_live q = 0"
proof -
  have "link_ok all_ok 6 sample_peer" by (rule link_okI) code_simp
  moreover have "stream (px_rx sample_peer) = le_bytes 4 (length [104, 105 :: u8]) @ [104, 105] @ [7]" by code_simp
  ultimately show ?thesis
    using read_protocol [of all_ok sample_peer "[104, 105]" "[7]"] by (simp add: sample_peer_def)
qed

lemma sample_read:
  "map_option (\<lambda>(r, q). (r, px_out q, stream (px_rx q))) (internalRead all_ok sample_peer) =
     Some (([104, 105], True), [65, 67, 75, 65, 67, 75], [7])"
  by code_simp

theorem read_sound_witness:
  "\<exists>(q :: peer) hdr. length hdr = 4 \<and> int_of_bytes hdr = 2 \<and> stream (px_rx sample_peer) = hdr @ [104, 105] @ stream (px_rx q)"
proof -
  obtain q where "internalRead all_ok sample_peer = Some (([104, 105], True), q)"
    using sample_read by auto
  from read_sound [OF this] obtain hdr where "length hdr = 4" "int_of_bytes hdr = 2"
    "stream (px_rx sample_peer) = hdr @ [104, 105] @ stream (px_rx q)" by auto
  then show ?thesis by blast
qed

definition ack_peer :: peer where
  "ack_peer = sample_peer\<lparr>px_rx := [Poll 1 0 (Received [0x41, 0x43]), Poll 1 0 (Received [0x4b, 0x41, 0x43, 0x4b])]\<rparr>"

theorem write_protocol_witness:
  "\<exists>q. internalWrite all_ok [104, 105] ack_peer = Some (True, q) \<and> px_out q = [2, 0, 0, 0, 104, 105] \<and> px_live q = 4"
proof -
  have "link_ok all_ok (4 + length [104, 105 :: u8]) ack_peer" by (rule link_okI) code_simp
  moreover have "stream (px_rx ack_peer) = ACK @ ACK @ []" by code_simp
  moreover have "px_out ack_peer @ le_bytes 4 (length [104, 105 :: u8]) @ [104, 105] = [2, 0, 0, 0, 104, 105]"
    "px_live ack_peer + 4 = 4" by code_simp+
  ultimately show ?thesis
    using write_protocol [of all_ok "[104, 105]" ack_peer "[]"] by metis
qed

definition silent_peer :: peer where
  "silent_peer = sample_peer\<lparr>px_rx := replicate 200003 (Poll (1/10000) 0 (Recv_error 10035))\<rparr>"

theorem read_returns_witness: "\<exists>r q. readAllSocketData all_ok 1 silent_peer = Some (r, q)"
  by (rule read_returns [of "1/10000"]) (simp_all add: silent_peer_def ticking_def silent_polls_def list_all_iff)

definition negative_peer :: peer where
  "negative_peer = sample_peer\<lparr>px_rx := [Poll 1 0 (Received [0xff, 0xff, 0xff, 0xff, 9])]\<rparr>"

theorem read_negative_witness:
  "\<exists>q. internalRead all_ok negative_peer = Some (([], False), q) \<and> px_out q = [] @ ACK @ ACK @ NCK \<and>
     stream (px_rx q) = [9] \<and> px_live q = 0"
proof -
  have "link_ok all_ok 9 negative_peer" by (rule link_okI) code_simp
  moreover have "stream (px_rx negative_peer) = [0xff, 0xff, 0xff, 0xff] @ [9]" by code_simp
  moreover have "int_of_bytes [0xff, 0xff, 0xff, 0xff] < 0" by code_simp
  ultimately show ?thesis
    using read_negative [of all_ok negative_peer "[0xff, 0xff, 0xff, 0xff]" "[9]"]
    by (simp add: negative_peer_def sample_peer_def)
qed

lemma invertEndianness_rev: "invertEndianness E ptr = Some ptr' \<Longrightarrow> ptr' = rev ptr"
  by (auto simp: invertEndianness_def rev_nth intro!: nth_equalityI split: if_splits)

text \<open>A socket that never accepts a byte keeps \<open>sendToSocket\<close> in its loop: it has no timeout.\<close>

lemma send_spins: "data \<noteq> [] \<Longrightarrow> sendToSocket data (p\<lparr>px_tx := replicate k (Send_error WSAEWOULDBLOCK)\<rparr>) = None"
proof -
  assume d: "data \<noteq> []"
  have "send_loop data (replicate k (Send_error WSAEWOULDBLOCK)) out = None" for out
    using d by (induction k) (auto simp: neq_Nil_conv)
  with d show ?thesis by (simp add: sendToSocket_def)
qed

end
