(* ===== verification/Murmur.thy ===== *)
theory Murmur
  imports Prelude
begin

text \<open>
  The hash of the scouting data that tells a tablet whether its copy is current
  (\<^verbatim>\<open>murmurHash2Neutral.hpp\<close>). The code computes with \<open>int\<close>: a value is a 32-bit word,
  products wrap, \<open>>>\<close> is the arithmetic shift (\<open>signed_drop_bit\<close>), and a \<open>char\<close>, signed on
  the platform, is sign-extended. Reading the files is a parameter of the callers.
\<close>

definition multVal :: u32 where
  "multVal = 0x5bd1e995"

definition murmur_block :: "u8 \<Rightarrow> u8 \<Rightarrow> u8 \<Rightarrow> u8 \<Rightarrow> u32" where
  "murmur_block a b c d =
     ((scast a OR push_bit 8 (scast b)) OR push_bit 16 (scast c)) OR push_bit 24 (scast d)"

definition murmur_mix :: "u32 \<Rightarrow> u32 \<Rightarrow> u32" where
  "murmur_mix hash cur =
     (let k = cur * multVal; k = k XOR signed_drop_bit 24 k; k = k * multVal
      in (hash * multVal) XOR k)"

text \<open>
  The loop over the whole blocks; \<open>len\<close> is \<open>(int)data.size()\<close>. Every index is below \<open>len\<close>,
  which is at most the size of the vector.
\<close>

function murmur_loop :: "bytes \<Rightarrow> int \<Rightarrow> int \<Rightarrow> u32 \<Rightarrow> int \<times> u32" where
  "murmur_loop data len index hash =
     (if 4 \<le> len - index then
        (let at = (\<lambda>k. data ! nat (k + index))
         in murmur_loop data len (index + 4)
              (murmur_mix hash (murmur_block (at 0) (at 1) (at 2) (at 3))))
      else (index, hash))"
  by pat_completeness auto
termination
  by (relation "measure (\<lambda>(data, len, index, hash). nat (len - index))") auto

declare murmur_loop.simps [simp del]

text \<open>The cases of the \<open>switch\<close> fall through.\<close>

definition murmur_tail :: "bytes \<Rightarrow> int \<Rightarrow> int \<Rightarrow> u32 \<Rightarrow> u32" where
  "murmur_tail data len index hash =
     (let at = (\<lambda>k. scast (data ! nat (k + index)) :: u32);
          r = len - index;
          h3 = (if r = 3 then hash XOR push_bit 16 (at 2) else hash);
          h2 = (if r = 3 \<or> r = 2 then h3 XOR push_bit 8 (at 1) else h3)
      in if r = 3 \<or> r = 2 \<or> r = 1 then (h2 XOR at 0) * multVal else h2)"

definition murmur_final :: "u32 \<Rightarrow> u32" where
  "murmur_final hash =
     (let h = hash XOR signed_drop_bit 13 hash; h = h * multVal in h XOR signed_drop_bit 15 h)"

definition murmurHash :: "bytes \<Rightarrow> u32" where
  "murmurHash data =
     (let len = sint (word_of_nat (length data) :: u32);
          (index, hash) = murmur_loop data len 0 (1138 XOR word_of_nat (length data))
      in murmur_final (murmur_tail data len index hash))"

section \<open>The hash by structural recursion\<close>

fun murmur_chunks :: "u32 \<Rightarrow> bytes \<Rightarrow> u32" where
  "murmur_chunks h (a # b # c # d # rest) = murmur_chunks (murmur_mix h (murmur_block a b c d)) rest"
| "murmur_chunks h [a, b, c] = (h XOR push_bit 16 (scast c) XOR push_bit 8 (scast b) XOR scast a) * multVal"
| "murmur_chunks h [a, b] = (h XOR push_bit 8 (scast b) XOR scast a) * multVal"
| "murmur_chunks h [a] = (h XOR scast a) * multVal"
| "murmur_chunks h [] = h"

lemma murmur_loop_chunks:
  assumes "len = int (length data)" "0 \<le> index" "index \<le> len"
  shows "(let (i, h') = murmur_loop data len index h in murmur_tail data len i h') =
    murmur_chunks h (drop (nat index) data)"
  using assms
proof (induction data len index h rule: murmur_loop.induct)
  case (1 data len index h)
  let ?d = "drop (nat index) data"
  have ix: "data ! nat (k + index) = ?d ! nat k" if "0 \<le> k" for k
    using that 1(2-4) by (simp add: nat_add_distrib add.commute)
  have l: "int (length ?d) = len - index" using 1(2-4) by simp
  show ?case
  proof (cases "4 \<le> len - index")
    case True
    then have "4 \<le> length ?d" using l by simp
    then obtain a b c d rest where d: "?d = a # b # c # d # rest"
      by (auto simp: eval_nat_numeral Suc_le_length_iff simp del: length_drop)
    moreover have "drop (nat (index + 4)) data = drop 4 ?d"
      using 1(3) by (simp add: nat_add_distrib add.commute)
    ultimately have "drop (nat (index + 4)) data = rest" by simp
    moreover have "data ! nat index = a" using ix [of 0] d by simp
    ultimately show ?thesis
      using 1(1) [OF True refl] 1(2-4) True
      by (subst murmur_loop.simps) (simp add: ix d)
  next
    case False
    have at: "data ! nat index = ?d ! 0" using ix [of 0] by simp
    have "murmur_tail data len index h = murmur_chunks h ?d"
      using l False ix [of 1] ix [of 2] at
      by (cases "(h, ?d)" rule: murmur_chunks.cases) (auto simp: murmur_tail_def xor.assoc simp del: length_drop)
    then show ?thesis using False by (subst murmur_loop.simps) simp
  qed
qed


text \<open>
  C37. The indexed loop with its fall-through \<open>switch\<close> computes the hash that structural
  recursion over the four byte blocks of the data defines, for every vector whose size fits
  an \<open>int\<close>.
\<close>
theorem murmur_equiv:
  assumes "length data < 2 ^ 31"
  shows "murmurHash data = murmur_final (murmur_chunks (1138 XOR word_of_nat (length data)) data)"
proof -
  have "sint (word_of_nat (length data) :: u32) = int (length data)"
    using assms by (simp add: signed_of_nat signed_take_bit_int_eq_self)
  then show ?thesis
    using murmur_loop_chunks [of "int (length data)" data 0 "1138 XOR word_of_nat (length data)"]
    by (simp add: murmurHash_def Let_def split_beta)
qed

text \<open>
  The last step xors the hash with its arithmetic shift, which cancels the sign bit: the
  hash is never negative, so half of its 32-bit range is unused.
\<close>
theorem murmur_nonneg: "0 \<le> sint (murmurHash data)"
proof -
  have "0 \<le> sint (h XOR signed_drop_bit 15 h)" for h :: u32
    by (simp add: bit_simps flip: not_less bit_last_iff)
  then have "0 \<le> sint (murmur_final h)" for h
    by (simp add: murmur_final_def Let_def)
  then show ?thesis by (simp add: murmurHash_def Let_def split_beta)
qed

lemma murmur_chunks_append:
  "length pre mod 4 = 0 \<Longrightarrow> murmur_chunks h (pre @ post) = murmur_chunks (murmur_chunks h pre) post"
proof (induction h pre rule: murmur_chunks.induct)
qed auto

lemma murmur_block_high:
  assumes "bit (a :: u8) 7"
  shows "murmur_block a b c d = scast a"
  using assms by (intro bit_word_eqI) (auto simp: murmur_block_def bit_simps)

text \<open>
  A byte from 0x80 on at the start of a block is sign-extended over the other three bytes
  of the block, so these do not influence the hash at all: data that differ only there
  collide.
\<close>
theorem murmur_ignores:
  assumes "length pre mod 4 = 0" "bit (a :: u8) 7" "length pre + 4 + length post < 2 ^ 31"
  shows "murmurHash (pre @ [a, b, c, d] @ post) = murmurHash (pre @ [a, b', c', d'] @ post)"
  using assms by (simp add: murmur_equiv murmur_chunks_append murmur_block_high)

theorem murmur_equiv_witness:
  "murmurHash [116, 101, 97, 109, 49, 49, 0x33] =
     murmur_final (murmur_chunks (1138 XOR word_of_nat (length [116, 101, 97, 109, 49, 49, 0x33 :: u8]))
       [116, 101, 97, 109, 49, 49, 0x33])"
  by (rule murmur_equiv) simp

theorem murmur_ignores_witness:
  "murmurHash ([] @ [0xc3, 0xa9, 10, 49] @ [50]) = murmurHash ([] @ [0xc3, 0xa8, 10, 57] @ [50])"
  by (rule murmur_ignores) (code_simp, simp+)

end
