(* ===== verification/Bt_Conductor.thy ===== *)
theory Bt_Conductor
  imports Bt_Tablet Murmur
begin

text \<open>
  Transactions with a tablet (\<^verbatim>\<open>bluetooth/bluetoothTransaction.hpp\<close>,
  \<^verbatim>\<open>bluetooth/bluetoothConductor.hpp\<close> and the transaction part of
  \<^verbatim>\<open>bluetooth/btTabObj.hpp\<close>): what the code byte of a tablet starts, the future that holds
  the transfer, and what becomes of its result.

  The outcome \<open>Err Hang\<close> is a call that has not returned when the answers of the socket run
  out; \<open>UB\<close> is undefined behaviour of the C++ library. \<open>std::async\<close> with both policies lets
  the library choose: the parameter \<open>async\<close>. The contents of the two files that
  \<open>readWholeFile\<close> reads are a parameter.
\<close>

datatype hang = Hang

fun returned :: "'a option \<Rightarrow> (hang, 'a) res" where
  "returned None = Err Hang"
| "returned (Some a) = Ok a"

section \<open>Transactions and tablets\<close>

datatype calltype = CALLTYPE_DEFAULT | CALLTYPE_DEFERRED | CALLTYPE_ASYNCHRONOUS

text \<open>
  A job is a call of \<open>internalRead\<close> or \<open>internalWrite\<close>. A future without state is \<open>Invalid\<close>;
  \<open>Running\<close> is an asynchronous job whose thread has not finished.
\<close>

datatype job = Read_job | Write_job bytes

datatype future = Invalid | Deferred job | Running job | Ready "bytes option"

record tabtransaction =
  transactionType :: u8
  data :: future
  batmanTrans :: bool
  success :: bool
  writeTransaction :: bool

record bt_tab_obj =
  sock_id :: nat
  sock :: peer
  macStr :: bytes
  tabScoutingName :: bytes
  callType :: calltype
  currTrans :: tabtransaction
  transactionState :: bool

definition upd_trans :: "(tabtransaction \<Rightarrow> tabtransaction) \<Rightarrow> bt_tab_obj \<Rightarrow> bt_tab_obj" where
  "upd_trans f t = t\<lparr>currTrans := f (currTrans t)\<rparr>"

text \<open>
  The constructor; \<open>code\<close> is the indeterminate initial value of \<open>transactionType\<close>.
\<close>

definition BtTabObj :: "nat \<Rightarrow> peer \<Rightarrow> bytes \<Rightarrow> u8 \<Rightarrow> bt_tab_obj" where
  "BtTabObj s p addrStr code =
     \<lparr>sock_id = s, sock = p, macStr = addrStr, tabScoutingName = addrStr, callType = CALLTYPE_DEFAULT,
      currTrans = \<lparr>transactionType = code, data = Invalid, batmanTrans = False, success = True,
        writeTransaction = False\<rparr>,
      transactionState = False\<rparr>"

definition getScoutingName :: "bt_tab_obj \<Rightarrow> bytes" where
  "getScoutingName t = tabScoutingName t"

definition setScoutingName :: "bytes \<Rightarrow> bt_tab_obj \<Rightarrow> bt_tab_obj" where
  "setScoutingName name t = t\<lparr>tabScoutingName := name\<rparr>"

definition setCallType :: "calltype \<Rightarrow> bt_tab_obj \<Rightarrow> bt_tab_obj" where
  "setCallType c t = t\<lparr>callType := c\<rparr>"

definition undergoingTransaction :: "bt_tab_obj \<Rightarrow> bool" where
  "undergoingTransaction t = transactionState t"

definition setTransactionState :: "bool \<Rightarrow> bt_tab_obj \<Rightarrow> bt_tab_obj" where
  "setTransactionState b t = t\<lparr>transactionState := b\<rparr>"

text \<open>A \<open>char\<close> is negative when its top bit is set.\<close>

definition is_write_code :: "u8 \<Rightarrow> bool" where
  "is_write_code c \<longleftrightarrow> sint c < 0"

definition readTransactionData :: "alloc_env \<Rightarrow> bt_tab_obj \<Rightarrow> (hang, bt_tab_obj) res" where
  "readTransactionData E t =
     (let not_ready = upd_trans (\<lambda>tr. tr\<lparr>success := False, transactionType := TRANS_CLOSE_SOCKET,
                                         writeTransaction := False\<rparr>)
      in rbind (returned (readyToRead (sock t))) (\<lambda>(r, p1).
         if \<not> r then Ok (not_ready (t\<lparr>sock := p1\<rparr>))
         else rbind (returned (readyToWrite p1)) (\<lambda>(w, p2).
         if \<not> w then Ok (not_ready (t\<lparr>sock := p2\<rparr>))
         else rbind (returned (getTransactionType E p2)) (\<lambda>(code, p3).
         let t1 = t\<lparr>sock := p3\<rparr> in
         if code = TRANS_SOCKET_ERROR
         then Ok (upd_trans (\<lambda>tr. tr\<lparr>transactionType := code, success := False, writeTransaction := False\<rparr>) t1)
         else Ok (upd_trans (\<lambda>tr. tr\<lparr>transactionType := code, writeTransaction := is_write_code code\<rparr>) t1)))))"

section \<open>Futures\<close>

text \<open>
  Running a job: the transfer works on the socket and stores its flag in the transaction;
  the result of a read is a vector, that of a write the empty optional.
\<close>

definition run_job :: "alloc_env \<Rightarrow> job \<Rightarrow> bt_tab_obj \<Rightarrow> (hang, bytes option \<times> bt_tab_obj) res" where
  "run_job E j t =
     (case j of
        Read_job \<Rightarrow> rbind (returned (internalRead E (sock t))) (\<lambda>((v, ok), p).
          Ok (Some v, upd_trans (\<lambda>tr. tr\<lparr>success := ok\<rparr>) (t\<lparr>sock := p\<rparr>)))
      | Write_job d \<Rightarrow> rbind (returned (internalWrite E d (sock t))) (\<lambda>(ok, p).
          Ok (None, upd_trans (\<lambda>tr. tr\<lparr>success := ok\<rparr>) (t\<lparr>sock := p\<rparr>))))"

text \<open>The thread of an asynchronous job finishes.\<close>

definition finish :: "alloc_env \<Rightarrow> bt_tab_obj \<Rightarrow> (hang, bt_tab_obj) res" where
  "finish E t = (case data (currTrans t) of
     Running j \<Rightarrow> rbind (run_job E j t) (\<lambda>(v, t1). Ok (upd_trans (\<lambda>tr. tr\<lparr>data := Ready v\<rparr>) t1))
   | _ \<Rightarrow> Ok t)"

text \<open>\<open>get\<close> runs or awaits the job and releases the state of the future.\<close>

definition future_get :: "alloc_env \<Rightarrow> bt_tab_obj \<Rightarrow> (hang, bytes option \<times> bt_tab_obj) res" where
  "future_get E t = (let done = upd_trans (\<lambda>tr. tr\<lparr>data := Invalid\<rparr>) in
     case data (currTrans t) of
       Invalid \<Rightarrow> UB
     | Ready v \<Rightarrow> Ok (v, done t)
     | Deferred j \<Rightarrow> rbind (run_job E j t) (\<lambda>(v, t1). Ok (v, done t1))
     | Running j \<Rightarrow> rbind (run_job E j t) (\<lambda>(v, t1). Ok (v, done t1)))"

definition isReady :: "bt_tab_obj \<Rightarrow> (hang, bool) res" where
  "isReady t = (case data (currTrans t) of
     Invalid \<Rightarrow> UB | Deferred j \<Rightarrow> Ok True | Ready v \<Rightarrow> Ok True | Running j \<Rightarrow> Ok False)"

definition launch :: "bool \<Rightarrow> calltype \<Rightarrow> job \<Rightarrow> future" where
  "launch async c j = (case c of
     CALLTYPE_DEFAULT \<Rightarrow> (if async then Running j else Deferred j)
   | CALLTYPE_DEFERRED \<Rightarrow> Deferred j
   | CALLTYPE_ASYNCHRONOUS \<Rightarrow> Running j)"

section \<open>The conductor\<close>

record db_files =
  scouterList :: bytes
  teamCompList :: bytes

definition db_file :: "db_files \<Rightarrow> bytes" where
  "db_file fs = scouterList fs @ [10] @ teamCompList fs"

definition handleWriteTransactions :: "db_files \<Rightarrow> bool \<Rightarrow> bt_tab_obj \<Rightarrow> bt_tab_obj" where
  "handleWriteTransactions fs async t =
     (let start = (\<lambda>d. upd_trans (\<lambda>tr. tr\<lparr>batmanTrans := False, writeTransaction := True,
                                           data := launch async (callType t) (Write_job d)\<rparr>) t);
          code = transactionType (currTrans t)
      in if code = TRANS_SEND_LOCAL_DB then start (db_file fs)
         else if code = TRANS_SEND_LOCAL_DB_HASH then start (le_bytes 4 (unat (murmurHash (db_file fs))))
         else t)"

definition initReadyTransaction ::
  "alloc_env \<Rightarrow> db_files \<Rightarrow> bool \<Rightarrow> bt_tab_obj \<Rightarrow> (hang, bt_tab_obj) res" where
  "initReadyTransaction E fs async t =
     (let dead = (\<lambda>t. upd_trans (\<lambda>tr. tr\<lparr>success := False, batmanTrans := True, writeTransaction := False\<rparr>)
                       (t\<lparr>sock := sockSuicide (sock t)\<rparr>))
      in if transactionType (currTrans t) = TRANS_SOCKET_ERROR
         then rbind (returned (sendNack E (sock t))) (\<lambda>(ok, p). Ok (dead (t\<lparr>sock := p\<rparr>)))
         else if transactionType (currTrans t) = TRANS_CLOSE_SOCKET then Ok (dead t)
         else if writeTransaction (currTrans t) then Ok (handleWriteTransactions fs async t)
         else Ok (upd_trans (\<lambda>tr. tr\<lparr>success := True, batmanTrans := False, writeTransaction := False,
                                      data := launch async (callType t) Read_job\<rparr>) t))"

text \<open>
  The result of a transaction: the match data that go to the JSON parser and the database,
  if any, and the tablet. \<open>value()\<close> of an empty optional throws; no read returns one.
\<close>

definition handleTransResult :: "alloc_env \<Rightarrow> bt_tab_obj \<Rightarrow> (hang, bytes option \<times> bt_tab_obj) res" where
  "handleTransResult E t =
     (if writeTransaction (currTrans t) then Ok (None, t)
      else if transactionType (currTrans t) = TRANS_RECV_MATCH then
        rbind (future_get E t) (\<lambda>(v, t1). case v of None \<Rightarrow> UB
          | Some d \<Rightarrow> Ok (if success (currTrans t1) then Some d else None, t1))
      else if transactionType (currTrans t) = TRANS_RECV_TABLET_INFO then
        rbind (future_get E t) (\<lambda>(v, t1). case v of None \<Rightarrow> Ok (None, t1)
          | Some d \<Rightarrow> Ok (None, if success (currTrans t1) then setScoutingName d t1 else t1))
      else Ok (None, t))"

section \<open>One transaction\<close>

text \<open>
  The life of a transaction that is not closed at once: the code byte, the start of the
  job, the end of its thread when it is asynchronous, and the result.
\<close>

definition transact :: "alloc_env \<Rightarrow> db_files \<Rightarrow> bool \<Rightarrow> bt_tab_obj \<Rightarrow> (hang, bytes option \<times> bt_tab_obj) res" where
  "transact E fs async t =
     rbind (readTransactionData E t) (\<lambda>t1. rbind (initReadyTransaction E fs async t1) (\<lambda>t2.
     if batmanTrans (currTrans t2) then Ok (None, t2)
     else rbind (isReady t2) (\<lambda>_. rbind (finish E t2) (handleTransResult E))))"

text \<open>A tablet that is ready and whose next bytes are \<open>code # rest\<close>.\<close>

definition sends :: "alloc_env \<Rightarrow> nat \<Rightarrow> bt_tab_obj \<Rightarrow> u8 \<Rightarrow> bytes \<Rightarrow> bool" where
  "sends E k t code rest \<longleftrightarrow> link_ok E k (sock t) \<and> stream (px_rx (sock t)) = code # rest \<and>
     (\<exists>r w sel. px_sel (sock t) = r # w # sel \<and> 0 < r \<and> 0 < w)"

lemma link_ok_keeps:
  "link_ok E k p \<Longrightarrow> prompt 10 (px_rx q) \<Longrightarrow> px_tx q = px_tx p \<Longrightarrow> link_ok E k q"
  by (simp add: link_ok_def)

lemma read_code:
  assumes "sends E k t code rest"
  shows "\<exists>p. readTransactionData E t =
      Ok (upd_trans (\<lambda>tr. if code = TRANS_SOCKET_ERROR
            then tr\<lparr>transactionType := code, success := False, writeTransaction := False\<rparr>
            else tr\<lparr>transactionType := code, writeTransaction := is_write_code code\<rparr>) (t\<lparr>sock := p\<rparr>)) \<and>
    stream (px_rx p) = rest \<and> link_ok E k p \<and> px_out p = px_out (sock t) \<and> px_live p = px_live (sock t) \<and>
    px_closed p = px_closed (sock t)"
proof -
  obtain r w sel where s: "px_sel (sock t) = r # w # sel" "0 < r" "0 < w"
    and l: "link_ok E k (sock t)" "stream (px_rx (sock t)) = code # rest"
    using assms by (auto simp: sends_def)
  let ?p = "sock t\<lparr>px_sel := sel\<rparr>"
  have "prompt 10 (px_rx ?p)" "bt_malloc E 1" using l(1) by (auto simp: link_ok_def bt_malloc_def)
  then obtain q where q: "readAllSocketData E 1 ?p = Some ((Some [code], True), q)" "stream (px_rx q) = rest"
    "prompt 10 (px_rx q)" "keeps (?p\<lparr>px_live := px_live ?p + 1\<rparr>) q"
    using readAll_ok [of ?p 1 E] l(2) by auto
  have g: "getTransactionType E ?p = Some (code, px_free q)" by (simp only: getTransactionType_def q(1)) simp
  have "readyToRead (sock t) = Some (True, sock t\<lparr>px_sel := w # sel\<rparr>)"
    "readyToWrite (sock t\<lparr>px_sel := w # sel\<rparr>) = Some (True, ?p)"
    using s by (auto simp: readyToRead_def readyToWrite_def select_answer_def)
  with g q l(1) show ?thesis
    by (intro exI [of _ "px_free q"])
      (auto simp: readTransactionData_def Let_def upd_trans_def px_free_def keeps_def link_ok_def)
qed

lemma run_read_ok:
  assumes "link_ok E 6 (sock t)" "stream (px_rx (sock t)) = le_bytes 4 (length msg) @ msg @ rest" "length msg < 2 ^ 31"
  shows "\<exists>p. run_job E Read_job t = Ok (Some msg, upd_trans (\<lambda>tr. tr\<lparr>success := True\<rparr>) (t\<lparr>sock := p\<rparr>)) \<and>
    px_out p = px_out (sock t) @ ACK @ ACK \<and> stream (px_rx p) = rest \<and> px_live p = px_live (sock t)"
proof -
  obtain p where "internalRead E (sock t) = Some ((msg, True), p)" "px_out p = px_out (sock t) @ ACK @ ACK"
    "stream (px_rx p) = rest" "px_live p = px_live (sock t)"
    using internalRead_ok [OF assms] by blast
  then show ?thesis by (auto simp: run_job_def)
qed

lemma run_write_ok:
  assumes "link_ok E (4 + length d) (sock t)" "stream (px_rx (sock t)) = ACK @ ACK @ rest"
  shows "\<exists>p. run_job E (Write_job d) t = Ok (None, upd_trans (\<lambda>tr. tr\<lparr>success := True\<rparr>) (t\<lparr>sock := p\<rparr>)) \<and>
    px_out p = px_out (sock t) @ le_bytes 4 (length d) @ d \<and> stream (px_rx p) = rest"
proof -
  obtain p where "internalWrite E d (sock t) = Some (True, p)" "stream (px_rx p) = rest"
    "px_out p = px_out (sock t) @ le_bytes 4 (length d) @ d"
    using internalWrite_ok [OF assms] by blast
  then show ?thesis by (auto simp: run_job_def)
qed

lemmas code_defs = TRANS_SOCKET_ERROR_def TRANS_SEND_LOCAL_DB_def TRANS_SEND_LOCAL_DB_HASH_def
  TRANS_CLOSE_SOCKET_def TRANS_RECV_MATCH_def TRANS_RECV_TABLET_INFO_def

lemma read_codes: "\<not> is_write_code TRANS_RECV_MATCH" "\<not> is_write_code TRANS_RECV_TABLET_INFO"
  by (simp_all add: is_write_code_def code_defs)

lemma write_codes: "is_write_code TRANS_SEND_LOCAL_DB" "is_write_code TRANS_SEND_LOCAL_DB_HASH"
  by (simp_all add: is_write_code_def code_defs)

lemma launched:
  "launch async c j = Running j \<or> launch async c j = Deferred j"
  by (cases c) (auto simp: launch_def)

text \<open>A transaction that reads: whichever way the job is started, \<open>get\<close> delivers the message.\<close>

lemma transact_read:
  assumes "sends E 6 t code (le_bytes 4 (length msg) @ msg @ rest)" "length msg < 2 ^ 31"
    and "code = TRANS_RECV_MATCH \<or> code = TRANS_RECV_TABLET_INFO"
  shows "\<exists>t1. transact E fs async t = Ok (if code = TRANS_RECV_MATCH then (Some msg, t1)
      else (None, setScoutingName msg t1)) \<and>
    px_out (sock t1) = px_out (sock t) @ ACK @ ACK \<and> stream (px_rx (sock t1)) = rest \<and>
    px_live (sock t1) = px_live (sock t) \<and> tabScoutingName t1 = tabScoutingName t"
proof -
  have code: "code \<noteq> TRANS_SOCKET_ERROR" "code \<noteq> TRANS_CLOSE_SOCKET" "\<not> is_write_code code"
    using assms(3) read_codes by (auto simp: code_defs)
  let ?tr = "\<lambda>tr. tr\<lparr>transactionType := code, writeTransaction := False\<rparr>"
  obtain p where p: "readTransactionData E t = Ok (upd_trans ?tr (t\<lparr>sock := p\<rparr>))"
    "stream (px_rx p) = le_bytes 4 (length msg) @ msg @ rest" "link_ok E 6 p" "px_out p = px_out (sock t)"
    "px_live p = px_live (sock t)"
    using read_code [OF assms(1)] code by auto
  define t2 where "t2 = upd_trans (\<lambda>tr. tr\<lparr>success := True, batmanTrans := False, writeTransaction := False,
    data := launch async (callType t) Read_job\<rparr>) (upd_trans ?tr (t\<lparr>sock := p\<rparr>))"
  have init: "initReadyTransaction E fs async (upd_trans ?tr (t\<lparr>sock := p\<rparr>)) = Ok t2"
    using code by (simp add: initReadyTransaction_def t2_def upd_trans_def)
  have f: "sock t2 = p" "transactionType (currTrans t2) = code" "\<not> batmanTrans (currTrans t2)"
    "\<not> writeTransaction (currTrans t2)" "data (currTrans t2) = launch async (callType t) Read_job"
    "tabScoutingName t2 = tabScoutingName t"
    by (simp_all add: t2_def upd_trans_def)
  obtain q where q: "run_job E Read_job t2 = Ok (Some msg, upd_trans (\<lambda>tr. tr\<lparr>success := True\<rparr>) (t2\<lparr>sock := q\<rparr>))"
    "px_out q = px_out p @ ACK @ ACK" "stream (px_rx q) = rest" "px_live q = px_live p"
    using run_read_ok [of E t2 msg rest] p assms(2) f(1) by auto
  show ?thesis
    using launched [of async "callType t" Read_job] assms(3) p init f q
    by (elim disjE) (auto simp: transact_def isReady_def finish_def handleTransResult_def future_get_def
        upd_trans_def Let_def setScoutingName_def code_defs)
qed

definition reply :: "db_files \<Rightarrow> u8 \<Rightarrow> bytes" where
  "reply fs code = (if code = TRANS_SEND_LOCAL_DB then db_file fs else le_bytes 4 (unat (murmurHash (db_file fs))))"

lemma transact_write:
  assumes "sends E k t code rest" "code = TRANS_SEND_LOCAL_DB \<or> code = TRANS_SEND_LOCAL_DB_HASH"
  shows "\<exists>t2. stream (px_rx (sock t2)) = rest \<and> link_ok E k (sock t2) \<and> px_out (sock t2) = px_out (sock t) \<and>
    writeTransaction (currTrans t2) \<and>
    data (currTrans t2) = launch async (callType t) (Write_job (reply fs code)) \<and>
    transact E fs async t = rbind (finish E t2) (handleTransResult E)"
proof -
  have code: "code \<noteq> TRANS_SOCKET_ERROR" "code \<noteq> TRANS_CLOSE_SOCKET" "is_write_code code"
    using assms(2) write_codes by (auto simp: code_defs)
  let ?tr = "\<lambda>tr. tr\<lparr>transactionType := code, writeTransaction := True\<rparr>"
  obtain p where p: "readTransactionData E t = Ok (upd_trans ?tr (t\<lparr>sock := p\<rparr>))"
    "stream (px_rx p) = rest" "link_ok E k p" "px_out p = px_out (sock t)"
    using read_code [OF assms(1)] code by auto
  define t2 where "t2 = upd_trans (\<lambda>tr. tr\<lparr>batmanTrans := False, writeTransaction := True,
    data := launch async (callType t) (Write_job (reply fs code))\<rparr>) (upd_trans ?tr (t\<lparr>sock := p\<rparr>))"
  have "initReadyTransaction E fs async (upd_trans ?tr (t\<lparr>sock := p\<rparr>)) = Ok t2"
    using assms(2) code
    by (auto simp: initReadyTransaction_def handleWriteTransactions_def t2_def upd_trans_def reply_def code_defs)
  moreover have "sock t2 = p" "\<not> batmanTrans (currTrans t2)" "writeTransaction (currTrans t2)"
    "data (currTrans t2) = launch async (callType t) (Write_job (reply fs code))"
    by (simp_all add: t2_def upd_trans_def)
  ultimately show ?thesis
    using p launched [of async "callType t" "Write_job (reply fs code)"]
    by (intro exI [of _ t2]) (auto simp: transact_def isReady_def)
qed

section \<open>Properties\<close>

text \<open>
  C25. A tablet that is ready, sends the code for a match and then a message delivers exactly
  this message to the match handler, whether the job ran asynchronously or deferred.
\<close>
theorem match_delivered:
  assumes "sends E 6 t TRANS_RECV_MATCH (le_bytes 4 (length msg) @ msg @ rest)" "length msg < 2 ^ 31"
  shows "\<exists>t1. transact E fs async t = Ok (Some msg, t1) \<and> px_out (sock t1) = px_out (sock t) @ ACK @ ACK \<and>
    stream (px_rx (sock t1)) = rest \<and> px_live (sock t1) = px_live (sock t)"
  using transact_read [OF assms, of fs async] by auto

text \<open>
  A tablet that sends the code for tablet information and then a message is known by the
  text of the message afterwards.
\<close>
theorem tablet_named:
  assumes "sends E 6 t TRANS_RECV_TABLET_INFO (le_bytes 4 (length name) @ name @ rest)" "length name < 2 ^ 31"
  shows "\<exists>t1. transact E fs async t = Ok (None, t1) \<and> getScoutingName t1 = name \<and> stream (px_rx (sock t1)) = rest"
proof -
  have ne: "TRANS_RECV_TABLET_INFO \<noteq> TRANS_RECV_MATCH" by (simp add: code_defs)
  obtain t1 where "transact E fs async t = Ok (None, setScoutingName name t1)" "stream (px_rx (sock t1)) = rest"
    using transact_read [OF assms, of fs async] ne by auto
  then show ?thesis by (auto simp: getScoutingName_def setScoutingName_def)
qed

text \<open>
  C33. A tablet that asks for the local data or its hash gets the length and the data (both
  files joined by a newline, or the four bytes of the hash) when the job is started
  asynchronously. When it is started deferred nothing is ever sent, because nobody asks the
  future of a write for its result.
\<close>
theorem database_replied:
  assumes "code = TRANS_SEND_LOCAL_DB \<or> code = TRANS_SEND_LOCAL_DB_HASH"
    and "sends E (4 + length (reply fs code)) t code (ACK @ ACK @ rest)"
  shows "\<exists>t1. transact E fs async t = Ok (None, t1) \<and>
    (if callType t = CALLTYPE_ASYNCHRONOUS \<or> callType t = CALLTYPE_DEFAULT \<and> async
     then px_out (sock t1) = px_out (sock t) @ le_bytes 4 (length (reply fs code)) @ reply fs code \<and>
       stream (px_rx (sock t1)) = rest \<and> success (currTrans t1)
     else px_out (sock t1) = px_out (sock t) \<and> stream (px_rx (sock t1)) = ACK @ ACK @ rest)"
proof -
  let ?d = "reply fs code"
  obtain t2 where t2: "stream (px_rx (sock t2)) = ACK @ ACK @ rest" "link_ok E (4 + length ?d) (sock t2)"
    "px_out (sock t2) = px_out (sock t)" "writeTransaction (currTrans t2)"
    "data (currTrans t2) = launch async (callType t) (Write_job ?d)"
    "transact E fs async t = rbind (finish E t2) (handleTransResult E)"
    using transact_write [OF assms(2,1), of async fs] by blast
  show ?thesis
  proof (cases "callType t = CALLTYPE_ASYNCHRONOUS \<or> callType t = CALLTYPE_DEFAULT \<and> async")
    case True
    then have "data (currTrans t2) = Running (Write_job ?d)" using t2(5) by (auto simp: launch_def)
    moreover obtain p where "run_job E (Write_job ?d) t2 = Ok (None, upd_trans (\<lambda>tr. tr\<lparr>success := True\<rparr>) (t2\<lparr>sock := p\<rparr>))"
      "px_out p = px_out (sock t2) @ le_bytes 4 (length ?d) @ ?d" "stream (px_rx p) = rest"
      using run_write_ok [OF t2(2,1)] by blast
    ultimately show ?thesis
      using True t2(3,4,6) by (simp add: finish_def handleTransResult_def upd_trans_def)
  next
    case False
    then have "data (currTrans t2) = Deferred (Write_job ?d)"
      using t2(5) by (cases "callType t") (auto simp: launch_def)
    then show ?thesis
      using False t2 by (auto simp: finish_def handleTransResult_def)
  qed
qed

text \<open>
  A negative code byte that is none of the known ones starts no job: asking the invalid
  future of a tablet's first transaction whether it is ready is undefined behaviour.
\<close>
theorem unknown_write_code:
  assumes "sends E k t code rest" "is_write_code code"
    and "code \<notin> {TRANS_SOCKET_ERROR, TRANS_SEND_LOCAL_DB, TRANS_SEND_LOCAL_DB_HASH}"
    and "data (currTrans t) = Invalid" "\<not> batmanTrans (currTrans t)"
  shows "transact E fs async t = UB"
proof -
  have c: "code \<noteq> TRANS_CLOSE_SOCKET" using assms(2) by (auto simp: is_write_code_def code_defs)
  let ?tr = "\<lambda>tr. tr\<lparr>transactionType := code, writeTransaction := True\<rparr>"
  obtain p where "readTransactionData E t = Ok (upd_trans ?tr (t\<lparr>sock := p\<rparr>))"
    using read_code [OF assms(1)] assms(2,3) by auto
  moreover have "initReadyTransaction E fs async (upd_trans ?tr (t\<lparr>sock := p\<rparr>)) = Ok (upd_trans ?tr (t\<lparr>sock := p\<rparr>))"
    using assms(3) c by (simp add: initReadyTransaction_def handleWriteTransactions_def upd_trans_def)
  ultimately show ?thesis
    using assms(4,5) by (simp add: transact_def isReady_def upd_trans_def)
qed

text \<open>
  The byte 0x80 from a tablet is taken for a failed read: the tablet gets a negative
  acknowledgement and is disconnected.
\<close>
theorem error_byte:
  assumes "sends E 3 t 0x80 rest"
  shows "\<exists>t1. transact E fs async t = Ok (None, t1) \<and> batmanTrans (currTrans t1) \<and> \<not> success (currTrans t1) \<and>
    px_out (sock t1) = px_out (sock t) @ NCK \<and> px_closed (sock t1) = px_closed (sock t) + 1"
proof -
  have c: "(0x80 :: u8) = TRANS_SOCKET_ERROR" by (simp add: code_defs)
  let ?tr = "\<lambda>tr. tr\<lparr>transactionType := TRANS_SOCKET_ERROR, success := False, writeTransaction := False\<rparr>"
  obtain p where p: "readTransactionData E t = Ok (upd_trans ?tr (t\<lparr>sock := p\<rparr>))" "link_ok E 3 p"
    "px_out p = px_out (sock t)" "px_closed p = px_closed (sock t)"
    using read_code [OF assms] unfolding c by auto
  then have "healthy (px_tx p)" "length NCK \<le> accepts (px_tx p)" "bt_malloc E (length NCK)"
    by (auto simp: link_ok_def bt_malloc_def)
  then obtain tx where "sendNack E p = Some (True, p\<lparr>px_tx := tx, px_out := px_out p @ NCK\<rparr>)"
    using send_block_ok [of p NCK E] unfolding sendNack_def by blast
  with p show ?thesis
    by (simp add: transact_def initReadyTransaction_def upd_trans_def sockSuicide_def)
qed

section \<open>Samples\<close>

definition tab_with :: "bytes \<Rightarrow> bt_tab_obj" where
  "tab_with rx = BtTabObj 1 (sample_peer\<lparr>px_rx := [Poll (1/1000) 0 (Received rx)], px_tx := replicate 40 (Sent 1)\<rparr>) [65] 0"

definition sample_files :: db_files where
  "sample_files = \<lparr>scouterList = [49, 44, 65], teamCompList = [50]\<rparr>"

lemma sends_tab_with: "code # rest = rx \<Longrightarrow> k \<le> 40 \<Longrightarrow> sends all_ok k (tab_with rx) code rest"
  by (simp add: sends_def link_ok_def tab_with_def BtTabObj_def sample_peer_def healthy_def accepts_def list_all_iff)
    fastforce

theorem match_delivered_witness:
  "\<exists>t1. transact all_ok sample_files True (tab_with [1, 2, 0, 0, 0, 104, 105]) = Ok (Some [104, 105], t1)"
proof -
  have b: "TRANS_RECV_MATCH # le_bytes 4 (length [104, 105 :: u8]) @ [104, 105] @ [] = [1, 2, 0, 0, 0, 104, 105]"
    by code_simp
  show ?thesis
    using match_delivered [OF sends_tab_with [OF b], of sample_files True] by auto
qed

theorem tablet_named_witness:
  "\<exists>t1. transact all_ok sample_files False (tab_with [2, 1, 0, 0, 0, 66, 9]) = Ok (None, t1) \<and>
     getScoutingName t1 = [66] \<and> stream (px_rx (sock t1)) = [9]"
proof -
  have b: "TRANS_RECV_TABLET_INFO # le_bytes 4 (length [66 :: u8]) @ [66] @ [9] = [2, 1, 0, 0, 0, 66, 9]"
    by code_simp
  show ?thesis
    using tablet_named [OF sends_tab_with [OF b], of sample_files False] by auto
qed

theorem database_replied_witness:
  "(\<exists>t1. transact all_ok sample_files True (tab_with (0xfe # ACK @ ACK)) = Ok (None, t1) \<and>
      px_out (sock t1) = [5, 0, 0, 0, 49, 44, 65, 10, 50]) \<and>
   (\<exists>t1. transact all_ok sample_files False (tab_with (0xfe # ACK @ ACK)) = Ok (None, t1) \<and> px_out (sock t1) = [])"
proof -
  have b: "TRANS_SEND_LOCAL_DB # ACK @ ACK @ [] = 0xfe # ACK @ ACK" by code_simp
  have r: "reply sample_files TRANS_SEND_LOCAL_DB = [49, 44, 65, 10, 50]" by code_simp
  have l: "le_bytes 4 (Suc (Suc (Suc (Suc (Suc 0))))) = [5, 0, 0, 0]" by code_simp
  have t: "callType (tab_with rx) = CALLTYPE_DEFAULT" "px_out (sock (tab_with rx)) = []" for rx
    by (simp_all add: tab_with_def BtTabObj_def sample_peer_def)
  note s = database_replied [OF disjI1 [OF refl] sends_tab_with [OF b], of sample_files]
  show ?thesis using s [of True] s [of False] by (auto simp: r l t)
qed

theorem unknown_write_code_witness: "transact all_ok sample_files True (tab_with [0xfd]) = UB"
proof (rule unknown_write_code [OF sends_tab_with [OF refl]])
  show "is_write_code 0xfd" "(0xfd :: u8) \<notin> {TRANS_SOCKET_ERROR, TRANS_SEND_LOCAL_DB, TRANS_SEND_LOCAL_DB_HASH}"
    "data (currTrans (tab_with [0xfd])) = Invalid" "\<not> batmanTrans (currTrans (tab_with [0xfd]))"
    by code_simp+
  show "(40 :: nat) \<le> 40" by simp
qed

theorem error_byte_witness:
  "\<exists>t1. transact all_ok sample_files True (tab_with [0x80]) = Ok (None, t1) \<and> batmanTrans (currTrans t1)"
  using error_byte [OF sends_tab_with [OF refl], of sample_files True] by auto

end
