(* ===== verification/Bt_Manager.thy ===== *)
theory Bt_Manager
  imports Bt_Conductor
begin

text \<open>
  All tablets together (\<^verbatim>\<open>bluetooth/bluetooth.hpp\<close>): accepting connections, starting and
  collecting transactions once per frame, and closing connections.

  \<open>connectedTablets\<close> is a vector of objects and \<open>runningTransactions\<close> a vector of pointers
  to the transactions inside these objects; the thread of a transaction works on the same
  object. A pointer is therefore the number of the vector's storage and an index: growing
  the vector moves the objects to a new storage, erasing one moves the later ones down.
  Using a pointer to another storage or behind the end is \<open>UB\<close>. The field \<open>erased\<close> keeps the
  objects that were removed and \<open>stored\<close> the match data handed to the parser; neither exists
  in the program. The growth of the vector's capacity is a parameter, as are the answers of
  \<open>accept\<close>. Registration of the service with Windows and the list of names on the screen
  are not modelled.
\<close>

record bluetooth =
  connectedTablets :: "bt_tab_obj list"
  storage :: nat
  capacity :: nat
  runningTransactions :: "(nat \<times> nat) list"
  stored :: "bytes list"
  erased :: "bt_tab_obj list"

section \<open>Addresses\<close>

text \<open>The six bytes of an address, in storage order; the text has the last one first.\<close>

definition hex_digit :: "u8 \<Rightarrow> u8" where
  "hex_digit n = (if n < 10 then 0x30 + n else 0x41 + (n - 10))"

definition hex_byte :: "u8 \<Rightarrow> bytes" where
  "hex_byte b = [hex_digit (drop_bit 4 b), hex_digit (b AND 0x0f)]"

fun getMacStr :: "bytes \<Rightarrow> bytes" where
  "getMacStr [b0, b1, b2, b3, b4, b5] =
     concat (map (\<lambda>b. hex_byte b @ [0x3a]) [b5, b4, b3, b2, b1]) @ hex_byte b0"
| "getMacStr _ = []"

section \<open>Connections\<close>

text \<open>\<open>accept\<close> yields nothing, or a socket, its address and the junk code of the new object.\<close>

definition acceptConn ::
  "(nat \<Rightarrow> nat) \<Rightarrow> (nat \<times> peer \<times> bytes \<times> u8) option \<Rightarrow> bluetooth \<Rightarrow> bluetooth" where
  "acceptConn grow answer m = (case answer of None \<Rightarrow> m
     | Some (s, p, addr, code) \<Rightarrow>
         (let m1 = (if length (connectedTablets m) < capacity m then m
                    else m\<lparr>storage := storage m + 1, capacity := grow (capacity m)\<rparr>)
          in m1\<lparr>connectedTablets := connectedTablets m @ [BtTabObj s p (getMacStr addr) code]\<rparr>))"

fun kill_index :: "nat \<Rightarrow> bt_tab_obj list \<Rightarrow> nat option" where
  "kill_index s [] = None"
| "kill_index s (t # ts) = (if sock_id t = s then Some 0 else map_option Suc (kill_index s ts))"

definition close_tab :: "bt_tab_obj \<Rightarrow> bt_tab_obj" where
  "close_tab t = t\<lparr>sock := sockSuicide (sock t)\<rparr>"

definition killSocket :: "nat \<Rightarrow> bluetooth \<Rightarrow> bool \<times> bluetooth" where
  "killSocket s m = (case kill_index s (connectedTablets m) of None \<Rightarrow> (False, m)
     | Some i \<Rightarrow> (True, m\<lparr>connectedTablets := take i (connectedTablets m) @ drop (Suc i) (connectedTablets m),
                          erased := erased m @ [close_tab (connectedTablets m ! i)]\<rparr>))"

definition killAllSockets :: "bluetooth \<Rightarrow> bluetooth" where
  "killAllSockets m = m\<lparr>connectedTablets := [], erased := erased m @ map close_tab (connectedTablets m)\<rparr>"

definition getNumConnections :: "bluetooth \<Rightarrow> nat" where
  "getNumConnections m = length (connectedTablets m)"

section \<open>Frames\<close>

definition put_tab :: "nat \<Rightarrow> bt_tab_obj \<Rightarrow> bluetooth \<Rightarrow> bluetooth" where
  "put_tab i t m = m\<lparr>connectedTablets := (connectedTablets m)[i := t]\<rparr>"

fun store_match :: "bytes option \<Rightarrow> bluetooth \<Rightarrow> bluetooth" where
  "store_match None m = m"
| "store_match (Some d) m = m\<lparr>stored := stored m @ [d]\<rparr>"

text \<open>The body of the loop of \<open>handleReadyConnections\<close> for the tablet at index \<open>i\<close>.\<close>

definition ready_body ::
  "alloc_env \<Rightarrow> db_files \<Rightarrow> bool \<Rightarrow> nat \<Rightarrow> bluetooth \<Rightarrow> (hang, bluetooth) res" where
  "ready_body E fs async i m =
     (let t = connectedTablets m ! i in
      rbind (returned (readyToRead (sock t))) (\<lambda>(r, p).
      let t0 = t\<lparr>sock := p\<rparr> in
      if \<not> r \<or> undergoingTransaction t then Ok (put_tab i t0 m)
      else rbind (readTransactionData E t0) (\<lambda>t1.
      rbind (initReadyTransaction E fs async t1) (\<lambda>t2.
      if batmanTrans (currTrans t2) then Ok (snd (killSocket (sock_id t2) (put_tab i t2 m)))
      else rbind (isReady t2) (\<lambda>ready.
      if ready then rbind (handleTransResult E t2) (\<lambda>(v, t3). Ok (store_match v (put_tab i t3 m)))
      else Ok ((put_tab i (setTransactionState True t2) m)
             \<lparr>runningTransactions := runningTransactions m @ [(storage m, i)]\<rparr>))))))"

lemma length_put_tab [simp]: "length (connectedTablets (put_tab i t m)) = length (connectedTablets m)"
  by (simp add: put_tab_def)

lemma store_match_fields [simp]:
  "connectedTablets (store_match v m) = connectedTablets m" "storage (store_match v m) = storage m"
  "capacity (store_match v m) = capacity m" "runningTransactions (store_match v m) = runningTransactions m"
  by (cases v; simp)+

lemma length_killSocket: "length (connectedTablets (snd (killSocket s m))) \<le> length (connectedTablets m)"
  by (auto simp: killSocket_def split: option.splits)

lemma ready_body_length:
  "ready_body E fs async i m = Ok m' \<Longrightarrow> length (connectedTablets m') \<le> length (connectedTablets m)"
  using length_killSocket [of _ "put_tab i _ m"]
  by (fastforce simp: ready_body_def Let_def res_simps split: if_splits prod.splits)

text \<open>The index advances also when the current object was erased.\<close>

function ready_loop ::
  "alloc_env \<Rightarrow> db_files \<Rightarrow> (nat \<Rightarrow> bool) \<Rightarrow> nat \<Rightarrow> bluetooth \<Rightarrow> (hang, bluetooth) res" where
  "ready_loop E fs async i m =
     (if i < length (connectedTablets m)
      then rbind (ready_body E fs (async i) i m) (ready_loop E fs async (Suc i))
      else Ok m)"
  by pat_completeness auto
termination
  by (relation "measure (\<lambda>(E, fs, async, i, m). length (connectedTablets m) - i)")
    (auto dest!: ready_body_length)

declare ready_loop.simps [simp del]

definition handleReadyConnections ::
  "alloc_env \<Rightarrow> db_files \<Rightarrow> (nat \<Rightarrow> bool) \<Rightarrow> bluetooth \<Rightarrow> (hang, bluetooth) res" where
  "handleReadyConnections E fs async m = ready_loop E fs async 0 m"

definition deref :: "bluetooth \<Rightarrow> nat \<times> nat \<Rightarrow> (hang, bt_tab_obj) res" where
  "deref m p = (if fst p = storage m \<and> snd p < length (connectedTablets m)
     then Ok (connectedTablets m ! snd p) else UB)"

definition running_body :: "alloc_env \<Rightarrow> nat \<Rightarrow> bluetooth \<Rightarrow> (hang, bluetooth) res" where
  "running_body E i m =
     (let ptr = runningTransactions m ! i in
      rbind (deref m ptr) (\<lambda>t. rbind (isReady t) (\<lambda>ready.
      if ready then rbind (handleTransResult E t) (\<lambda>(v, t1).
        Ok ((store_match v (put_tab (snd ptr) (setTransactionState False t1) m))
           \<lparr>runningTransactions := take i (runningTransactions m) @ drop (Suc i) (runningTransactions m)\<rparr>))
      else Ok m)))"

lemma running_body_length:
  "running_body E i m = Ok m' \<Longrightarrow> length (runningTransactions m') \<le> length (runningTransactions m)"
  by (auto simp: running_body_def Let_def res_simps split: if_splits prod.splits)

function running_loop :: "alloc_env \<Rightarrow> nat \<Rightarrow> bluetooth \<Rightarrow> (hang, bluetooth) res" where
  "running_loop E i m =
     (if i < length (runningTransactions m)
      then rbind (running_body E i m) (running_loop E (Suc i))
      else Ok m)"
  by pat_completeness auto
termination
  by (relation "measure (\<lambda>(E, i, m). length (runningTransactions m) - i)") (auto dest!: running_body_length)

declare running_loop.simps [simp del]

definition handleRunningTransactions :: "alloc_env \<Rightarrow> bluetooth \<Rightarrow> (hang, bluetooth) res" where
  "handleRunningTransactions E m = running_loop E 0 m"

text \<open>The thread of a running transaction ends; it uses the object it was started on.\<close>

definition finish_thread :: "alloc_env \<Rightarrow> nat \<times> nat \<Rightarrow> bluetooth \<Rightarrow> (hang, bluetooth) res" where
  "finish_thread E ptr m =
     rbind (deref m ptr) (\<lambda>t. rbind (finish E t) (\<lambda>t1. Ok (put_tab (snd ptr) t1 m)))"

definition updateAllBt ::
  "alloc_env \<Rightarrow> db_files \<Rightarrow> (nat \<Rightarrow> nat) \<Rightarrow> (nat \<times> peer \<times> bytes \<times> u8) option \<Rightarrow> (nat \<Rightarrow> bool) \<Rightarrow>
   bluetooth \<Rightarrow> (hang, bluetooth) res" where
  "updateAllBt E fs grow answer async m =
     rbind (handleReadyConnections E fs async (acceptConn grow answer m)) (handleRunningTransactions E)"

section \<open>Steps\<close>

definition bt_init :: bluetooth where
  "bt_init = \<lparr>connectedTablets = [], storage = 0, capacity = 0, runningTransactions = [], stored = [], erased = []\<rparr>"

inductive bt_step :: "alloc_env \<Rightarrow> db_files \<Rightarrow> (nat \<Rightarrow> nat) \<Rightarrow> bluetooth \<Rightarrow> bluetooth \<Rightarrow> bool"
  for E fs grow where
  Accept: "bt_step E fs grow m (acceptConn grow answer m)"
| Ready: "i < length (connectedTablets m) \<Longrightarrow> ready_body E fs async i m = Ok m' \<Longrightarrow> bt_step E fs grow m m'"
| Collect: "handleRunningTransactions E m = Ok m' \<Longrightarrow> bt_step E fs grow m m'"
| Thread: "ptr \<in> set (runningTransactions m) \<Longrightarrow> finish_thread E ptr m = Ok m' \<Longrightarrow> bt_step E fs grow m m'"

section \<open>The invariant\<close>

text \<open>A transaction a thread works on, or that waits to be collected.\<close>

definition live_trans :: "tabtransaction \<Rightarrow> bool" where
  "live_trans tr \<longleftrightarrow> (case data tr of Invalid \<Rightarrow> False
     | Ready v \<Rightarrow> writeTransaction tr \<or> v \<noteq> None
     | Deferred j \<Rightarrow> writeTransaction tr \<or> j = Read_job
     | Running j \<Rightarrow> writeTransaction tr \<or> j = Read_job)"

definition bt_inv :: "bluetooth \<Rightarrow> bool" where
  "bt_inv m \<longleftrightarrow> distinct (runningTransactions m) \<and>
     (\<forall>p\<in>set (runningTransactions m). fst p = storage m \<and> snd p < length (connectedTablets m) \<and>
        transactionState (connectedTablets m ! snd p) \<and> live_trans (currTrans (connectedTablets m ! snd p))) \<and>
     (\<forall>i<length (connectedTablets m). transactionState (connectedTablets m ! i) \<longrightarrow>
        (storage m, i) \<in> set (runningTransactions m))"

lemma bt_inv_init: "bt_inv bt_init"
  by (simp add: bt_inv_def bt_init_def)

lemma put_tab_fields [simp]:
  "storage (put_tab i t m) = storage m" "runningTransactions (put_tab i t m) = runningTransactions m"
  "connectedTablets (put_tab i t m) = (connectedTablets m)[i := t]"
  by (simp_all add: put_tab_def)

lemma bt_inv_cong:
  assumes "bt_inv m" "connectedTablets m' = connectedTablets m" "storage m' = storage m"
    "runningTransactions m' = runningTransactions m"
  shows "bt_inv m'"
  using assms by (simp add: bt_inv_def)

lemma bt_inv_store [simp]: "bt_inv (store_match v m) \<longleftrightarrow> bt_inv m"
  by (simp add: bt_inv_def)

lemma bt_inv_put:
  assumes "bt_inv m" "i < length (connectedTablets m)"
    and "transactionState t = transactionState (connectedTablets m ! i)"
    and "transactionState t \<Longrightarrow> live_trans (currTrans t)"
  shows "bt_inv (put_tab i t m)"
  using assms by (auto simp: bt_inv_def nth_list_update)

lemma returned_not_UB [simp]: "\<not> is_UB (returned a)" "returned a \<noteq> UB"
  by (cases a; simp)+

lemma rbind_returned_not_UB: "(\<And>x. f x \<noteq> UB) \<Longrightarrow> rbind (returned a) f \<noteq> UB"
  by (cases a) auto

lemma run_job_not_UB [simp]: "run_job E j t \<noteq> UB"
  unfolding run_job_def by (cases j) (auto intro!: rbind_returned_not_UB split: prod.splits)

lemma run_job_keeps:
  assumes "run_job E j t = Ok (v, t1)"
  shows "transactionState t1 = transactionState t \<and> sock_id t1 = sock_id t \<and>
    writeTransaction (currTrans t1) = writeTransaction (currTrans t) \<and>
    transactionType (currTrans t1) = transactionType (currTrans t) \<and> (j = Read_job \<longrightarrow> v \<noteq> None)"
  using assms by (auto simp: run_job_def upd_trans_def res_simps split: job.splits prod.splits)

lemma readTransactionData_state:
  "readTransactionData E t = Ok t1 \<Longrightarrow> transactionState t1 = transactionState t"
  by (auto simp: readTransactionData_def upd_trans_def Let_def res_simps split: prod.splits if_splits)

lemma initReady_state:
  "initReadyTransaction E fs async t = Ok t1 \<Longrightarrow> transactionState t1 = transactionState t"
  by (auto simp: initReadyTransaction_def handleWriteTransactions_def upd_trans_def Let_def res_simps
      split: prod.splits if_splits)

lemma started_live:
  assumes "initReadyTransaction E fs async t = Ok t1" "\<not> batmanTrans (currTrans t1)" "isReady t1 = Ok False"
  shows "live_trans (currTrans t1)"
  using assms
  by (auto simp: initReadyTransaction_def handleWriteTransactions_def upd_trans_def Let_def res_simps
      live_trans_def launch_def isReady_def split: prod.splits if_splits calltype.splits future.splits)

lemma future_get_state: "future_get E t = Ok (v, t1) \<Longrightarrow> transactionState t1 = transactionState t"
  by (auto simp: future_get_def upd_trans_def Let_def res_simps split: future.splits prod.splits dest!: run_job_keeps)

lemma handleTransResult_state: "handleTransResult E t = Ok (v, t1) \<Longrightarrow> transactionState t1 = transactionState t"
  by (auto simp: handleTransResult_def res_simps setScoutingName_def split: if_splits prod.splits option.splits
      dest!: future_get_state)

lemma future_get_live:
  assumes "live_trans (currTrans t)" "\<not> writeTransaction (currTrans t)"
  shows "future_get E t \<noteq> UB \<and> (\<forall>v t1. future_get E t = Ok (v, t1) \<longrightarrow> v \<noteq> None)"
proof -
  have "rbind (run_job E j t) (\<lambda>(v, t1). Ok (v, f t1)) \<noteq> UB" for j f
    by (cases "run_job E j t") auto
  then show ?thesis
    using assms
    by (auto simp: live_trans_def future_get_def Let_def res_simps split: future.splits prod.splits
        dest!: run_job_keeps)
qed

lemma handleTransResult_live:
  assumes "live_trans (currTrans t)"
  shows "handleTransResult E t \<noteq> UB"
proof (cases "writeTransaction (currTrans t)")
  case False
  have "rbind (future_get E t) f \<noteq> UB" if "\<And>d t1. f (Some d, t1) \<noteq> UB" for f :: "_ \<Rightarrow> (hang, bytes option \<times> bt_tab_obj) res"
    using future_get_live [OF assms False, of E] that by (cases "future_get E t") (auto split: prod.splits)
  then show ?thesis using False by (auto simp: handleTransResult_def)
qed (simp add: handleTransResult_def)

lemma isReady_live: "live_trans (currTrans t) \<Longrightarrow> \<exists>b. isReady t = Ok b"
  by (auto simp: live_trans_def isReady_def split: future.splits)

lemma distinct_remove_nth:
  assumes "distinct xs" "i < length xs"
  shows "set (take i xs @ drop (Suc i) xs) = set xs - {xs ! i} \<and> distinct (take i xs @ drop (Suc i) xs)"
proof -
  obtain ys x zs where "xs = ys @ x # zs" "length ys = i" using assms(2) by (metis id_take_nth_drop length_take min.absorb4)
  with assms(1) show ?thesis by auto
qed

lemma bt_inv_remove:
  assumes "bt_inv m" "ptr \<in> set (runningTransactions m)" "\<not> transactionState t"
    and "set rs = set (runningTransactions m) - {ptr} \<and> distinct rs"
  shows "bt_inv ((store_match v (put_tab (snd ptr) t m))\<lparr>runningTransactions := rs\<rparr>)"
proof -
  have other: "snd p \<noteq> snd ptr" if "p \<in> set rs" for p
    using that assms(1,2,4) by (auto simp: bt_inv_def prod_eq_iff)
  have "(storage m, i) \<in> set rs" if "i < length (connectedTablets m)" "i \<noteq> snd ptr" "transactionState (connectedTablets m ! i)" for i
    using that assms(1,4) by (auto simp: bt_inv_def)
  then show ?thesis
    using assms other by (auto simp: bt_inv_def nth_list_update) blast
qed

lemma running_body_inv:
  assumes "bt_inv m" "i < length (runningTransactions m)"
  shows "running_body E i m \<noteq> UB \<and> (\<forall>m'. running_body E i m = Ok m' \<longrightarrow> bt_inv m')"
proof -
  define ptr where "ptr = runningTransactions m ! i"
  define t where "t = connectedTablets m ! snd ptr"
  have p: "ptr \<in> set (runningTransactions m)" using assms(2) by (simp add: ptr_def)
  then have f: "fst ptr = storage m" "snd ptr < length (connectedTablets m)" "transactionState t" "live_trans (currTrans t)"
    using assms(1) by (auto simp: bt_inv_def t_def)
  then have d: "deref m ptr = Ok t" by (simp add: deref_def t_def)
  obtain b where b: "isReady t = Ok b" using isReady_live [OF f(4)] by blast
  have "bt_inv ((store_match v (put_tab (snd ptr) (setTransactionState False t1) m))
      \<lparr>runningTransactions := take i (runningTransactions m) @ drop (Suc i) (runningTransactions m)\<rparr>)" for v t1
    by (rule bt_inv_remove [OF assms(1) p])
      (use distinct_remove_nth [OF _ assms(2)] assms(1) in \<open>auto simp: bt_inv_def ptr_def setTransactionState_def\<close>)
  then show ?thesis
    using assms(1) b d handleTransResult_live [OF f(4), of E]
    by (cases "handleTransResult E t") (auto simp: running_body_def Let_def ptr_def [symmetric])
qed

lemma running_loop_inv:
  "bt_inv m \<Longrightarrow> running_loop E i m \<noteq> UB \<and> (\<forall>m'. running_loop E i m = Ok m' \<longrightarrow> bt_inv m')"
proof (induction E i m rule: running_loop.induct)
  case (1 E i m)
  show ?case
  proof (cases "i < length (runningTransactions m)")
    case True
    note b = running_body_inv [OF 1(2) True, of E]
    show ?thesis
    proof (cases "running_body E i m")
      case (Ok m1)
      then show ?thesis using 1(1) [OF True Ok] b True by (subst (1 2) running_loop.simps) auto
    qed (use b True in \<open>subst (1 2) running_loop.simps, auto\<close>)
  next
    case False
    then show ?thesis using 1(2) by (subst (1 2) running_loop.simps) auto
  qed
qed

lemma finish_live:
  assumes "live_trans (currTrans t)"
  shows "finish E t \<noteq> UB \<and> (\<forall>t1. finish E t = Ok t1 \<longrightarrow> live_trans (currTrans t1) \<and> transactionState t1 = transactionState t)"
proof (cases "data (currTrans t)")
  case (Running j)
  then show ?thesis
    using assms run_job_not_UB [of E j t]
    by (cases "run_job E j t") (auto simp: finish_def live_trans_def upd_trans_def dest!: run_job_keeps)
qed (use assms in \<open>auto simp: finish_def\<close>)

lemma finish_thread_inv:
  assumes "bt_inv m" "ptr \<in> set (runningTransactions m)"
  shows "finish_thread E ptr m \<noteq> UB \<and> (\<forall>m'. finish_thread E ptr m = Ok m' \<longrightarrow> bt_inv m')"
proof -
  let ?t = "connectedTablets m ! snd ptr"
  have f: "fst ptr = storage m" "snd ptr < length (connectedTablets m)" "transactionState ?t" "live_trans (currTrans ?t)"
    using assms by (auto simp: bt_inv_def)
  then show ?thesis
    using finish_live [OF f(4), of E] bt_inv_put [OF assms(1) f(2)]
    by (cases "finish E ?t") (auto simp: finish_thread_def deref_def)
qed

lemma kill_index_some: "t \<in> set ts \<Longrightarrow> sock_id t = s \<Longrightarrow> \<exists>i<length ts. kill_index s ts = Some i"
  by (induction ts) auto

lemma acceptConn_inv:
  assumes "bt_inv m" "storage (acceptConn grow answer m) = storage m"
  shows "bt_inv (acceptConn grow answer m)"
  using assms
  by (auto simp: acceptConn_def bt_inv_def BtTabObj_def nth_append Let_def less_Suc_eq split: option.splits if_splits)

lemma readTransactionData_sock: "readTransactionData E t = Ok t1 \<Longrightarrow> sock_id t1 = sock_id t"
  by (auto simp: readTransactionData_def upd_trans_def Let_def res_simps split: prod.splits if_splits)

lemma ready_body_inv:
  assumes "bt_inv m" "i < length (connectedTablets m)" "ready_body E fs async i m = Ok m'"
    and "length (connectedTablets m) \<le> length (connectedTablets m')"
  shows "bt_inv m'"
proof -
  let ?t = "connectedTablets m ! i"
  obtain r p where r: "readyToRead (sock ?t) = Some (r, p)"
    using assms(3) by (cases "readyToRead (sock ?t)") (auto simp: ready_body_def Let_def)
  let ?u = "?t\<lparr>sock := p\<rparr>"
  show ?thesis
  proof (cases "\<not> r \<or> undergoingTransaction ?t")
    case True
    then have "m' = put_tab i ?u m" using assms(3) r by (simp add: ready_body_def Let_def)
    then show ?thesis
      using assms(1,2) by (auto simp: bt_inv_def nth_list_update)
  next
    case False
    then have idle: "\<not> transactionState ?t" by (simp add: undergoingTransaction_def)
    obtain t1 t2 where t: "readTransactionData E ?u = Ok t1" "initReadyTransaction E fs async t1 = Ok t2"
      using assms(3) r False by (auto simp: ready_body_def Let_def res_simps)
    have idle2: "\<not> transactionState t2"
      using idle readTransactionData_state [OF t(1)] initReady_state [OF t(2)] by simp
    show ?thesis
    proof (cases "batmanTrans (currTrans t2)")
      case True
      then have m': "m' = snd (killSocket (sock_id t2) (put_tab i t2 m))"
        using assms(3) r False t by (simp add: ready_body_def Let_def)
      obtain j where "kill_index (sock_id t2) ((connectedTablets m)[i := t2]) = Some j" "j < length (connectedTablets m)"
        using kill_index_some [of t2 "(connectedTablets m)[i := t2]"] assms(2) set_update_memI by fastforce
      then have "length (connectedTablets m') < length (connectedTablets m)"
        unfolding m' by (simp add: killSocket_def)
      then show ?thesis using assms(4) by simp
    next
      case alive: False
      obtain b where b: "isReady t2 = Ok b"
        using assms(3) r False t alive by (auto simp: ready_body_def Let_def res_simps)
      show ?thesis
      proof (cases b)
        case True
        then obtain v t3 where v: "handleTransResult E t2 = Ok (v, t3)" "m' = store_match v (put_tab i t3 m)"
          using assms(3) r False t alive b by (auto simp: ready_body_def Let_def res_simps)
        then show ?thesis
          using bt_inv_put [OF assms(1,2), of t3] idle idle2 handleTransResult_state [OF v(1)] by simp
      next
        case nb: False
        then have m': "m' = (put_tab i (setTransactionState True t2) m)
            \<lparr>runningTransactions := runningTransactions m @ [(storage m, i)]\<rparr>"
          using assms(3) r False t alive b by (simp add: ready_body_def Let_def)
        have "live_trans (currTrans t2)" using started_live [OF t(2) alive] b nb by simp
        moreover have "(storage m, i) \<notin> set (runningTransactions m)" using assms(1) idle by (auto simp: bt_inv_def)
        ultimately show ?thesis
          using assms(1,2) unfolding m' bt_inv_def
          by (auto simp: nth_list_update setTransactionState_def)
      qed
    qed
  qed
qed

definition calm_step :: "alloc_env \<Rightarrow> db_files \<Rightarrow> (nat \<Rightarrow> nat) \<Rightarrow> bluetooth \<Rightarrow> bluetooth \<Rightarrow> bool" where
  "calm_step E fs grow m m' \<longleftrightarrow> bt_step E fs grow m m' \<and> storage m' = storage m \<and>
     length (connectedTablets m) \<le> length (connectedTablets m')"

lemma bt_step_inv:
  assumes "bt_step E fs grow m m'" "storage m' = storage m" "bt_inv m"
    and "length (connectedTablets m) \<le> length (connectedTablets m')"
  shows "bt_inv m'"
  using assms
proof (induction m m' rule: bt_step.induct)
  case (Collect m m')
  then show ?case using running_loop_inv [of m E 0] by (simp add: handleRunningTransactions_def)
next
  case (Ready i m async m')
  then show ?case using ready_body_inv by blast
next
  case (Thread ptr m m')
  then show ?case using finish_thread_inv by blast
qed (use acceptConn_inv in blast)

section \<open>Properties\<close>

text \<open>
  C24. As long as no step moves or erases a tablet object, every state the manager reaches from a
  good one is good: each running transaction points to a connected tablet that is marked as
  busy and whose future is valid, and every busy tablet is in the list exactly once. In such
  a state neither collecting the results nor the end of a thread uses a dangling pointer.
\<close>
theorem calm_invariant:
  assumes "(calm_step E fs grow)\<^sup>*\<^sup>* m0 m" "bt_inv m0"
  shows "bt_inv m \<and> handleRunningTransactions E m \<noteq> UB \<and>
    (\<forall>ptr\<in>set (runningTransactions m). finish_thread E ptr m \<noteq> UB)"
proof -
  have "bt_inv m" using assms
    by (induction rule: rtranclp_induct) (auto simp: calm_step_def intro: bt_step_inv)
  then show ?thesis
    using running_loop_inv finish_thread_inv by (metis handleRunningTransactions_def)
qed

lemma hex_digit_inj: "a < 16 \<Longrightarrow> b < 16 \<Longrightarrow> hex_digit a = hex_digit b \<Longrightarrow> a = b"
proof -
  have "\<forall>a\<in>set (map word_of_nat [0..<16]). \<forall>b\<in>set (map word_of_nat [0..<16]).
      hex_digit a = hex_digit b \<longrightarrow> a = (b :: u8)" by code_simp
  moreover have "c \<in> set (map word_of_nat [0..<16])" if "c < 16" for c :: u8
    using that by (auto simp: image_iff word_less_nat_alt intro!: bexI [of _ "unat c"])
  ultimately show "a < 16 \<Longrightarrow> b < 16 \<Longrightarrow> hex_digit a = hex_digit b \<Longrightarrow> a = b" by blast
qed

lemma hex_byte_inj: "hex_byte a = hex_byte b \<Longrightarrow> a = b"
proof -
  assume h: "hex_byte a = hex_byte b"
  have m: "c AND 0x0f = take_bit 4 c" for c :: u8
    by (simp add: take_bit_eq_mask mask_eq_exp_minus_1)
  have "drop_bit 4 c < 16" "c AND 0x0f < 16" for c :: u8
    unfolding m using unat_byte_lt [of c]
    by (simp_all add: word_less_nat_alt drop_bit_eq_div take_bit_eq_mod unat_div unat_mod less_mult_imp_div_less)
  with h have e: "drop_bit 4 a = drop_bit 4 b" "a AND 0x0f = b AND 0x0f"
    by (auto simp: hex_byte_def intro: hex_digit_inj)
  have "c = push_bit 4 (drop_bit 4 c) + take_bit 4 c" for c :: u8
    using bits_ident [of 4 c] by simp
  with e [unfolded m] show "a = b" by metis
qed

lemma hex_byte_two: "\<exists>x y. hex_byte b = [x, y]"
  by (simp add: hex_byte_def)

text \<open>
  The text of a Bluetooth address determines the address: two tablets are never shown under
  the same default name.
\<close>
theorem getMacStr_inj:
  assumes "length a = 6" "length b = 6" "getMacStr a = getMacStr b"
  shows "a = b"
proof -
  obtain a0 a1 a2 a3 a4 a5 where a: "a = [a0, a1, a2, a3, a4, a5]"
    using assms(1) by (auto simp: eval_nat_numeral length_Suc_conv)
  obtain b0 b1 b2 b3 b4 b5 where b: "b = [b0, b1, b2, b3, b4, b5]"
    using assms(2) by (auto simp: eval_nat_numeral length_Suc_conv)
  have l: "length (hex_byte c) = 2" for c by (simp add: hex_byte_def)
  have "hex_byte a0 = hex_byte b0 \<and> hex_byte a1 = hex_byte b1 \<and> hex_byte a2 = hex_byte b2 \<and>
    hex_byte a3 = hex_byte b3 \<and> hex_byte a4 = hex_byte b4 \<and> hex_byte a5 = hex_byte b5"
    using assms(3) by (simp add: a b l)
  then show ?thesis by (simp add: a b hex_byte_inj)
qed

lemma kill_index_sound: "kill_index s ts = Some i \<Longrightarrow> i < length ts \<and> sock_id (ts ! i) = s"
  by (induction ts arbitrary: i) (auto split: if_splits)

section \<open>Samples\<close>

text \<open>A tablet that will answer \<open>select\<close> often enough, and a manager with two of them.\<close>

definition sel_tab :: "nat \<Rightarrow> bytes \<Rightarrow> bt_tab_obj" where
  "sel_tab s rx = (tab_with rx)\<lparr>sock_id := s, sock := (sock (tab_with rx))\<lparr>px_sel := replicate 9 1\<rparr>\<rparr>"

definition two_tabs :: bluetooth where
  "two_tabs = bt_init\<lparr>connectedTablets := [setCallType CALLTYPE_ASYNCHRONOUS (sel_tab 1 [1, 1, 0, 0, 0, 65]),
     setCallType CALLTYPE_ASYNCHRONOUS (sel_tab 2 [1, 1, 0, 0, 0, 66])], capacity := 2\<rparr>"

definition closing_tabs :: bluetooth where
  "closing_tabs = bt_init\<lparr>connectedTablets := [(sel_tab 1 [0])\<lparr>sock := (sock (sel_tab 1 [0]))\<lparr>px_sel := [0, 1, 1, 1]\<rparr>\<rparr>,
     setCallType CALLTYPE_ASYNCHRONOUS (sel_tab 2 [1, 1, 0, 0, 0, 66])], capacity := 2\<rparr>"

definition frame :: "(nat \<times> peer \<times> bytes \<times> u8) option \<Rightarrow> bluetooth \<Rightarrow> (hang, bluetooth) res" where
  "frame answer = updateAllBt all_ok sample_files (\<lambda>c. 2 * c) answer (\<lambda>_. True)"

theorem calm_invariant_witness:
  "\<exists>m. bt_inv m \<and> runningTransactions m = [(0, 1)] \<and> handleRunningTransactions all_ok m \<noteq> UB"
proof -
  have run: "\<exists>m. ready_body all_ok sample_files True 1 two_tabs = Ok m \<and> runningTransactions m = [(0, 1)] \<and>
      storage m = storage two_tabs \<and> length (connectedTablets m) = length (connectedTablets two_tabs)"
  proof (cases "ready_body all_ok sample_files True 1 two_tabs")
    case (Ok m)
    have "rmap (\<lambda>m. (runningTransactions m, storage m, length (connectedTablets m)))
        (ready_body all_ok sample_files True 1 two_tabs) = Ok ([(0, 1)], 0, 2)" by code_simp
    moreover have "storage two_tabs = 0" "length (connectedTablets two_tabs) = 2" by code_simp+
    ultimately show ?thesis using Ok by auto
  next
    case (Err e)
    have "rmap (\<lambda>_. ()) (ready_body all_ok sample_files True 1 two_tabs) = Ok ()" by code_simp
    with Err show ?thesis by simp
  next
    case UB
    have "rmap (\<lambda>_. ()) (ready_body all_ok sample_files True 1 two_tabs) = Ok ()" by code_simp
    with UB show ?thesis by simp
  qed
  then obtain m where m: "ready_body all_ok sample_files True 1 two_tabs = Ok m" "runningTransactions m = [(0, 1)]"
    "storage m = storage two_tabs" "length (connectedTablets m) = length (connectedTablets two_tabs)" by blast
  have "1 < length (connectedTablets two_tabs)" by code_simp
  then have "(calm_step all_ok sample_files (\<lambda>c. 2 * c))\<^sup>*\<^sup>* two_tabs m"
    using m Ready by (intro r_into_rtranclp) (auto simp: calm_step_def)
  moreover have "bt_inv two_tabs" by code_simp
  ultimately show ?thesis using calm_invariant m(2) by blast
qed

text \<open>
  Accepting a connection while a transaction runs moves the tablet objects when the vector
  is full; the next collection of results follows a dangling pointer.
\<close>
theorem accept_dangles:
  "rbind (frame None two_tabs) (frame (Some (3, sample_peer\<lparr>px_sel := [0]\<rparr>, [1, 2, 3, 4, 5, 6], 0))) = UB"
  by code_simp

text \<open>
  Closing the connection of one tablet while a transaction of a later one runs shifts the
  later object; the next collection of results follows a dangling pointer.
\<close>
theorem close_dangles:
  "rbind (frame None closing_tabs) (frame None) = UB"
  by code_simp

text \<open>
  A tablet that asks to be disconnected has its socket closed twice, although the second call
  is forbidden: once by the conductor and once by the manager.
\<close>
theorem closed_twice:
  "rbind (ready_body all_ok sample_files True 0 (bt_init\<lparr>connectedTablets := [sel_tab 1 [0]]\<rparr>))
     (\<lambda>m. Ok (map (\<lambda>t. px_closed (sock t)) (erased m))) = Ok [2]"
  by code_simp

theorem getMacStr_inj_witness:
  "getMacStr [1, 2, 3, 4, 5, 0xab] \<noteq> getMacStr [1, 2, 3, 4, 5, 0xac]"
proof
  assume "getMacStr [1, 2, 3, 4, 5, 0xab] = getMacStr [1, 2, 3, 4, 5, 0xac]"
  from getMacStr_inj [OF _ _ this] show False by simp
qed

end
