(* ===== verification/Scout_Data.thy ===== *)
theory Scout_Data
  imports Charset
begin

text \<open>
  From a message of a tablet to the database (\<^verbatim>\<open>jsonParser.hpp\<close>, \<^verbatim>\<open>database.hpp\<close>,
  \<^verbatim>\<open>DatabaseMan.hpp\<close> and the structures of \<^verbatim>\<open>datapointStruct.hpp\<close>): the reading of the
  JSON documents into data points, the statements built from them, and the results of
  queries. The library \<open>nlohmann::json\<close> is used through its documented access functions,
  below; parsing of the text is a parameter. Toasts, the console and the log file are not
  modelled.
\<close>

section \<open>JSON values\<close>

text \<open>
  An object lists its members by ascending key, as the library iterates over them. A float
  is represented by the integer it is converted to.
\<close>

datatype json = JNull | JBool bool | JInt int | JFloat int | JStr bytes
  | JArr "json list" | JObj "(bytes \<times> json) list"

text \<open>\<open>operator[]\<close> with a key; \<open>None\<close> is the exception of a value that is no object.\<close>

fun member :: "json \<Rightarrow> bytes \<Rightarrow> json option" where
  "member JNull k = Some JNull"
| "member (JObj kvs) k = Some (case map_of kvs k of None \<Rightarrow> JNull | Some v \<Rightarrow> v)"
| "member _ k = None"

fun elements :: "json \<Rightarrow> json list" where
  "elements JNull = []"
| "elements (JArr xs) = xs"
| "elements (JObj kvs) = map snd kvs"
| "elements v = [v]"

fun get_string :: "json \<Rightarrow> bytes option" where
  "get_string (JStr s) = Some s"
| "get_string _ = None"

definition wrap_int :: "int \<Rightarrow> int" where
  "wrap_int i = sint (word_of_int i :: u32)"

fun get_int :: "json \<Rightarrow> int option" where
  "get_int (JInt i) = Some (wrap_int i)"
| "get_int (JFloat i) = Some i"
| "get_int (JBool b) = Some (if b then 1 else 0)"
| "get_int _ = None"

definition string_member :: "json \<Rightarrow> string \<Rightarrow> bytes option" where
  "string_member e k = Option.bind (member e (ascii k)) get_string"

text \<open>\<open>!e[k].is_null() ? e[k] : d\<close>, with the conversion \<open>f\<close>.\<close>

definition member_or :: "(json \<Rightarrow> 'a option) \<Rightarrow> json \<Rightarrow> string \<Rightarrow> 'a \<Rightarrow> 'a option" where
  "member_or f e k d = Option.bind (member e (ascii k)) (\<lambda>v. if v = JNull then Some d else f v)"

section \<open>Data points\<close>

record match_datapoint =
  scouterID :: bytes
  matchID :: bytes
  teamID :: bytes
  datapointID :: bytes
  DCValue :: bytes
  DCTimestamp :: bytes
  AllianceId :: bytes

record team_datapoint =
  teamNum :: int
  teamName :: bytes
  teamDesc :: bytes

record matchlist_datapoint =
  MatchId :: int
  BAmatchId :: bytes
  MatchDesc :: bytes

definition quoted :: "bytes \<Rightarrow> bytes" where
  "quoted s = [0x27] @ s @ [0x27]"

definition match_element :: "json \<Rightarrow> match_datapoint option" where
  "match_element e =
     Option.bind (string_member e ''scouterID'') (\<lambda>sc.
     Option.bind (string_member e ''datapointID'') (\<lambda>dp.
     Option.bind (string_member e ''teamID'') (\<lambda>tm.
     Option.bind (string_member e ''matchID'') (\<lambda>mt.
     Option.bind (string_member e ''DCValue'') (\<lambda>dv.
     Option.bind (string_member e ''DCTimestamp'') (\<lambda>stuff.
     Option.bind (string_member e ''allianceID'') (\<lambda>al.
       Some \<lparr>scouterID = sc, matchID = mt, teamID = tm, datapointID = dp, DCValue = dv,
             DCTimestamp = (if stuff = ascii ''noShow'' then ascii ''NULL'' else quoted stuff),
             AllianceId = al\<rparr>)))))))"

text \<open>
  The loops push a data point after it is complete; an exception ends the loop and leaves
  the data points pushed so far.
\<close>

fun collect :: "(json \<Rightarrow> 'a option) \<Rightarrow> json list \<Rightarrow> 'a list" where
  "collect f [] = []"
| "collect f (e # es) = (case f e of None \<Rightarrow> [] | Some d \<Rightarrow> d # collect f es)"

definition parseMatch :: "json \<Rightarrow> match_datapoint list" where
  "parseMatch data = (case member data (ascii ''scoutingData'') of None \<Rightarrow> []
     | Some arr \<Rightarrow> collect match_element (elements arr))"

definition team_element :: "json \<Rightarrow> team_datapoint option" where
  "team_element e =
     Option.bind (member_or get_string e ''nickname'' (ascii ''NULL'')) (\<lambda>nm.
     Option.bind (member_or get_int e ''team_number'' 0) (\<lambda>nr.
     Option.bind (member_or get_string e ''website'' (ascii ''NULL'')) (\<lambda>ws.
       Some \<lparr>teamNum = nr, teamName = nm, teamDesc = ws\<rparr>)))"

definition parseTeams :: "json \<Rightarrow> team_datapoint list" where
  "parseTeams data = collect team_element (elements data)"

fun collect_matches :: "int \<Rightarrow> json list \<Rightarrow> matchlist_datapoint list" where
  "collect_matches i [] = []"
| "collect_matches i (e # es) =
     (case Option.bind (member_or get_string e ''key'' (ascii ''NULL'')) (\<lambda>k.
           Option.bind (member_or get_string e ''comp_level'' (ascii ''NULL'')) (\<lambda>c.
             Some \<lparr>MatchId = i, BAmatchId = k, MatchDesc = c\<rparr>))
      of None \<Rightarrow> [] | Some d \<Rightarrow> d # collect_matches (i + 1) es)"

definition parseMatchList :: "json \<Rightarrow> matchlist_datapoint list" where
  "parseMatchList data = collect_matches 0 (elements data)"

text \<open>The constructor: a text that does not parse leaves the null value.\<close>

definition JsonParser :: "(bytes \<Rightarrow> json option) \<Rightarrow> bytes \<Rightarrow> json" where
  "JsonParser parse datan = (case parse datan of None \<Rightarrow> JNull | Some j \<Rightarrow> j)"

section \<open>Statements\<close>

definition to_string :: "int \<Rightarrow> bytes" where
  "to_string i = (if i < 0 then 0x2d # dec_digits (nat (- i)) else dec_digits (nat i))"



definition mysql_escape_string :: "bytes \<Rightarrow> nat \<Rightarrow> (unit, nat \<times> bytes) res" where
  "mysql_escape_string from len = mysql_cset_escape_slashes ma_default_charset_info from len"

text \<open>
  The text of \<open>Database::query\<close>: every question mark of the template takes the next argument,
  a C string or null. Running out of arguments, and a failed allocation, are \<open>UB\<close>. What is
  inserted ends at the first terminator of the escaped text.
\<close>

definition cstr :: "bytes \<Rightarrow> bytes" where
  "cstr bs = takeWhile (\<lambda>b. b \<noteq> 0) bs"


text \<open>
  The statements of \<open>DatabaseMan\<close>, in the order they are executed. \<open>execQuery\<close> hands a C string
  to the client, so a statement ends at its first terminator.
\<close>

definition match_row :: "match_datapoint \<Rightarrow> bytes" where
  "match_row d = matchID d @ ascii '','' @ scouterID d @ ascii '','' @ datapointID d @ ascii '','' @ quoted (DCValue d) @
     ascii '','' @ teamID d @ ascii '','' @ quoted (AllianceId d) @ ascii '','' @ DCTimestamp d"

definition match_insert :: bytes where
  "match_insert = ascii (''insert into matchtransaction ( MatchId, ScouterID, DatapointID,  DCValue, TeamID, '' @
     ''AllianceID, DCTimestamp) values ('')"

definition addMatchDatapoints :: "match_datapoint list \<Rightarrow> bytes list" where
  "addMatchDatapoints ds = map (\<lambda>d. cstr (match_insert @ match_row d @ ascii '');'')) ds"

definition clearTeams :: "bytes list" where
  "clearTeams = [ascii ''delete from team'']"


definition addMatchList :: "matchlist_datapoint list \<Rightarrow> bytes list" where
  "addMatchList ms = map (\<lambda>m. cstr (ascii ''insert into scmatch ( MatchId, BAmatchId, Description) values ('' @
     to_string (MatchId m) @ ascii '','' @ quoted (BAmatchId m) @ ascii '','' @ quoted (MatchDesc m) @ ascii '');'')) ms"

section \<open>Results\<close>

text \<open>
  What the server answered: an error, no result set, or rows of fields that may be null.
  \<open>Database::query\<close> reads all fields of a row, \<open>Database::execQuery\<close> the first \<open>len\<close>; a field
  that does not exist is \<open>UB\<close>.
\<close>

datatype answer = Query_error | No_result | Rows "bytes option list list"

fun query_result :: "answer \<Rightarrow> bytes list list" where
  "query_result Query_error = []"
| "query_result No_result = []"
| "query_result (Rows rs) = map (map (\<lambda>f. case f of None \<Rightarrow> ascii ''NULL'' | Some s \<Rightarrow> s)) rs"

fun exec_row :: "nat \<Rightarrow> bytes option list \<Rightarrow> (unit, bytes list) res" where
  "exec_row len r = (if length r < len then UB else Ok (map the (filter (\<lambda>f. f \<noteq> None) (take len r))))"

fun exec_rows :: "nat \<Rightarrow> bytes option list list \<Rightarrow> (unit, bytes list list) res" where
  "exec_rows len [] = Ok []"
| "exec_rows len (r # rs) = rbind (exec_row len r) (\<lambda>x. rmap (Cons x) (exec_rows len rs))"

fun execQuery :: "nat \<Rightarrow> answer \<Rightarrow> (unit, bytes list list) res" where
  "execQuery len (Rows rs) = (if len = 0 then Ok [] else exec_rows len rs)"
| "execQuery len _ = Ok []"

text \<open>The handler of a received match: the statements that are executed.\<close>

definition store_match_message :: "(bytes \<Rightarrow> json option) \<Rightarrow> bytes \<Rightarrow> bytes list" where
  "store_match_message parse msg = addMatchDatapoints (parseMatch (JsonParser parse msg))"

section \<open>Escaping of arguments\<close>





lemma cstr_id [simp]: "0 \<notin> set a \<Longrightarrow> cstr a = a"
  by (auto simp: cstr_def takeWhile_eq_all_conv)

lemma cstr_terminated [simp]: "0 \<notin> set a \<Longrightarrow> cstr (a @ [0]) = a"
proof -
  assume "0 \<notin> set a"
  then have "\<And>x. x \<in> set a \<Longrightarrow> x \<noteq> 0" by auto
  then show ?thesis by (simp add: cstr_def takeWhile_append2)
qed








lemma collect_prefix:
  assumes "list_all2 (\<lambda>e d. f e = Some d) good ds"
  shows "collect f (good @ rest) = ds @ collect f rest"
  using assms by (induction rule: list_all2_induct) auto

section \<open>Properties\<close>

text \<open>
  Reading a match document returns one data point per element, in order, when all elements
  are well formed; the first malformed element ends the reading, and exactly the data points
  before it are kept.
\<close>
theorem parse_match_prefix:
  assumes "list_all2 (\<lambda>e d. match_element e = Some d) good ds"
  shows "parseMatch (JObj [(ascii ''scoutingData'', JArr good)]) = ds \<and>
    (match_element bad = None \<longrightarrow>
      parseMatch (JObj [(ascii ''scoutingData'', JArr (good @ bad # rest))]) = ds)"
  using collect_prefix [OF assms, of "[]"] collect_prefix [OF assms, of "bad # rest"]
  by (simp add: parseMatch_def)


text \<open>Text that closes the literal of a value and opens a second row.\<close>

definition breakout :: "match_datapoint \<Rightarrow> match_datapoint \<Rightarrow> bytes" where
  "breakout d evil = DCValue d @ [0x27] @ ascii '','' @ teamID d @ ascii '','' @ quoted (AllianceId d) @ ascii '','' @
     DCTimestamp d @ ascii ''),('' @ matchID evil @ ascii '','' @ scouterID evil @ ascii '','' @ datapointID evil @
     ascii '','' @ [0x27] @ DCValue evil"

text \<open>
  The statement that stores a match data point is not: its texts are concatenated without
  escaping, so a tablet can send a value that closes the literal and adds a second row of
  its choice to the statement.
\<close>
theorem match_injection:
  assumes "0 \<notin> set (match_row d @ match_row evil)"
    and "teamID evil = teamID d" "AllianceId evil = AllianceId d" "DCTimestamp evil = DCTimestamp d"
  shows "addMatchDatapoints [d\<lparr>DCValue := breakout d evil\<rparr>] =
    [match_insert @ match_row d @ ascii ''),('' @ match_row evil @ ascii '');'']"
proof -
  have z: "0 \<notin> set match_insert" "0 \<notin> set (ascii ''),('')" "0 \<notin> set (ascii '');'')"
    by (simp_all add: match_insert_def ascii_def)
  have "match_row (d\<lparr>DCValue := breakout d evil\<rparr>) = match_row d @ ascii ''),('' @ match_row evil"
    using assms(2-4) by (simp add: match_row_def breakout_def quoted_def)
  with z assms(1) show ?thesis by (simp add: addMatchDatapoints_def)
qed

text \<open>
  \<open>Database::query\<close> reports a null field as the text NULL, \<open>Database::execQuery\<close> leaves it
  out, which shifts the fields after it to the left.
\<close>
theorem exec_drops_nulls:
  "query_result (Rows [[Some a, None, Some b]]) = [[a, ascii ''NULL'', b]] \<and>
   execQuery 3 (Rows [[Some a, None, Some b]]) = Ok [[a, b]]"
  by simp

section \<open>Samples\<close>

definition sample_element :: "string \<Rightarrow> json" where
  "sample_element ts = JObj [(ascii ''DCTimestamp'', JStr (ascii ts)), (ascii ''DCValue'', JStr (ascii ''3'')),
     (ascii ''allianceID'', JStr (ascii ''R'')), (ascii ''datapointID'', JStr (ascii ''7'')),
     (ascii ''matchID'', JStr (ascii ''12'')), (ascii ''scouterID'', JStr (ascii ''4'')), (ascii ''teamID'', JStr (ascii ''1138''))]"

definition sample_point :: "bytes \<Rightarrow> match_datapoint" where
  "sample_point ts = \<lparr>scouterID = ascii ''4'', matchID = ascii ''12'', teamID = ascii ''1138'', datapointID = ascii ''7'',
     DCValue = ascii ''3'', DCTimestamp = ts, AllianceId = ascii ''R''\<rparr>"

lemma sample_element_points:
  "match_element (sample_element ''noShow'') = Some (sample_point (ascii ''NULL''))"
  "match_element (sample_element ''9:00'') = Some (sample_point (quoted (ascii ''9:00'')))"
  "match_element (JInt 5) = None"
  by code_simp+

theorem parse_match_prefix_witness:
  "parseMatch (JObj [(ascii ''scoutingData'', JArr ([sample_element ''noShow''] @ JInt 5 # [sample_element ''9:00'']))]) =
     [sample_point (ascii ''NULL'')]"
  using parse_match_prefix [of "[sample_element ''noShow'']" "[sample_point (ascii ''NULL'')]" "JInt 5" "[sample_element ''9:00'']"]
  by (simp add: sample_element_points)




theorem match_injection_witness:
  "addMatchDatapoints [(sample_point (ascii ''NULL''))\<lparr>DCValue := breakout (sample_point (ascii ''NULL''))
      ((sample_point (ascii ''NULL''))\<lparr>matchID := ascii ''99''\<rparr>)\<rparr>] =
   [match_insert @ match_row (sample_point (ascii ''NULL'')) @ ascii ''),('' @
      match_row ((sample_point (ascii ''NULL''))\<lparr>matchID := ascii ''99''\<rparr>) @ ascii '');'']"
proof (rule match_injection)
  show "0 \<notin> set (match_row (sample_point (ascii ''NULL'')) @
      match_row ((sample_point (ascii ''NULL''))\<lparr>matchID := ascii ''99''\<rparr>))" by code_simp
qed (simp_all add: sample_point_def)

end
