(* ===== verification/Sha1.thy ===== *)
theory Sha1
  imports Prelude
begin

text \<open>
  SHA-1 as the client computes it (\<^verbatim>\<open>ma_sha1.c\<close>), and its equivalence with the definition of
  the standard (FIPS 180-4). The code keeps the message schedule in a ring of sixteen words
  and rotates the roles of the five variables from step to step; a step here returns the
  variables in the roles of the next one, and eighty steps restore the roles. The source
  writes the eighty steps out; \<open>sha1_steps\<close> is their sequence. Clearing the ring after use is not
  modelled: it is a local array of the transformation. The index of the input loop is an
  \<open>unsigned int\<close>; it does not wrap for inputs of less than \<open>2 ^ 32 - 64\<close> bytes, to which the
  theorems are restricted.
\<close>

section \<open>The macros\<close>

definition sha_F :: "u32 \<Rightarrow> u32 \<Rightarrow> u32 \<Rightarrow> u32" where
  "sha_F x y z = z XOR (x AND (y XOR z))"

definition sha_G :: "u32 \<Rightarrow> u32 \<Rightarrow> u32 \<Rightarrow> u32" where
  "sha_G x y z = (x XOR y) XOR z"

definition sha_H :: "u32 \<Rightarrow> u32 \<Rightarrow> u32 \<Rightarrow> u32" where
  "sha_H x y z = (x AND y) OR (z AND (x OR y))"

definition ROTATE_LEFT :: "u32 \<Rightarrow> nat \<Rightarrow> u32" where
  "ROTATE_LEFT x n = push_bit n x OR drop_bit (32 - n) x"

text \<open>\<open>W(i)\<close>: the new word and the ring it is stored in.\<close>

definition sha_W :: "nat \<Rightarrow> u32 list \<Rightarrow> u32 \<times> u32 list" where
  "sha_W i x =
     (let tmp = x ! ((i - 3) mod 16) XOR x ! ((i - 8) mod 16) XOR x ! ((i - 14) mod 16) XOR x ! (i mod 16);
          v = ROTATE_LEFT tmp 1
      in (v, x[i mod 16 := v]))"

type_synonym sha_regs = "u32 \<times> u32 \<times> u32 \<times> u32 \<times> u32"

definition sha_step :: "(u32 \<Rightarrow> u32 \<Rightarrow> u32 \<Rightarrow> u32) \<Rightarrow> u32 \<Rightarrow> sha_regs \<Rightarrow> u32 \<Rightarrow> sha_regs" where
  "sha_step f k r w = (case r of (a, b, c, d, e) \<Rightarrow>
     (e + (f b c d + w + k) + ROTATE_LEFT a 5, a, ROTATE_LEFT b 30, c, d))"

definition sha_FF :: "sha_regs \<Rightarrow> u32 \<Rightarrow> sha_regs" where "sha_FF = sha_step sha_F 0x5A827999"
definition sha_GG :: "sha_regs \<Rightarrow> u32 \<Rightarrow> sha_regs" where "sha_GG = sha_step sha_G 0x6ED9EBA1"
definition sha_HH :: "sha_regs \<Rightarrow> u32 \<Rightarrow> sha_regs" where "sha_HH = sha_step sha_H 0x8F1BBCDC"
definition sha_II :: "sha_regs \<Rightarrow> u32 \<Rightarrow> sha_regs" where "sha_II = sha_step sha_G 0xCA62C1D6"

section \<open>The transformation\<close>

definition sha_macro :: "nat \<Rightarrow> sha_regs \<Rightarrow> u32 \<Rightarrow> sha_regs" where
  "sha_macro i = (if i < 20 then sha_FF else if i < 40 then sha_GG else if i < 60 then sha_HH else sha_II)"

text \<open>Steps \<open>i\<close> to \<open>79\<close>; the first sixteen use the words of the block as they are.\<close>

fun sha1_steps :: "nat \<Rightarrow> nat \<Rightarrow> sha_regs \<times> u32 list \<Rightarrow> sha_regs \<times> u32 list" where
  "sha1_steps i n (r, x) =
     (if n = 0 then (r, x)
      else let (w, x1) = (if i < 16 then (x ! i, x) else sha_W i x)
           in sha1_steps (i + 1) (n - 1) (sha_macro i r w, x1))"

declare sha1_steps.simps [simp del]

definition be_word :: "u8 \<Rightarrow> u8 \<Rightarrow> u8 \<Rightarrow> u8 \<Rightarrow> u32" where
  "be_word b0 b1 b2 b3 = ((ucast b3 OR push_bit 8 (ucast b2)) OR push_bit 16 (ucast b1)) OR push_bit 24 (ucast b0)"

fun ma_SHA1Decode :: "bytes \<Rightarrow> u32 list" where
  "ma_SHA1Decode (b0 # b1 # b2 # b3 # bs) = be_word b0 b1 b2 b3 # ma_SHA1Decode bs"
| "ma_SHA1Decode _ = []"

fun ma_SHA1Encode :: "u32 list \<Rightarrow> bytes" where
  "ma_SHA1Encode [] = []"
| "ma_SHA1Encode (w # ws) =
     [ucast (drop_bit 24 w AND 0xff), ucast (drop_bit 16 w AND 0xff), ucast (drop_bit 8 w AND 0xff), ucast (w AND 0xff)]
     @ ma_SHA1Encode ws"

fun regs_of :: "u32 list \<Rightarrow> sha_regs" where
  "regs_of [a, b, c, d, e] = (a, b, c, d, e)"
| "regs_of _ = (0, 0, 0, 0, 0)"

definition ma_SHA1Transform :: "u32 list \<Rightarrow> bytes \<Rightarrow> u32 list" where
  "ma_SHA1Transform state block =
     (let ((a, b, c, d, e), x) = sha1_steps 0 80 (regs_of state, ma_SHA1Decode block)
      in [state ! 0 + a, state ! 1 + b, state ! 2 + c, state ! 3 + d, state ! 4 + e])"

section \<open>Contexts\<close>

record sha1_ctx =
  sc_state :: "u32 list"
  sc_count0 :: u32
  sc_count1 :: u32
  sc_buffer :: bytes

definition ma_SHA1Init :: "sha1_ctx \<Rightarrow> sha1_ctx" where
  "ma_SHA1Init ctx = ctx\<lparr>sc_count0 := 0, sc_count1 := 0,
     sc_state := [0x67452301, 0xefcdab89, 0x98badcfe, 0x10325476, 0xc3d2e1f0]\<rparr>"

text \<open>The loop over the whole blocks of the input, from index \<open>i\<close>.\<close>

function sha1_blocks :: "u32 list \<Rightarrow> bytes \<Rightarrow> nat \<Rightarrow> nat \<times> u32 list" where
  "sha1_blocks state inp i =
     (if i + 63 < length inp then sha1_blocks (ma_SHA1Transform state (take 64 (drop i inp))) inp (i + 64)
      else (i, state))"
  by pat_completeness auto
termination
  by (relation "measure (\<lambda>(state, inp, i). length inp - i)") auto

declare sha1_blocks.simps [simp del]

definition buf_write :: "bytes \<Rightarrow> nat \<Rightarrow> bytes \<Rightarrow> bytes" where
  "buf_write buf i bs = take i buf @ bs @ drop (i + length bs) buf"

definition ma_SHA1Update :: "sha1_ctx \<Rightarrow> bytes \<Rightarrow> sha1_ctx" where
  "ma_SHA1Update ctx inp =
     (let index = unat (drop_bit 3 (sc_count0 ctx) AND 0x3f);
          n = (word_of_nat (length inp) :: u32);
          c0 = sc_count0 ctx + push_bit 3 n;
          c1 = (if c0 < push_bit 3 n then sc_count1 ctx + 1 else sc_count1 ctx) + drop_bit 29 n;
          partLen = 64 - index;
          ctx1 = ctx\<lparr>sc_count0 := c0, sc_count1 := c1\<rparr>
      in if partLen \<le> length inp then
           (let buf = buf_write (sc_buffer ctx) index (take partLen inp);
                (i, st) = sha1_blocks (ma_SHA1Transform (sc_state ctx) buf) inp partLen
            in ctx1\<lparr>sc_state := st, sc_buffer := buf_write buf 0 (drop i inp)\<rparr>)
         else ctx1\<lparr>sc_buffer := buf_write (sc_buffer ctx) index inp\<rparr>)"

definition PADDING :: bytes where
  "PADDING = 0x80 # replicate 63 0"

text \<open>The digest and the cleared context.\<close>

definition ma_SHA1Final :: "sha1_ctx \<Rightarrow> bytes \<times> sha1_ctx" where
  "ma_SHA1Final ctx =
     (let be = (\<lambda>w. [ucast (drop_bit 24 w AND 0xff), ucast (drop_bit 16 w AND 0xff),
                      ucast (drop_bit 8 w AND 0xff), ucast (w AND 0xff :: u32)] :: bytes);
          bits = be (sc_count1 ctx) @ be (sc_count0 ctx);
          index = unat (drop_bit 3 (sc_count0 ctx) AND 0x3f);
          padLen = (if index < 56 then 56 - index else 120 - index);
          ctx1 = ma_SHA1Update ctx (take padLen PADDING);
          ctx2 = ma_SHA1Update ctx1 bits
      in (ma_SHA1Encode (sc_state ctx2),
          ctx2\<lparr>sc_state := replicate 5 0, sc_count0 := 0, sc_count1 := 0, sc_buffer := replicate 64 0\<rparr>))"

section \<open>The standard\<close>

text \<open>The functions, constants and the message schedule of FIPS 180-4, sections 4.1.1, 4.2.1 and 6.1.2.\<close>

definition fips_f :: "nat \<Rightarrow> u32 \<Rightarrow> u32 \<Rightarrow> u32 \<Rightarrow> u32" where
  "fips_f t x y z =
     (if t < 20 then (x AND y) XOR (NOT x AND z)
      else if t < 40 then x XOR y XOR z
      else if t < 60 then (x AND y) XOR (x AND z) XOR (y AND z)
      else x XOR y XOR z)"

definition fips_K :: "nat \<Rightarrow> u32" where
  "fips_K t = (if t < 20 then 0x5a827999 else if t < 40 then 0x6ed9eba1 else if t < 60 then 0x8f1bbcdc else 0xca62c1d6)"

fun fips_W :: "u32 list \<Rightarrow> nat \<Rightarrow> u32" where
  "fips_W M t = (if t < 16 then M ! t
     else word_rotl 1 (fips_W M (t - 3) XOR fips_W M (t - 8) XOR fips_W M (t - 14) XOR fips_W M (t - 16)))"

declare fips_W.simps [simp del]

definition fips_step :: "u32 list \<Rightarrow> sha_regs \<Rightarrow> nat \<Rightarrow> sha_regs" where
  "fips_step M r t = (case r of (a, b, c, d, e) \<Rightarrow>
     (word_rotl 5 a + fips_f t b c d + e + fips_K t + fips_W M t, a, word_rotl 30 b, c, d))"

text \<open>The sixteen words of a block, each from four bytes with the most significant first.\<close>

definition fips_words :: "bytes \<Rightarrow> u32 list" where
  "fips_words block = map (\<lambda>i. word_rcat (take 4 (drop (4 * i) block))) [0..<16]"

definition fips_compress :: "u32 list \<Rightarrow> bytes \<Rightarrow> u32 list" where
  "fips_compress H block =
     (let (a, b, c, d, e) = foldl (fips_step (fips_words block)) (regs_of H) [0..<80]
      in [H ! 0 + a, H ! 1 + b, H ! 2 + c, H ! 3 + d, H ! 4 + e])"

section \<open>The transformation is the compression function\<close>

lemma sha_F_Ch: "sha_F x y z = (x AND y) XOR (NOT x AND z)"
  by (rule bit_word_eqI) (auto simp: sha_F_def bit_simps)

lemma sha_H_Maj: "sha_H x y z = (x AND y) XOR (x AND z) XOR (y AND z)"
  by (rule bit_word_eqI) (auto simp: sha_H_def bit_simps)

lemma sha_G_Parity: "sha_G x y z = x XOR y XOR z"
  by (simp add: sha_G_def xor.assoc)

lemma ROTATE_LEFT_rotl: "0 < n \<Longrightarrow> n < 32 \<Longrightarrow> ROTATE_LEFT x n = word_rotl n x"
proof (rule bit_word_eqI)
  fix k
  assume a: "0 < n" "n < 32" "k < LENGTH(32)"
  show "bit (ROTATE_LEFT x n) k = bit (word_rotl n x) k"
  proof (cases "k < n")
    case True
    then have "(k + 32 - n) mod 32 = 32 + k - n" "(k + (32 - n)) mod 32 = 32 + k - n" using a by simp_all
    moreover have "32 - n + k = 32 + k - n" using a by simp
    ultimately show ?thesis using a True by (simp add: ROTATE_LEFT_def bit_simps bit_word_rotl_iff)
  next
    case False
    then have "(k + 32 - n) mod 32 = k - n" "(k + (32 - n)) mod 32 = k - n" using a by (simp_all add: mod_if)
    moreover have "\<not> bit x (32 - n + k)" using a False bit_imp_le_length [of x "32 - n + k"] by auto
    ultimately show ?thesis using a False by (simp add: ROTATE_LEFT_def bit_simps bit_word_rotl_iff)
  qed
qed

lemma sha_macro_step: "i < 80 \<Longrightarrow> w = fips_W M i \<Longrightarrow> sha_macro i r w = fips_step M r i"
  by (cases r) (simp add: sha_macro_def sha_FF_def sha_GG_def sha_HH_def sha_II_def sha_step_def fips_step_def
      fips_f_def fips_K_def sha_F_Ch sha_H_Maj sha_G_Parity ROTATE_LEFT_rotl)

text \<open>The ring before step \<open>i\<close> holds the last sixteen words of the schedule.\<close>

definition ring :: "u32 list \<Rightarrow> nat \<Rightarrow> u32 list \<Rightarrow> bool" where
  "ring M i x \<longleftrightarrow> length x = 16 \<and> (\<forall>j. i \<le> j + 16 \<and> j < max i 16 \<longrightarrow> x ! (j mod 16) = fips_W M j)"

lemma ring_init: "length M = 16 \<Longrightarrow> ring M 0 M"
  by (auto simp: ring_def fips_W.simps)

lemma ring_early: "ring M i x \<Longrightarrow> i < 16 \<Longrightarrow> x ! i = fips_W M i \<and> ring M (i + 1) x"
  by (auto simp: ring_def dest: spec [of _ i])

lemma ring_late:
  assumes "ring M i x" "16 \<le> i"
  shows "fst (sha_W i x) = fips_W M i \<and> ring M (i + 1) (snd (sha_W i x))"
proof -
  have at: "x ! (j mod 16) = fips_W M j" if "i \<le> j + 16" "j < i" for j
    using assms that by (auto simp: ring_def)
  have m: "(i - 16) mod 16 = i mod 16" using assms(2) by (simp add: mod_if)
  have "x ! (i mod 16) = fips_W M (i - 16)" using at [of "i - 16"] assms(2) m by simp
  then have v: "fst (sha_W i x) = fips_W M i"
    using at [of "i - 3"] at [of "i - 8"] at [of "i - 14"] assms(2)
    by (subst fips_W.simps) (simp add: sha_W_def ROTATE_LEFT_rotl Let_def)
  have x: "snd (sha_W i x) = x[i mod 16 := fips_W M i]"
    using v by (simp add: sha_W_def Let_def)
  have l: "length x = 16" using assms(1) by (simp add: ring_def)
  have "snd (sha_W i x) ! (j mod 16) = fips_W M j" if "i + 1 \<le> j + 16" "j < i + 1" for j
  proof (cases "j = i")
    case False
    have "j mod 16 \<noteq> i mod 16"
    proof
      assume e: "j mod 16 = i mod 16"
      have "16 dvd i - j" using that False e by (simp add: mod_eq_dvd_iff_nat [symmetric])
      then have "16 \<le> i - j" using that False by (intro dvd_imp_le) auto
      with that False show False by auto
    qed
    then show ?thesis using at [of j] that False x by simp
  qed (use x l in simp)
  with v x l assms(2) show ?thesis by (auto simp: ring_def)
qed

lemma sha1_steps_fips:
  assumes "ring M i x" "i + n = 80"
  shows "fst (sha1_steps i n (r, x)) = foldl (fips_step M) r [i..<80]"
  using assms
proof (induction n arbitrary: i r x)
  case 0
  then show ?case by (simp add: sha1_steps.simps)
next
  case (Suc n)
  obtain w x1 where w: "(if i < 16 then (x ! i, x) else sha_W i x) = (w, x1)" by (metis surj_pair)
  have s: "w = fips_W M i" "ring M (i + 1) x1"
    using w ring_early [OF Suc.prems(1)] ring_late [OF Suc.prems(1)] by (auto split: if_splits)
  have i: "i < 80" using Suc.prems(2) by simp
  have "fst (sha1_steps (i + 1) n (sha_macro i r w, x1)) = foldl (fips_step M) (sha_macro i r w) [i + 1..<80]"
    using s(2) Suc.prems(2) by (intro Suc.IH) simp_all
  moreover have "[i..<80] = i # [i + 1..<80]" using i by (simp add: upt_conv_Cons)
  ultimately show ?case
    using sha_macro_step [OF i s(1), of r] by (subst sha1_steps.simps) (simp add: w)
qed

lemma be_word_rcat: "be_word a b c d = word_rcat [a, b, c, d]"
proof -
  have 1: "ucast d OR push_bit 8 (ucast c) = (ucast d + push_bit 8 (ucast c) :: u32)"
    by (rule disjunctive_add_eq_or [symmetric], rule bit_word_eqI) (auto simp: bit_simps dest: bit_imp_le_length)
  have 2: "(ucast d OR push_bit 8 (ucast c)) OR push_bit 16 (ucast b) = ((ucast d OR push_bit 8 (ucast c)) + push_bit 16 (ucast b) :: u32)"
    by (rule disjunctive_add_eq_or [symmetric], rule bit_word_eqI) (auto simp: bit_simps dest: bit_imp_le_length)
  have 3: "((ucast d OR push_bit 8 (ucast c)) OR push_bit 16 (ucast b)) OR push_bit 24 (ucast a)
      = (((ucast d OR push_bit 8 (ucast c)) OR push_bit 16 (ucast b)) + push_bit 24 (ucast a) :: u32)"
    by (rule disjunctive_add_eq_or [symmetric], rule bit_word_eqI) (auto simp: bit_simps dest: bit_imp_le_length)
  show ?thesis
    unfolding be_word_def 3 unfolding 2 unfolding 1
    by (simp add: word_rcat_def push_bit_eq_mult algebra_simps flip: unsigned_ucast_eq)
qed

lemma decode_words: "length bs = 4 * n \<Longrightarrow> ma_SHA1Decode bs = map (\<lambda>i. word_rcat (take 4 (drop (4 * i) bs))) [0..<n]"
proof (induction n arbitrary: bs)
  case (Suc n)
  then obtain a b c d r where bs: "bs = a # b # c # d # r" by (auto simp: length_Suc_conv numeral_eq_Suc)
  have d: "drop (4 * Suc i) bs = drop (4 * i) r" for i by (simp add: bs numeral_eq_Suc)
  have "ma_SHA1Decode r = map (\<lambda>i. word_rcat (take 4 (drop (4 * i) r))) [0..<n]" using Suc bs by simp
  moreover have "map (\<lambda>i. word_rcat (take 4 (drop (4 * i) bs))) [0..<Suc n]
      = (word_rcat (take 4 bs) :: u32) # map (\<lambda>i. word_rcat (take 4 (drop (4 * i) r))) [0..<n]"
    unfolding upt_conv_Cons [OF zero_less_Suc] map_Suc_upt [symmetric] by (simp add: d [simplified])
  moreover have "ma_SHA1Decode bs = word_rcat (take 4 bs) # ma_SHA1Decode r" by (simp add: bs be_word_rcat)
  ultimately show ?case by (simp only:)
qed simp

lemma transform_fips:
  assumes "length block = 64"
  shows "ma_SHA1Transform state block = fips_compress state block"
proof -
  have d: "ma_SHA1Decode block = fips_words block"
    using decode_words [of block 16] assms by (simp add: fips_words_def)
  have "ring (fips_words block) 0 (fips_words block)"
    by (rule ring_init) (simp add: fips_words_def)
  from sha1_steps_fips [OF this, of 80 "regs_of state"] show ?thesis
    by (simp add: ma_SHA1Transform_def fips_compress_def split_beta d)
qed

section \<open>Hashing in pieces\<close>

text \<open>The whole 64-byte blocks of a string, and the chaining value after them.\<close>

function blocks64 :: "bytes \<Rightarrow> bytes list" where
  "blocks64 bs = (if length bs < 64 then [] else take 64 bs # blocks64 (drop 64 bs))"
  by pat_completeness auto
termination
  by (relation "measure length") auto

declare blocks64.simps [simp del]

definition fips_H0 :: "u32 list" where
  "fips_H0 = [0x67452301, 0xefcdab89, 0x98badcfe, 0x10325476, 0xc3d2e1f0]"

definition absorb :: "u32 list \<Rightarrow> bytes \<Rightarrow> u32 list" where
  "absorb st bs = foldl fips_compress st (blocks64 bs)"

lemma blocks64_short: "length bs < 64 \<Longrightarrow> blocks64 bs = []"
  by (simp add: blocks64.simps)

lemma blocks64_block: "length b = 64 \<Longrightarrow> blocks64 (b @ bs) = b # blocks64 bs"
  by (subst blocks64.simps) simp

lemma blocks64_append: "length a = 64 * q \<Longrightarrow> blocks64 (a @ b) = blocks64 a @ blocks64 b"
proof (induction q arbitrary: a)
  case (Suc q)
  have "blocks64 (take 64 a @ drop 64 a @ b) = take 64 a # blocks64 (drop 64 a) @ blocks64 b"
    using Suc by (subst blocks64_block) simp_all
  moreover have "blocks64 (take 64 a @ drop 64 a) = take 64 a # blocks64 (drop 64 a)"
    using Suc.prems by (intro blocks64_block) simp
  ultimately show ?case by (simp flip: append_assoc)
qed (simp add: blocks64_short)

lemma absorb_append: "length a = 64 * q \<Longrightarrow> absorb st (a @ b) = absorb (absorb st a) b"
  by (simp add: absorb_def blocks64_append)

lemma absorb_short: "length b < 64 \<Longrightarrow> absorb st b = st"
  by (simp add: absorb_def blocks64_short)

lemma absorb_block: "length b = 64 \<Longrightarrow> absorb st b = fips_compress st b"
  using blocks64_block [of b "[]"] by (simp add: absorb_def blocks64_short)

lemma sha1_blocks_absorb:
  "i \<le> length inp \<Longrightarrow>
   sha1_blocks st inp i = (i + 64 * ((length inp - i) div 64), absorb st (drop i inp))"
proof (induction st inp i rule: sha1_blocks.induct)
  case (1 st inp i)
  show ?case
  proof (cases "i + 63 < length inp")
    case True
    let ?b = "take 64 (drop i inp)"
    have d: "(length inp - i) div 64 = Suc ((length inp - (i + 64)) div 64)"
      using True div_add_self2 [of 64 "length inp - (i + 64)"] by simp
    have b: "length ?b = 64" using True by simp
    have "drop i inp = ?b @ drop (i + 64) inp" by (metis add.commute append_take_drop_id drop_drop)
    then have "absorb st (drop i inp) = absorb (fips_compress st ?b) (drop (i + 64) inp)"
      using absorb_append [of ?b 1 st "drop (i + 64) inp"] absorb_block [OF b] b by simp
    moreover have "sha1_blocks (ma_SHA1Transform st ?b) inp (i + 64)
        = (i + 64 + 64 * ((length inp - (i + 64)) div 64), absorb (ma_SHA1Transform st ?b) (drop (i + 64) inp))"
      using True by (intro 1) auto
    ultimately show ?thesis
      using True d by (subst sha1_blocks.simps) (simp add: transform_fips [OF b])
  next
    case False
    then have "length inp - i < 64" by simp
    then show ?thesis using False 1 by (subst sha1_blocks.simps) (simp add: absorb_short)
  qed
qed

text \<open>
  A context represents the message fed to it so far: the chaining value of its whole blocks,
  the rest of it in the buffer, and its length in bits in the two counters.
\<close>

definition tail64 :: "bytes \<Rightarrow> bytes" where
  "tail64 m = drop (64 * (length m div 64)) m"

definition represents :: "sha1_ctx \<Rightarrow> bytes \<Rightarrow> bool" where
  "represents ctx m \<longleftrightarrow> sc_state ctx = absorb fips_H0 m \<and> length (sc_buffer ctx) = 64
     \<and> take (length m mod 64) (sc_buffer ctx) = tail64 m
     \<and> sc_count0 ctx = word_of_nat (8 * length m) \<and> sc_count1 ctx = word_of_nat (8 * length m div 2 ^ 32)"

lemma length_rest [simp]: "length (tail64 m) = length m mod 64"
  by (simp add: tail64_def minus_mult_div_eq_mod)

lemma rest_split: obtains a where "m = a @ tail64 m" "length a = 64 * (length m div 64)"
proof
  show "m = take (64 * (length m div 64)) m @ tail64 m" by (simp add: tail64_def)
  show "length (take (64 * (length m div 64)) m) = 64 * (length m div 64)"
    by (simp only: length_take min_absorb2 [OF times_div_less_eq_dividend])
qed

lemma init_represents: "length (sc_buffer ctx) = 64 \<Longrightarrow> represents (ma_SHA1Init ctx) []"
  by (simp add: represents_def ma_SHA1Init_def fips_H0_def absorb_short tail64_def)

lemma index_mod: "unat (drop_bit 3 (word_of_nat (8 * n) :: u32) AND 0x3f) = n mod 64"
proof -
  have m: "(0x3f :: u32) = mask 6" by (simp add: mask_eq_exp_minus_1)
  have "unat (take_bit 6 (drop_bit 3 (word_of_nat (8 * n) :: u32))) = take_bit 6 (drop_bit 3 (unat (word_of_nat (8 * n) :: u32)))"
    by (simp only: unsigned_take_bit_eq unat_drop_bit_eq)
  also have "\<dots> = (8 * n mod 2 ^ 32) div 8 mod 64"
    by (simp only: unat_of_nat take_bit_eq_mod drop_bit_eq_div) simp
  also have "(8 * n mod 2 ^ 32) div 8 = n mod 2 ^ 29"
    using mult_mod_right [of 8 n "2 ^ 29"] by simp
  also have "n mod 2 ^ 29 mod 64 = n mod 64"
    by (rule mod_mod_cancel) simp
  finally show ?thesis unfolding m take_bit_eq_mask .
qed

lemma update_buffer:
  assumes "take k buf = t" "length t = k" "k + length x \<le> length buf"
  shows "length (buf_write buf k x) = length buf" "take (k + length x) (buf_write buf k x) = t @ x"
  using assms by (auto simp: buf_write_def)

text \<open>The counters are the two halves of a 64-bit count of bits; the carry is detected by the wrap.\<close>

lemma wrap_add:
  fixes a b M :: nat
  assumes "a < M" "b < M"
  shows "(a + b) mod M < b \<longleftrightarrow> M \<le> a + b" and "(a + b) div M = (if M \<le> a + b then 1 else 0)"
proof -
  have "(a + b) mod M = a + b - M" "(a + b) div M = 1" if "M \<le> a + b"
    using that assms by (auto simp: le_mod_geq le_div_geq)
  then show "(a + b) mod M < b \<longleftrightarrow> M \<le> a + b" "(a + b) div M = (if M \<le> a + b then 1 else 0)"
    using assms by (cases "M \<le> a + b"; simp)+
qed

lemma count_carry:
  fixes N x :: nat
  assumes "x < 2 ^ 32"
  defines "n \<equiv> word_of_nat x :: u32" and "c \<equiv> word_of_nat N :: u32" and "h \<equiv> word_of_nat (N div 2 ^ 32) :: u32"
  shows "c + push_bit 3 n = word_of_nat (N + 8 * x)"
    and "(if c + push_bit 3 n < push_bit 3 n then h + 1 else h) + drop_bit 29 n = word_of_nat ((N + 8 * x) div 2 ^ 32)"
proof -
  have p: "push_bit 3 n = word_of_nat (8 * x)" by (simp add: n_def push_bit_eq_mult)
  show s: "c + push_bit 3 n = word_of_nat (N + 8 * x)" by (simp add: p c_def)
  have d: "drop_bit 29 n = word_of_nat (8 * x div 2 ^ 32)"
  proof (rule unsigned_word_eqI)
    have "x div 2 ^ 29 < 2 ^ 32" using assms(1) by (meson div_le_dividend le_less_trans)
    moreover have "unat (drop_bit 29 n) = x div 2 ^ 29"
      using assms(1) by (subst unat_drop_bit_eq) (simp add: n_def unat_of_nat drop_bit_eq_div)
    ultimately show "unat (drop_bit 29 n) = unat (word_of_nat (8 * x div 2 ^ 32) :: u32)"
      by (simp add: unat_of_nat)
  qed
  let ?a = "N mod 2 ^ 32" and ?b = "8 * x mod 2 ^ 32"
  have lt: "c + push_bit 3 n < push_bit 3 n \<longleftrightarrow> (?a + ?b) mod 2 ^ 32 < ?b"
    unfolding word_less_nat_alt s unfolding p unat_of_nat by (simp add: mod_add_eq)
  have ab: "?a < 2 ^ 32" "?b < 2 ^ 32" by simp_all
  have carry: "(?a + ?b) mod 2 ^ 32 < ?b \<longleftrightarrow> 2 ^ 32 \<le> ?a + ?b"
    and q: "(?a + ?b) div 2 ^ 32 = (if 2 ^ 32 \<le> ?a + ?b then 1 else 0)"
    using wrap_add [OF ab] by auto
  have "(N + 8 * x) div 2 ^ 32 = N div 2 ^ 32 + 8 * x div 2 ^ 32 + (?a + ?b) div 2 ^ 32"
    by (rule div_add1_eq)
  then show "(if c + push_bit 3 n < push_bit 3 n then h + 1 else h) + drop_bit 29 n = word_of_nat ((N + 8 * x) div 2 ^ 32)"
    unfolding lt carry d q by (simp add: h_def)
qed

lemma add_mod64_less: "(n :: nat) mod 64 + k < 64 \<Longrightarrow> (n + k) mod 64 = n mod 64 + k"
  by (metis mod_add_left_eq mod_less)

lemma add_mod64_full: "(n :: nat) mod 64 + k = 64 \<Longrightarrow> n + k = 64 * (n div 64 + 1)"
  by presburger

text \<open>Feeding a piece of the message to the context appends it to the message represented.\<close>

lemma update_state:
  assumes r: "length b = 64" "b = tail64 m @ x"
  shows "absorb st (m @ x @ y) = absorb (fips_compress (absorb st m) b) y"
proof -
  obtain a where a: "m = a @ tail64 m" "length a = 64 * (length m div 64)" by (rule rest_split)
  have m: "absorb st m = absorb st a"
    using absorb_append [OF a(2), of st "tail64 m"] a(1) by (simp add: absorb_short)
  have e: "m @ x @ y = (a @ b) @ y" using a(1) r(2) by simp
  have "absorb st ((a @ b) @ y) = absorb (absorb st (a @ b)) y"
    by (rule absorb_append [where q = "length m div 64 + 1"]) (simp add: a(2) r(1))
  then show ?thesis unfolding e m absorb_append [OF a(2)] absorb_block [OF r(1)] .
qed

lemma rest_append_short:
  assumes "length m mod 64 + length x < 64"
  shows "tail64 (m @ x) = tail64 m @ x" "absorb st (m @ x) = absorb st m" "length (m @ x) mod 64 = length m mod 64 + length x"
proof -
  obtain a where a: "m = a @ tail64 m" "length a = 64 * (length m div 64)" by (rule rest_split)
  have q: "length (m @ x) div 64 = length m div 64"
    using assms div_add1_eq [of "length m" "length x" 64] by simp
  show "tail64 (m @ x) = tail64 m @ x"
    unfolding tail64_def q using times_div_less_eq_dividend [of 64 "length m"] by simp
  have e: "m @ x = a @ tail64 m @ x" using a(1) by simp
  have "absorb st (m @ x) = absorb st a"
    unfolding e absorb_append [OF a(2)] using assms by (simp add: absorb_short)
  moreover have "absorb st m = absorb st a" using absorb_append [OF a(2), of st "tail64 m"] a(1) by (simp add: absorb_short)
  ultimately show "absorb st (m @ x) = absorb st m" by simp
  show "length (m @ x) mod 64 = length m mod 64 + length x"
    using add_mod64_less [OF assms] by simp
qed

lemma rest_append_long:
  assumes "length m mod 64 + length x = 64"
  shows "tail64 (m @ x @ y) = tail64 y" "length (m @ x @ y) mod 64 = length y mod 64"
proof -
  have l: "length (m @ x) = 64 * (length m div 64 + 1)"
    unfolding length_append using assms by (rule add_mod64_full)
  then have L: "length (m @ x @ y) = 64 * (length m div 64 + 1) + length y" by simp
  have q: "length (m @ x @ y) div 64 = length m div 64 + 1 + length y div 64" unfolding L by simp
  show "length (m @ x @ y) mod 64 = length y mod 64" unfolding L by (rule mod_mult_self4)
  have e: "64 * (length m div 64 + 1 + length y div 64) = length (m @ x) + 64 * (length y div 64)"
    unfolding l by (rule distrib_left)
  have "drop (length z + k) (z @ y) = drop k y" for z k by simp
  from this [of "m @ x"] show "tail64 (m @ x @ y) = tail64 y" unfolding tail64_def q e append_assoc .
qed

lemma update_counts:
  fixes ctx inp
  defines "n \<equiv> word_of_nat (length inp) :: u32" and "u \<equiv> ma_SHA1Update ctx inp"
  shows "sc_count0 u = sc_count0 ctx + push_bit 3 n"
    and "sc_count1 u = (if sc_count0 ctx + push_bit 3 n < push_bit 3 n then sc_count1 ctx + 1 else sc_count1 ctx) + drop_bit 29 n"
  by (simp_all add: u_def n_def ma_SHA1Update_def Let_def split_beta)

lemma update_represents:
  assumes r: "represents ctx m" and l: "length inp < 2 ^ 32 - 64"
  shows "represents (ma_SHA1Update ctx inp) (m @ inp)"
proof -
  let ?k = "length m mod 64" and ?u = "ma_SHA1Update ctx inp"
  have idx: "unat (drop_bit 3 (sc_count0 ctx) AND 0x3f) = ?k"
    using r index_mod by (simp add: represents_def)
  have l': "length inp < 2 ^ 32" using l by simp
  have r0: "sc_count0 ctx = word_of_nat (8 * length m)" and r1: "sc_count1 ctx = word_of_nat (8 * length m div 2 ^ 32)"
    using r by (simp_all only: represents_def)
  have c: "sc_count0 ?u = word_of_nat (8 * length (m @ inp))" "sc_count1 ?u = word_of_nat (8 * length (m @ inp) div 2 ^ 32)"
    unfolding update_counts r0 r1 length_append distrib_left by (rule count_carry [OF l'])+
  show ?thesis
  proof (cases "64 - ?k \<le> length inp")
    case True
    let ?x = "take (64 - ?k) inp" and ?y = "drop (64 - ?k) inp"
    let ?b = "buf_write (sc_buffer ctx) ?k ?x"
    have kx: "?k + length ?x = 64" using True by simp
    have b: "?b = tail64 m @ ?x" "length ?b = 64"
      using update_buffer [of ?k "sc_buffer ctx" "tail64 m" ?x] r kx by (simp_all add: represents_def)
    define i where "i = 64 - ?k + 64 * (length ?y div 64)"
    have "sha1_blocks (ma_SHA1Transform (sc_state ctx) ?b) inp (64 - ?k)
        = (i, absorb (ma_SHA1Transform (sc_state ctx) ?b) ?y)"
      using sha1_blocks_absorb [OF True] by (simp add: i_def)
    moreover have d: "drop i inp = tail64 ?y" by (simp add: i_def tail64_def add.commute)
    ultimately have u: "sc_state ?u = absorb (fips_compress (sc_state ctx) ?b) ?y" "sc_buffer ?u = buf_write ?b 0 (tail64 ?y)"
      using True idx by (simp_all add: ma_SHA1Update_def Let_def transform_fips [OF b(2)])
    have inp: "m @ inp = m @ ?x @ ?y" by simp
    have w: "length (buf_write ?b 0 (tail64 ?y)) = 64" "take (length (tail64 ?y)) (buf_write ?b 0 (tail64 ?y)) = tail64 ?y"
      using update_buffer [of 0 ?b "[]" "tail64 ?y"] b(2) by simp_all
    have "sc_state ?u = absorb fips_H0 (m @ inp)"
      using update_state [OF b(2,1), of fips_H0 ?y] u(1) r by (simp add: represents_def)
    moreover have "take (length (m @ inp) mod 64) (sc_buffer ?u) = tail64 (m @ inp)"
      using rest_append_long [OF kx, of ?y] w(2) u(2) unfolding inp by simp
    ultimately show ?thesis using c w(1) u(2) by (simp add: represents_def)
  next
    case False
    then have s: "?k + length inp < 64" by simp
    have u: "sc_state ?u = sc_state ctx" "sc_buffer ?u = buf_write (sc_buffer ctx) ?k inp"
      using False idx by (simp_all add: ma_SHA1Update_def Let_def)
    show ?thesis
      using update_buffer [of ?k "sc_buffer ctx" "tail64 m" inp] rest_append_short [OF s] r s c u
      by (simp add: represents_def)
  qed
qed

section \<open>The digest\<close>

text \<open>
  The message is padded by a one bit, zeros up to 8 bytes below a multiple of 64, and its
  length in bits as 64 bits; the digest is the chaining value of the padded message (FIPS 180-4, 5.1.1 and 6.1.2).
\<close>

definition be64 :: "nat \<Rightarrow> bytes" where
  "be64 n = map (\<lambda>i. word_of_nat (n div 256 ^ (7 - i))) [0..<8]"

definition be32 :: "u32 \<Rightarrow> bytes" where
  "be32 w = map (\<lambda>i. word_of_nat (unat w div 256 ^ (3 - i))) [0..<4]"

definition fips_pad :: "bytes \<Rightarrow> bytes" where
  "fips_pad m = m @ 0x80 # replicate ((119 - length m mod 64) mod 64) 0 @ be64 (8 * length m)"

definition fips_sha1 :: "bytes \<Rightarrow> bytes" where
  "fips_sha1 m = concat (map be32 (absorb fips_H0 (fips_pad m)))"

lemma byte_of_count:
  assumes "j \<le> 24"
  shows "(ucast (drop_bit j (word_of_nat n :: u32) AND 0xff) :: u8) = word_of_nat (n div 2 ^ j)"
proof (rule bit_word_eqI)
  fix i
  assume i: "i < LENGTH(8)"
  have m: "(0xff :: u32) = mask 8" by (simp add: mask_eq_exp_minus_1)
  have "word_of_nat (n div 2 ^ j) = (of_nat (drop_bit j n) :: u8)" by (simp add: drop_bit_eq_div)
  then show "bit (ucast (drop_bit j (word_of_nat n :: u32) AND 0xff) :: u8) i = bit (word_of_nat (n div 2 ^ j) :: u8) i"
    using i assms by (simp add: m bit_simps)
qed

lemma be32_bytes:
  "be32 w = [ucast (drop_bit 24 w AND 0xff), ucast (drop_bit 16 w AND 0xff), ucast (drop_bit 8 w AND 0xff), ucast (w AND 0xff)]"
proof -
  have "(ucast (drop_bit j w AND 0xff) :: u8) = word_of_nat (unat w div 2 ^ j)" if "j \<le> 24" for j
    using byte_of_count [OF that, of "unat w"] by simp
  from this [of 24] this [of 16] this [of 8] this [of 0] show ?thesis by (simp add: be32_def upt_rec)
qed

lemma encode_be32: "ma_SHA1Encode ws = concat (map be32 ws)"
  by (induction ws) (simp_all add: be32_bytes)

lemma bits_be64: "be32 (word_of_nat (n div 2 ^ 32)) @ be32 (word_of_nat n) = be64 n"
proof -
  note b = byte_of_count [of 24] byte_of_count [of 16] byte_of_count [of 8] byte_of_count [of 0]
  show ?thesis
    using b [of n] b [of "n div 2 ^ 32"] unfolding be32_bytes
    by (simp add: be64_def upt_rec div_mult2_eq [symmetric])
qed

lemma pad_zeros: "k < 64 \<Longrightarrow> (119 - k) mod 64 = (if k < 56 then 55 - k else 119 - k :: nat)"
  using le_mod_geq [of 64 "119 - k"] by auto

lemma padding_bytes: "0 < n \<Longrightarrow> n \<le> 64 \<Longrightarrow> take n PADDING = 0x80 # replicate (n - 1) 0"
  by (cases n) (simp_all add: PADDING_def)

lemma final_fips:
  assumes r: "represents ctx m"
  shows "fst (ma_SHA1Final ctx) = fips_sha1 m"
proof -
  let ?k = "length m mod 64"
  let ?n = "if ?k < 56 then 56 - ?k else 120 - ?k"
  let ?p = "take ?n PADDING"
  have k: "?k < 64" by simp
  have idx: "unat (drop_bit 3 (sc_count0 ctx) AND 0x3f) = ?k"
    using r index_mod by (simp add: represents_def)
  have c: "sc_count0 ctx = word_of_nat (8 * length m)" "sc_count1 ctx = word_of_nat (8 * length m div 2 ^ 32)"
    using r by (simp_all only: represents_def)
  have bits: "be32 (sc_count1 ctx) @ be32 (sc_count0 ctx) = be64 (8 * length m)"
    unfolding c by (rule bits_be64)
  have n: "0 < ?n" "?n \<le> 64" "?n - 1 = (119 - ?k) mod 64" using k pad_zeros [OF k] by auto
  have p: "?p = 0x80 # replicate ((119 - ?k) mod 64) 0"
    using padding_bytes [OF n(1,2)] unfolding n(3) .
  have "length ?p < 2 ^ 32 - 64" "length (be64 (8 * length m)) < 2 ^ 32 - 64"
    using n(2) by (simp_all add: PADDING_def be64_def)
  then have "represents (ma_SHA1Update (ma_SHA1Update ctx ?p) (be64 (8 * length m))) ((m @ ?p) @ be64 (8 * length m))"
    by (intro update_represents r)
  moreover have "(m @ ?p) @ be64 (8 * length m) = fips_pad m" unfolding p fips_pad_def by simp
  moreover have "fst (ma_SHA1Final ctx)
      = ma_SHA1Encode (sc_state (ma_SHA1Update (ma_SHA1Update ctx ?p) (be32 (sc_count1 ctx) @ be32 (sc_count0 ctx))))"
    unfolding ma_SHA1Final_def be32_bytes Let_def idx by simp
  ultimately show ?thesis
    unfolding bits by (simp add: represents_def encode_be32 fips_sha1_def)
qed

text \<open>
  What a client of a digest needs: contexts that represent the message fed to them so far,
  and a final digest that depends on this message only.
\<close>

locale message_digest =
  fixes ok :: "'c \<Rightarrow> bool" and rep :: "'c \<Rightarrow> bytes \<Rightarrow> bool" and limit :: nat
    and init :: "'c \<Rightarrow> 'c" and update :: "'c \<Rightarrow> bytes \<Rightarrow> 'c" and final :: "'c \<Rightarrow> bytes \<times> 'c"
    and digest :: "bytes \<Rightarrow> bytes"
  assumes init_rep: "ok c \<Longrightarrow> rep (init c) []"
    and update_rep: "rep c m \<Longrightarrow> length p < limit \<Longrightarrow> rep (update c p) (m @ p)"
    and final_digest: "rep c m \<Longrightarrow> fst (final c) = digest m"
    and final_ok: "ok (snd (final c))"
begin

lemma updates_rep: "rep c m \<Longrightarrow> list_all (\<lambda>p. length p < limit) ps \<Longrightarrow> rep (foldl update c ps) (m @ concat ps)"
proof (induction ps arbitrary: c m)
  case (Cons p ps)
  then have "rep (update c p) (m @ p)" by (intro update_rep) simp_all
  from Cons.IH [OF this] Cons.prems show ?case by simp
qed simp

lemma digest_pieces:
  assumes "ok c" "list_all (\<lambda>p. length p < limit) ps"
  shows "fst (final (foldl update (init c) ps)) = digest (concat ps)"
  using final_digest [OF updates_rep [OF init_rep [OF assms(1)] assms(2)]] by simp

lemmas digest_one = digest_pieces [of _ "[p]" for p, simplified]
lemmas digest_two = digest_pieces [of _ "[p, q]" for p q, simplified]

end

interpretation sh: message_digest "\<lambda>c. length (sc_buffer c) = 64" represents "2 ^ 32 - 64"
  ma_SHA1Init ma_SHA1Update ma_SHA1Final fips_sha1
  by unfold_locales (simp_all only: init_represents update_represents final_fips, simp add: ma_SHA1Final_def Let_def)

text \<open>
  C22. SHA-1 in pieces: whatever way a message is cut into calls of \<open>ma_SHA1Update\<close> (each of less
  than \<open>2 ^ 32 - 64\<close> bytes), the digest is the one FIPS 180-4 defines for the whole message,
  with its schedule of eighty words, its padding and its 64-bit length.
\<close>
theorem sha1_digest:
  assumes "length (sc_buffer ctx) = 64" "list_all (\<lambda>p. length p < 2 ^ 32 - 64) ps"
  shows "fst (ma_SHA1Final (foldl ma_SHA1Update (ma_SHA1Init ctx) ps)) = fips_sha1 (concat ps)"
  using assms by (rule sh.digest_pieces)

definition sha1_ctx0 :: sha1_ctx where
  "sha1_ctx0 = \<lparr>sc_state = replicate 5 0, sc_count0 = 0, sc_count1 = 0, sc_buffer = replicate 64 0\<rparr>"

theorem sha1_digest_witness:
  "fst (ma_SHA1Final (foldl ma_SHA1Update (ma_SHA1Init sha1_ctx0) [[0x61], [0x62, 0x63]])) = fips_sha1 [0x61, 0x62, 0x63]"
  using sha1_digest [of sha1_ctx0 "[[0x61], [0x62, 0x63]]"] by (simp add: sha1_ctx0_def)

end
