(* ===== verification/Password.thy ===== *)
theory Password
  imports Sha1
begin

text \<open>
  Passwords (\<^verbatim>\<open>ma_password.c\<close>): the hash of old servers and its printed form, the seeds of
  their random numbers, and the reply of the client to the challenge of a server from 4.1
  on, with the check the server makes on it. In the hash \<open>ulong\<close> is a word of any length, since
  it has 32 bits on Windows, as in the random numbers here, and 64 on the servers. \<open>ma_scramble_323\<close> is left out, because it computes with
  \<open>double\<close>s.
\<close>

section \<open>The hash of old servers\<close>

text \<open>One round of the loop on \<open>nr\<close>, \<open>add\<close> and \<open>nr2\<close>.\<close>

definition hash_round :: "'l::len word \<times> 'l word \<times> 'l word \<Rightarrow> u8 \<Rightarrow> 'l word \<times> 'l word \<times> 'l word" where
  "hash_round st c = (case st of (nr, add, nr2) \<Rightarrow>
     if c = 0x20 \<or> c = 0x09 then (nr, add, nr2)
     else let tmp = ucast c;
              nr' = nr XOR (((nr AND 63) + add) * tmp + push_bit 8 nr);
              nr2' = nr2 + (push_bit 8 nr2 XOR nr')
          in (nr', add + tmp, nr2'))"

definition ma_hash_password :: "bytes \<Rightarrow> nat \<Rightarrow> 'l::len word \<times> 'l word" where
  "ma_hash_password password len =
     (case foldl hash_round (1345345333, 7, 0x12345671) (take len password) of (nr, add, nr2) \<Rightarrow>
        (nr AND (push_bit 31 1 - 1), nr2 AND (push_bit 31 1 - 1)))"

text \<open>\<open>%08lx\<close>: at least eight hexadecimal digits.\<close>

definition hex_digit :: "nat \<Rightarrow> u8" where
  "hex_digit d = (if d < 10 then 0x30 + word_of_nat d else 0x61 + word_of_nat (d - 10))"

fun hex_digits :: "nat \<Rightarrow> bytes" where
  "hex_digits n = (if n < 16 then [hex_digit n] else hex_digits (n div 16) @ [hex_digit (n mod 16)])"

declare hex_digits.simps [simp del]

definition fmt_08lx :: "'l::len word \<Rightarrow> bytes" where
  "fmt_08lx w = replicate (8 - length (hex_digits (unat w))) 0x30 @ hex_digits (unat w)"

text \<open>\<open>strlen\<close> of a C string: the bytes before its first zero.\<close>

definition c_strlen :: "bytes \<Rightarrow> nat" where
  "c_strlen s = length (takeWhile (\<lambda>b. b \<noteq> 0) s)"

definition ma_make_scrambled_password :: "'l::len itself \<Rightarrow> bytes \<Rightarrow> bytes" where
  "ma_make_scrambled_password l password =
     (let hash_res = (ma_hash_password password (c_strlen password) :: 'l word \<times> 'l word)
      in fmt_08lx (fst hash_res) @ fmt_08lx (snd hash_res) @ [0])"

definition char_val :: "u8 \<Rightarrow> u32" where
  "char_val X = (if 0x30 \<le> X \<and> X \<le> 0x39 then ucast (X - 0x30)
     else if 0x41 \<le> X \<and> X \<le> 0x5A then ucast (X - 0x41 + 10)
     else scast X - 0x61 + 10)"

section \<open>Random numbers\<close>

record rand_struct =
  seed1 :: u32
  seed2 :: u32
  max_value :: u32

definition ma_randominit :: "u32 \<Rightarrow> u32 \<Rightarrow> rand_struct" where
  "ma_randominit s1 s2 = \<lparr>seed1 = s1 mod 0x3FFFFFFF, seed2 = s2 mod 0x3FFFFFFF, max_value = 0x3FFFFFFF\<rparr>"

text \<open>The seeds after \<open>rnd\<close>; its result is \<open>seed1\<close> divided by \<open>max_value\<close> as a \<open>double\<close>.\<close>

definition rnd_seeds :: "rand_struct \<Rightarrow> rand_struct" where
  "rnd_seeds r = (let s1 = (seed1 r * 3 + seed2 r) mod max_value r
     in r\<lparr>seed1 := s1, seed2 := (s1 + seed2 r + 33) mod max_value r\<rparr>)"

section \<open>The reply to a challenge\<close>

definition my_crypt :: "bytes \<Rightarrow> bytes \<Rightarrow> nat \<Rightarrow> bytes" where
  "my_crypt s1 s2 len = map2 (XOR) (take len s1) (take len s2)"

text \<open>\<open>ctx\<close> is the uninitialised context on the stack.\<close>

definition ma_scramble_41 :: "sha1_ctx \<Rightarrow> bytes \<Rightarrow> bytes \<Rightarrow> bytes" where
  "ma_scramble_41 ctx scramble password =
     (let ctx1 = ma_SHA1Update (ma_SHA1Init ctx) (take (c_strlen password) password);
          (sha1, ctx2) = ma_SHA1Final ctx1;
          ctx3 = ma_SHA1Update (ma_SHA1Init ctx2) (take 20 sha1);
          (sha2, ctx4) = ma_SHA1Final ctx3;
          ctx5 = ma_SHA1Update (ma_SHA1Init ctx4) (take 20 scramble);
          ctx6 = ma_SHA1Update ctx5 (take 20 sha2);
          (buffer, ctx7) = ma_SHA1Final ctx6
      in my_crypt buffer sha1 20)"

section \<open>Properties of the hash\<close>

lemma c_strlen_take: "take (c_strlen s) s = takeWhile (\<lambda>b. b \<noteq> 0) s"
  by (metis c_strlen_def takeWhile_eq_take)

text \<open>The low bits of the hash do not depend on the size of \<open>ulong\<close>.\<close>

lemma ucast_down_add: "(ucast (x + y :: u64) :: u32) = ucast x + ucast y"
proof transfer
  fix x y :: int
  show "take_bit LENGTH(32) (take_bit LENGTH(64) (x + y))
      = take_bit LENGTH(32) (take_bit LENGTH(64) x + take_bit LENGTH(64) y)"
    using take_bit_add [of 32 "take_bit 64 x" "take_bit 64 y"] take_bit_add [of 32 x y] by simp
qed

lemma ucast_down_mult: "(ucast (x * y :: u64) :: u32) = ucast x * ucast y"
proof transfer
  fix x y :: int
  show "take_bit LENGTH(32) (take_bit LENGTH(64) (x * y))
      = take_bit LENGTH(32) (take_bit LENGTH(64) x * take_bit LENGTH(64) y)"
    using take_bit_mult [of 32 "take_bit 64 x" "take_bit 64 y"] take_bit_mult [of 32 x y] by simp
qed

lemma ucast_down_xor: "(ucast (x XOR y :: u64) :: u32) = ucast x XOR ucast y"
  by (rule bit_word_eqI) (simp add: bit_simps)

lemma ucast_down_and: "(ucast (x AND y :: u64) :: u32) = ucast x AND ucast y"
  by (rule bit_word_eqI) (simp add: bit_simps)

lemma ucast_down_push: "(ucast (push_bit 8 x :: u64) :: u32) = push_bit 8 (ucast x)"
  by (rule bit_word_eqI) (auto simp: bit_simps)

lemmas ucast_down = ucast_down_add ucast_down_mult ucast_down_xor ucast_down_and ucast_down_push

definition low32 :: "u64 \<times> u64 \<times> u64 \<Rightarrow> u32 \<times> u32 \<times> u32" where
  "low32 st = (case st of (a, b, c) \<Rightarrow> (ucast a, ucast b, ucast c))"

lemma hash_round_low: "low32 (hash_round st c) = hash_round (low32 st) c"
proof -
  have "(ucast (ucast c :: u64) :: u32) = ucast c" by (rule bit_word_eqI) (auto simp: bit_simps)
  then show ?thesis
    by (cases st) (simp add: low32_def hash_round_def Let_def ucast_down)
qed

lemma hash_rounds_low: "low32 (foldl hash_round st cs) = foldl hash_round (low32 st) cs"
  by (induction cs arbitrary: st) (simp_all add: hash_round_low)

lemma mask31: "(push_bit 31 1 - 1 :: 'l::len word) = mask 31"
  by (simp add: mask_eq_exp_minus_1 push_bit_eq_mult)

text \<open>
  The hash of old servers does not depend on the size of \<open>ulong\<close>: a client with 32 bits and
  a server with 64 compute the same two numbers.
\<close>
theorem hash_width:
  "map_prod unat unat (ma_hash_password password len :: u64 \<times> u64) = map_prod unat unat (ma_hash_password password len :: u32 \<times> u32)"
proof -
  have u: "unat (x AND mask 31 :: u64) = unat (ucast x AND mask 31 :: u32)" for x
    by (simp flip: take_bit_eq_mask) (simp add: unsigned_take_bit_eq unsigned_ucast_eq)
  obtain a b c where st: "foldl hash_round (1345345333, 7, 0x12345671) (take len password) = (a :: u64, b, c)"
    by (metis prod_cases3)
  have st32: "foldl hash_round (1345345333, 7, 0x12345671) (take len password) = (ucast a :: u32, ucast b, ucast c)"
    using hash_rounds_low [of "(1345345333, 7, 0x12345671)" "take len password"] st by (simp add: low32_def)
  show ?thesis by (simp only: ma_hash_password_def mask31 st st32 prod.case map_prod_simp u)
qed

text \<open>The printed hash has sixteen digits, from which \<open>char_val\<close> reads the two halves back.\<close>

definition read_hex :: "bytes \<Rightarrow> nat" where
  "read_hex s = foldl (\<lambda>n X. n * 16 + unat (char_val X)) 0 s"

lemma char_val_digit: "d < 16 \<Longrightarrow> unat (char_val (hex_digit d)) = d"
proof -
  have "list_all (\<lambda>d. unat (char_val (hex_digit d)) = d) [0..<16]"
    by code_simp
  then show "d < 16 \<Longrightarrow> unat (char_val (hex_digit d)) = d" by (simp add: list_all_iff)
qed

lemma read_hex_snoc: "read_hex (s @ [X]) = read_hex s * 16 + unat (char_val X)"
  by (simp add: read_hex_def)

lemma read_hex_digits: "read_hex (hex_digits n) = n"
proof (induction n rule: hex_digits.induct)
  case (1 n)
  then show ?case
    by (subst hex_digits.simps) (auto simp: read_hex_snoc char_val_digit, simp add: read_hex_def char_val_digit)
qed

lemma read_hex_zeros: "read_hex (replicate k 0x30 @ s) = read_hex s"
proof (induction k)
  case (Suc k)
  have "char_val 0x30 = 0" by code_simp
  then have "read_hex (0x30 # t) = read_hex t" for t by (simp add: read_hex_def)
  with Suc show ?case by simp
qed simp

lemma length_hex_digits: "n < 16 ^ k \<Longrightarrow> 0 < k \<Longrightarrow> length (hex_digits n) \<le> k"
proof (induction k arbitrary: n)
  case (Suc k)
  show ?case
  proof (cases "n < 16")
    case False
    then have "k \<noteq> 0" using Suc.prems by (cases k) auto
    moreover have "n div 16 < 16 ^ k" using Suc.prems(1) by (simp add: less_mult_imp_div_less mult.commute)
    ultimately have "length (hex_digits (n div 16)) \<le> k" by (intro Suc.IH) simp_all
    then show ?thesis using False by (subst hex_digits.simps) simp
  qed (simp add: hex_digits.simps)
qed simp

lemma fmt_08lx_reads:
  assumes "unat w < 16 ^ 8"
  shows "length (fmt_08lx w) = 8" "read_hex (fmt_08lx w) = unat w"
  using length_hex_digits [OF assms] by (simp_all add: fmt_08lx_def read_hex_zeros read_hex_digits)

lemma unat_mask31: "unat (w AND mask 31) < 16 ^ 8"
proof -
  have "unat (w AND mask 31) = take_bit 31 (unat w)" by (simp add: unsigned_take_bit_eq flip: take_bit_eq_mask)
  also have "\<dots> < 2 ^ 31" by (rule take_bit_nat_less_exp)
  finally show ?thesis by simp
qed

lemma hash_bound:
  "unat (fst (ma_hash_password p n :: 'l::len word \<times> 'l word)) < 16 ^ 8"
  "unat (snd (ma_hash_password p n :: 'l::len word \<times> 'l word)) < 16 ^ 8"
  by (simp_all only: ma_hash_password_def mask31 split_beta fst_conv snd_conv unat_mask31)

text \<open>
  The stored form of a password is a zero-terminated string of sixteen hexadecimal digits,
  and reading its halves with \<open>char_val\<close> gives back the two numbers of the hash.
\<close>
theorem scrambled_password_reads:
  fixes password :: bytes
  defines "s \<equiv> ma_make_scrambled_password TYPE('l::len) password"
    and "h \<equiv> ma_hash_password password (c_strlen password) :: 'l word \<times> 'l word"
  shows "length s = 17 \<and> s ! 16 = 0 \<and> read_hex (take 8 s) = unat (fst h) \<and> read_hex (take 8 (drop 8 s)) = unat (snd h)"
  using fmt_08lx_reads [OF hash_bound(1) [where p = password and n = "c_strlen password" and 'l = 'l]]
    fmt_08lx_reads [OF hash_bound(2) [where p = password and n = "c_strlen password" and 'l = 'l]]
  by (simp add: s_def h_def ma_make_scrambled_password_def Let_def nth_append)

section \<open>Properties of the random numbers\<close>

text \<open>The seeds stay below \<open>max_value\<close>, and the sums of a step do not wrap.\<close>

definition seeded :: "rand_struct \<Rightarrow> bool" where
  "seeded r \<longleftrightarrow> max_value r = 0x3FFFFFFF \<and> unat (seed1 r) < 0x3FFFFFFF \<and> unat (seed2 r) < 0x3FFFFFFF"

lemma seeded_init: "seeded (ma_randominit s1 s2)"
  by (simp add: seeded_def ma_randominit_def unat_mod)

text \<open>
  The seeds of the random numbers stay below \<open>max_value\<close>, and no sum of a step wraps around
  in 32 bits.
\<close>
theorem rnd_exact:
  assumes "seeded r"
  shows "seeded (rnd_seeds r)
    \<and> unat (seed1 (rnd_seeds r)) = (unat (seed1 r) * 3 + unat (seed2 r)) mod 0x3FFFFFFF
    \<and> unat (seed2 (rnd_seeds r)) = (unat (seed1 (rnd_seeds r)) + unat (seed2 r) + 33) mod 0x3FFFFFFF"
proof -
  have r: "max_value r = 0x3FFFFFFF" "unat (seed1 r) < 0x3FFFFFFF" "unat (seed2 r) < 0x3FFFFFFF"
    using assms by (simp_all add: seeded_def)
  have s: "unat (seed1 r * 3 + seed2 r) = unat (seed1 r) * 3 + unat (seed2 r)"
    using r by (simp add: unat_word_ariths)
  define t where "t = (seed1 r * 3 + seed2 r) mod 0x3FFFFFFF"
  have t: "unat t = (unat (seed1 r) * 3 + unat (seed2 r)) mod 0x3FFFFFFF" by (simp add: t_def unat_mod s)
  then have tb: "unat t < 0x3FFFFFFF" by simp
  have "unat (t + seed2 r + 33) = unat t + unat (seed2 r) + 33"
    using r tb by (simp add: unat_word_ariths)
  then show ?thesis
    using r t tb by (simp add: rnd_seeds_def Let_def seeded_def unat_mod flip: t_def)
qed

theorem rnd_exact_witness:
  "seeded (ma_randominit 5 7) \<and> unat (seed1 (rnd_seeds (ma_randominit 5 7))) = 22"
  using rnd_exact [OF seeded_init, of 5 7] seeded_init [of 5 7]
  by (simp add: ma_randominit_def unat_mod)

section \<open>Properties of the reply\<close>

lemma length_absorb: "length st = 5 \<Longrightarrow> length (absorb st bs) = 5"
proof -
  have "length (foldl fips_compress st bl) = 5" if "length st = 5" for bl
    using that by (induction bl arbitrary: st) (simp_all add: fips_compress_def split_beta)
  then show "length st = 5 \<Longrightarrow> length (absorb st bs) = 5" by (simp add: absorb_def)
qed

lemma length_sha1 [simp]: "length (fips_sha1 m) = 20"
proof -
  have "length (concat (map be32 ws)) = 4 * length ws" for ws
    by (induction ws) (simp_all add: be32_def)
  moreover have "length (absorb fips_H0 (fips_pad m)) = 5" by (rule length_absorb) (simp add: fips_H0_def)
  ultimately show ?thesis by (simp add: fips_sha1_def)
qed

text \<open>The reply is the hash of the challenge and of the twice hashed password, masked by the hashed password.\<close>

lemma scramble_formula:
  assumes b: "length (sc_buffer ctx) = 64" and l: "c_strlen password < 2 ^ 32 - 64"
  defines "pw \<equiv> takeWhile (\<lambda>b. b \<noteq> 0) password"
  shows "ma_scramble_41 ctx scramble password
    = map2 (XOR) (fips_sha1 (take 20 scramble @ fips_sha1 (fips_sha1 pw))) (fips_sha1 pw)"
proof -
  define f1 where "f1 = ma_SHA1Final (ma_SHA1Update (ma_SHA1Init ctx) pw)"
  define f2 where "f2 = ma_SHA1Final (ma_SHA1Update (ma_SHA1Init (snd f1)) (take 20 (fst f1)))"
  define f3 where "f3 = ma_SHA1Final (ma_SHA1Update (ma_SHA1Update (ma_SHA1Init (snd f2)) (take 20 scramble)) (take 20 (fst f2)))"
  have "length pw < 2 ^ 32 - 64" using l by (simp add: pw_def c_strlen_def)
  then have 1: "fst f1 = fips_sha1 pw" unfolding f1_def using b by (intro sh.digest_one)
  have 2: "fst f2 = fips_sha1 (fips_sha1 pw)"
    unfolding f2_def 1 by (subst sh.digest_one) (simp_all add: f1_def sh.final_ok)
  have 3: "fst f3 = fips_sha1 (take 20 scramble @ fips_sha1 (fips_sha1 pw))"
    unfolding f3_def 2 by (subst sh.digest_two) (simp_all add: f2_def sh.final_ok)
  have "ma_scramble_41 ctx scramble password = my_crypt (fst f3) (fst f1) 20"
    by (simp add: ma_scramble_41_def Let_def split_beta f1_def f2_def f3_def pw_def c_strlen_take)
  then show ?thesis by (simp add: 1 3 my_crypt_def)
qed

text \<open>
  A server keeps the twice hashed password. It unmasks the reply with the hash of the
  challenge and of what it keeps, hashes the result and compares.
\<close>

definition server_accepts :: "bytes \<Rightarrow> bytes \<Rightarrow> bytes \<Rightarrow> bool" where
  "server_accepts stored challenge reply \<longleftrightarrow>
     length reply = 20 \<and> fips_sha1 (map2 (XOR) reply (fips_sha1 (challenge @ stored))) = stored"

lemma map2_xor_cancel: "length a = length b \<Longrightarrow> map2 (XOR) (map2 (XOR) a b) a = (b :: bytes)"
proof (induction a b rule: list_induct2)
  case (Cons x xs y ys)
  have "(x XOR y) XOR x = y" by (rule bit_word_eqI) (auto simp: bit_simps)
  with Cons show ?case by simp
qed simp

text \<open>
  C23. The reply of \<open>ma_scramble_41\<close> to a challenge is accepted by a server that knows only the
  twice hashed password, whatever the uninitialised context held before.
\<close>
theorem scramble_accepted:
  assumes "length (sc_buffer ctx) = 64" "c_strlen password < 2 ^ 32 - 64"
  defines "pw \<equiv> takeWhile (\<lambda>b. b \<noteq> 0) password"
  shows "server_accepts (fips_sha1 (fips_sha1 pw)) (take 20 scramble) (ma_scramble_41 ctx scramble password)"
  unfolding server_accepts_def scramble_formula [OF assms(1,2)] pw_def [symmetric]
  by (simp add: map2_xor_cancel)

theorem scramble_accepted_witness:
  "server_accepts (fips_sha1 (fips_sha1 [0x61, 0x62])) (replicate 20 7) (ma_scramble_41 sha1_ctx0 (replicate 21 7) [0x61, 0x62, 0])"
  using scramble_accepted [of sha1_ctx0 "[0x61, 0x62, 0]" "replicate 21 7"]
  by (simp add: sha1_ctx0_def c_strlen_def)

end
