(* ===== verification/Hash.thy ===== *)
theory Hash
  imports Prelude "HOL-Library.Multiset"
begin

text \<open>
  The hash table of the client (\<^verbatim>\<open>ma_hash.c\<close>), which holds connection attributes and user
  data: linear hashing in one array, whose links chain the records of each hash position. A
  record is a pointer; the bytes behind it are a parameter \<open>mem\<close> of the operations, and
  \<open>get_key\<close> is a parameter of the table. The array of the table is the list of its
  elements (see \<open>Dynamic_Array\<close>); whether it could grow, and the contents of a new element,
  are arguments of the insertion. Access behind the elements is \<open>UB\<close>. The loops follow
  links, so they have a bound, the number of elements, after which they are given up with
  \<open>Err ()\<close>; on a well-formed table this never happens.
\<close>

section \<open>Data\<close>

definition NO_RECORD :: nat where "NO_RECORD = 2 ^ 32 - 1"

record 'p hash_link =
  hl_next :: nat
  hl_data :: 'p

text \<open>What is stored at each address.\<close>

type_synonym 'p memory = "'p \<Rightarrow> bytes"

record 'p hash =
  ha_key_offset :: nat
  ha_key_length :: nat
  ha_records :: nat
  ha_blength :: nat
  ha_current_record :: nat
  ha_case_insensitive :: bool
  ha_array :: "'p hash_link list"
  ha_get_key :: "('p memory \<Rightarrow> 'p \<Rightarrow> bytes) option"
  ha_free :: bool

definition hash_init :: "nat \<Rightarrow> nat \<Rightarrow> ('p memory \<Rightarrow> 'p \<Rightarrow> bytes) option \<Rightarrow> bool \<Rightarrow> bool \<Rightarrow> 'p hash" where
  "hash_init key_offset key_length get_key free_element flags =
     \<lparr>ha_key_offset = key_offset, ha_key_length = key_length, ha_records = 0, ha_blength = 1, ha_current_record = NO_RECORD,
      ha_case_insensitive = flags, ha_array = [], ha_get_key = get_key, ha_free = free_element\<rparr>"

text \<open>The records handed to the free function, and the table afterwards.\<close>

definition hash_free :: "'p hash \<Rightarrow> (unit, 'p list \<times> 'p hash) res" where
  "hash_free h = (if ha_free h \<and> length (ha_array h) < ha_records h then UB
     else Ok (if ha_free h then map hl_data (take (ha_records h) (ha_array h)) else [], h\<lparr>ha_free := False, ha_array := [], ha_records := 0\<rparr>))"

section \<open>Keys\<close>

definition hash_key :: "'p memory \<Rightarrow> 'p hash \<Rightarrow> 'p \<Rightarrow> bytes" where
  "hash_key mem h r = (case ha_get_key h of Some f \<Rightarrow> f mem r | None \<Rightarrow> take (ha_key_length h) (drop (ha_key_offset h) (mem r)))"

definition hash_mask :: "u32 \<Rightarrow> nat \<Rightarrow> nat \<Rightarrow> nat" where
  "hash_mask hashnr buffmax maxlength =
     (if unat (hashnr AND (word_of_nat buffmax - 1)) < maxlength then unat (hashnr AND (word_of_nat buffmax - 1))
      else unat (hashnr AND (word_of_nat (buffmax div 2) - 1)))"

definition toupper :: "u8 \<Rightarrow> u8" where
  "toupper c = (if 97 \<le> c \<and> c \<le> 122 then c - 32 else c)"

primrec hashnr_loop :: "(u8 \<Rightarrow> u8) \<Rightarrow> bytes \<Rightarrow> u32 \<Rightarrow> u32 \<Rightarrow> u32" where
  "hashnr_loop up [] nr nr2 = nr"
| "hashnr_loop up (c # cs) nr nr2 = hashnr_loop up cs (nr XOR (((nr AND 63) + nr2) * ucast (up c) + push_bit 8 nr)) (nr2 + 3)"

definition calc_hashnr :: "bytes \<Rightarrow> u32" where
  "calc_hashnr key = hashnr_loop (\<lambda>c. c) key 1 4"

definition calc_hashnr_caseup :: "bytes \<Rightarrow> u32" where
  "calc_hashnr_caseup key = hashnr_loop toupper key 1 4"

text \<open>The function the table was initialised with.\<close>

definition hashnr_of :: "'p hash \<Rightarrow> bytes \<Rightarrow> u32" where
  "hashnr_of h key = (if ha_case_insensitive h then calc_hashnr_caseup key else calc_hashnr key)"

definition rec_hashnr :: "'p memory \<Rightarrow> 'p hash \<Rightarrow> 'p \<Rightarrow> u32" where
  "rec_hashnr mem h r = hashnr_of h (hash_key mem h r)"

definition hash_rec_mask :: "'p memory \<Rightarrow> 'p hash \<Rightarrow> 'p hash_link \<Rightarrow> nat \<Rightarrow> nat \<Rightarrow> nat" where
  "hash_rec_mask mem h pos buffmax maxlength = hash_mask (rec_hashnr mem h (hl_data pos)) buffmax maxlength"

text \<open>\<open>True\<close> when the keys differ; \<open>len\<close> is zero for keys of constant length.\<close>

definition hashcmp :: "'p memory \<Rightarrow> 'p hash \<Rightarrow> 'p hash_link \<Rightarrow> bytes \<Rightarrow> nat \<Rightarrow> (unit, bool) res" where
  "hashcmp mem h pos key len =
     (let rec_key = hash_key mem h (hl_data pos)
      in if len \<noteq> 0 \<and> len \<noteq> length rec_key then Ok True
         else rmap (\<lambda>k. k \<noteq> rec_key) (load_bytes key 0 (length rec_key)))"

definition link_at :: "'p hash_link list \<Rightarrow> nat \<Rightarrow> (unit, 'p hash_link) res" where
  "link_at data i = (if i < length data then Ok (data ! i) else UB)"

definition put_link :: "'p hash_link list \<Rightarrow> nat \<Rightarrow> nat \<Rightarrow> 'p \<Rightarrow> (unit, 'p hash_link list) res" where
  "put_link data i nxt r = (if i < length data then Ok (data[i := \<lparr>hl_next = nxt, hl_data = r\<rparr>]) else UB)"

definition set_next :: "'p hash_link list \<Rightarrow> nat \<Rightarrow> nat \<Rightarrow> (unit, 'p hash_link list) res" where
  "set_next data i nxt = (if i < length data then Ok (data[i := (data ! i)\<lparr>hl_next := nxt\<rparr>]) else UB)"

section \<open>Searching\<close>

primrec search_loop :: "'p memory \<Rightarrow> 'p hash \<Rightarrow> bytes \<Rightarrow> nat \<Rightarrow> nat \<Rightarrow> bool \<Rightarrow> nat \<Rightarrow> (unit, nat option) res" where
  "search_loop mem h key len 0 flag idx = Err ()"
| "search_loop mem h key len (Suc fuel) flag idx =
     rbind (link_at (ha_array h) idx) (\<lambda>pos.
     rbind (hashcmp mem h pos key len) (\<lambda>differs.
       if \<not> differs then Ok (Some idx)
       else if flag \<and> hash_rec_mask mem h pos (ha_blength h) (ha_records h) \<noteq> idx then Ok None
       else if hl_next pos = NO_RECORD then Ok None
       else search_loop mem h key len fuel False (hl_next pos)))"

definition hash_search :: "'p memory \<Rightarrow> 'p hash \<Rightarrow> bytes \<Rightarrow> nat \<Rightarrow> (unit, 'p option \<times> 'p hash) res" where
  "hash_search mem h key len =
     (if ha_records h = 0 then Ok (None, h\<lparr>ha_current_record := NO_RECORD\<rparr>)
      else rbind (load_bytes key 0 (if len \<noteq> 0 then len else ha_key_length h)) (\<lambda>k.
           rbind (search_loop mem h key len (length (ha_array h)) True (hash_mask (hashnr_of h k) (ha_blength h) (ha_records h))) (\<lambda>r.
             case r of None \<Rightarrow> Ok (None, h\<lparr>ha_current_record := NO_RECORD\<rparr>)
             | Some idx \<Rightarrow> rmap (\<lambda>pos. (Some (hl_data pos), h\<lparr>ha_current_record := idx\<rparr>)) (link_at (ha_array h) idx))))"

primrec next_loop :: "'p memory \<Rightarrow> 'p hash \<Rightarrow> bytes \<Rightarrow> nat \<Rightarrow> nat \<Rightarrow> nat \<Rightarrow> (unit, nat option) res" where
  "next_loop mem h key len 0 idx = (if idx = NO_RECORD then Ok None else Err ())"
| "next_loop mem h key len (Suc fuel) idx =
     (if idx = NO_RECORD then Ok None
      else rbind (link_at (ha_array h) idx) (\<lambda>pos.
           rbind (hashcmp mem h pos key len) (\<lambda>differs.
             if \<not> differs then Ok (Some idx) else next_loop mem h key len fuel (hl_next pos))))"

definition hash_next :: "'p memory \<Rightarrow> 'p hash \<Rightarrow> bytes \<Rightarrow> nat \<Rightarrow> (unit, 'p option \<times> 'p hash) res" where
  "hash_next mem h key len =
     (if ha_current_record h = NO_RECORD then Ok (None, h)
      else rbind (link_at (ha_array h) (ha_current_record h)) (\<lambda>cur.
           rbind (next_loop mem h key len (length (ha_array h)) (hl_next cur)) (\<lambda>r.
             case r of None \<Rightarrow> Ok (None, h\<lparr>ha_current_record := NO_RECORD\<rparr>)
             | Some idx \<Rightarrow> rmap (\<lambda>pos. (Some (hl_data pos), h\<lparr>ha_current_record := idx\<rparr>)) (link_at (ha_array h) idx))))"

primrec movelink_loop :: "nat \<Rightarrow> 'p hash_link list \<Rightarrow> nat \<Rightarrow> nat \<Rightarrow> nat \<Rightarrow> (unit, 'p hash_link list) res" where
  "movelink_loop 0 data fnd next_link newlink = Err ()"
| "movelink_loop (Suc fuel) data fnd next_link newlink =
     rbind (link_at data next_link) (\<lambda>old_link.
       if hl_next old_link = fnd then set_next data next_link newlink
       else movelink_loop fuel data fnd (hl_next old_link) newlink)"

definition movelink :: "'p hash_link list \<Rightarrow> nat \<Rightarrow> nat \<Rightarrow> nat \<Rightarrow> (unit, 'p hash_link list) res" where
  "movelink data fnd next_link newlink = movelink_loop (length data) data fnd next_link newlink"

section \<open>Inserting\<close>

text \<open>
  The state of the loop that splits a chain: the four bits of \<open>flag\<close>, and for the records that
  stay and for those that move the place of the last one and its record (\<open>gpos\<close>, \<open>ptr_to_rec\<close>
  and \<open>gpos2\<close>, \<open>ptr_to_rec2\<close>).
\<close>

record 'p split_state =
  sp_data :: "'p hash_link list"
  sp_empty :: nat
  sp_lowfind :: bool
  sp_lowused :: bool
  sp_low :: "(nat \<times> 'p) option"
  sp_highfind :: bool
  sp_highused :: bool
  sp_high :: "(nat \<times> 'p) option"

definition put_pending :: "'p hash_link list \<Rightarrow> (nat \<times> 'p) option \<Rightarrow> nat \<Rightarrow> (unit, 'p hash_link list) res" where
  "put_pending data g nxt = (case g of None \<Rightarrow> UB | Some (i, r) \<Rightarrow> put_link data i nxt r)"

definition split_low :: "'p split_state \<Rightarrow> nat \<Rightarrow> 'p \<Rightarrow> (unit, 'p split_state) res" where
  "split_low st idx r =
     (if \<not> sp_lowfind st then
        (if sp_highfind st
         then Ok (st\<lparr>sp_lowfind := True, sp_lowused := False, sp_highused := False, sp_low := Some (sp_empty st, r), sp_empty := idx\<rparr>)
         else Ok (st\<lparr>sp_lowfind := True, sp_lowused := True, sp_highused := False, sp_low := Some (idx, r)\<rparr>))
      else if \<not> sp_lowused st
      then rmap (\<lambda>d. st\<lparr>sp_data := d, sp_lowused := True, sp_highused := False, sp_low := Some (idx, r)\<rparr>) (put_pending (sp_data st) (sp_low st) idx)
      else Ok (st\<lparr>sp_low := Some (idx, r)\<rparr>))"

definition split_high :: "'p split_state \<Rightarrow> nat \<Rightarrow> 'p \<Rightarrow> (unit, 'p split_state) res" where
  "split_high st idx r =
     (if \<not> sp_highfind st
      then Ok (st\<lparr>sp_highfind := True, sp_highused := False, sp_lowused := False, sp_high := Some (sp_empty st, r), sp_empty := idx\<rparr>)
      else if \<not> sp_highused st
      then rmap (\<lambda>d. st\<lparr>sp_data := d, sp_highused := True, sp_lowused := False, sp_high := Some (idx, r)\<rparr>) (put_pending (sp_data st) (sp_high st) idx)
      else Ok (st\<lparr>sp_high := Some (idx, r)\<rparr>))"

primrec split_loop :: "'p memory \<Rightarrow> 'p hash \<Rightarrow> nat \<Rightarrow> 'p split_state \<Rightarrow> nat \<Rightarrow> (unit, 'p split_state) res" where
  "split_loop mem h 0 st idx = Err ()"
| "split_loop mem h (Suc fuel) st idx =
     rbind (link_at (sp_data st) idx) (\<lambda>pos.
       let hash_nr = rec_hashnr mem h (hl_data pos); halfbuff = ha_blength h div 2
       in if \<not> sp_lowfind st \<and> \<not> sp_highfind st \<and> hash_mask hash_nr (ha_blength h) (ha_records h) \<noteq> uint_sub (ha_records h) halfbuff then Ok st
          else rbind (if hash_nr AND word_of_nat halfbuff = 0 then split_low st idx (hl_data pos) else split_high st idx (hl_data pos)) (\<lambda>st1.
               rbind (link_at (sp_data st1) idx) (\<lambda>pos1.
                 if hl_next pos1 = NO_RECORD then Ok st1 else split_loop mem h fuel st1 (hl_next pos1))))"

definition split_end :: "'p split_state \<Rightarrow> (unit, 'p split_state) res" where
  "split_end st =
     rbind (if sp_lowfind st \<and> \<not> sp_lowused st then put_pending (sp_data st) (sp_low st) NO_RECORD else Ok (sp_data st)) (\<lambda>d.
     rmap (\<lambda>d. st\<lparr>sp_data := d\<rparr>) (if sp_highfind st \<and> \<not> sp_highused st then put_pending d (sp_high st) NO_RECORD else Ok d))"

text \<open>The new record goes to its place; a record that was there moves to the empty position.\<close>

definition place_record :: "'p memory \<Rightarrow> 'p hash \<Rightarrow> 'p hash_link list \<Rightarrow> nat \<Rightarrow> 'p \<Rightarrow> (unit, 'p hash_link list) res" where
  "place_record mem h data emptypos r =
     (let idx = hash_mask (rec_hashnr mem h r) (ha_blength h) (ha_records h + 1)
      in if idx = emptypos then put_link data idx NO_RECORD r
         else rbind (link_at data idx) (\<lambda>pos.
              rbind (put_link data emptypos (hl_next pos) (hl_data pos)) (\<lambda>d1.
                let gpos = hash_rec_mask mem h pos (ha_blength h) (ha_records h + 1)
                in if idx = gpos then put_link d1 idx emptypos r
                   else rbind (put_link d1 idx NO_RECORD r) (\<lambda>d2. movelink d2 idx gpos emptypos))))"

definition hash_insert :: "'p memory \<Rightarrow> bool \<Rightarrow> 'p hash_link \<Rightarrow> 'p hash \<Rightarrow> 'p \<Rightarrow> (unit, bool \<times> 'p hash) res" where
  "hash_insert mem room fresh info r =
     (if \<not> room then Ok (True, info)
      else let n = ha_records info; halfbuff = ha_blength info div 2; data = ha_array info @ [fresh]; emptypos = length (ha_array info);
               idx = uint_sub n halfbuff;
               st0 = \<lparr>sp_data = data, sp_empty = emptypos, sp_lowfind = False, sp_lowused = False, sp_low = None,
                      sp_highfind = False, sp_highused = False, sp_high = None\<rparr>
           in rbind (if idx \<noteq> n then rbind (split_loop mem info (length data) st0 idx) split_end else Ok st0) (\<lambda>st.
              rmap (\<lambda>d. (False, info\<lparr>ha_array := d, ha_current_record := NO_RECORD, ha_records := n + 1,
                         ha_blength := (if n + 1 = ha_blength info then uint_add (ha_blength info) (ha_blength info) else ha_blength info)\<rparr>))
                (place_record mem info (sp_data st) (sp_empty st) r)))"


section \<open>Deleting and updating\<close>

text \<open>The position of a record in the chain from \<open>idx\<close> on, and the position before it.\<close>

primrec find_loop :: "nat \<Rightarrow> 'p hash_link list \<Rightarrow> 'p \<Rightarrow> nat option \<Rightarrow> nat \<Rightarrow> (unit, (nat \<times> nat option) option) res" where
  "find_loop 0 data r gpos idx = Err ()"
| "find_loop (Suc fuel) data r gpos idx =
     rbind (link_at data idx) (\<lambda>pos.
       if hl_data pos = r then Ok (Some (idx, gpos))
       else if hl_next pos = NO_RECORD then Ok None
       else find_loop fuel data r (Some idx) (hl_next pos))"

text \<open>Taking the record at \<open>idx\<close> out of its chain; the second result is the position that becomes free.\<close>

definition unlink :: "'p hash_link list \<Rightarrow> nat \<Rightarrow> nat option \<Rightarrow> (unit, 'p hash_link list \<times> nat) res" where
  "unlink data idx gpos =
     rbind (link_at data idx) (\<lambda>pos.
       case gpos of
         Some g \<Rightarrow> rmap (\<lambda>d. (d, idx)) (set_next data g (hl_next pos))
       | None \<Rightarrow> if hl_next pos \<noteq> NO_RECORD
                 then rbind (link_at data (hl_next pos)) (\<lambda>nxt. rmap (\<lambda>d. (d, hl_next pos)) (put_link data idx (hl_next nxt) (hl_data nxt)))
                 else Ok (data, idx))"

text \<open>
  The last record moves to the empty position. \<open>blength\<close> is the old length of the hash, \<open>bl\<close> the
  new one and \<open>n\<close> the new number of records.
\<close>

definition move_last :: "'p memory \<Rightarrow> 'p hash \<Rightarrow> nat \<Rightarrow> nat \<Rightarrow> nat \<Rightarrow> 'p hash_link list \<Rightarrow> nat \<Rightarrow> (unit, 'p hash_link list) res" where
  "move_last mem h blength bl n data emptypos =
     (if emptypos = n then Ok data
      else rbind (link_at data n) (\<lambda>lastpos.
        let lastpos_hashnr = rec_hashnr mem h (hl_data lastpos); p = hash_mask lastpos_hashnr bl n
        in if p = emptypos then put_link data emptypos (hl_next lastpos) (hl_data lastpos)
           else rbind (link_at data p) (\<lambda>pos.
             let pos_hashnr = rec_hashnr mem h (hl_data pos); pos3 = hash_mask pos_hashnr bl n
             in if p \<noteq> pos3
                then rbind (put_link data emptypos (hl_next pos) (hl_data pos)) (\<lambda>d1.
                     rbind (put_link d1 p (hl_next lastpos) (hl_data lastpos)) (\<lambda>d2. movelink d2 p pos3 emptypos))
                else let pos2 = hash_mask lastpos_hashnr blength (n + 1)
                     in rbind (put_link data emptypos (hl_next lastpos) (hl_data lastpos)) (\<lambda>d1.
                          if pos2 = hash_mask pos_hashnr blength (n + 1) \<and> pos2 \<noteq> n
                          then movelink d1 n p emptypos
                          else rbind (link_at d1 p) (\<lambda>pos1.
                               rbind (movelink d1 (if pos2 = hash_mask pos_hashnr blength (n + 1) then p else NO_RECORD) emptypos (hl_next pos1)) (\<lambda>d2.
                                 set_next d2 p emptypos))))))"

text \<open>The results are whether the record was missing, and the records handed to the free function.\<close>

definition hash_delete :: "'p memory \<Rightarrow> 'p hash \<Rightarrow> 'p \<Rightarrow> (unit, bool \<times> 'p list \<times> 'p hash) res" where
  "hash_delete mem h r =
     (if ha_records h = 0 then Ok (True, [], h)
      else rbind (find_loop (length (ha_array h)) (ha_array h) r None (hash_mask (rec_hashnr mem h r) (ha_blength h) (ha_records h))) (\<lambda>f.
        case f of None \<Rightarrow> Ok (True, [], h)
        | Some (idx, gpos) \<Rightarrow>
            let n = ha_records h - 1; bl = (if n < ha_blength h div 2 then ha_blength h div 2 else ha_blength h)
            in rbind (unlink (ha_array h) idx gpos) (\<lambda>(d, emptypos).
               rmap (\<lambda>d. (False, if ha_free h then [r] else [],
                          h\<lparr>ha_array := butlast d, ha_current_record := NO_RECORD, ha_records := n, ha_blength := bl\<rparr>))
                 (move_last mem h (ha_blength h) bl n d emptypos))))"

definition hash_update :: "'p memory \<Rightarrow> 'p hash \<Rightarrow> 'p \<Rightarrow> bytes \<Rightarrow> nat \<Rightarrow> (unit, bool \<times> 'p hash) res" where
  "hash_update mem h r old_key old_key_length =
     rbind (load_bytes old_key 0 (if old_key_length \<noteq> 0 then old_key_length else ha_key_length h)) (\<lambda>k.
       let idx = hash_mask (hashnr_of h k) (ha_blength h) (ha_records h); new_index = hash_mask (rec_hashnr mem h r) (ha_blength h) (ha_records h)
       in if idx = new_index then Ok (False, h)
          else rbind (find_loop (length (ha_array h)) (ha_array h) r None idx) (\<lambda>f.
            case f of None \<Rightarrow> Ok (True, h)
            | Some (i, previous) \<Rightarrow>
                rbind (unlink (ha_array h) i previous) (\<lambda>(d, emptypos).
                rbind (link_at d new_index) (\<lambda>pos.
                  let new_pos_index = hash_rec_mask mem h pos (ha_blength h) (ha_records h);
                      done = (\<lambda>d. Ok (False, h\<lparr>ha_array := d, ha_current_record := NO_RECORD\<rparr>))
                  in if new_index \<noteq> new_pos_index
                     then rbind (put_link d emptypos (hl_next pos) (hl_data pos)) (\<lambda>d1.
                          rbind (movelink d1 new_index new_pos_index emptypos) (\<lambda>d2.
                          rbind (put_link d2 new_index NO_RECORD r) done))
                     else rbind (put_link d emptypos (hl_next pos) r) (\<lambda>d1.
                          rbind (set_next d1 new_index emptypos) done)))))"

definition hash_element :: "'p hash \<Rightarrow> nat \<Rightarrow> (unit, 'p option) res" where
  "hash_element h idx = (if idx < ha_records h then rmap (\<lambda>l. Some (hl_data l)) (link_at (ha_array h) idx) else Ok None)"

end
