(* ===== verification/Hash_Insert.thy ===== *)
theory Hash_Insert
  imports Hash
begin

text \<open>
  The invariant of the hash table (\<^verbatim>\<open>ma_hash.c\<close>): every position below the number of records
  is on exactly one chain, which starts at the position its records belong to. Placing a
  record, splitting a chain, insertion and search.
\<close>

section \<open>Chains\<close>

lemma upd_nth: "xs[i := x] ! j = (if i = j \<and> i < length xs then x else xs ! j)"
  by (cases "i < length xs") (simp_all add: nth_list_update list_update_beyond)

lemma link_eta [simp]: "\<lparr>hl_next = hl_next l, hl_data = hl_data l\<rparr> = (l :: 'p hash_link)"
  by (cases l) simp

text \<open>The positions \<open>is\<close> are linked in this order, and the last one links to \<open>x\<close>.\<close>

fun nxt :: "nat list \<Rightarrow> nat \<Rightarrow> nat" where
  "nxt [] x = x"
| "nxt (i # is) x = i"

primrec seg :: "'p hash_link list \<Rightarrow> nat list \<Rightarrow> nat \<Rightarrow> bool" where
  "seg d [] x \<longleftrightarrow> True"
| "seg d (i # is) x \<longleftrightarrow> i < length d \<and> hl_next (d ! i) = nxt is x \<and> seg d is x"

lemma nxt_append [simp]: "nxt (is @ js) x = nxt is (nxt js x)"
  by (cases "is") simp_all

lemma seg_append [simp]: "seg d (is @ js) x \<longleftrightarrow> seg d is (nxt js x) \<and> seg d js x"
  by (induction "is") auto

lemma seg_cong: "seg d is x \<Longrightarrow> length d \<le> length d' \<Longrightarrow> (\<And>i. i \<in> set is \<Longrightarrow> d' ! i = d ! i) \<Longrightarrow> seg d' is x"
  by (induction "is") auto

lemma seg_range: "seg d is x \<Longrightarrow> i \<in> set is \<Longrightarrow> i < length d"
  by (induction "is") auto

lemma seg_upd [simp]: "i \<notin> set is \<Longrightarrow> seg (d[i := l]) is x \<longleftrightarrow> seg d is x"
  by (induction "is") auto

abbreviation dat :: "'p hash_link list \<Rightarrow> nat \<Rightarrow> 'p" where
  "dat d i \<equiv> hl_data (d ! i)"

text \<open>
  A chain holds the used positions whose record belongs at \<open>p\<close>; its first element is at \<open>p\<close>. The
  chains of all positions make a well-formed table with the used positions \<open>S\<close>.
\<close>

definition chain :: "'p hash_link list \<Rightarrow> nat set \<Rightarrow> ('p \<Rightarrow> nat) \<Rightarrow> nat \<Rightarrow> nat list \<Rightarrow> bool" where
  "chain d S home p c \<longleftrightarrow> distinct c \<and> set c = {i \<in> S. home (dat d i) = p} \<and> seg d c NO_RECORD \<and> (c \<noteq> [] \<longrightarrow> hd c = p)"

definition good :: "'p hash_link list \<Rightarrow> nat set \<Rightarrow> ('p \<Rightarrow> nat) \<Rightarrow> (nat \<Rightarrow> nat list) \<Rightarrow> bool" where
  "good d S home C \<longleftrightarrow> (\<forall>p. chain d S home p (C p))"

definition contents :: "'p hash_link list \<Rightarrow> nat set \<Rightarrow> 'p multiset" where
  "contents d S = image_mset (dat d) (mset_set S)"

lemma contents_insert: "finite S \<Longrightarrow> e \<notin> S \<Longrightarrow> contents d (insert e S) = add_mset (dat d e) (contents d S)"
  by (simp add: contents_def)

lemma contents_cong: "(\<And>i. i \<in> S \<Longrightarrow> dat d' i = dat d i) \<Longrightarrow> contents d' S = contents d S"
  by (cases "finite S") (auto simp: contents_def intro!: image_mset_cong)

lemma contents_remove: "finite S \<Longrightarrow> k \<in> S \<Longrightarrow> contents d S = add_mset (dat d k) (contents d (S - {k}))"
  using contents_insert [of "S - {k}" k d] by (simp add: insert_absorb)

lemma contents_new:
  assumes "finite S" "e \<notin> S" "dat d' e = r" "\<And>i. i \<in> S \<Longrightarrow> dat d' i = dat d i"
  shows "contents d' (insert e S) = add_mset r (contents d S)"
  using assms contents_cong [of S d' d] by (simp add: contents_insert)

lemma contents_shift:
  assumes "finite S" "e \<notin> S" "k \<in> S" "dat d' e = dat d k" "\<And>i. i \<in> S - {k} \<Longrightarrow> dat d' i = dat d i"
  shows "contents d' (insert e (S - {k})) = contents d S"
  using assms contents_new [of "S - {k}" e d' "dat d k" d] contents_remove [of S k d] by simp

lemma goodD:
  assumes "good d S home C"
  shows "distinct (C p)" "i \<in> set (C p) \<longleftrightarrow> i \<in> S \<and> home (dat d i) = p" "seg d (C p) NO_RECORD" "C p \<noteq> [] \<Longrightarrow> hd (C p) = p"
  using assms by (auto simp: good_def chain_def)

lemma goodC: "good d S home C \<Longrightarrow> C p = c \<Longrightarrow> chain d S home p c"
  by (auto simp: good_def)

lemma chainD:
  assumes "chain d S home p c"
  shows "distinct c" "set c = {i \<in> S. home (dat d i) = p}" "seg d c NO_RECORD" "c \<noteq> [] \<Longrightarrow> hd c = p"
  using assms by (simp_all add: chain_def)

lemma good_unused: "good d S home C \<Longrightarrow> p \<notin> S \<Longrightarrow> C p = []"
  using goodD(2,4) [of d S home C] by (metis list.set_sel(1))

lemma good_foreign: "good d S home C \<Longrightarrow> home (dat d p) \<noteq> p \<Longrightarrow> C p = []"
  using goodD(2,4) [of d S home C] by (metis list.set_sel(1))

lemma good_first:
  assumes "good d S home C" "p \<in> S" "home (dat d p) = p"
  obtains r where "C p = p # r"
proof -
  have "p \<in> set (C p)" using goodD(2) [OF assms(1)] assms(2,3) by blast
  then have "C p \<noteq> []" by auto
  then have "C p = p # tl (C p)" using goodD(4) [OF assms(1), of p] by (metis list.collapse)
  then show ?thesis by (rule that)
qed

lemma good_inner:
  assumes "good d S home C" "i \<in> S" "home (dat d i) \<noteq> i"
  obtains a b where "C (home (dat d i)) = a @ i # b" "a \<noteq> []"
proof -
  have "i \<in> set (C (home (dat d i)))" using goodD(2) [OF assms(1)] assms(2) by blast
  then obtain a b where c: "C (home (dat d i)) = a @ i # b" by (meson split_list)
  then have "a \<noteq> []" using goodD(4) [OF assms(1), of "home (dat d i)"] assms(3) by auto
  with c show ?thesis by (rule that)
qed

text \<open>A change of some positions is a change of the chains \<open>H\<close> only.\<close>

lemma good_change:
  assumes g: "good d S home C" and len: "length d \<le> length d'"
    and new: "\<And>p. p \<in> H \<Longrightarrow> chain d' S' home' p (C' p)"
    and old: "\<And>p. p \<notin> H \<Longrightarrow> C' p = C p" "\<And>p i. p \<notin> H \<Longrightarrow> i \<in> set (C p) \<Longrightarrow> d' ! i = d ! i"
    and same: "\<And>p i. p \<notin> H \<Longrightarrow> i \<in> S' \<and> home' (dat d' i) = p \<longleftrightarrow> i \<in> S \<and> home (dat d i) = p"
  shows "good d' S' home' C'"
  unfolding good_def
proof
  fix p
  show "chain d' S' home' p (C' p)"
  proof (cases "p \<in> H")
    case False
    have c: "distinct (C p)" "set (C p) = {i \<in> S. home (dat d i) = p}" "seg d (C p) NO_RECORD" "C p \<noteq> [] \<longrightarrow> hd (C p) = p"
      using g by (auto simp: good_def chain_def)
    have "seg d' (C p) NO_RECORD" using c(3) len old(2) [OF False] by (rule seg_cong)
    moreover have "set (C p) = {i \<in> S'. home' (dat d' i) = p}" using c(2) same [OF False] by auto
    ultimately show ?thesis using c old(1) [OF False] by (simp add: chain_def)
  qed (rule new)
qed

section \<open>Moving a link\<close>

lemma movelink_loop_seg:
  assumes "seg d p fnd" "p \<noteq> []" "fnd \<notin> set p" "length p \<le> fuel"
  shows "movelink_loop fuel d fnd (hd p) new = Ok (d[last p := (d ! last p)\<lparr>hl_next := new\<rparr>])"
  using assms
proof (induction p arbitrary: fuel)
  case (Cons i p)
  then obtain f where f: "fuel = Suc f" by (cases fuel) auto
  show ?case
  proof (cases p)
    case Nil
    then show ?thesis using Cons.prems f by (simp add: link_at_def set_next_def)
  next
    case (Cons j q)
    have "fnd \<notin> set p" "j \<noteq> fnd" using Cons.prems(3) \<open>p = j # q\<close> by auto
    then show ?thesis using Cons.IH [of f] Cons.prems(1,4) f \<open>p = j # q\<close> by (simp add: link_at_def)
  qed
qed simp

lemma movelink_seg:
  assumes "seg d p fnd" "p \<noteq> []" "fnd \<notin> set p" "distinct p"
  shows "movelink d fnd (hd p) new = Ok (d[last p := (d ! last p)\<lparr>hl_next := new\<rparr>])"
proof -
  have "set p \<subseteq> {..<length d}" using seg_range [OF assms(1)] by auto
  then have "length p \<le> length d" using assms(4) card_mono [of "{..<length d}" "set p"] by (simp add: distinct_card)
  then show ?thesis unfolding movelink_def by (rule movelink_loop_seg [OF assms(1-3)])
qed

section \<open>Placing a record\<close>

text \<open>A record that belongs at the empty position.\<close>

lemma place_free:
  assumes g: "good d S home C" and e: "e < length d" "e \<notin> S" "home r = e"
  shows "good (d[e := \<lparr>hl_next = NO_RECORD, hl_data = r\<rparr>]) (insert e S) home (C(e := [e]))"
proof (rule good_change [OF g, where H = "{e}"])
  have "C e = []" using good_unused [OF g e(2)] .
  then have "i \<in> S \<Longrightarrow> home (dat d i) \<noteq> e" for i using goodD(2) [OF g, of i e] by auto
  then show "chain (d[e := \<lparr>hl_next = NO_RECORD, hl_data = r\<rparr>]) (insert e S) home p ((C(e := [e])) p)" if "p \<in> {e}" for p
    using that e by (auto simp: chain_def upd_nth)
qed (use e goodD(2) [OF g] in \<open>auto simp: upd_nth\<close>)

text \<open>The record found at the place of the new one belongs there: it moves behind the new one.\<close>

lemma place_front:
  assumes g: "good d S home C" and e: "e < length d" "e \<notin> S" "k \<in> S" "home r = k"
    and c: "C k = k # q"
  shows "good (d[e := d ! k, k := \<lparr>hl_next = e, hl_data = r\<rparr>]) (insert e S) home (C(k := k # e # q))"
proof (rule good_change [OF g, where H = "{k}"])
  have k: "k < length d" "distinct (k # q)" "seg d q NO_RECORD" "hl_next (d ! k) = nxt q NO_RECORD" "set (k # q) = {i \<in> S. home (dat d i) = k}"
    using goodC [OF g c] by (simp_all add: chain_def)
  have ne: "e \<notin> set q" "k \<noteq> e" using k(5) e(2,3) by auto
  have "home (dat d k) = k" using k(5) by auto
  then show "chain (d[e := d ! k, k := \<lparr>hl_next = e, hl_data = r\<rparr>]) (insert e S) home p ((C(k := k # e # q)) p)" if "p \<in> {k}" for p
    using that e k ne by (auto simp: chain_def upd_nth)
  show "(d[e := d ! k, k := \<lparr>hl_next = e, hl_data = r\<rparr>]) ! i = d ! i" if "p \<notin> {k}" "i \<in> set (C p)" for p i
    using that goodD(2) [OF g, of i p] e \<open>home (dat d k) = k\<close> by (auto simp: upd_nth)
  show "i \<in> insert e S \<and> home (dat (d[e := d ! k, k := \<lparr>hl_next = e, hl_data = r\<rparr>]) i) = p \<longleftrightarrow> i \<in> S \<and> home (dat d i) = p" if "p \<notin> {k}" for p i
    using that e k(1) ne \<open>home (dat d k) = k\<close> by (auto simp: upd_nth)
qed simp_all

text \<open>A record in the middle of a chain moves to the empty position, and the place it had is empty.\<close>

lemma good_move:
  assumes g: "good d S home C" and e: "e < length d" "e \<notin> S" and c: "C p = a @ j # k # b"
  shows "good (d[e := d ! k, j := (d ! j)\<lparr>hl_next := e\<rparr>]) (insert e (S - {k})) home (C(p := a @ j # e # b))"
proof (rule good_change [OF g, where H = "{p}"])
  have d: "distinct (a @ j # k # b)" "set (a @ j # k # b) = {i \<in> S. home (dat d i) = p}" "seg d (a @ j # k # b) NO_RECORD" "hd (a @ j # k # b) = p"
    using goodC [OF g c] by (simp_all add: chain_def)
  have ne: "e \<notin> set a" "e \<noteq> j" "e \<noteq> k" "e \<notin> set b" using d(2) e(2) by auto
  have hp: "home (dat d k) = p" "home (dat d j) = p" "j \<in> S" using d(2) by auto
  have "seg (d[e := d ! k, j := (d ! j)\<lparr>hl_next := e\<rparr>]) (a @ j # e # b) NO_RECORD" using d(1,3) e(1) ne by (simp add: upd_nth)
  moreover have "hd (a @ j # e # b) = p" using d(4) by (cases a) simp_all
  moreover have "set (a @ j # e # b) = {i \<in> insert e (S - {k}). home (dat (d[e := d ! k, j := (d ! j)\<lparr>hl_next := e\<rparr>]) i) = p}"
  proof -
    have "set (a @ j # e # b) = insert e ({i \<in> S. home (dat d i) = p} - {k})" using d(1,2) by auto
    also have "\<dots> = {i \<in> insert e (S - {k}). home (dat (d[e := d ! k, j := (d ! j)\<lparr>hl_next := e\<rparr>]) i) = p}"
      using e ne hp by (auto simp: upd_nth)
    finally show ?thesis .
  qed
  moreover have "distinct (a @ j # e # b)" using d(1) ne by simp
  ultimately have "chain (d[e := d ! k, j := (d ! j)\<lparr>hl_next := e\<rparr>]) (insert e (S - {k})) home p (a @ j # e # b)"
    unfolding chain_def by blast
  then show "chain (d[e := d ! k, j := (d ! j)\<lparr>hl_next := e\<rparr>]) (insert e (S - {k})) home x ((C(p := a @ j # e # b)) x)" if "x \<in> {p}" for x
    using that by (simp only: singleton_iff fun_upd_same)
  show "(d[e := d ! k, j := (d ! j)\<lparr>hl_next := e\<rparr>]) ! i = d ! i" if "x \<notin> {p}" "i \<in> set (C x)" for x i
    using that goodD(2) [OF g, of i x] e(2) hp by (auto simp: upd_nth)
  show "i \<in> insert e (S - {k}) \<and> home (dat (d[e := d ! k, j := (d ! j)\<lparr>hl_next := e\<rparr>]) i) = x \<longleftrightarrow> i \<in> S \<and> home (dat d i) = x" if "x \<notin> {p}" for x i
    using that e ne hp by (auto simp: upd_nth)
qed simp_all

definition home_of :: "'p memory \<Rightarrow> 'p hash \<Rightarrow> nat \<Rightarrow> nat \<Rightarrow> 'p \<Rightarrow> nat" where
  "home_of mem h bl n r = hash_mask (rec_hashnr mem h r) bl n"

lemma place_record_good:
  assumes g: "good d S (home_of mem h (ha_blength h) (ha_records h + 1)) C" and S: "insert e S = {..<length d}" "e \<notin> S"
    and r: "home_of mem h (ha_blength h) (ha_records h + 1) r < length d"
  shows "\<exists>d' C'. place_record mem h d e r = Ok d' \<and> length d' = length d
    \<and> good d' {..<length d'} (home_of mem h (ha_blength h) (ha_records h + 1)) C' \<and> contents d' {..<length d'} = add_mset r (contents d S)"
proof -
  define home where "home = home_of mem h (ha_blength h) (ha_records h + 1)"
  define k where "k = home r"
  have g: "good d S home C" using g by (simp add: home_def)
  have fin: "finite S" using S(1) by (metis finite_insert finite_lessThan)
  have e: "e < length d" using S(1) by blast
  have k: "k < length d" using r by (simp add: k_def home_def)
  have pl: "place_record mem h d e r = (if k = e then put_link d k NO_RECORD r
      else rbind (link_at d k) (\<lambda>pos. rbind (put_link d e (hl_next pos) (hl_data pos)) (\<lambda>d1.
        if k = home (hl_data pos) then put_link d1 k e r else rbind (put_link d1 k NO_RECORD r) (\<lambda>d2. movelink d2 k (home (hl_data pos)) e))))"
    unfolding place_record_def home_def k_def home_of_def hash_rec_mask_def Let_def by (rule refl)
  show ?thesis
  proof (cases "k = e")
    case True
    have gd: "good (d[e := \<lparr>hl_next = NO_RECORD, hl_data = r\<rparr>]) (insert e S) home (C(e := [e]))"
      using True by (intro place_free [OF g e S(2)]) (simp add: k_def)
    moreover have "contents (d[e := \<lparr>hl_next = NO_RECORD, hl_data = r\<rparr>]) (insert e S) = add_mset r (contents d S)"
      using e S(2) by (intro contents_new [OF fin]) (auto simp: upd_nth)
    ultimately show ?thesis using pl True e S(1) home_def by (auto simp: put_link_def)
  next
    case False
    then have kS: "k \<in> S" using S(1) k by blast
    show ?thesis
    proof (cases "home (dat d k) = k")
      case True
      obtain q where q: "C k = k # q" using good_first [OF g kS True] .
      let ?d = "d[e := d ! k, k := \<lparr>hl_next = e, hl_data = r\<rparr>]"
      have "good ?d (insert e S) home (C(k := k # e # q))" using place_front [OF g e S(2) kS _ q] by (simp add: k_def)
      moreover have "contents ?d (insert e S) = add_mset r (contents d S)"
      proof -
        have "contents (d[e := d ! k]) (insert e (S - {k})) = contents d S"
          using e S(2) kS by (intro contents_shift [OF fin]) (auto simp: upd_nth)
        moreover have "contents ?d (insert k (insert e (S - {k}))) = add_mset r (contents (d[e := d ! k]) (insert e (S - {k})))"
          using fin False k by (intro contents_new) (auto simp: upd_nth)
        moreover have "insert k (insert e (S - {k})) = insert e S" using kS by auto
        ultimately show ?thesis by simp
      qed
      moreover have "place_record mem h d e r = Ok ?d" using pl False True e k by (simp add: link_at_def put_link_def)
      ultimately show ?thesis using S(1) home_def by auto
    next
      case f: False
      obtain a0 b where "C (home (dat d k)) = a0 @ k # b" "a0 \<noteq> []" using good_inner [OF g kS f] .
      then obtain a j where c: "C (home (dat d k)) = a @ j # k # b" by (metis append.assoc append_Cons append_Nil rev_exhaust)
      let ?g = "home (dat d k)" and ?d1 = "d[e := d ! k, j := (d ! j)\<lparr>hl_next := e\<rparr>]" and ?l = "\<lparr>hl_next = NO_RECORD, hl_data = r\<rparr>"
      have cg: "distinct (a @ j # k # b)" "set (a @ j # k # b) \<subseteq> S" "seg d (a @ j # k # b) NO_RECORD" "hd (a @ j # k # b) = ?g"
        using goodC [OF g c] unfolding chain_def by auto
      have j: "j \<noteq> e" "j \<noteq> k" "k \<noteq> e" "e \<notin> set a" using cg(1,2) S(2) by auto
      have g1: "good ?d1 (insert e (S - {k})) home (C(?g := a @ j # e # b))" by (rule good_move [OF g e S(2) c])
      have g2: "good (?d1[k := ?l]) (insert k (insert e (S - {k}))) home ((C(?g := a @ j # e # b))(k := [k]))"
        using g1 k False by (intro place_free) (simp_all add: k_def)
      have ins: "insert k (insert e (S - {k})) = {..<length d}" using S(1) kS by auto
      have c1: "contents ?d1 (insert e (S - {k})) = contents d S"
        using e S(2) kS j by (intro contents_shift [OF fin]) (auto simp: upd_nth)
      have c2: "contents (?d1[k := ?l]) (insert k (insert e (S - {k}))) = add_mset r (contents ?d1 (insert e (S - {k})))"
        using fin False k by (intro contents_new) (auto simp: upd_nth)
      let ?d2 = "d[e := d ! k, k := ?l]"
      have "seg ?d2 (a @ [j]) k" using cg(1,3) j by simp
      then have "movelink ?d2 k (hd (a @ [j])) e = Ok (?d2[last (a @ [j]) := (?d2 ! last (a @ [j]))\<lparr>hl_next := e\<rparr>])"
        by (rule movelink_seg) (use cg(1) in auto)
      moreover have "hd (a @ [j]) = ?g" using cg(4) by (cases a) simp_all
      moreover have "?d2[j := (?d2 ! j)\<lparr>hl_next := e\<rparr>] = ?d1[k := ?l]" using j by (simp add: list_update_swap [of j k])
      ultimately have "movelink ?d2 k ?g e = Ok (?d1[k := ?l])" by simp
      then have "place_record mem h d e r = Ok (?d1[k := ?l])" using pl False f e k by (simp add: link_at_def put_link_def)
      then show ?thesis using g2 c1 c2 ins home_def by auto
    qed
  qed
qed

section \<open>Splitting a chain\<close>

text \<open>
  One of the two chains while they are built: its positions \<open>P\<close>, the records \<open>R\<close> for them, the
  last of which may not be stored yet. When it is \<open>used\<close> it is stored and links to \<open>x\<close>.
\<close>

definition half :: "'p hash_link list \<Rightarrow> (nat \<times> 'p) option \<Rightarrow> bool \<Rightarrow> bool \<Rightarrow> nat list \<Rightarrow> 'p list \<Rightarrow> nat \<Rightarrow> bool" where
  "half d pend found used P R x \<longleftrightarrow>
     (if P = [] then R = [] \<and> pend = None \<and> \<not> found \<and> \<not> used
      else pend = Some (last P, last R) \<and> found \<and> length R = length P \<and> last P < length d
        \<and> seg d (butlast P) (last P) \<and> map (dat d) (butlast P) = butlast R
        \<and> (used \<longrightarrow> seg d P x \<and> dat d (last P) = last R))"

lemma snoc_last: "P \<noteq> [] \<Longrightarrow> distinct P \<Longrightarrow> \<exists>Q i. P = Q @ [i] \<and> i \<notin> set Q \<and> distinct Q"
  by (induction P rule: rev_induct) auto

lemma half_cong:
  assumes "half d pend found used P R x" "length d' = length d" "\<And>j. j \<in> set P \<Longrightarrow> d' ! j = d ! j"
  shows "half d' pend found used P R x"
proof (cases "P = []")
  case False
  then have "set (butlast P) \<subseteq> set P" by (auto dest: in_set_butlastD)
  then have "map (dat d') (butlast P) = map (dat d) (butlast P)" using assms(3) by auto
  moreover have "seg d' (butlast P) (last P)" if "seg d (butlast P) (last P)"
    by (rule seg_cong [OF that]) (use assms(2,3) in \<open>auto dest: in_set_butlastD\<close>)
  moreover have "seg d' P x" if "seg d P x"
    by (rule seg_cong [OF that]) (use assms(2,3) in auto)
  moreover have "d' ! last P = d ! last P" using assms(3) False by simp
  ultimately show ?thesis using assms(1,2) False by (simp add: half_def del: map_eq_conv)
qed (use assms(1) in \<open>simp add: half_def\<close>)

lemma half_keep:
  assumes "half d pend found used P R x" "length d' = length d" "\<And>j. j \<in> set P \<Longrightarrow> d' ! j = d ! j"
  shows "half d' pend found False P R y"
proof -
  have "half d' pend found used P R x" using assms by (rule half_cong)
  then show ?thesis by (auto simp: half_def split: if_splits)
qed

text \<open>Storing what is pending, so that the chain links to \<open>x\<close>.\<close>

lemma half_store:
  assumes h: "half d pend found used P R x" and P: "P \<noteq> []" "distinct P"
  obtains d' where "(if used then Ok d else put_pending d pend x) = Ok d'" "seg d' P x" "map (dat d') P = R"
    "length d' = length d" "\<And>j. j \<notin> set P \<Longrightarrow> d' ! j = d ! j"
proof -
  obtain Q i where Q: "P = Q @ [i]" "i \<notin> set Q" using snoc_last [OF P] by blast
  have p: "pend = Some (i, last R)" "length R = Suc (length Q)" "i < length d" "seg d Q i" "map (dat d) Q = butlast R"
      "used \<longrightarrow> seg d P x \<and> dat d i = last R"
    using h P(1) Q(1) by (simp_all add: half_def)
  have "R \<noteq> []" using p(2) by auto
  then have R: "R = butlast R @ [last R]" by simp
  show ?thesis
  proof (cases used)
    case True
    moreover have "map (dat d) P = R" using p(5,6) True Q(1) by (subst R) simp
    ultimately show ?thesis using that [of d] p(6) by simp
  next
    case False
    let ?d = "d[i := \<lparr>hl_next = x, hl_data = last R\<rparr>]"
    have "map (dat ?d) Q = map (dat d) Q" using Q(2) by (auto simp: upd_nth)
    then have "map (dat ?d) Q = butlast R" by (simp only: p(5))
    then have "map (dat ?d) P = R" using Q p(3) by (subst R) simp
    moreover have "seg ?d P x" using Q p(3,4) by simp
    moreover have "put_pending d pend x = Ok ?d" using p(1,3) by (simp add: put_pending_def put_link_def)
    ultimately show ?thesis using that [of ?d] False Q by (auto simp: upd_nth)
  qed
qed

lemma half_snoc:
  assumes "seg d P i" "map (dat d) P = R" "i < length d" "hl_next (d ! i) = x" "dat d i = r"
  shows "half d (Some (i, r)) True True (P @ [i]) (R @ [r]) x"
  using assms by (auto simp: half_def)

text \<open>The state after the records at \<open>p\<close>, when those at \<open>q\<close> are still to come.\<close>

definition split_inv :: "('p \<Rightarrow> bool) \<Rightarrow> 'p hash_link list \<Rightarrow> nat \<Rightarrow> nat \<Rightarrow> nat list \<Rightarrow> nat list \<Rightarrow> 'p split_state \<Rightarrow> nat list \<Rightarrow> nat list \<Rightarrow> bool" where
  "split_inv hi d0 n f p q st PL PH \<longleftrightarrow>
     half (sp_data st) (sp_low st) (sp_lowfind st) (sp_lowused st) PL (filter (\<lambda>r. \<not> hi r) (map (dat d0) p)) (nxt q NO_RECORD)
     \<and> half (sp_data st) (sp_high st) (sp_highfind st) (sp_highused st) PH (filter hi (map (dat d0) p)) (nxt q NO_RECORD)
     \<and> distinct (PL @ PH @ [sp_empty st]) \<and> set (PL @ PH @ [sp_empty st]) = insert n (set p)
     \<and> (PL \<noteq> [] \<longrightarrow> hd PL = f) \<and> (PH \<noteq> [] \<longrightarrow> hd PH = n) \<and> (PH = [] \<longrightarrow> sp_empty st = n)
     \<and> (PL = [] \<and> PH \<noteq> [] \<longrightarrow> sp_empty st = f) \<and> \<not> (sp_lowused st \<and> sp_highused st)
     \<and> length (sp_data st) = length d0 \<and> (\<forall>i. i \<notin> insert n (set p) \<longrightarrow> sp_data st ! i = d0 ! i)"

lemma half_found: "half d pend found used P R x \<Longrightarrow> found = (P \<noteq> [])"
  by (simp add: half_def split: if_splits)

lemma half_used: "half d pend found used P R x \<Longrightarrow> used \<Longrightarrow> P \<noteq> []"
  by (auto simp: half_def)

lemma half_one: "i < length d \<Longrightarrow> half d (Some (i, r)) True False [i] [r] x"
  by (simp add: half_def)

lemma filter_both: "filter P xs = [] \<Longrightarrow> filter (\<lambda>x. \<not> P x) xs = [] \<Longrightarrow> xs = []"
  by (cases xs) (auto split: if_splits)

lemma split_invD:
  assumes "split_inv hi d0 n f p q st PL PH"
  shows "half (sp_data st) (sp_low st) (sp_lowfind st) (sp_lowused st) PL (filter (\<lambda>r. \<not> hi r) (map (dat d0) p)) (nxt q NO_RECORD)"
    "half (sp_data st) (sp_high st) (sp_highfind st) (sp_highused st) PH (filter hi (map (dat d0) p)) (nxt q NO_RECORD)"
    "distinct (PL @ PH @ [sp_empty st])" "set (PL @ PH @ [sp_empty st]) = insert n (set p)"
    "PL \<noteq> [] \<longrightarrow> hd PL = f" "PH \<noteq> [] \<longrightarrow> hd PH = n" "PH = [] \<longrightarrow> sp_empty st = n" "PL = [] \<and> PH \<noteq> [] \<longrightarrow> sp_empty st = f"
    "\<not> (sp_lowused st \<and> sp_highused st)" "length (sp_data st) = length d0" "i \<notin> insert n (set p) \<longrightarrow> sp_data st ! i = d0 ! i"
  using assms unfolding split_inv_def by (elim conjE; blast)+

lemma split_low_step:
  assumes inv: "split_inv hi d0 n f p (i # q) st PL PH" and i: "i \<notin> insert n (set p)" "i < length d0" "hl_next (d0 ! i) = nxt q NO_RECORD"
    and first: "p = [] \<Longrightarrow> i = f" and low: "\<not> hi (dat d0 i)" and n: "n < length d0" "f < length d0"
  shows "\<exists>st' PL' PH'. split_low st i (dat d0 i) = Ok st' \<and> split_inv hi d0 n f (p @ [i]) q st' PL' PH' \<and> sp_data st' ! i = d0 ! i"
proof -
  note c = split_invD [OF inv]
  let ?d = "sp_data st" and ?r = "dat d0 i" and ?RL = "filter (\<lambda>r. \<not> hi r) (map (dat d0) p)"
  have fnd: "sp_lowfind st = (PL \<noteq> [])" "sp_highfind st = (PH \<noteq> [])" using half_found [OF c(1)] half_found [OF c(2)] by simp_all
  have di: "?d ! i = d0 ! i" using c(11) i(1) by blast
  have inot: "i \<notin> set PL" "i \<notin> set PH" "i \<noteq> sp_empty st" using c(4) i(1) by auto
  have R: "filter (\<lambda>r. \<not> hi r) (map (dat d0) (p @ [i])) = ?RL @ [?r]" "filter hi (map (dat d0) (p @ [i])) = filter hi (map (dat d0) p)"
    using low by simp_all
  have out: "j \<notin> insert n (set (p @ [i])) \<longrightarrow> ?d ! j = d0 ! j" for j using c(11) by auto
  have hh: "half ?d (sp_high st) (sp_highfind st) False PH (filter hi (map (dat d0) p)) (nxt q NO_RECORD)"
    by (rule half_keep [OF c(2)]) simp_all
  consider (new) "PL = []" "PH = []" | (behind) "PL = []" "PH \<noteq> []" | (old) "PL \<noteq> []" by blast
  then show ?thesis
  proof cases
    case new
    then have "?RL = []" "filter hi (map (dat d0) p) = []" using c(1,2) by (simp_all add: half_def)
    then have p: "p = []" using filter_both [of hi "map (dat d0) p"] by simp
    have "half ?d (Some (i, ?r)) True True ([] @ [i]) ([] @ [?r]) (nxt q NO_RECORD)" using i(2,3) di c(10) by (intro half_snoc) simp_all
    then have "split_inv hi d0 n f (p @ [i]) q (st\<lparr>sp_lowfind := True, sp_lowused := True, sp_highused := False, sp_low := Some (i, ?r)\<rparr>) [i] []"
      unfolding split_inv_def using R hh new p first inot c(7,10) out \<open>?RL = []\<close> by auto
    then show ?thesis using new fnd di by (auto simp: split_low_def)
  next
    case behind
    have "?RL = []" using c(1) behind(1) by (simp add: half_def)
    moreover have "half ?d (Some (sp_empty st, ?r)) True False [sp_empty st] [?r] (nxt q NO_RECORD)"
      using c(8,10) behind n(2) by (intro half_one) simp
    ultimately have "split_inv hi d0 n f (p @ [i]) q
        (st\<lparr>sp_lowfind := True, sp_lowused := False, sp_highused := False, sp_low := Some (sp_empty st, ?r), sp_empty := i\<rparr>) [sp_empty st] PH"
      unfolding split_inv_def using R hh behind inot c(3,4,6,8,10) out by auto
    then show ?thesis using behind fnd di by (auto simp: split_low_def)
  next
    case old
    have hl: "half ?d (sp_low st) (sp_lowfind st) (sp_lowused st) PL ?RL i" using c(1) by simp
    have "distinct PL" using c(3) by simp
    then obtain d' where d': "(if sp_lowused st then Ok ?d else put_pending ?d (sp_low st) i) = Ok d'" "seg d' PL i" "map (dat d') PL = ?RL"
        "length d' = length ?d" "\<And>j. j \<notin> set PL \<Longrightarrow> d' ! j = ?d ! j"
      using half_store [OF hl old] by blast
    have lo: "half d' (Some (i, ?r)) True True (PL @ [i]) (?RL @ [?r]) (nxt q NO_RECORD)"
      using d' i(2,3) di c(10) inot by (intro half_snoc) simp_all
    have "j \<notin> set PL" if "j \<in> set PH" for j using that c(3) by auto
    then have hi: "half d' (sp_high st) (sp_highfind st) False PH (filter hi (map (dat d0) p)) (nxt q NO_RECORD)"
      using d'(4,5) by (intro half_keep [OF c(2)]) simp_all
    let ?st = "st\<lparr>sp_data := d', sp_lowused := True, sp_highused := False, sp_low := Some (i, ?r)\<rparr>"
    have s: "split_low st i ?r = Ok ?st" using old fnd d'(1) c(9) by (cases "sp_lowused st") (auto simp: split_low_def)
    have "split_inv hi d0 n f (p @ [i]) q ?st (PL @ [i]) PH"
      unfolding split_inv_def
    proof (intro conjI)
      show "half (sp_data ?st) (sp_low ?st) (sp_lowfind ?st) (sp_lowused ?st) (PL @ [i]) (filter (\<lambda>r. \<not> hi r) (map (dat d0) (p @ [i]))) (nxt q NO_RECORD)"
        using lo old fnd R(1) by simp
      show "half (sp_data ?st) (sp_high ?st) (sp_highfind ?st) (sp_highused ?st) PH (filter hi (map (dat d0) (p @ [i]))) (nxt q NO_RECORD)"
        using hi R(2) by simp
      have "j \<notin> set PL" if "j \<notin> insert n (set (p @ [i]))" for j using that c(4) by auto
      then show "\<forall>j. j \<notin> insert n (set (p @ [i])) \<longrightarrow> sp_data ?st ! j = d0 ! j" using d'(5) out by simp
    qed (use old c(3-8,10) inot d'(4) in auto)
    moreover have "sp_data ?st ! i = d0 ! i" using d'(5) inot di by simp
    ultimately show ?thesis using s by blast
  qed
qed

lemma split_high_step:
  assumes inv: "split_inv hi d0 n f p (i # q) st PL PH" and i: "i \<notin> insert n (set p)" "i < length d0" "hl_next (d0 ! i) = nxt q NO_RECORD"
    and first: "p = [] \<Longrightarrow> i = f" and high: "hi (dat d0 i)" and n: "n < length d0"
  shows "\<exists>st' PL' PH'. split_high st i (dat d0 i) = Ok st' \<and> split_inv hi d0 n f (p @ [i]) q st' PL' PH' \<and> sp_data st' ! i = d0 ! i"
proof -
  note c = split_invD [OF inv]
  let ?d = "sp_data st" and ?r = "dat d0 i" and ?RH = "filter hi (map (dat d0) p)"
  have fnd: "sp_lowfind st = (PL \<noteq> [])" "sp_highfind st = (PH \<noteq> [])" using half_found [OF c(1)] half_found [OF c(2)] by simp_all
  have di: "?d ! i = d0 ! i" using c(11) i(1) by blast
  have inot: "i \<notin> set PL" "i \<notin> set PH" "i \<noteq> sp_empty st" using c(4) i(1) by auto
  have R: "filter hi (map (dat d0) (p @ [i])) = ?RH @ [?r]" "filter (\<lambda>r. \<not> hi r) (map (dat d0) (p @ [i])) = filter (\<lambda>r. \<not> hi r) (map (dat d0) p)"
    using high by simp_all
  have out: "j \<notin> insert n (set (p @ [i])) \<longrightarrow> ?d ! j = d0 ! j" for j using c(11) by auto
  have hl: "half ?d (sp_low st) (sp_lowfind st) False PL (filter (\<lambda>r. \<not> hi r) (map (dat d0) p)) (nxt q NO_RECORD)"
    by (rule half_keep [OF c(1)]) simp_all
  show ?thesis
  proof (cases "PH = []")
    case True
    have RH: "?RH = []" using c(2) True by (simp add: half_def)
    have p: "p = []" if "PL = []" using that c(1) RH filter_both [of hi "map (dat d0) p"] by (simp add: half_def)
    have "half ?d (Some (sp_empty st, ?r)) True False [sp_empty st] [?r] (nxt q NO_RECORD)"
      using c(7,10) True n by (intro half_one) simp
    then have "split_inv hi d0 n f (p @ [i]) q
        (st\<lparr>sp_highfind := True, sp_highused := False, sp_lowused := False, sp_high := Some (sp_empty st, ?r), sp_empty := i\<rparr>) PL [sp_empty st]"
      unfolding split_inv_def using R RH hl True inot c(3,4,5,7,10) out p first by auto
    then show ?thesis using True fnd di by (auto simp: split_high_def)
  next
    case old: False
    have hh: "half ?d (sp_high st) (sp_highfind st) (sp_highused st) PH ?RH i" using c(2) by simp
    have "distinct PH" using c(3) by simp
    then obtain d' where d': "(if sp_highused st then Ok ?d else put_pending ?d (sp_high st) i) = Ok d'" "seg d' PH i" "map (dat d') PH = ?RH"
        "length d' = length ?d" "\<And>j. j \<notin> set PH \<Longrightarrow> d' ! j = ?d ! j"
      using half_store [OF hh old] by blast
    have hi: "half d' (Some (i, ?r)) True True (PH @ [i]) (?RH @ [?r]) (nxt q NO_RECORD)"
      using d' i(2,3) di c(10) inot by (intro half_snoc) simp_all
    have "j \<notin> set PH" if "j \<in> set PL" for j using that c(3) by auto
    then have lo: "half d' (sp_low st) (sp_lowfind st) False PL (filter (\<lambda>r. \<not> hi r) (map (dat d0) p)) (nxt q NO_RECORD)"
      using d'(4,5) by (intro half_keep [OF c(1)]) simp_all
    let ?st = "st\<lparr>sp_data := d', sp_highused := True, sp_lowused := False, sp_high := Some (i, ?r)\<rparr>"
    have s: "split_high st i ?r = Ok ?st" using old fnd d'(1) c(9) by (cases "sp_highused st") (auto simp: split_high_def)
    have "split_inv hi d0 n f (p @ [i]) q ?st PL (PH @ [i])"
      unfolding split_inv_def
    proof (intro conjI)
      show "half (sp_data ?st) (sp_high ?st) (sp_highfind ?st) (sp_highused ?st) (PH @ [i]) (filter hi (map (dat d0) (p @ [i]))) (nxt q NO_RECORD)"
        using hi old fnd R(1) by simp
      show "half (sp_data ?st) (sp_low ?st) (sp_lowfind ?st) (sp_lowused ?st) PL (filter (\<lambda>r. \<not> hi r) (map (dat d0) (p @ [i]))) (nxt q NO_RECORD)"
        using lo R(2) by simp
      have "j \<notin> set PH" if "j \<notin> insert n (set (p @ [i]))" for j using that c(4) by auto
      then show "\<forall>j. j \<notin> insert n (set (p @ [i])) \<longrightarrow> sp_data ?st ! j = d0 ! j" using d'(5) out by simp
    qed (use old c(3-8,10) inot d'(4) in auto)
    moreover have "sp_data ?st ! i = d0 ! i" using d'(5) inot di by simp
    ultimately show ?thesis using s by blast
  qed
qed


lemma nxt_none: "seg d (q @ is) NO_RECORD \<Longrightarrow> length d \<le> NO_RECORD \<Longrightarrow> nxt is NO_RECORD = NO_RECORD \<longleftrightarrow> is = []"
  by (cases "is") auto

lemma split_loop_inv:
  assumes inv: "split_inv hi d0 n f p q st PL PH" and "q \<noteq> []" "distinct (p @ q)" "n \<notin> set (p @ q)" "seg d0 (p @ q) NO_RECORD"
    and f: "hd (p @ q) = f" and "length q \<le> fuel"
    and hi: "\<And>r. hi r \<longleftrightarrow> rec_hashnr mem h r AND word_of_nat (ha_blength h div 2) \<noteq> 0" and n: "n < length d0" "length d0 \<le> NO_RECORD"
    and home: "hash_mask (rec_hashnr mem h (dat d0 f)) (ha_blength h) (ha_records h) = f" "uint_sub (ha_records h) (ha_blength h div 2) = f"
  shows "\<exists>st' PL' PH'. split_loop mem h fuel st (hd q) = Ok st' \<and> split_inv hi d0 n f (p @ q) [] st' PL' PH'"
  using assms(1-7)
proof (induction q arbitrary: p st PL PH fuel)
  case (Cons i q)
  then obtain fu where fu: "fuel = Suc fu" by (cases fuel) auto
  have i: "i \<notin> insert n (set p)" "i < length d0" "hl_next (d0 ! i) = nxt q NO_RECORD" using Cons.prems(3-5) by auto
  have fl: "f < length d0" using Cons.prems(5,6) seg_range [OF Cons.prems(5)] by (metis list.distinct(1) append_is_Nil_conv hd_in_set)
  have first: "p = [] \<Longrightarrow> i = f" using Cons.prems(6) by simp
  note c = split_invD [OF Cons.prems(1)]
  have di: "sp_data st ! i = d0 ! i" "length (sp_data st) = length d0" using c(10,11) i(1) by blast+
  have stay: "\<not> (\<not> sp_lowfind st \<and> \<not> sp_highfind st \<and> hash_mask (rec_hashnr mem h (dat d0 i)) (ha_blength h) (ha_records h) \<noteq> f)"
  proof (cases "p = []")
    case True
    then show ?thesis using first home(1) by simp
  next
    case False
    then have "PL \<noteq> [] \<or> PH \<noteq> []" using c(1,2) filter_both [of hi "map (dat d0) p"] by (auto simp: half_def)
    then show ?thesis using half_found [OF c(1)] half_found [OF c(2)] by auto
  qed
  obtain st1 PL1 PH1 where st1: "(if \<not> hi (dat d0 i) then split_low st i (dat d0 i) else split_high st i (dat d0 i)) = Ok st1"
      "split_inv hi d0 n f (p @ [i]) q st1 PL1 PH1" "sp_data st1 ! i = d0 ! i"
    using split_low_step [OF Cons.prems(1) i first _ n(1) fl] split_high_step [OF Cons.prems(1) i first _ n(1)] by (cases "hi (dat d0 i)") auto
  have l1: "length (sp_data st1) = length d0" using split_invD(10) [OF st1(2)] .
  have loop: "split_loop mem h fuel st i = (if nxt q NO_RECORD = NO_RECORD then Ok st1 else split_loop mem h fu st1 (nxt q NO_RECORD))"
    using fu stay di i(2,3) st1(1,3) l1 home(2) hi by (auto simp: link_at_def Let_def)
  show ?case
  proof (cases "q = []")
    case True
    then show ?thesis using loop st1(2) by auto
  next
    case False
    have "nxt q NO_RECORD = hd q" using False by (cases q) simp_all
    moreover have "nxt q NO_RECORD \<noteq> NO_RECORD" using nxt_none [of d0 "p @ [i]" q] Cons.prems(5) n(2) False by simp
    moreover have "\<exists>st' PL' PH'. split_loop mem h fu st1 (hd q) = Ok st' \<and> split_inv hi d0 n f ((p @ [i]) @ q) [] st' PL' PH'"
      using Cons.prems fu False by (intro Cons.IH [OF st1(2)]) simp_all
    ultimately show ?thesis using loop by simp
  qed
qed simp

lemma contents_list: "distinct P \<Longrightarrow> contents d (set P) = mset (map (dat d) P)"
  by (simp add: contents_def mset_set_set)

lemma contents_union: "finite A \<Longrightarrow> finite B \<Longrightarrow> A \<inter> B = {} \<Longrightarrow> contents d (A \<union> B) = contents d A + contents d B"
  by (simp add: contents_def mset_set_Union)

lemma mset_filter_both: "mset (filter P xs) + mset (filter (\<lambda>x. \<not> P x) xs) = mset xs"
  by (induction xs) auto

lemma half_end:
  assumes h: "half d pend found used P R NO_RECORD" and "distinct P"
  obtains d' where "(if found \<and> \<not> used then put_pending d pend NO_RECORD else Ok d) = Ok d'" "seg d' P NO_RECORD" "map (dat d') P = R"
    "length d' = length d" "\<And>j. j \<notin> set P \<Longrightarrow> d' ! j = d ! j"
proof (cases "P = []")
  case True
  then show ?thesis using h that [of d] by (simp add: half_def)
next
  case False
  have "found" using half_found [OF h] False by simp
  obtain d' where "(if used then Ok d else put_pending d pend NO_RECORD) = Ok d'" "seg d' P NO_RECORD" "map (dat d') P = R"
    "length d' = length d" "\<And>j. j \<notin> set P \<Longrightarrow> d' ! j = d ! j"
    using half_store [OF h False assms(2)] by blast
  then show ?thesis using \<open>found\<close> by (intro that [of d']) (auto split: if_splits)
qed

lemma split_end_inv:
  assumes inv: "split_inv hi d0 n f c [] st PL PH"
  obtains d' where "split_end st = Ok (st\<lparr>sp_data := d'\<rparr>)" "seg d' PL NO_RECORD" "map (dat d') PL = filter (\<lambda>r. \<not> hi r) (map (dat d0) c)"
    "seg d' PH NO_RECORD" "map (dat d') PH = filter hi (map (dat d0) c)" "length d' = length d0" "\<And>j. j \<notin> insert n (set c) \<Longrightarrow> d' ! j = d0 ! j"
proof -
  note s = split_invD [OF inv]
  have dis: "distinct PL" "distinct PH" "set PL \<inter> set PH = {}" using s(3) by auto
  have hl: "half (sp_data st) (sp_low st) (sp_lowfind st) (sp_lowused st) PL (filter (\<lambda>r. \<not> hi r) (map (dat d0) c)) NO_RECORD" using s(1) by simp
  obtain d1 where d1: "(if sp_lowfind st \<and> \<not> sp_lowused st then put_pending (sp_data st) (sp_low st) NO_RECORD else Ok (sp_data st)) = Ok d1"
      "seg d1 PL NO_RECORD" "map (dat d1) PL = filter (\<lambda>r. \<not> hi r) (map (dat d0) c)"
      "length d1 = length (sp_data st)" "\<And>j. j \<notin> set PL \<Longrightarrow> d1 ! j = sp_data st ! j"
    using half_end [OF hl dis(1)] by blast
  have hh: "half (sp_data st) (sp_high st) (sp_highfind st) (sp_highused st) PH (filter hi (map (dat d0) c)) NO_RECORD" using s(2) by simp
  have "d1 ! j = sp_data st ! j" if "j \<in> set PH" for j using that d1(5) dis(3) by auto
  with hh d1(4) have "half d1 (sp_high st) (sp_highfind st) (sp_highused st) PH (filter hi (map (dat d0) c)) NO_RECORD" by (rule half_cong)
  then obtain d2 where d2: "(if sp_highfind st \<and> \<not> sp_highused st then put_pending d1 (sp_high st) NO_RECORD else Ok d1) = Ok d2"
      "seg d2 PH NO_RECORD" "map (dat d2) PH = filter hi (map (dat d0) c)" "length d2 = length d1" "\<And>j. j \<notin> set PH \<Longrightarrow> d2 ! j = d1 ! j"
    using half_end [OF _ dis(2)] by blast
  have e: "split_end st = Ok (st\<lparr>sp_data := d2\<rparr>)" using d1(1) d2(1) unfolding split_end_def by simp
  have pl: "d2 ! j = d1 ! j" if "j \<in> set PL" for j using that d2(5) dis(3) by auto
  have "seg d2 PL NO_RECORD" using seg_cong [OF d1(2)] d2(4) pl by simp
  moreover have "map (dat d2) PL = filter (\<lambda>r. \<not> hi r) (map (dat d0) c)"
  proof -
    have "map (dat d2) PL = map (dat d1) PL" using pl by simp
    then show ?thesis by (simp only: d1(3))
  qed
  moreover have "d2 ! j = d0 ! j" if j: "j \<notin> insert n (set c)" for j
  proof -
    have "j \<notin> set PL" "j \<notin> set PH" using j s(4) by auto
    then show ?thesis using d1(5) d2(5) s(11) j by metis
  qed
  ultimately show ?thesis using that e d2 d1(4) s(10) by metis
qed

lemma map_eq_setD: "map g P = R \<Longrightarrow> i \<in> set P \<Longrightarrow> g i \<in> set R"
  by auto

lemma split_good:
  assumes g: "good d {..<n} home C" and d: "length d = n" and c: "C f = c" and f: "f < n"
    and inv: "split_inv hi (d @ [fresh]) n f c [] st PL PH"
    and d': "seg d' PL NO_RECORD" "map (dat d') PL = filter (\<lambda>r. \<not> hi r) (map (dat (d @ [fresh])) c)"
      "seg d' PH NO_RECORD" "map (dat d') PH = filter hi (map (dat (d @ [fresh])) c)"
      "length d' = length (d @ [fresh])" "\<And>j. j \<notin> insert n (set c) \<Longrightarrow> d' ! j = (d @ [fresh]) ! j"
    and home': "\<And>r. home' r = (if home r = f \<and> hi r then n else home r)"
  shows "good d' ({..<Suc n} - {sp_empty st}) home' (C(f := PL, n := PH))"
proof -
  let ?S = "{..<Suc n} - {sp_empty st}" and ?e = "sp_empty st"
  note s = split_invD [OF inv]
  have cc: "set c = {i \<in> {..<n}. home (dat d i) = f}" using goodC [OF g c] by (simp add: chain_def)
  have cn: "i < n" if "i \<in> set c" for i using that cc by blast
  have hc: "home (dat (d @ [fresh]) i) = f" if "i \<in> set c" for i using that cc d by (auto simp: nth_append)
  have PL: "\<not> hi (dat d' i) \<and> home (dat d' i) = f" if "i \<in> set PL" for i using map_eq_setD [OF d'(2) that] hc by auto
  have PH: "hi (dat d' i) \<and> home (dat d' i) = f" if "i \<in> set PH" for i using map_eq_setD [OF d'(4) that] hc by auto
  have un: "set PL \<union> set PH = insert n (set c) - {?e}" "set PL \<inter> set PH = {}" "distinct PL" "distinct PH" "?e \<notin> set PL" "?e \<notin> set PH"
    using s(3,4) by auto
  have old: "d' ! i = d ! i" if "i < n" "i \<notin> set c" for i using that d'(6) [of i] d by (simp add: nth_append)
  have Cn: "C n = []" using good_unused [OF g] by simp
  have hn: "home (dat d i) \<noteq> n" if "i < n" for i using that goodD(2) [OF g, of i n] Cn by auto
  have off: "i \<in> ?S \<Longrightarrow> i \<notin> set PL \<Longrightarrow> i \<notin> set PH \<Longrightarrow> i < n \<and> i \<notin> set c \<and> d' ! i = d ! i" for i
    using un(1) old by (cases "i = n") auto
  have inS: "i \<in> set PL \<or> i \<in> set PH \<Longrightarrow> i \<in> ?S" for i using un cn by fastforce
  have low: "set PL = {i \<in> ?S. home' (dat d' i) = f}"
  proof (intro set_eqI iffI)
    fix i assume "i \<in> set PL"
    then show "i \<in> {i \<in> ?S. home' (dat d' i) = f}" using PL [of i] home' [of "dat d' i"] inS by simp
  next
    fix i assume i: "i \<in> {i \<in> ?S. home' (dat d' i) = f}"
    then have "i \<notin> set PH" using PH [of i] home' [of "dat d' i"] f by auto
    moreover have False if "i \<notin> set PL" "i \<notin> set PH"
    proof -
      have o: "i < n" "i \<notin> set c" "d' ! i = d ! i" using off that i by blast+
      then have "home (dat d i) = f" using i home' [of "dat d' i"] f by (auto split: if_splits)
      then show False using o cc by simp
    qed
    ultimately show "i \<in> set PL" by blast
  qed
  have high: "set PH = {i \<in> ?S. home' (dat d' i) = n}"
  proof (intro set_eqI iffI)
    fix i assume "i \<in> set PH"
    then show "i \<in> {i \<in> ?S. home' (dat d' i) = n}" using PH [of i] home' [of "dat d' i"] inS by simp
  next
    fix i assume i: "i \<in> {i \<in> ?S. home' (dat d' i) = n}"
    then have "i \<notin> set PL" using PL [of i] home' [of "dat d' i"] f by auto
    moreover have False if "i \<notin> set PL" "i \<notin> set PH"
    proof -
      have o: "i < n" "i \<notin> set c" "d' ! i = d ! i" using off that i by blast+
      then have "home (dat d i) = f" using i home' [of "dat d' i"] hn [of i] by (auto split: if_splits)
      then show False using o cc by simp
    qed
    ultimately show "i \<in> set PH" by blast
  qed
  show ?thesis
  proof (rule good_change [OF g, where H = "{f, n}"])
    show "chain d' ?S home' p ((C(f := PL, n := PH)) p)" if "p \<in> {f, n}" for p
      using that low high un d'(1,3) s(5,6) f by (auto simp: chain_def)
    show "d' ! i = d ! i" if "p \<notin> {f, n}" "i \<in> set (C p)" for p i
      using that goodD(2) [OF g, of i p] cc old by auto
    show "i \<in> ?S \<and> home' (dat d' i) = p \<longleftrightarrow> i \<in> {..<n} \<and> home (dat d i) = p" if p: "p \<notin> {f, n}" for p i
    proof (cases "i \<in> set PL \<union> set PH \<union> {?e}")
      case True
      have "i \<in> insert n (set c)" using True un(1) s(4) by auto
      then have "\<not> (i \<in> {..<n} \<and> home (dat d i) = p)" using cc p by auto
      moreover have "\<not> (i \<in> ?S \<and> home' (dat d' i) = p)" using True PL [of i] PH [of i] home' [of "dat d' i"] p by auto
      ultimately show ?thesis by blast
    next
      case False
      have ni: "i \<notin> insert n (set c)" using False s(4) by auto
      have "d' ! i = d ! i" if "i < n" using that old ni by simp
      then show ?thesis using False home' [of "dat d' i"] p ni by (auto split: if_splits)
    qed
  qed (use d' d in auto)
qed

lemma split_contents:
  assumes g: "good d {..<n} home C" and d: "length d = n" and c: "C f = c"
    and inv: "split_inv hi (d @ [fresh]) n f c [] st PL PH"
    and d': "map (dat d') PL = filter (\<lambda>r. \<not> hi r) (map (dat (d @ [fresh])) c)"
      "map (dat d') PH = filter hi (map (dat (d @ [fresh])) c)" "\<And>j. j \<notin> insert n (set c) \<Longrightarrow> d' ! j = (d @ [fresh]) ! j"
  shows "contents d' ({..<Suc n} - {sp_empty st}) = contents d {..<n}" "sp_empty st < Suc n"
proof -
  note s = split_invD [OF inv]
  have cc: "set c \<subseteq> {..<n}" "distinct c" using goodC [OF g c] by (auto simp: chain_def)
  have dis: "distinct (PL @ PH)" using s(3) by auto
  have "set (PL @ PH) \<union> {sp_empty st} = insert n (set c)" "sp_empty st \<notin> set (PL @ PH)" using s(3,4) by simp_all
  then have un: "set (PL @ PH) = insert n (set c) - {sp_empty st}" "sp_empty st \<in> insert n (set c)" by blast+
  show "sp_empty st < Suc n" using un(2) cc(1) by auto
  have m: "map (dat (d @ [fresh])) c = map (dat d) c" using cc(1) d by (auto simp: nth_append)
  have "{..<Suc n} - {sp_empty st} = set (PL @ PH) \<union> ({..<n} - set c)"
    unfolding un(1) lessThan_Suc using un(2) cc(1) by blast
  then have "contents d' ({..<Suc n} - {sp_empty st}) = contents d' (set (PL @ PH)) + contents d' ({..<n} - set c)"
    using un(1) by (simp only:) (rule contents_union; auto)
  moreover have "contents d' (set (PL @ PH)) = mset (map (dat d) c)"
    using contents_list [OF dis, of d'] d'(1,2) mset_filter_both [of hi "map (dat d) c"] unfolding m by (simp add: add.commute)
  moreover have "contents d' ({..<n} - set c) = contents d ({..<n} - set c)"
    using d'(3) d by (intro contents_cong) (auto simp: nth_append)
  moreover have "contents d {..<n} = contents d (set c) + contents d ({..<n} - set c)"
    using contents_union [of "set c" "{..<n} - set c" d] cc(1) by (simp add: Un_absorb1 Un_Diff_cancel)
  ultimately show "contents d' ({..<Suc n} - {sp_empty st}) = contents d {..<n}" using contents_list [OF cc(2), of d] by simp
qed

section \<open>Hash positions\<close>

lemma and_pow: "k < 32 \<Longrightarrow> unat ((w :: u32) AND (word_of_nat (2 ^ k) - 1)) = unat w mod 2 ^ k"
proof -
  assume "k < 32"
  have "(word_of_nat (2 ^ k) :: u32) - 1 = mask k" by (simp add: mask_eq_exp_minus_1)
  then have "w AND (word_of_nat (2 ^ k) - 1) = take_bit k w" by (simp only: take_bit_eq_mask [symmetric])
  then have "unat (w AND (word_of_nat (2 ^ k) - 1)) = take_bit k (unat w)" by (simp only: unsigned_take_bit_eq)
  then show ?thesis by (simp only: take_bit_eq_mod)
qed

lemma and_bit: "k < 32 \<Longrightarrow> (w :: u32) AND word_of_nat (2 ^ k) \<noteq> 0 \<longleftrightarrow> odd (unat w div 2 ^ k)"
proof -
  assume k: "k < 32"
  have "w AND word_of_nat (2 ^ k) \<noteq> 0 \<longleftrightarrow> bit w k" using k by (simp add: bit_iff_and_push_bit_not_eq_0 push_bit_of_1)
  also have "\<dots> \<longleftrightarrow> bit (unat w) k" by (simp add: bit_unsigned_iff k)
  finally show ?thesis by (simp add: bit_iff_odd)
qed

lemma hash_mask_pow:
  assumes "0 < k" "k < 32"
  shows "hash_mask w (2 ^ k) n = (if unat w mod 2 ^ k < n then unat w mod 2 ^ k else unat w mod 2 ^ (k - 1))"
proof -
  have "(2 :: nat) ^ k div 2 = 2 ^ (k - 1)" using assms(1) by (cases k) simp_all
  moreover have "k - 1 < 32" using assms(2) by simp
  ultimately show ?thesis unfolding hash_mask_def by (simp only: and_pow [OF assms(2)] and_pow)
qed

lemma mod_halves: "0 < k \<Longrightarrow> (x :: nat) mod 2 ^ k = x mod 2 ^ (k - 1) + (if odd (x div 2 ^ (k - 1)) then 2 ^ (k - 1) else 0)"
  using mod_mult2_eq [of x "2 ^ (k - 1)" 2] by (cases k) (simp_all add: mod2_eq_if mult.commute)

text \<open>One more record: the records that belong to the new position leave one chain.\<close>

lemma hash_mask_step:
  assumes k: "0 < k" "k < 32" and n: "2 ^ (k - 1) \<le> n" "n < 2 ^ k"
  shows "hash_mask w (2 ^ k) (n + 1) =
    (if hash_mask w (2 ^ k) n = n - 2 ^ (k - 1) \<and> w AND word_of_nat (2 ^ (k - 1)) \<noteq> 0 then n else hash_mask w (2 ^ k) n)"
proof -
  define L where "L = unat w mod 2 ^ (k - 1)"
  define h :: nat where "h = 2 ^ (k - 1)"
  define b where "b = odd (unat w div 2 ^ (k - 1))"
  have L: "L < h" unfolding L_def h_def by simp
  have M: "unat w mod 2 ^ k = L + (if b then h else 0)" using mod_halves [OF k(1)] by (simp add: L_def h_def b_def)
  have n': "h \<le> n" "n < 2 * h" using n k(1) unfolding h_def by (cases k; simp)+
  have w: "w AND word_of_nat (2 ^ (k - 1)) \<noteq> 0 \<longleftrightarrow> b" using and_bit [of "k - 1" w] k unfolding b_def by simp
  show ?thesis unfolding hash_mask_pow [OF k] M w unfolding L_def [symmetric] unfolding h_def [symmetric] using L n' by auto
qed

lemma hash_mask_double: "k < 31 \<Longrightarrow> hash_mask w (2 ^ (k + 1)) (2 ^ k) = hash_mask w (2 ^ k) (2 ^ k)"
proof -
  assume k: "k < 31"
  have "hash_mask w (2 ^ k) (2 ^ k) = unat w mod 2 ^ k" unfolding hash_mask_def using k by (simp only: and_pow) simp
  moreover have "unat w mod 2 ^ (k + 1) = unat w mod 2 ^ k" if "unat w mod 2 ^ (k + 1) < 2 ^ k"
    using that mod_halves [of "k + 1" "unat w"] by (auto split: if_splits)
  ultimately show ?thesis using k by (simp only: hash_mask_pow) auto
qed

lemma hash_mask_less:
  assumes "k < 32" "2 ^ k div 2 \<le> n" "0 < n"
  shows "hash_mask w (2 ^ k) n < n"
proof (cases "k = 0")
  case True
  then show ?thesis using assms(3) by (simp add: hash_mask_def)
next
  case False
  then have "(2 :: nat) ^ (k - 1) \<le> n" using assms(2) by (cases k) simp_all
  moreover have "unat w mod 2 ^ (k - 1) < 2 ^ (k - 1)" by simp
  ultimately show ?thesis using False assms(1) by (simp add: hash_mask_pow del: mod_less_divisor)
qed

section \<open>Insertion\<close>

definition hash_inv :: "'p memory \<Rightarrow> 'p hash \<Rightarrow> bool" where
  "hash_inv mem h \<longleftrightarrow> length (ha_array h) = ha_records h \<and> ha_records h < 2 ^ 31
     \<and> (\<exists>k<32. ha_blength h = 2 ^ k \<and> 2 ^ k div 2 \<le> ha_records h \<and> ha_records h < 2 ^ k)
     \<and> (\<exists>C. good (ha_array h) {..<ha_records h} (home_of mem h (ha_blength h) (ha_records h)) C)"

definition hash_records :: "'p hash \<Rightarrow> 'p multiset" where
  "hash_records h = mset (map hl_data (ha_array h))"

lemma contents_all: "contents d {..<length d} = mset (map hl_data d)"
proof -
  have "map (dat d) [0..<length d] = map hl_data d" by (rule nth_equalityI) simp_all
  then show ?thesis using contents_list [of "[0..<length d]" d] by (simp add: atLeast0LessThan)
qed

lemma good_cong: "good d S home C \<Longrightarrow> (\<And>i. i \<in> S \<Longrightarrow> home' (dat d i) = home (dat d i)) \<Longrightarrow> good d S home' C"
  by (auto simp: good_def chain_def)

lemma good_extend: "good d S home C \<Longrightarrow> S \<subseteq> {..<length d} \<Longrightarrow> good (d @ [x]) S home C"
proof (rule good_change [where H = "{}"])
  assume g: "good d S home C" and S: "S \<subseteq> {..<length d}"
  show "(d @ [x]) ! i = d ! i" if "i \<in> set (C p)" for p i using that goodD(2) [OF g, of i p] S by (auto simp: nth_append)
  show "i \<in> S \<and> home (dat (d @ [x]) i) = p \<longleftrightarrow> i \<in> S \<and> home (dat d i) = p" for p i using S by (auto simp: nth_append)
qed auto

text \<open>The first phase: room for the chain of the new position.\<close>

lemma split_phase:
  assumes g: "good d {..<n} (home_of mem h (2 ^ k) n) C" and d: "length d = n" "ha_records h = n" "ha_blength h = 2 ^ k"
    and k: "0 < k" "k < 32" "2 ^ (k - 1) \<le> n" "n < 2 ^ k" "n < 2 ^ 31"
    and st0: "st0 = \<lparr>sp_data = d @ [fresh], sp_empty = n, sp_lowfind = False, sp_lowused = False, sp_low = None,
      sp_highfind = False, sp_highused = False, sp_high = None\<rparr>"
  shows "\<exists>st C'. rbind (split_loop mem h (Suc n) st0 (n - 2 ^ (k - 1))) split_end = Ok st \<and> length (sp_data st) = Suc n \<and> sp_empty st < Suc n
    \<and> good (sp_data st) ({..<Suc n} - {sp_empty st}) (home_of mem h (2 ^ k) (n + 1)) C'
    \<and> contents (sp_data st) ({..<Suc n} - {sp_empty st}) = contents d {..<n}"
proof -
  let ?f = "n - 2 ^ (k - 1)" and ?d0 = "d @ [fresh]" and ?home = "home_of mem h (2 ^ k) n" and ?home' = "home_of mem h (2 ^ k) (n + 1)"
  define hi where "hi r = (rec_hashnr mem h r AND word_of_nat (2 ^ (k - 1)) \<noteq> 0)" for r
  have half: "ha_blength h div 2 = 2 ^ (k - 1)" using d(3) k(1) by (cases k) simp_all
  have "0 < (2 :: nat) ^ (k - 1)" by simp
  then have f: "?f < n" using k(3) by linarith
  have us: "uint_sub n (2 ^ (k - 1)) = ?f" using k(3,5) by (intro uint_sub_small) simp_all
  have home': "?home' r = (if ?home r = ?f \<and> hi r then n else ?home r)" for r
    unfolding home_of_def hi_def by (rule hash_mask_step [OF k(1-4)])
  show ?thesis
  proof (cases "C ?f")
    case Nil
    have foreign: "?home (dat d ?f) \<noteq> ?f" using goodD(2) [OF g, of ?f ?f] Nil f by auto
    have "split_loop mem h (Suc n) st0 ?f = Ok st0"
      using foreign f d half us by (simp add: link_at_def st0 nth_append Let_def home_of_def)
    moreover have "split_end st0 = Ok st0" by (simp add: split_end_def st0)
    moreover have "?home' (dat d i) = ?home (dat d i)" if "i \<in> {..<n}" for i
      using that goodD(2) [OF g, of i ?f] Nil home' [of "dat d i"] by auto
    then have "good d {..<n} ?home' C" by (rule good_cong [OF g])
    then have "good ?d0 {..<n} ?home' C" using d(1) by (intro good_extend) simp_all
    moreover have "contents ?d0 {..<n} = contents d {..<n}" using d(1) by (intro contents_cong) (simp add: nth_append)
    moreover have "{..<Suc n} - {n} = {..<n}" by auto
    ultimately show ?thesis using d(1) by (intro exI [of _ st0] exI [of _ C]) (simp add: st0)
  next
    case (Cons x q)
    define c where "c = C ?f"
    have ch: "chain d {..<n} ?home ?f c" unfolding c_def using g by (simp add: good_def)
    have cf: "c \<noteq> []" "hd c = ?f" "distinct c" "seg d c NO_RECORD" "set c \<subseteq> {..<n}" "?home (dat d ?f) = ?f"
    proof -
      show "c \<noteq> []" using Cons by (simp add: c_def)
      then show "hd c = ?f" "distinct c" "seg d c NO_RECORD" "set c \<subseteq> {..<n}" using ch by (auto simp: chain_def)
      then have "?f \<in> set c" using \<open>c \<noteq> []\<close> hd_in_set by metis
      then show "?home (dat d ?f) = ?f" using ch by (auto simp: chain_def)
    qed
    have a1: "seg ?d0 ([] @ c) NO_RECORD" using cf(4,5) d(1) unfolding append_Nil by (intro seg_cong [OF cf(4)]) (auto simp: nth_append)
    have a2: "split_inv hi ?d0 n ?f [] c st0 [] []" by (simp add: split_inv_def half_def st0)
    have a3: "length c \<le> Suc n" using card_mono [OF _ cf(5)] cf(3) by (simp add: distinct_card)
    have a4: "hash_mask (rec_hashnr mem h (dat ?d0 ?f)) (ha_blength h) (ha_records h) = ?f"
      using cf(6) d f by (simp add: home_of_def nth_append)
    have a5: "length ?d0 \<le> NO_RECORD" "n < length ?d0" using k(5) d(1) by (simp_all add: NO_RECORD_def)
    have a6: "hi r \<longleftrightarrow> rec_hashnr mem h r AND word_of_nat (ha_blength h div 2) \<noteq> 0" for r unfolding hi_def half by (rule refl)
    have a7: "distinct ([] @ c)" "n \<notin> set ([] @ c)" "hd ([] @ c) = ?f" "uint_sub (ha_records h) (ha_blength h div 2) = ?f"
      using cf(2,3,5) us d(2) half by auto
    obtain st PL PH where st: "split_loop mem h (Suc n) st0 ?f = Ok st" "split_inv hi ?d0 n ?f c [] st PL PH"
      using split_loop_inv [OF a2 cf(1) a7(1,2) a1 a7(3) a3 a6 a5(2,1) a4 a7(4)] cf(2) unfolding append_Nil by metis
    obtain d' where d': "split_end st = Ok (st\<lparr>sp_data := d'\<rparr>)" "seg d' PL NO_RECORD" "map (dat d') PL = filter (\<lambda>r. \<not> hi r) (map (dat ?d0) c)"
        "seg d' PH NO_RECORD" "map (dat d') PH = filter hi (map (dat ?d0) c)" "length d' = length ?d0" "\<And>j. j \<notin> insert n (set c) \<Longrightarrow> d' ! j = ?d0 ! j"
      using split_end_inv [OF st(2)] by blast
    have "good d' ({..<Suc n} - {sp_empty st}) ?home' (C(?f := PL, n := PH))"
      by (rule split_good [OF g d(1) c_def [symmetric] f st(2) d'(2-7) home'])
    moreover have "contents d' ({..<Suc n} - {sp_empty st}) = contents d {..<n}" "sp_empty st < Suc n"
      using split_contents [OF g d(1) c_def [symmetric] st(2) d'(3,5,7)] by blast+
    ultimately show ?thesis using st(1) d'(1,6) d(1) by (intro exI [of _ "st\<lparr>sp_data := d'\<rparr>"] exI) simp
  qed
qed

lemma hash_key_fields:
  "hash_key mem (h\<lparr>ha_array := d, ha_current_record := c, ha_records := n, ha_blength := b\<rparr>) = hash_key mem h"
  "hash_key mem (h\<lparr>ha_current_record := c\<rparr>) = hash_key mem h"
  by (simp_all add: hash_key_def fun_eq_iff split: option.split)

lemma home_of_fields:
  "home_of mem (h\<lparr>ha_array := d, ha_current_record := c, ha_records := n, ha_blength := b\<rparr>) = home_of mem h"
  "home_of mem (h\<lparr>ha_current_record := c\<rparr>) = home_of mem h"
  by (simp_all add: home_of_def rec_hashnr_def hashnr_of_def hash_key_fields fun_eq_iff)

lemma hash_init_inv: "hash_inv mem (hash_init ko kl gk fr ci)" "hash_records (hash_init ko kl gk fr ci) = {#}"
  by (auto simp: hash_inv_def hash_init_def good_def chain_def hash_records_def intro!: exI [of _ 0] exI [of _ "\<lambda>_. []"])

lemma pow_half: "0 < n \<Longrightarrow> 2 ^ k div 2 \<le> n \<Longrightarrow> n < 2 ^ k \<Longrightarrow> 0 < k \<and> (2 :: nat) ^ (k - 1) \<le> n"
  by (cases k) simp_all

text \<open>Room for one more record, before it is placed.\<close>

lemma insert_phase:
  assumes g: "good d {..<n} (home_of mem h (2 ^ k) n) C" and d: "length d = n" "ha_records h = n" "ha_blength h = 2 ^ k" "ha_array h = d"
    and k: "k < 32" "2 ^ k div 2 \<le> n" "n < 2 ^ k" "n < 2 ^ 31"
    and st0: "st0 = \<lparr>sp_data = d @ [fresh], sp_empty = n, sp_lowfind = False, sp_lowused = False, sp_low = None,
      sp_highfind = False, sp_highused = False, sp_high = None\<rparr>"
  shows "\<exists>st C'. (if uint_sub n (2 ^ k div 2) \<noteq> n then rbind (split_loop mem h (Suc n) st0 (uint_sub n (2 ^ k div 2))) split_end else Ok st0) = Ok st
    \<and> length (sp_data st) = Suc n \<and> sp_empty st < Suc n \<and> good (sp_data st) ({..<Suc n} - {sp_empty st}) (home_of mem h (2 ^ k) (n + 1)) C'
    \<and> contents (sp_data st) ({..<Suc n} - {sp_empty st}) = contents d {..<n}"
proof (cases "n = 0")
  case True
  then have "k = 0" using k(2) by (cases k) simp_all
  then have "uint_sub n (2 ^ k div 2) = n" using True by (simp add: uint_sub_def)
  moreover have "good [fresh] {} (home_of mem h (2 ^ k) (n + 1)) (\<lambda>_. [])" by (simp add: good_def chain_def)
  moreover have e: "{..<Suc n} - {sp_empty st0} = {}" using True by (auto simp: st0)
  ultimately show ?thesis using True d by (intro exI [of _ st0] exI [of _ "\<lambda>_. []"], simp only: e) (simp add: st0 contents_def)
next
  case False
  then have kk: "0 < k" "2 ^ (k - 1) \<le> n" using pow_half [of n k] k by simp_all
  have h: "(2 :: nat) ^ k div 2 = 2 ^ (k - 1)" using kk(1) by (cases k) simp_all
  have u: "uint_sub n (2 ^ (k - 1)) = n - 2 ^ (k - 1)" using kk(2) k(4) by (intro uint_sub_small) simp_all
  have "0 < (2 :: nat) ^ (k - 1)" by simp
  then have "n - 2 ^ (k - 1) \<noteq> n" using kk(2) by linarith
  then show ?thesis using split_phase [OF g d(1-3) kk(1) k(1) kk(2) k(3,4) st0] h u by (simp only: if_True not_False_eq_True)
qed

lemma insert_ok:
  assumes inv: "hash_inv mem h" and room: "ha_records h + 1 < 2 ^ 31"
  shows "\<exists>h'. hash_insert mem True fresh h r = Ok (False, h') \<and> hash_inv mem h' \<and> hash_records h' = add_mset r (hash_records h)
    \<and> (\<forall>bl n. home_of mem h' bl n = home_of mem h bl n) \<and> ha_records h' = ha_records h + 1"
proof -
  define n where "n = ha_records h"
  obtain k C where k: "k < 32" "ha_blength h = 2 ^ k" "2 ^ k div 2 \<le> n" "n < 2 ^ k" and n: "length (ha_array h) = n" "n < 2 ^ 31" "n + 1 < 2 ^ 31"
    and g: "good (ha_array h) {..<n} (home_of mem h (2 ^ k) n) C"
    using inv room by (auto simp: hash_inv_def n_def)
  define st0 where "st0 = \<lparr>sp_data = ha_array h @ [fresh], sp_empty = n, sp_lowfind = False, sp_lowused = False, sp_low = None,
      sp_highfind = False, sp_highused = False, sp_high = None\<rparr>"
  obtain st C' where st: "(if uint_sub n (2 ^ k div 2) \<noteq> n then rbind (split_loop mem h (Suc n) st0 (uint_sub n (2 ^ k div 2))) split_end else Ok st0) = Ok st"
      "length (sp_data st) = Suc n" "sp_empty st < Suc n" "good (sp_data st) ({..<Suc n} - {sp_empty st}) (home_of mem h (2 ^ k) (n + 1)) C'"
      "contents (sp_data st) ({..<Suc n} - {sp_empty st}) = contents (ha_array h) {..<n}"
    using insert_phase [OF g n(1) n_def [symmetric] k(2) refl k(1,3,4) n(2) st0_def] by blast
  have lt: "home_of mem h (2 ^ k) (n + 1) r < n + 1" using k unfolding home_of_def by (intro hash_mask_less) simp_all
  obtain d' C2 where d': "place_record mem h (sp_data st) (sp_empty st) r = Ok d'" "length d' = Suc n"
      "good d' {..<Suc n} (home_of mem h (2 ^ k) (n + 1)) C2" "contents d' {..<Suc n} = add_mset r (contents (ha_array h) {..<n})"
    using place_record_good [of "sp_data st" "{..<Suc n} - {sp_empty st}" mem h C' "sp_empty st" r] st(2-5) lt k(2)
    by (auto simp: n_def [symmetric] insert_absorb)
  define bl :: nat where "bl = (if n + 1 = 2 ^ k then 2 ^ (k + 1) else 2 ^ k)"
  let ?h = "h\<lparr>ha_array := d', ha_current_record := NO_RECORD, ha_records := n + 1, ha_blength := bl\<rparr>"
  have k31: "k < 31" if "n + 1 = 2 ^ k"
  proof -
    have "(2 :: nat) ^ k < 2 ^ 31" using that n(3) by simp
    then show ?thesis by (rule power_less_imp_less_exp [rotated]) simp
  qed
  have ub: "uint_add (2 ^ k) (2 ^ k) = 2 ^ (k + 1)" if "n + 1 = 2 ^ k"
  proof -
    have "(2 :: nat) ^ (k + 1) < 2 ^ 32" using k31 [OF that] by (intro power_strict_increasing) simp_all
    then show ?thesis by (simp add: uint_add_def mult_2 [symmetric])
  qed
  have bl: "(if n + 1 = 2 ^ k then uint_add (2 ^ k) (2 ^ k) else 2 ^ k) = bl" using ub unfolding bl_def by presburger
  have "hash_insert mem True fresh h r
      = rbind (if uint_sub n (2 ^ k div 2) \<noteq> n then rbind (split_loop mem h (Suc n) st0 (uint_sub n (2 ^ k div 2))) split_end else Ok st0) (\<lambda>st.
          rmap (\<lambda>d. (False, h\<lparr>ha_array := d, ha_current_record := NO_RECORD, ha_records := n + 1, ha_blength := bl\<rparr>))
            (place_record mem h (sp_data st) (sp_empty st) r))"
    unfolding hash_insert_def Let_def n_def [symmetric] k(2) n(1) bl st0_def
    by (simp only: not_True_eq_False if_False length_append list.size n(1) add_0_left add_Suc_right add_0_right)
  then have ins: "hash_insert mem True fresh h r = Ok (False, ?h)" unfolding st(1) by (simp add: d'(1))
  have home: "home_of mem h bl (n + 1) = home_of mem h (2 ^ k) (n + 1)"
    using hash_mask_double [of k] k31 by (auto simp: bl_def home_of_def fun_eq_iff)
  have "\<exists>j<32. bl = 2 ^ j \<and> 2 ^ j div 2 \<le> n + 1 \<and> n + 1 < 2 ^ j"
  proof (cases "n + 1 = 2 ^ k")
    case True
    then show ?thesis using k31 by (intro exI [of _ "k + 1"]) (simp add: bl_def)
  next
    case False
    then show ?thesis using k by (intro exI [of _ k]) (simp add: bl_def)
  qed
  then have "hash_inv mem ?h" using d'(2,3) n(3) home by (auto simp: hash_inv_def home_of_fields)
  moreover have "hash_records ?h = add_mset r (hash_records h)"
    using d'(2,4) n(1) contents_all [of d'] contents_all [of "ha_array h"] by (simp add: hash_records_def)
  ultimately show ?thesis using ins by (auto simp: home_of_fields n_def)
qed

section \<open>Search\<close>

text \<open>The walk along a chain; what it finds is the first record with the key.\<close>

lemma search_chain:
  assumes "seg (ha_array h) c NO_RECORD" "c \<noteq> []" "length (ha_array h) \<le> NO_RECORD" "length c \<le> fuel"
    and cmp: "\<And>i. i \<in> set c \<Longrightarrow> hashcmp mem h (ha_array h ! i) key len = Ok (hash_key mem h (dat (ha_array h) i) \<noteq> k)"
    and "flag \<Longrightarrow> hash_rec_mask mem h (ha_array h ! hd c) (ha_blength h) (ha_records h) = hd c"
  shows "search_loop mem h key len fuel flag (hd c) = Ok (List.find (\<lambda>i. hash_key mem h (dat (ha_array h) i) = k) c)"
  using assms
proof (induction c arbitrary: fuel flag)
  case (Cons i c)
  obtain f where f: "fuel = Suc f" using Cons.prems(4) by (cases fuel) auto
  have i: "i < length (ha_array h)" "hl_next (ha_array h ! i) = nxt c NO_RECORD" using Cons.prems(1) by simp_all
  have cm: "hashcmp mem h (ha_array h ! i) key len = Ok (hash_key mem h (dat (ha_array h) i) \<noteq> k)" using Cons.prems(5) by simp
  show ?case
  proof (cases "c = []")
    case True
    then show ?thesis using f i cm Cons.prems(6) by (auto simp: link_at_def)
  next
    case False
    have "nxt c NO_RECORD = hd c" using False by (cases c) simp_all
    moreover have "nxt c NO_RECORD \<noteq> NO_RECORD" using nxt_none [of "ha_array h" "[i]" c] Cons.prems(1,3) False by simp
    moreover have "search_loop mem h key len f False (hd c) = Ok (List.find (\<lambda>i. hash_key mem h (dat (ha_array h) i) = k) c)"
      using Cons.prems f False by (intro Cons.IH) simp_all
    ultimately show ?thesis using f i cm Cons.prems(6) by (auto simp: link_at_def)
  qed
qed simp

lemma in_records: "length (ha_array h) = n \<Longrightarrow> r \<in># hash_records h \<longleftrightarrow> (\<exists>i<n. dat (ha_array h) i = r)"
  by (auto simp: hash_records_def in_set_conv_nth image_iff) (metis nth_mem)+

lemma hashcmp_key:
  assumes "L = (if len \<noteq> 0 then len else ha_key_length h)" "L \<le> length key" "len = 0 \<longrightarrow> length (hash_key mem h (hl_data l)) = L"
  shows "hashcmp mem h l key len = Ok (hash_key mem h (hl_data l) \<noteq> take L key)"
  using assms by (cases "len = 0") (auto simp: hashcmp_def load_bytes_def Let_def)

lemma hash_inv_parts:
  assumes "hash_inv mem h"
  obtains k C where "k < 32" "ha_blength h = 2 ^ k" "2 ^ k div 2 \<le> ha_records h" "ha_records h < 2 ^ k" "length (ha_array h) = ha_records h"
    "ha_records h < 2 ^ 31" "good (ha_array h) {..<ha_records h} (home_of mem h (2 ^ k) (ha_records h)) C"
  using assms by (auto simp: hash_inv_def)

lemma hash_inv_current: "hash_inv mem (h\<lparr>ha_current_record := c\<rparr>) \<longleftrightarrow> hash_inv mem h"
  by (simp add: hash_inv_def home_of_fields)

lemma search_ok:
  assumes inv: "hash_inv mem h" and L: "L = (if len \<noteq> 0 then len else ha_key_length h)" "L \<le> length key"
    and const: "len = 0 \<longrightarrow> (\<forall>r \<in># hash_records h. length (hash_key mem h r) = L)"
  shows "\<exists>res c. hash_search mem h key len = Ok (res, h\<lparr>ha_current_record := c\<rparr>) \<and>
    (case res of Some r \<Rightarrow> r \<in># hash_records h \<and> hash_key mem h r = take L key | None \<Rightarrow> \<forall>r \<in># hash_records h. hash_key mem h r \<noteq> take L key)"
proof -
  define n where "n = ha_records h"
  obtain k C where k: "k < 32" "ha_blength h = 2 ^ k" "2 ^ k div 2 \<le> n" "n < 2 ^ k" and n: "length (ha_array h) = n" "n < 2 ^ 31"
    and g: "good (ha_array h) {..<n} (home_of mem h (2 ^ k) n) C"
    using hash_inv_parts [OF inv] by (metis n_def)
  let ?d = "ha_array h" and ?K = "take L key"
  show ?thesis
  proof (cases "n = 0")
    case True
    then show ?thesis using n(1) n_def by (auto simp: hash_search_def hash_records_def)
  next
    case False
    define idx where "idx = hash_mask (hashnr_of h ?K) (2 ^ k) n"
    have idx: "idx < n" unfolding idx_def using k False by (intro hash_mask_less) simp_all
    have key_home: "hash_key mem h r = ?K \<Longrightarrow> home_of mem h (2 ^ k) n r = idx" for r
      by (simp add: home_of_def rec_hashnr_def idx_def)
    have cmp: "hashcmp mem h (?d ! i) key len = Ok (hash_key mem h (dat ?d i) \<noteq> ?K)" if "i < n" for i
      using L const in_records [OF n(1)] that by (intro hashcmp_key) auto
    have s: "hash_search mem h key len = rbind (search_loop mem h key len n True idx) (\<lambda>r.
        case r of None \<Rightarrow> Ok (None, h\<lparr>ha_current_record := NO_RECORD\<rparr>)
        | Some idx \<Rightarrow> rmap (\<lambda>pos. (Some (hl_data pos), h\<lparr>ha_current_record := idx\<rparr>)) (link_at ?d idx))"
      using L False k(2) n(1) n_def by (simp add: hash_search_def idx_def load_bytes_def)
    have inC: "i < n \<Longrightarrow> hash_key mem h (dat ?d i) = ?K \<Longrightarrow> i \<in> set (C idx)" for i
      using goodD(2) [OF g, of i idx] key_home by simp
    show ?thesis
    proof (cases "C idx = []")
      case True
      have foreign: "home_of mem h (2 ^ k) n (dat ?d idx) \<noteq> idx" using goodD(2) [OF g, of idx idx] True idx by auto
      obtain m where m: "n = Suc m" using False by (cases n) auto
      have "search_loop mem h key len (Suc m) True idx = Ok None"
        using foreign cmp [OF idx] key_home [of "dat ?d idx"] idx n(1) k(2)
        by (auto simp: link_at_def hash_rec_mask_def home_of_def n_def [symmetric])
      then have "search_loop mem h key len n True idx = Ok None" by (simp only: m)
      moreover have "\<forall>r \<in># hash_records h. hash_key mem h r \<noteq> ?K" using inC True in_records [OF n(1)] by auto
      ultimately show ?thesis using s by auto
    next
      case c: False
      have ch: "distinct (C idx)" "seg ?d (C idx) NO_RECORD" "hd (C idx) = idx" "set (C idx) \<subseteq> {..<n}" using goodC [OF g refl, of idx] c by (auto simp: chain_def)
      have len: "length (C idx) \<le> n" using card_mono [OF _ ch(4)] ch(1) by (simp add: distinct_card)
      have "home_of mem h (2 ^ k) n (dat ?d idx) = idx" using goodD(2) [OF g, of idx idx] c ch(3) hd_in_set by metis
      then have "hash_rec_mask mem h (?d ! hd (C idx)) (ha_blength h) (ha_records h) = hd (C idx)"
        using ch(3) k(2) n_def by (simp add: hash_rec_mask_def home_of_def)
      moreover have "length ?d \<le> NO_RECORD" using n by (simp add: NO_RECORD_def)
      ultimately have "search_loop mem h key len n True (hd (C idx)) = Ok (List.find (\<lambda>i. hash_key mem h (dat ?d i) = ?K) (C idx))"
        using ch(2,4) c len cmp by (intro search_chain) auto
      then have sl: "search_loop mem h key len n True idx = Ok (List.find (\<lambda>i. hash_key mem h (dat ?d i) = ?K) (C idx))" using ch(3) by simp
      show ?thesis
      proof (cases "List.find (\<lambda>i. hash_key mem h (dat ?d i) = ?K) (C idx)")
        case None
        then have "\<forall>r \<in># hash_records h. hash_key mem h r \<noteq> ?K" using inC in_records [OF n(1)] unfolding find_None_iff by metis
        then show ?thesis using s sl None by auto
      next
        case (Some i)
        then have "i < n" "hash_key mem h (dat ?d i) = ?K" using ch(4) by (auto simp: find_Some_iff dest: nth_mem)
        then show ?thesis using s sl Some n(1) in_records [OF n(1)] by (auto simp: link_at_def)
      qed
    qed
  qed
qed

end
