(* ===== verification/Hash_Delete.thy ===== *)
theory Hash_Delete
  imports Hash_Insert
begin

text \<open>
  Deletion and update in the hash table (\<^verbatim>\<open>ma_hash.c\<close>), and the properties of the table. The
  abstract table is the multiset of its records.
\<close>

section \<open>Deletion\<close>

lemma find_loop_seg:
  assumes "seg d c NO_RECORD" "c \<noteq> []" "length d \<le> NO_RECORD" "length c \<le> fuel"
  shows "(\<forall>i \<in> set c. dat d i \<noteq> r) \<Longrightarrow> find_loop fuel d r g (hd c) = Ok None"
    and "c = a @ i # b \<Longrightarrow> dat d i = r \<Longrightarrow> (\<forall>i \<in> set a. dat d i \<noteq> r) \<Longrightarrow>
      find_loop fuel d r g (hd c) = Ok (Some (i, if a = [] then g else Some (last a)))"
  using assms
proof (induction c arbitrary: fuel g a)
  case (Cons j c)
  {
    case 1
    obtain f where f: "fuel = Suc f" using 1(5) by (cases fuel) auto
    have j: "j < length d" "hl_next (d ! j) = nxt c NO_RECORD" "dat d j \<noteq> r" using 1(1,2) by simp_all
    show ?case
    proof (cases "c = []")
      case False
      then have "nxt c NO_RECORD = hd c" by (cases c) simp_all
      moreover have "nxt c NO_RECORD \<noteq> NO_RECORD" using nxt_none [of d "[j]" c] 1(2,4) False by simp
      moreover have "find_loop f d r (Some j) (hd c) = Ok None" using 1 f False by (intro Cons.IH(1)) simp_all
      ultimately show ?thesis using f j by (simp add: link_at_def)
    qed (use f j in \<open>simp add: link_at_def\<close>)
  next
    case 2
    obtain f where f: "fuel = Suc f" using 2(7) by (cases fuel) auto
    have j: "j < length d" "hl_next (d ! j) = nxt c NO_RECORD" using 2(4) by simp_all
    show ?case
    proof (cases a)
      case Nil
      then show ?thesis using f j 2(1,2) by (simp add: link_at_def)
    next
      case (Cons x a')
      then have a: "x = j" "c = a' @ i # b" "dat d j \<noteq> r" "c \<noteq> []" using 2(1,3) by auto
      have "nxt c NO_RECORD = hd c" using a(4) by (cases c) simp_all
      moreover have "nxt c NO_RECORD \<noteq> NO_RECORD" using nxt_none [of d "[j]" c] 2(4,6) a(4) by simp
      moreover have "find_loop f d r (Some j) (hd c) = Ok (Some (i, if a' = [] then Some j else Some (last a')))"
        using 2 f a Cons by (intro Cons.IH(2)) simp_all
      ultimately show ?thesis using f j a Cons by (simp add: link_at_def)
    qed
  }
qed simp_all

lemma unlink_inner:
  assumes g: "good d S home C" and c: "C p = a @ j # i # b"
  shows "unlink d i (Some j) = Ok (d[j := (d ! j)\<lparr>hl_next := nxt b NO_RECORD\<rparr>], i)"
    and "good (d[j := (d ! j)\<lparr>hl_next := nxt b NO_RECORD\<rparr>]) (S - {i}) home (C(p := a @ j # b))"
proof -
  have h: "distinct (a @ j # i # b)" "set (a @ j # i # b) = {i \<in> S. home (dat d i) = p}" "seg d (a @ j # i # b) NO_RECORD" "hd (a @ j # i # b) = p"
    using goodC [OF g c] by (simp_all add: chain_def)
  show "unlink d i (Some j) = Ok (d[j := (d ! j)\<lparr>hl_next := nxt b NO_RECORD\<rparr>], i)"
    using h(3) by (simp add: unlink_def link_at_def set_next_def)
  let ?d = "d[j := (d ! j)\<lparr>hl_next := nxt b NO_RECORD\<rparr>]"
  have dd: "dat ?d x = dat d x" for x by (simp add: upd_nth)
  have j: "j \<in> S" "home (dat d j) = p" "home (dat d i) = p" using h(2) by auto
  show "good ?d (S - {i}) home (C(p := a @ j # b))"
  proof (rule good_change [OF g, where H = "{p}"])
    have "set (a @ j # b) = {x \<in> S - {i}. home (dat ?d x) = p}"
    proof -
      have "set (a @ j # b) = {x \<in> S. home (dat d x) = p} - {i}" using h(1,2) by auto
      then show ?thesis unfolding dd by auto
    qed
    moreover have "seg ?d (a @ j # b) NO_RECORD" using h(1,3) by simp
    moreover have "hd (a @ j # b) = p" using h(4) by (cases a) simp_all
    moreover have "distinct (a @ j # b)" using h(1) by simp
    ultimately have "chain ?d (S - {i}) home p (a @ j # b)" unfolding chain_def by blast
    then show "chain ?d (S - {i}) home x ((C(p := a @ j # b)) x)" if "x \<in> {p}" for x using that by (simp only: singleton_iff fun_upd_same)
    show "?d ! x = d ! x" if "q \<notin> {p}" "x \<in> set (C q)" for q x using that goodD(2) [OF g, of x q] j by (auto simp: upd_nth)
    show "x \<in> S - {i} \<and> home (dat ?d x) = q \<longleftrightarrow> x \<in> S \<and> home (dat d x) = q" if "q \<notin> {p}" for q x
      unfolding dd using that j(3) by auto
  qed simp_all
qed

lemma unlink_first:
  assumes g: "good d S home C" and c: "C p = i # x # b" and l: "length d \<le> NO_RECORD"
  shows "unlink d i None = Ok (d[i := d ! x], x)" and "good (d[i := d ! x]) (S - {x}) home (C(p := i # b))"
proof -
  note ch = chainD [OF goodC [OF g c]]
  have h: "distinct (i # x # b)" "set (i # x # b) = {i \<in> S. home (dat d i) = p}" "seg d (i # x # b) NO_RECORD" using ch(1-3) by blast+
  have h4: "i = p" using ch(4) by simp
  show "unlink d i None = Ok (d[i := d ! x], x)" using h(3) l by (simp add: unlink_def link_at_def put_link_def)
  let ?d = "d[i := d ! x]"
  have i: "i \<in> S" "home (dat d i) = p" "home (dat d x) = p" "i \<noteq> x" "i < length d" using h by auto
  show "good ?d (S - {x}) home (C(p := i # b))"
  proof (rule good_change [OF g, where H = "{p}"])
    have "set (i # b) = {y \<in> S - {x}. home (dat ?d y) = p}"
    proof -
      have "set (i # b) = {y \<in> S. home (dat d y) = p} - {x}" using h(1,2) by auto
      then show ?thesis using i by (auto simp: upd_nth)
    qed
    moreover have "seg ?d (i # b) NO_RECORD" using h(1,3) by simp
    moreover have "distinct (i # b)" "hd (i # b) = p" using h(1) h4 by simp_all
    ultimately have "chain ?d (S - {x}) home p (i # b)" unfolding chain_def by blast
    then show "chain ?d (S - {x}) home y ((C(p := i # b)) y)" if "y \<in> {p}" for y using that by (simp only: singleton_iff fun_upd_same)
    show "?d ! y = d ! y" if "q \<notin> {p}" "y \<in> set (C q)" for q y using that goodD(2) [OF g, of y q] i by (auto simp: upd_nth)
    show "y \<in> S - {x} \<and> home (dat ?d y) = q \<longleftrightarrow> y \<in> S \<and> home (dat d y) = q" if "q \<notin> {p}" for q y
      using that i by (auto simp: upd_nth)
  qed simp_all
qed

lemma unlink_only:
  assumes g: "good d S home C" and c: "C p = [i]"
  shows "unlink d i None = Ok (d, i)" and "good d (S - {i}) home (C(p := []))"
proof -
  have h: "set [i] = {i \<in> S. home (dat d i) = p}" "seg d [i] NO_RECORD" using chainD(2,3) [OF goodC [OF g c]] by blast+
  show "unlink d i None = Ok (d, i)" using h(2) by (simp add: unlink_def link_at_def)
  show "good d (S - {i}) home (C(p := []))"
    by (rule good_change [OF g, where H = "{p}"]) (use h(1) in \<open>auto simp: chain_def\<close>)
qed

text \<open>A record leaves the table, and one position becomes free.\<close>

lemma unlink_good:
  assumes g: "good d S home C" and S: "finite S" and c: "C p = a @ i # b" and l: "length d \<le> NO_RECORD"
  shows "\<exists>d' e C'. unlink d i (if a = [] then None else Some (last a)) = Ok (d', e) \<and> length d' = length d \<and> e \<in> S \<and> e \<in> set (C p)
    \<and> good d' (S - {e}) home C' \<and> contents d S = add_mset (dat d i) (contents d' (S - {e}))"
proof -
  have inS: "set (a @ i # b) \<subseteq> S" "seg d (a @ i # b) NO_RECORD" "distinct (a @ i # b)" using goodC [OF g c] by (auto simp: chain_def)
  show ?thesis
  proof (cases a rule: rev_cases)
    case (snoc a' j)
    then have c': "C p = a' @ j # i # b" using c by simp
    have "contents (d[j := (d ! j)\<lparr>hl_next := nxt b NO_RECORD\<rparr>]) (S - {i}) = contents d (S - {i})"
      by (rule contents_cong) (simp add: upd_nth)
    then show ?thesis using unlink_inner [OF g c'] inS contents_remove [OF S, of i d] snoc c by auto
  next
    case a: Nil
    show ?thesis
    proof (cases b)
      case Nil
      then show ?thesis using unlink_only [OF g, of p i] c a inS contents_remove [OF S, of i d] by auto
    next
      case (Cons x b')
      then have c': "C p = i # x # b'" using c a by simp
      have ix: "i \<in> S" "x \<in> S" "i \<noteq> x" "i < length d" using inS Cons a by auto
      have "contents (d[i := d ! x]) (insert i (S - {i} - {x})) = contents d (S - {i})"
        using S ix by (intro contents_shift) (auto simp: upd_nth)
      moreover have "insert i (S - {i} - {x}) = S - {x}" using ix by auto
      ultimately have "contents d S = add_mset (dat d i) (contents (d[i := d ! x]) (S - {x}))" using contents_remove [OF S ix(1), of d] by simp
      then show ?thesis using unlink_first [OF g c' l] ix a c' by auto
    qed
  qed
qed

text \<open>The chain of the last position gets a new first position, where its records belong now.\<close>

lemma rename_first:
  assumes g: "good d S home C" and e: "e < length d" "e \<notin> S" and c: "C n = n # t"
    and home': "\<And>r. home' r = (if home r = n then e else home r)"
  shows "good (d[e := d ! n]) (insert e (S - {n})) home' (C(e := e # t, n := []))"
proof -
  let ?d = "d[e := d ! n]"
  note ch = chainD [OF goodC [OF g c]]
  have nS: "n \<in> S" "home (dat d n) = n" using ch(2) by auto
  then have ne: "e \<noteq> n" using e(2) by auto
  have Ce: "C e = []" using good_unused [OF g e(2)] .
  have he: "home (dat d i) \<noteq> e" if "i \<in> S" for i using that goodD(2) [OF g, of i e] Ce by auto
  have t: "e \<notin> set t" "n \<notin> set t" using ch(1,2) e(2) by auto
  have dd: "dat ?d i = dat d i" if "i \<noteq> e" for i using that by (simp add: upd_nth)
  show ?thesis
  proof (rule good_change [OF g, where H = "{e, n}"])
    have "set (e # t) = {i \<in> insert e (S - {n}). home' (dat ?d i) = e}"
    proof -
      have "set t = set (n # t) - {n}" using t(2) by auto
      also have "\<dots> = {i \<in> S. home (dat d i) = n} - {n}" by (simp only: ch(2))
      also have "\<dots> = {i \<in> S - {n}. home' (dat ?d i) = e}" using dd he e(2) by (auto simp: home' upd_nth split: if_splits)
      finally have "set t = {i \<in> S - {n}. home' (dat ?d i) = e}" .
      moreover have "home' (dat ?d e) = e" using e nS by (simp add: home')
      ultimately show ?thesis unfolding list.set by blast
    qed
    moreover have "seg ?d (e # t) NO_RECORD" using ch(3) e(1) t(1) by simp
    ultimately have "chain ?d (insert e (S - {n})) home' e (e # t)" using ch(1) t(1) unfolding chain_def by (metis distinct.simps(2) list.sel(1))
    moreover have "home' (dat ?d i) \<noteq> n" for i using ne by (simp add: home')
    then have "chain ?d (insert e (S - {n})) home' n []" by (simp add: chain_def)
    ultimately show "chain ?d (insert e (S - {n})) home' p ((C(e := e # t, n := [])) p)" if "p \<in> {e, n}" for p
      using that ne by auto
    show "?d ! i = d ! i" if "p \<notin> {e, n}" "i \<in> set (C p)" for p i using that goodD(2) [OF g, of i p] e(2) by (auto simp: upd_nth)
    show "i \<in> insert e (S - {n}) \<and> home' (dat ?d i) = p \<longleftrightarrow> i \<in> S \<and> home (dat d i) = p" if p: "p \<notin> {e, n}" for p i
      using p e nS dd [of i] by (cases "i = e") (auto simp: home')
  qed simp_all
qed

text \<open>
  Two chains become one: the positions \<open>n # a\<close> and \<open>f # b\<close> follow each other, the record of \<open>n\<close> moves to
  the empty position \<open>e\<close>, behind \<open>f\<close>.
\<close>

lemma merge_good:
  assumes g: "good d S home C" and e: "e < length d" "e \<notin> S" "f \<noteq> n"
    and seg: "seg d (n # a) fnd" "seg d (f # b) NO_RECORD" and dis: "distinct (n # a @ f # b)"
    and sets: "set (n # a @ f # b) = {i \<in> S. home (dat d i) = n \<or> home (dat d i) = f}"
    and home': "\<And>r. home' r = (if home r = n then f else home r)"
    and d': "d' = d[e := d ! n, last (e # a) := (d[e := d ! n] ! last (e # a))\<lparr>hl_next := nxt b NO_RECORD\<rparr>]"
  shows "good (d'[f := (d' ! f)\<lparr>hl_next := e\<rparr>]) (insert e (S - {n})) home' (C(f := f # e # a @ b, n := []))"
proof -
  let ?D = "d'[f := (d' ! f)\<lparr>hl_next := e\<rparr>]"
  have ne: "e \<notin> set a" "e \<notin> set b" "e \<noteq> n" "e \<noteq> f" using sets e(2) by auto
  have S: "n \<in> S" "f \<in> S" "f < length d" using sets seg(2) by auto
  have last: "last (e # a) \<in> set (e # a)" "last (e # a) \<noteq> f" "last (e # a) \<notin> set b" using dis ne last_in_set [of "e # a"] by auto
  have len: "length d' = length d" by (simp add: d')
  have data: "dat ?D i = (if i = e then dat d n else dat d i)" for i using e(1) S(3) len by (simp add: d' upd_nth)
  have other: "?D ! i = d ! i" if "i \<notin> set (e # a)" "i \<noteq> f" for i using that last(1) by (auto simp: d' upd_nth)
  have sega: "seg ?D (e # a) (nxt b NO_RECORD)"
  proof (cases a rule: rev_cases)
    case Nil
    then show ?thesis using e(1) ne S(3) len by (simp add: d' upd_nth)
  next
    case (snoc a' j)
    have j: "j \<noteq> e" "j \<noteq> f" "f \<notin> set a'" "j \<notin> set a'" "e \<notin> set a'" "j < length d" using snoc dis ne seg(1) by auto
    have "hl_next (d ! n) = nxt a fnd" "seg d a' j" using seg(1) snoc by simp_all
    then show ?thesis using e(1) ne S(3) snoc j by (simp add: d' upd_nth)
  qed
  have segb: "seg ?D b NO_RECORD" using seg(2) dis ne last by (simp add: d')
  show ?thesis
  proof (rule good_change [OF g, where H = "{f, n}"])
    have "set (f # e # a @ b) = {i \<in> insert e (S - {n}). home' (dat ?D i) = f}"
    proof -
      have "set (f # e # a @ b) = insert e (set (n # a @ f # b) - {n})" using dis by auto
      also have "\<dots> = insert e ({i \<in> S. home (dat d i) = n \<or> home (dat d i) = f} - {n})" by (simp only: sets)
      also have "\<dots> = {i \<in> insert e (S - {n}). home' (dat ?D i) = f}"
        unfolding data home' using e ne sets by auto
      finally show ?thesis .
    qed
    moreover have "seg ?D (f # e # a @ b) NO_RECORD" using sega segb S(3) len by simp
    moreover have "distinct (f # e # a @ b)" using dis ne by auto
    ultimately have "chain ?D (insert e (S - {n})) home' f (f # e # a @ b)" unfolding chain_def by (metis list.sel(1))
    moreover have "home' (dat ?D i) \<noteq> n" for i using e(3) by (simp add: home')
    then have "chain ?D (insert e (S - {n})) home' n []" by (simp add: chain_def)
    ultimately show "chain ?D (insert e (S - {n})) home' p ((C(f := f # e # a @ b, n := [])) p)" if "p \<in> {f, n}" for p
      using that e(3) by auto
    show "?D ! i = d ! i" if p: "p \<notin> {f, n}" "i \<in> set (C p)" for p i
    proof -
      have "i \<in> S" "home (dat d i) = p" using p(2) goodD(2) [OF g, of i p] by auto
      then have "i \<notin> set (n # a @ f # b)" "i \<noteq> e" using p(1) sets e(2) by auto
      then show ?thesis using other by simp
    qed
    show "i \<in> insert e (S - {n}) \<and> home' (dat ?D i) = p \<longleftrightarrow> i \<in> S \<and> home (dat d i) = p" if p: "p \<notin> {f, n}" for p i
    proof -
      have "home (dat d n) = n \<or> home (dat d n) = f" using sets by auto
      then show ?thesis unfolding data home' using p e(2,3) by auto
    qed
  qed (simp_all add: len)
qed

lemma good_no_last:
  assumes g: "good d S home C" and c: "C n = []" and home': "\<And>r. home' r = (if home r = n then f else home r)"
  shows "good d S home' C"
proof (rule good_cong [OF g])
  fix i assume "i \<in> S"
  then have "home (dat d i) \<noteq> n" using goodD(2) [OF g, of i n] c by auto
  then show "home' (dat d i) = home (dat d i)" by (simp add: home')
qed

lemma snoc_cases: "a \<noteq> [] \<Longrightarrow> \<exists>a' j. a = a' @ [j]"
  by (cases a rule: rev_cases) auto

text \<open>The last record moves to the empty position, or another one moves there and makes room for it.\<close>

lemma move_last_steps:
  assumes g: "good d S home C" and S: "insert e S = {..<Suc n}" "e \<notin> S" "e \<noteq> n" and l: "length d = Suc n" "Suc n \<le> NO_RECORD"
    and f: "f < n" "\<And>r. home' r = (if home r = n then f else home r)" and homes: "home = home_of mem h blength (n + 1)" "home' = home_of mem h bl n"
    and lt: "\<And>r. home' r < n"
  shows "\<exists>d' C'. move_last mem h blength bl n d e = Ok d' \<and> length d' = Suc n \<and> good d' (insert e (S - {n})) home' C'
    \<and> contents d' (insert e (S - {n})) = contents d S"
proof -
  have "e \<in> {..<Suc n}" "n \<in> insert e S" unfolding S(1) [symmetric] by (simp, simp add: S(1))
  then have e: "e < length d" "e < n" and nS: "n \<in> S" using S(3) l(1) by auto
  have fin: "finite S" using S(1) by (metis finite_insert finite_lessThan)
  let ?r = "dat d n"
  define p where "p = home' ?r"
  have p: "p < n" "p < length d" using lt l(1) by (simp_all add: p_def less_Suc_eq)
  have pS: "p \<in> S" if "p \<noteq> e" proof -
    have "p \<in> insert e S" unfolding S(1) using p(1) by simp
    then show ?thesis using that by simp
  qed
  have ml: "move_last mem h blength bl n d e =
     (if p = e then put_link d e (hl_next (d ! n)) ?r
      else if p \<noteq> home' (dat d p)
      then rbind (put_link d e (hl_next (d ! p)) (dat d p)) (\<lambda>d1. rbind (put_link d1 p (hl_next (d ! n)) ?r) (\<lambda>d2. movelink d2 p (home' (dat d p)) e))
      else rbind (put_link d e (hl_next (d ! n)) ?r) (\<lambda>d1.
             if home ?r = home (dat d p) \<and> home ?r \<noteq> n then movelink d1 n p e
             else rbind (link_at d1 p) (\<lambda>pos1.
                  rbind (movelink d1 (if home ?r = home (dat d p) then p else NO_RECORD) e (hl_next pos1)) (\<lambda>d2. set_next d2 p e))))"
    unfolding move_last_def link_at_def Let_def homes home_of_def p_def
    using S(3) l(1) p [unfolded p_def homes home_of_def] by simp
  have put: "put_link x e (hl_next (d ! i)) (dat d i) = Ok (x[e := d ! i])" if "length x = Suc n" for x i
    using that e(1) l(1) by (simp add: put_link_def)
  consider (free) "p = e" | (foreign) "p \<noteq> e" "p \<noteq> home' (dat d p)" | (same) "p \<noteq> e" "p = home' (dat d p)" "home ?r = home (dat d p)" "home ?r \<noteq> n"
    | (join) "p \<noteq> e" "p = home' (dat d p)" "\<not> (home ?r = home (dat d p) \<and> home ?r \<noteq> n)" by blast
  then show ?thesis
  proof cases
    case free
    have "C p = []" using good_unused [OF g S(2)] free by simp
    then have hr: "home ?r = n" using goodD(2) [OF g, of n p] nS f(2) [of ?r] by (auto simp: p_def split: if_splits)
    then have pf: "f = e" using f(2) [of ?r] free by (simp add: p_def)
    obtain t where t: "C n = n # t" using good_first [OF g nS hr] .
    have "good (d[e := d ! n]) (insert e (S - {n})) home' (C(e := e # t, n := []))"
      using f(2) unfolding pf by (intro rename_first [OF g e(1) S(2) t])
    moreover have "contents (d[e := d ! n]) (insert e (S - {n})) = contents d S"
      using e(1) S(2) by (intro contents_shift [OF fin S(2) nS]) (auto simp: upd_nth)
    moreover have "move_last mem h blength bl n d e = Ok (d[e := d ! n])" using ml free put [OF l(1)] by simp
    ultimately show ?thesis using l(1) by auto
  next
    case foreign
    have hr: "home ?r = n"
    proof (rule ccontr)
      assume "home ?r \<noteq> n"
      then have "home ?r = p" using f(2) [of ?r] by (simp add: p_def)
      then have "C p \<noteq> []" using goodD(2) [OF g, of n p] nS by auto
      then have "home (dat d p) = p" using good_foreign [OF g, of p] by blast
      then show False using foreign(2) f(2) [of "dat d p"] p(1) by simp
    qed
    then have pf: "p = f" using f(2) [of ?r] by (simp add: p_def)
    obtain t where t: "C n = n # t" using good_first [OF g nS hr] .
    let ?q = "home (dat d p)"
    have q: "?q \<noteq> n" "?q \<noteq> p" "home' (dat d p) = ?q" using foreign(2) f(1) f(2) [of "dat d p"] pf by (auto split: if_splits)
    obtain a0 b where "C ?q = a0 @ p # b" "a0 \<noteq> []" using good_inner [OF g pS [OF foreign(1)] q(2)] .
    then obtain a j where c: "C ?q = a @ j # p # b" using snoc_cases [of a0] by auto
    note ch = chainD [OF goodC [OF g c]]
    have j: "j \<in> S" "home (dat d j) = ?q" "e \<notin> set a" "e \<noteq> j" "j \<noteq> p" "p \<notin> set a" using ch(1,2) S(2) by auto
    then have jn: "j \<noteq> n" "j < length d" using hr q(1) seg_range [OF ch(3), of j] by auto
    let ?d1 = "d[e := d ! p, j := (d ! j)\<lparr>hl_next := e\<rparr>]"
    have g1: "good ?d1 (insert e (S - {p})) home (C(?q := a @ j # e # b))" by (rule good_move [OF g e(1) S(2) c])
    have dn: "?d1 ! n = d ! n" using S(3) jn by (simp add: upd_nth)
    have "good (?d1[p := ?d1 ! n]) (insert p (insert e (S - {p}) - {n})) home' ((C(?q := a @ j # e # b))(p := p # t, n := []))"
    proof -
      have "home' r = (if home r = n then p else home r)" for r using f(2) [of r] by (simp add: pf)
      then show ?thesis using q(1) foreign(1) t p(2) by (intro rename_first [OF g1]) simp_all
    qed
    moreover have "insert p (insert e (S - {p}) - {n}) = insert e (S - {n})" using pS [OF foreign(1)] p(1) S(3) by auto
    ultimately have gd: "good (?d1[p := d ! n]) (insert e (S - {n})) home' ((C(?q := a @ j # e # b))(p := p # t, n := []))" unfolding dn by simp
    have "contents (d[e := d ! p]) (insert e (S - {p})) = contents d S"
      using e(1) S(2) by (intro contents_shift [OF fin S(2) pS [OF foreign(1)]]) (auto simp: upd_nth)
    moreover have "contents (?d1[p := d ! n]) (insert p (insert e (S - {p}) - {n})) = contents (d[e := d ! p]) (insert e (S - {p}))"
      using fin foreign(1) nS S(3) p jn j(4) by (intro contents_shift) (auto simp: upd_nth)
    ultimately have cd: "contents (?d1[p := d ! n]) (insert e (S - {n})) = contents d S"
      unfolding \<open>insert p (insert e (S - {p}) - {n}) = insert e (S - {n})\<close> by simp
    let ?d2 = "d[e := d ! p, p := d ! n]"
    have "seg ?d2 (a @ [j]) p" using ch(3) j by simp
    then have "movelink ?d2 p (hd (a @ [j])) e = Ok (?d2[last (a @ [j]) := (?d2 ! last (a @ [j]))\<lparr>hl_next := e\<rparr>])"
      by (rule movelink_seg) (use ch(1) in auto)
    moreover have "hd (a @ [j]) = ?q" using ch(4) by (cases a) simp_all
    moreover have "?d2[j := (?d2 ! j)\<lparr>hl_next := e\<rparr>] = ?d1[p := d ! n]" using j by (simp add: list_update_swap [of j p])
    ultimately have "movelink ?d2 p ?q e = Ok (?d1[p := d ! n])" by simp
    then have "move_last mem h blength bl n d e = Ok (?d1[p := d ! n])"
      using ml foreign q(3) put [OF l(1)] p(2) by (simp add: put_link_def)
    then show ?thesis using gd cd l(1) by auto
  next
    case same
    have hp: "home ?r = p" using same(4) f(2) [of ?r] by (simp add: p_def)
    obtain a0 b where "C (home ?r) = a0 @ n # b" "a0 \<noteq> []" using good_inner [OF g nS same(4)] .
    then obtain a j where c: "C p = a @ j # n # b" using snoc_cases [of a0] hp by auto
    note ch = chainD [OF goodC [OF g c]]
    have j: "e \<notin> set a" "e \<noteq> j" "j \<noteq> n" "n \<notin> set a" "j < length d" using ch(1,2) S(2) seg_range [OF ch(3), of j] by auto
    let ?d1 = "d[e := d ! n, j := (d ! j)\<lparr>hl_next := e\<rparr>]"
    have "good ?d1 (insert e (S - {n})) home (C(p := a @ j # e # b))" by (rule good_move [OF g e(1) S(2) c])
    moreover have "(C(p := a @ j # e # b)) n = []" using good_foreign [OF g same(4)] p(1) by simp
    ultimately have "good ?d1 (insert e (S - {n})) home' (C(p := a @ j # e # b))" by (rule good_no_last) (rule f(2))
    moreover have "contents ?d1 (insert e (S - {n})) = contents d S"
      using e(1) S(2) j by (intro contents_shift [OF fin S(2) nS]) (auto simp: upd_nth)
    moreover have "move_last mem h blength bl n d e = Ok ?d1"
    proof -
      have "seg (d[e := d ! n]) (a @ [j]) n" using ch(3) j by simp
      then have "movelink (d[e := d ! n]) n (hd (a @ [j])) e = Ok (d[e := d ! n, last (a @ [j]) := (d[e := d ! n] ! last (a @ [j]))\<lparr>hl_next := e\<rparr>])"
        by (rule movelink_seg) (use ch(1) in auto)
      moreover have "hd (a @ [j]) = p" using ch(4) by (cases a) simp_all
      ultimately have "movelink (d[e := d ! n]) n p e = Ok ?d1" using j(2) by (simp add: upd_nth)
      then show ?thesis using ml same put [OF l(1)] by simp
    qed
    ultimately show ?thesis using l(1) by auto
  next
    case join
    have hr: "home ?r = n"
    proof (rule ccontr)
      assume n: "home ?r \<noteq> n"
      then have hp: "home ?r = p" using f(2) [of ?r] by (simp add: p_def)
      then have "C p \<noteq> []" using goodD(2) [OF g, of n p] nS by auto
      then have "home (dat d p) = p" using good_foreign [OF g, of p] by blast
      then show False using join(3) n hp by simp
    qed
    then have pf: "p = f" using f(2) [of ?r] by (simp add: p_def)
    obtain t where t: "C n = n # t" using good_first [OF g nS hr] .
    note cn = chainD [OF goodC [OF g t]]
    have pn: "p \<noteq> n" using p(1) by simp
    have both: "{i \<in> S. home (dat d i) = n \<or> home (dat d i) = p} = set (C n) \<union> set (C p)" using goodD(2) [OF g] by auto
    define fnd where "fnd = (if home ?r = home (dat d p) then p else NO_RECORD)"
    obtain a b where ab: "seg d (n # a) fnd" "seg d (p # b) NO_RECORD" "distinct (n # a @ p # b)"
        "set (n # a @ p # b) = {i \<in> S. home (dat d i) = n \<or> home (dat d i) = p}" "fnd \<notin> set (e # a)"
    proof (cases "home (dat d p) = n")
      case True
      then have "p \<in> set t" using goodD(2) [OF g, of p n] t pS [OF join(1)] pn by auto
      then obtain a b where tab: "t = a @ p # b" by (meson split_list)
      have "C p = []" using good_foreign [OF g, of p] True pn by simp
      moreover have "fnd = p" using True hr by (simp add: fnd_def)
      ultimately show ?thesis using that [of a b] cn(1,3) tab both t join(1) by simp
    next
      case False
      then have hp: "home (dat d p) = p" using join(2) f(2) [of "dat d p"] by simp
      obtain b where b: "C p = p # b" using good_first [OF g pS [OF join(1)] hp] .
      note cp = chainD [OF goodC [OF g b]]
      have "set (C n) \<inter> set (C p) = {}" using goodD(2) [OF g] pn by auto
      moreover have "fnd = NO_RECORD" using False hr by (simp add: fnd_def)
      moreover have "NO_RECORD \<notin> set t" "NO_RECORD \<noteq> e" using seg_range [OF cn(3), of NO_RECORD] l e(1) by auto
      ultimately show ?thesis using that [of t b] cn(1,3) cp(1,3) both t b by (simp add: insert_commute)
    qed
    define d' where "d' = d[e := d ! n, last (e # a) := (d[e := d ! n] ! last (e # a))\<lparr>hl_next := nxt b NO_RECORD\<rparr>]"
    let ?D = "d'[p := (d' ! p)\<lparr>hl_next := e\<rparr>]"
    have gd: "good ?D (insert e (S - {n})) home' (C(p := p # e # a @ b, n := []))"
      using f(2) unfolding pf [symmetric] by (intro merge_good [OF g e(1) S(2) pn ab(1-4) _ d'_def])
    have "contents ?D (insert e (S - {n})) = contents d S"
      using e(1) S(2) l(1) p(2) by (intro contents_shift [OF fin S(2) nS]) (auto simp: d'_def upd_nth)
    moreover have "move_last mem h blength bl n d e = Ok ?D"
    proof -
      have ea: "e \<notin> set a" "e \<noteq> p" using ab(4) S(2) join(1) by auto
      have "seg (d[e := d ! n]) (e # a) fnd" using ab(1) e(1) ea by simp
      then have "movelink (d[e := d ! n]) fnd (hd (e # a)) (nxt b NO_RECORD) = Ok d'"
        unfolding d'_def by (rule movelink_seg) (use ab(3,5) ea in auto)
      moreover have "hl_next (d[e := d ! n] ! p) = nxt b NO_RECORD" using ab(2) ea by (simp add: upd_nth)
      ultimately show ?thesis using ml join put [OF l(1)] p(2) l(1) by (simp add: fnd_def [symmetric] link_at_def set_next_def d'_def)
    qed
    ultimately show ?thesis using gd l(1) by (auto simp: d'_def)
  qed
qed

text \<open>One record less: the records of the last position belong to the chain they were split from.\<close>

lemma home_back:
  assumes k: "k < 32" "2 ^ k div 2 \<le> n + 1" "n + 1 < 2 ^ k" and n: "0 < n"
    and bl: "bl = (if n < 2 ^ k div 2 then 2 ^ k div 2 else 2 ^ k)"
  shows "\<exists>j<32. bl = 2 ^ j \<and> 2 ^ j div 2 \<le> n \<and> n < 2 ^ j \<and> n - 2 ^ (j - 1) < n
    \<and> (\<forall>r. home_of mem h bl n r = (if home_of mem h (2 ^ k) (n + 1) r = n then n - 2 ^ (j - 1) else home_of mem h (2 ^ k) (n + 1) r))"
proof -
  obtain i where i: "k = Suc i" using k n by (cases k) simp_all
  define j where "j = (if n < 2 ^ i then i else k)"
  have j: "j < 32" "bl = 2 ^ j" "2 ^ j div 2 \<le> n" "n < 2 ^ j" using k bl i unfolding j_def by (auto split: if_splits)
  have jp: "0 < j" "2 ^ (j - 1) \<le> n" using pow_half [OF n j(3,4)] by simp_all
  have eq: "home_of mem h (2 ^ k) (n + 1) = home_of mem h (2 ^ j) (n + 1)"
  proof (cases "n < 2 ^ i")
    case True
    then have "n + 1 = 2 ^ i" using k(2) i by simp
    moreover have "i < 31" using k(1) i by simp
    ultimately show ?thesis using hash_mask_double [of i] True i by (simp add: j_def home_of_def fun_eq_iff)
  qed (simp add: j_def)
  have "0 < (2 :: nat) ^ (j - 1)" by simp
  then have "n - 2 ^ (j - 1) < n" using jp(2) by linarith
  moreover have "home_of mem h bl n r = (if home_of mem h (2 ^ k) (n + 1) r = n then n - 2 ^ (j - 1) else home_of mem h (2 ^ k) (n + 1) r)" for r
  proof -
    have "hash_mask (rec_hashnr mem h r) (2 ^ j) n < n" using j n by (intro hash_mask_less) simp_all
    then show ?thesis unfolding eq j(2) home_of_def hash_mask_step [OF jp(1) j(1) jp(2) j(4)] by (auto split: if_splits)
  qed
  ultimately show ?thesis using j by blast
qed

lemma move_last_good:
  assumes g: "good d ({..<Suc n} - {e}) (home_of mem h (2 ^ k) (n + 1)) C" and e: "e < Suc n" and l: "length d = Suc n" "Suc n \<le> NO_RECORD"
    and k: "k < 32" "2 ^ k div 2 \<le> n + 1" "n + 1 < 2 ^ k" and bl: "bl = (if n < 2 ^ k div 2 then 2 ^ k div 2 else 2 ^ k)"
  shows "\<exists>d' C'. move_last mem h (2 ^ k) bl n d e = Ok d' \<and> length d' = Suc n \<and> good d' {..<n} (home_of mem h bl n) C'
    \<and> contents d' {..<n} = contents d ({..<Suc n} - {e})"
proof (cases "n = 0")
  case True
  then have "e = n" "{..<n} = {}" "{..<Suc n} - {e} = {}" using e by auto
  then have "contents d {..<n} = contents d ({..<Suc n} - {e})" "good d {..<n} (home_of mem h bl n) (\<lambda>_. [])"
    by (simp_all only: good_def chain_def) simp_all
  then show ?thesis using l(1) \<open>e = n\<close> by (intro exI [of _ d] exI [of _ "\<lambda>_. []"]) (simp add: move_last_def)
next
  case False
  then obtain f where f: "f < n" "\<And>r. home_of mem h bl n r = (if home_of mem h (2 ^ k) (n + 1) r = n then f else home_of mem h (2 ^ k) (n + 1) r)"
      and j: "\<exists>j<32. bl = 2 ^ j \<and> 2 ^ j div 2 \<le> n"
    using home_back [OF k _ bl, of mem h] by (metis neq0_conv)
  show ?thesis
  proof (cases "e = n")
    case True
    have S: "{..<Suc n} - {n} = {..<n}" by auto
    have "good d {..<n} (home_of mem h (2 ^ k) (n + 1)) C" using g unfolding True S .
    moreover have "C n = []" using good_unused [OF g, of n] True by simp
    ultimately have "good d {..<n} (home_of mem h bl n) C" by (rule good_no_last) (rule f(2))
    then show ?thesis unfolding True S using l(1) by (auto simp: move_last_def)
  next
    case en: False
    have lt: "home_of mem h bl n r < n" for r using j False by (auto simp: home_of_def intro: hash_mask_less)
    have "insert e ({..<Suc n} - {e}) = {..<Suc n}" "e \<notin> {..<Suc n} - {e}" using e by auto
    from move_last_steps [OF g this en l f refl refl lt]
    show ?thesis using en e by (simp add: lessThan_Suc insert_Diff_if) (metis Diff_insert_absorb insert_Diff_single insert_absorb lessThan_iff less_SucE)
  qed
qed

lemma seg_butlast: "seg d is x \<Longrightarrow> set is \<subseteq> {..<length d - 1} \<Longrightarrow> seg (butlast d) is x"
  by (induction "is") (auto simp: nth_butlast)

lemma delete_ok:
  assumes inv: "hash_inv mem h"
  shows "\<exists>failed fr h'. hash_delete mem h r = Ok (failed, fr, h') \<and> hash_inv mem h' \<and> (failed \<longleftrightarrow> r \<notin># hash_records h)
    \<and> hash_records h' = hash_records h - {#r#} \<and> (\<forall>bl n. home_of mem h' bl n = home_of mem h bl n) \<and> fr = (if \<not> failed \<and> ha_free h then [r] else [])"
proof -
  define N where "N = ha_records h"
  obtain k C where k: "k < 32" "ha_blength h = 2 ^ k" "2 ^ k div 2 \<le> N" "N < 2 ^ k" and l: "length (ha_array h) = N" "N < 2 ^ 31"
    and g: "good (ha_array h) {..<N} (home_of mem h (2 ^ k) N) C"
    using hash_inv_parts [OF inv] by (metis N_def)
  let ?d = "ha_array h" and ?home = "home_of mem h (2 ^ k) N"
  show ?thesis
  proof (cases "N = 0")
    case True
    then show ?thesis using l(1) inv N_def by (auto simp: hash_delete_def hash_records_def)
  next
    case False
    then obtain n where n: "N = Suc n" by (cases N) auto
    define p where "p = ?home r"
    have p: "p < N" unfolding p_def home_of_def using k False by (intro hash_mask_less) simp_all
    have no: "length ?d \<le> NO_RECORD" using l by (simp add: NO_RECORD_def)
    have del: "hash_delete mem h r = rbind (find_loop N ?d r None p) (\<lambda>f. case f of None \<Rightarrow> Ok (True, [], h)
        | Some (idx, gpos) \<Rightarrow> rbind (unlink ?d idx gpos) (\<lambda>(d, e). rmap (\<lambda>d. (False, if ha_free h then [r] else [],
             h\<lparr>ha_array := butlast d, ha_current_record := NO_RECORD, ha_records := n, ha_blength := (if n < 2 ^ k div 2 then 2 ^ k div 2 else 2 ^ k)\<rparr>))
            (move_last mem h (2 ^ k) (if n < 2 ^ k div 2 then 2 ^ k div 2 else 2 ^ k) n d e)))"
      using False n k(2) l(1) unfolding hash_delete_def Let_def N_def [symmetric] p_def home_of_def by (simp del: find_loop.simps)
    show ?thesis
    proof (cases "r \<in># hash_records h")
      case False
      then have none: "dat ?d i \<noteq> r" if "i < N" for i using that in_records [OF l(1)] by blast
      obtain c where c: "seg ?d c NO_RECORD" "c \<noteq> []" "hd c = p" "distinct c" "set c \<subseteq> {..<N}"
      proof (cases "?home (dat ?d p) = p")
        case True
        then obtain q where "C p = p # q" using good_first [OF g] p by auto
        then show ?thesis using that [of "p # q"] chainD [OF goodC [OF g]] by fastforce
      next
        case False
        then obtain a b where "C (?home (dat ?d p)) = a @ p # b" using good_inner [OF g, of p] p by (metis lessThan_iff)
        note ch = chainD [OF goodC [OF g this]]
        have "set (p # b) \<subseteq> {..<N}" using ch(2) by auto
        then show ?thesis using that [of "p # b"] ch(1,3) by simp
      qed
      have "length c \<le> N" using card_mono [OF _ c(5)] c(4) by (simp add: distinct_card)
      then have "find_loop N ?d r None p = Ok None" using find_loop_seg(1) [OF c(1,2) no] c(3,5) none by (metis lessThan_iff subsetD)
      then show ?thesis using del inv False by (auto simp: diff_single_trivial)
    next
      case True
      then obtain x where x: "x < N" "dat ?d x = r" using in_records [OF l(1)] by auto
      then have "x \<in> set (C p)" using goodD(2) [OF g, of x p] by (simp add: p_def)
      then have "\<exists>i \<in> set (C p). dat ?d i = r" using x(2) by blast
      then obtain a i b where c: "C p = a @ i # b" "dat ?d i = r" "\<forall>i \<in> set a. dat ?d i \<noteq> r" by (rule split_list_first_propE) blast
      note ch = chainD [OF goodC [OF g c(1)]]
      have sub: "set (a @ i # b) \<subseteq> {..<N}" using ch(2) by auto
      have "length (a @ i # b) \<le> N" using card_mono [OF _ sub] ch(1) by (simp only: distinct_card [OF ch(1)] card_lessThan finite_lessThan)
      then have fl: "find_loop N ?d r None p = Ok (Some (i, if a = [] then None else Some (last a)))"
        using find_loop_seg(2) [OF ch(3) _ no _ refl c(2,3), of N None] ch(4) by simp
      obtain d1 e C1 where u: "unlink ?d i (if a = [] then None else Some (last a)) = Ok (d1, e)" "length d1 = length ?d" "e \<in> {..<N}"
          "good d1 ({..<N} - {e}) ?home C1" "contents ?d {..<N} = add_mset (dat ?d i) (contents d1 ({..<N} - {e}))"
        using unlink_good [OF g _ c(1) no] by auto
      define bl where "bl = (if n < 2 ^ k div 2 then 2 ^ k div 2 else (2 :: nat) ^ k)"
      obtain d2 C2 where m: "move_last mem h (2 ^ k) bl n d1 e = Ok d2" "length d2 = Suc n" "good d2 {..<n} (home_of mem h bl n) C2"
          "contents d2 {..<n} = contents d1 ({..<Suc n} - {e})"
        using move_last_good [of d1 n e mem h k C1 bl] u(2-4) k n l(1) no bl_def by auto
      let ?h = "h\<lparr>ha_array := butlast d2, ha_current_record := NO_RECORD, ha_records := n, ha_blength := bl\<rparr>"
      have del2: "hash_delete mem h r = Ok (False, if ha_free h then [r] else [], ?h)" using del fl u(1) m(1) by (simp add: bl_def [symmetric])
      have bd: "butlast d2 ! i = d2 ! i" if "i < n" for i using that m(2) by (simp add: nth_butlast)
      have gb: "good (butlast d2) {..<n} (home_of mem h bl n) C2"
        unfolding good_def
      proof
        fix q
        note cq = chainD [OF goodC [OF m(3) refl, of q]]
        have s: "set (C2 q) \<subseteq> {..<n}" using cq(2) by auto
        have "seg (butlast d2) (C2 q) NO_RECORD" using seg_butlast [OF cq(3)] s m(2) by simp
        moreover have "set (C2 q) = {i \<in> {..<n}. home_of mem h bl n (dat (butlast d2) i) = q}" using cq(2) bd by auto
        ultimately show "chain (butlast d2) {..<n} (home_of mem h bl n) q (C2 q)" using cq(1,4) unfolding chain_def by blast
      qed
      have cb: "contents (butlast d2) {..<n} = contents d2 {..<n}" by (rule contents_cong) (simp add: bd)
      have "\<exists>j<32. bl = 2 ^ j \<and> 2 ^ j div 2 \<le> n \<and> n < 2 ^ j"
      proof (cases "n = 0")
        case True
        have "k \<le> 1"
        proof (rule ccontr)
          assume "\<not> k \<le> 1"
          then have "(2 :: nat) ^ 2 \<le> 2 ^ k" by (intro power_increasing) simp_all
          then have "(2 :: nat) \<le> 2 ^ k div 2" by (simp add: less_eq_div_iff_mult_less_eq)
          then show False using k(3) n True by simp
        qed
        then have "k = 1" using k(4) n by (cases k) simp_all
        then show ?thesis using True by (auto simp: bl_def intro!: exI [of _ 0])
      next
        case False
        then show ?thesis using home_back [of k n bl mem h] k n by (auto simp: bl_def)
      qed
      then have "hash_inv mem ?h" using gb m(2) l(2) n by (auto simp: hash_inv_def home_of_fields)
      moreover have "hash_records h = add_mset r (hash_records ?h)"
        using u(5) m(2,4) cb c(2) n l(1) contents_all [of ?d] contents_all [of "butlast d2"] by (simp add: hash_records_def)
      ultimately show ?thesis using del2 True by (auto simp: home_of_fields)
    qed
  qed
qed

section \<open>Update\<close>

text \<open>The new record goes behind the one that belongs at its place.\<close>

lemma place_second:
  assumes g: "good d S home C" and e: "e < length d" "e \<notin> S" "home r = k" and c: "C k = k # q"
  shows "good (d[e := \<lparr>hl_next = hl_next (d ! k), hl_data = r\<rparr>, k := (d ! k)\<lparr>hl_next := e\<rparr>]) (insert e S) home (C(k := k # e # q))"
proof -
  note ch = chainD [OF goodC [OF g c]]
  let ?d = "d[e := \<lparr>hl_next = hl_next (d ! k), hl_data = r\<rparr>, k := (d ! k)\<lparr>hl_next := e\<rparr>]"
  have k: "k \<in> S" "home (dat d k) = k" "k < length d" "hl_next (d ! k) = nxt q NO_RECORD" "k \<notin> set q" "seg d q NO_RECORD" "distinct q"
    using ch by auto
  have ne: "e \<noteq> k" "e \<notin> set q" using ch(2) e(2) by auto
  have dd: "dat ?d i = (if i = e then r else dat d i)" for i using e(1) k(3) ne by (simp add: upd_nth)
  show ?thesis
  proof (rule good_change [OF g, where H = "{k}"])
    have "set (k # e # q) = insert e (set (k # q))" by auto
    also have "\<dots> = {i \<in> insert e S. home (dat ?d i) = k}" unfolding dd ch(2) using e(2,3) by auto
    finally have "set (k # e # q) = {i \<in> insert e S. home (dat ?d i) = k}" .
    moreover have "seg ?d (k # e # q) NO_RECORD" using e(1) k ne by simp
    ultimately have "chain ?d (insert e S) home k (k # e # q)" unfolding chain_def using k(5,7) ne by (metis distinct.simps(2) list.sel(1) set_ConsD)
    then show "chain ?d (insert e S) home p ((C(k := k # e # q)) p)" if "p \<in> {k}" for p using that by (simp only: singleton_iff fun_upd_same)
    show "?d ! i = d ! i" if "p \<notin> {k}" "i \<in> set (C p)" for p i using that goodD(2) [OF g, of i p] e(2) k(2) by (auto simp: upd_nth)
    show "i \<in> insert e S \<and> home (dat ?d i) = p \<longleftrightarrow> i \<in> S \<and> home (dat d i) = p" if "p \<notin> {k}" for p i
      unfolding dd using that e by auto
  qed simp_all
qed

text \<open>The second half of \<open>hash_update\<close>: the record is out of its chain, \<open>e\<close> is empty and \<open>k\<close> is its new position.\<close>

lemma relink_good:
  assumes g: "good d S home C" and S: "insert e S = {..<length d}" "e \<notin> S" and k: "k = home r" "k < length d" "k \<noteq> e"
  shows "\<exists>d' C'. (if k \<noteq> home (dat d k)
      then rbind (put_link d e (hl_next (d ! k)) (dat d k)) (\<lambda>d1. rbind (movelink d1 k (home (dat d k)) e) (\<lambda>d2. put_link d2 k NO_RECORD r))
      else rbind (put_link d e (hl_next (d ! k)) r) (\<lambda>d1. set_next d1 k e)) = Ok d' \<and> length d' = length d
    \<and> good d' {..<length d} home C' \<and> contents d' {..<length d} = add_mset r (contents d S)"
proof -
  have fin: "finite S" using S(1) by (metis finite_insert finite_lessThan)
  have e: "e < length d" using S(1) by blast
  have "k \<in> insert e S" unfolding S(1) using k(2) by simp
  then have kS: "k \<in> S" using k(3) by simp
  show ?thesis
  proof (cases "k = home (dat d k)")
    case True
    obtain q where q: "C k = k # q" using good_first [OF g kS True [symmetric]] .
    let ?d = "d[e := \<lparr>hl_next = hl_next (d ! k), hl_data = r\<rparr>, k := (d ! k)\<lparr>hl_next := e\<rparr>]"
    have "good ?d (insert e S) home (C(k := k # e # q))" using place_second [OF g e S(2) k(1) [symmetric] q] .
    moreover have "contents ?d (insert e S) = add_mset r (contents d S)"
      using e k S(2) by (intro contents_new [OF fin S(2)]) (auto simp: upd_nth)
    moreover have "rbind (put_link d e (hl_next (d ! k)) r) (\<lambda>d1. set_next d1 k e) = Ok ?d"
      using e k by (simp add: put_link_def set_next_def)
    ultimately show ?thesis using True S(1) by auto
  next
    case False
    let ?g = "home (dat d k)" and ?l = "\<lparr>hl_next = NO_RECORD, hl_data = r\<rparr>"
    obtain a0 b where "C ?g = a0 @ k # b" "a0 \<noteq> []" using good_inner [OF g kS False [symmetric]] .
    then obtain a j where c: "C ?g = a @ j # k # b" using snoc_cases [of a0] by auto
    note ch = chainD [OF goodC [OF g c]]
    have j: "j \<noteq> e" "j \<noteq> k" "e \<notin> set a" using ch(1,2) S(2) by auto
    let ?d1 = "d[e := d ! k, j := (d ! j)\<lparr>hl_next := e\<rparr>]"
    have g1: "good ?d1 (insert e (S - {k})) home (C(?g := a @ j # e # b))" by (rule good_move [OF g e S(2) c])
    have g2: "good (?d1[k := ?l]) (insert k (insert e (S - {k}))) home ((C(?g := a @ j # e # b))(k := [k]))"
      using k by (intro place_free [OF g1]) simp_all
    have ins: "insert k (insert e (S - {k})) = {..<length d}" using S(1) kS by auto
    have "contents ?d1 (insert e (S - {k})) = contents d S"
      using e S(2) kS j by (intro contents_shift [OF fin]) (auto simp: upd_nth)
    moreover have "contents (?d1[k := ?l]) (insert k (insert e (S - {k}))) = add_mset r (contents ?d1 (insert e (S - {k})))"
      using fin k by (intro contents_new) (auto simp: upd_nth)
    moreover have "movelink (d[e := d ! k]) k ?g e = Ok ?d1"
    proof -
      have "seg (d[e := d ! k]) (a @ [j]) k" using ch(3) j by simp
      then have "movelink (d[e := d ! k]) k (hd (a @ [j])) e = Ok (d[e := d ! k, last (a @ [j]) := (d[e := d ! k] ! last (a @ [j]))\<lparr>hl_next := e\<rparr>])"
        by (rule movelink_seg) (use ch(1) in auto)
      moreover have "hd (a @ [j]) = ?g" using ch(4) by (cases a) simp_all
      ultimately show ?thesis using j by (simp add: upd_nth)
    qed
    ultimately show ?thesis using False e k g2 ins by (auto simp: put_link_def)
  qed
qed

lemma update_ok:
  assumes inv: "hash_inv mem0 h" and keys: "\<And>x. x \<noteq> r \<Longrightarrow> hash_key mem h x = hash_key mem0 h x" and one: "count (hash_records h) r = 1"
    and old: "L = (if len \<noteq> 0 then len else ha_key_length h)" "L \<le> length key" "take L key = hash_key mem0 h r"
    and homes: "home0 = home_of mem0 h (ha_blength h) (ha_records h)" "home = home_of mem h (ha_blength h) (ha_records h)"
    and free: "home0 r \<noteq> home r \<Longrightarrow> home0 (dat (ha_array h) (home r)) \<noteq> home0 r"
  shows "\<exists>h'. hash_update mem h r key len = Ok (False, h') \<and> hash_inv mem h' \<and> hash_records h' = hash_records h"
proof -
  define n where "n = ha_records h"
  obtain k C where k: "k < 32" "ha_blength h = 2 ^ k" "2 ^ k div 2 \<le> n" "n < 2 ^ k" and l: "length (ha_array h) = n" "n < 2 ^ 31"
    and g: "good (ha_array h) {..<n} home0 C"
    using hash_inv_parts [OF inv] unfolding homes by (metis n_def)
  let ?d = "ha_array h"
  have same: "home x = home0 x" if "x \<noteq> r" for x using keys [OF that] by (simp add: homes home_of_def rec_hashnr_def)
  obtain x where x: "x < n" "dat ?d x = r" using one in_records [OF l(1), of r] by (metis count_eq_zero_iff zero_neq_one)
  have n: "0 < n" using x by simp
  have lt: "home y < n" for y using k n unfolding homes home_of_def n_def [symmetric] by (auto intro: hash_mask_less)
  have idx: "hash_mask (hashnr_of h (take L key)) (ha_blength h) (ha_records h) = home0 r"
    by (simp add: old(3) homes home_of_def rec_hashnr_def)
  have up: "hash_update mem h r key len =
      (if home0 r = home r then Ok (False, h)
       else rbind (find_loop n ?d r None (home0 r)) (\<lambda>f. case f of None \<Rightarrow> Ok (True, h)
         | Some (i, previous) \<Rightarrow> rbind (unlink ?d i previous) (\<lambda>(d, e). rbind (link_at d (home r)) (\<lambda>pos.
             rmap (\<lambda>d. (False, h\<lparr>ha_array := d, ha_current_record := NO_RECORD\<rparr>))
              (if home r \<noteq> home (hl_data pos)
               then rbind (put_link d e (hl_next pos) (hl_data pos)) (\<lambda>d1. rbind (movelink d1 (home r) (home (hl_data pos)) e) (\<lambda>d2. put_link d2 (home r) NO_RECORD r))
               else rbind (put_link d e (hl_next pos) r) (\<lambda>d1. set_next d1 (home r) e))))))"
  proof -
    have m: "rbind a (\<lambda>d. Ok (f d)) = rmap f a" for a :: "(unit, 'z) res" and f :: "'z \<Rightarrow> bool \<times> 'p hash" by (cases a) simp_all
    have mi: "rmap f (if c then a else b) = (if c then rmap f a else rmap f b)" for c a b and f :: "'z \<Rightarrow> bool \<times> 'p hash" by simp
    have mb: "rmap f (rbind a b) = rbind a (\<lambda>x. rmap f (b x))" for a :: "(unit, 'y) res" and b and f :: "'z \<Rightarrow> bool \<times> 'p hash" by (cases a) simp_all
    have ld: "load_bytes key 0 (if len \<noteq> 0 then len else ha_key_length h) = Ok (take L key)" using old(1,2) by (simp add: load_bytes_def)
    have nw: "hash_mask (rec_hashnr mem h r) (ha_blength h) (ha_records h) = home r" by (simp add: homes home_of_def)
    have pw: "hash_rec_mask mem h pos (ha_blength h) (ha_records h) = home (hl_data pos)" for pos by (simp add: homes home_of_def hash_rec_mask_def)
    show ?thesis unfolding hash_update_def ld rbind.simps Let_def idx nw pw m mi mb l(1) by (rule refl)
  qed
  show ?thesis
  proof (cases "home0 r = home r")
    case True
    have "good ?d {..<n} home C"
    proof (rule good_cong [OF g])
      fix i show "home (dat ?d i) = home0 (dat ?d i)" using same True by (cases "dat ?d i = r") simp_all
    qed
    then have "hash_inv mem h" using k l unfolding hash_inv_def homes n_def by auto
    then show ?thesis using up True by simp
  next
    case False
    have xc: "x \<in> set (C (home0 r))" using goodD(2) [OF g, of x "home0 r"] x by simp
    then have "\<exists>i \<in> set (C (home0 r)). dat ?d i = r" using x(2) by blast
    then obtain a i b where c: "C (home0 r) = a @ i # b" "dat ?d i = r" "\<forall>i \<in> set a. dat ?d i \<noteq> r" by (rule split_list_first_propE) blast
    note ch = chainD [OF goodC [OF g c(1)]]
    have no: "length ?d \<le> NO_RECORD" using l by (simp add: NO_RECORD_def)
    have sub: "set (a @ i # b) \<subseteq> {..<n}" using ch(2) by auto
    have "length (a @ i # b) \<le> n" using card_mono [OF _ sub] by (simp only: distinct_card [OF ch(1)] card_lessThan finite_lessThan)
    then have fl: "find_loop n ?d r None (home0 r) = Ok (Some (i, if a = [] then None else Some (last a)))"
      using find_loop_seg(2) [OF ch(3) _ no _ refl c(2,3), of n None] ch(4) by simp
    obtain d1 e C1 where u: "unlink ?d i (if a = [] then None else Some (last a)) = Ok (d1, e)" "length d1 = length ?d" "e \<in> {..<n}" "e \<in> set (C (home0 r))"
        "good d1 ({..<n} - {e}) home0 C1" "contents ?d {..<n} = add_mset (dat ?d i) (contents d1 ({..<n} - {e}))"
      using unlink_good [OF g _ c(1) no] by auto
    have all: "contents ?d {..<n} = hash_records h" using contents_all [of ?d] l(1) by (simp add: hash_records_def)
    then have "r \<notin># contents d1 ({..<n} - {e})" using u(6) one c(2) by (metis count_add_mset count_eq_zero_iff diff_Suc_1 One_nat_def)
    then have "dat d1 y \<noteq> r" if "y \<in> {..<n} - {e}" for y using that by (auto simp: contents_def)
    then have g1: "good d1 ({..<n} - {e}) home C1" using same by (intro good_cong [OF u(5)]) simp
    have ne: "home r \<noteq> e" using u(4) goodD(2) [OF g, of e "home0 r"] free [OF False] by auto
    have ins: "insert e ({..<n} - {e}) = {..<length d1}" "e \<notin> {..<n} - {e}" using u(2,3) l(1) by auto
    obtain d2 C2 where m: "(if home r \<noteq> home (dat d1 (home r))
        then rbind (put_link d1 e (hl_next (d1 ! home r)) (dat d1 (home r))) (\<lambda>d. rbind (movelink d (home r) (home (dat d1 (home r))) e) (\<lambda>d2. put_link d2 (home r) NO_RECORD r))
        else rbind (put_link d1 e (hl_next (d1 ! home r)) r) (\<lambda>d. set_next d (home r) e)) = Ok d2" "length d2 = length d1"
        "good d2 {..<length d1} home C2" "contents d2 {..<length d1} = add_mset r (contents d1 ({..<n} - {e}))"
      using relink_good [OF g1 ins refl _ ne] lt u(2) l(1) by auto
    let ?h = "h\<lparr>ha_array := d2, ha_current_record := NO_RECORD\<rparr>"
    have "hash_update mem h r key len = Ok (False, ?h)" using up False fl u(1) lt [of r] u(2) l(1) m(1) by (simp add: link_at_def)
    moreover have "home_of mem ?h = home_of mem h" using home_of_fields(1) [where mem = mem and h = h and d = d2 and c = NO_RECORD and n = "ha_records h" and b = "ha_blength h"] by simp
    then have "hash_inv mem ?h" using k l m(2,3) u(2) unfolding hash_inv_def homes n_def by auto
    moreover have "hash_records ?h = hash_records h"
      using contents_all [of d2] m(2,4) u(2,6) l(1) c(2) all by (simp add: hash_records_def)
    ultimately show ?thesis by blast
  qed
qed


section \<open>Where the update fails\<close>

text \<open>Two records whose keys are the bytes 0 and 2; both belong to position 1.\<close>

definition two_keys :: "nat \<Rightarrow> bytes" where
  "two_keys r = (if r = 0 then [0] else [2])"

definition two_table :: "nat hash" where
  "two_table = \<lparr>ha_key_offset = 0, ha_key_length = 1, ha_records = 2, ha_blength = 4, ha_current_record = NO_RECORD, ha_case_insensitive = False,
     ha_array = [\<lparr>hl_next = NO_RECORD, hl_data = 0\<rparr>, \<lparr>hl_next = 0, hl_data = 1\<rparr>], ha_get_key = None, ha_free = False\<rparr>"

lemmas hash_eval = hash_key_def hash_mask_def calc_hashnr_def hashnr_of_def rec_hashnr_def hash_rec_mask_def hashcmp_def link_at_def put_link_def
  set_next_def load_bytes_def NO_RECORD_def

lemma two_table_built:
  "rbind (hash_insert two_keys True fresh (hash_init 0 1 None False False) 0) (\<lambda>(f, h). hash_insert two_keys True fresh h 1) = Ok (False, two_table)"
  by (simp add: hash_insert_def hash_init_def place_record_def split_end_def split_low_def split_high_def two_table_def two_keys_def
      uint_sub_def uint_add_def put_pending_def hash_eval Let_def)

section \<open>The interface of the table\<close>

text \<open>
  What the users of a table of keyed records rely on. \<open>m\<close> is the memory the keys are read
  from; a search changes nothing but the position it remembers.
\<close>

locale record_table =
  fixes inv :: "'m \<Rightarrow> 'h \<Rightarrow> bool"
    and recs :: "'h \<Rightarrow> 'r multiset"
    and key :: "'m \<Rightarrow> 'h \<Rightarrow> 'r \<Rightarrow> bytes"
    and room :: "'h \<Rightarrow> bool"
    and search :: "'m \<Rightarrow> 'h \<Rightarrow> bytes \<Rightarrow> (unit, 'r option \<times> 'h) res"
    and insert_rec :: "'m \<Rightarrow> 'h \<Rightarrow> 'r \<Rightarrow> (unit, bool \<times> 'h) res"
    and delete :: "'m \<Rightarrow> 'h \<Rightarrow> 'r \<Rightarrow> (unit, bool \<times> 'r list \<times> 'h) res"
  assumes memory_law: "inv m h \<Longrightarrow> (\<And>r. r \<in># recs h \<Longrightarrow> key m' h r = key m h r) \<Longrightarrow> inv m' h"
    and search_law: "inv m h \<Longrightarrow> k \<noteq> [] \<Longrightarrow> \<exists>res h'. search m h k = Ok (res, h') \<and> inv m h' \<and> recs h' = recs h
        \<and> (\<forall>m. key m h' = key m h) \<and> room h' = room h
        \<and> (case res of Some r \<Rightarrow> r \<in># recs h \<and> key m h r = k | None \<Rightarrow> \<forall>r \<in># recs h. key m h r \<noteq> k)"
    and insert_law: "inv m h \<Longrightarrow> room h \<Longrightarrow> \<exists>h'. insert_rec m h r = Ok (False, h') \<and> inv m h' \<and> recs h' = add_mset r (recs h)
        \<and> (\<forall>m. key m h' = key m h)"
    and delete_law: "inv m h \<Longrightarrow> r \<in># recs h \<Longrightarrow> \<exists>fr h'. delete m h r = Ok (False, fr, h') \<and> inv m h' \<and> recs h' = recs h - {#r#}
        \<and> (\<forall>m. key m h' = key m h)"
begin

text \<open>A record in a fresh place of the memory.\<close>

lemma insert_fresh:
  assumes "inv m h" "room h" "\<And>x. x \<in># recs h \<Longrightarrow> key m' h x = key m h x"
  shows "\<exists>h'. insert_rec m' h r = Ok (False, h') \<and> inv m' h' \<and> recs h' = add_mset r (recs h) \<and> (\<forall>m. key m h' = key m h)"
  using insert_law [OF memory_law [OF assms(1,3)] assms(2)] by blast

text \<open>What was inserted is found under its key.\<close>

lemma insert_search:
  assumes "inv m h" "room h" "key m h r \<noteq> []"
  shows "\<exists>h1 x h2. insert_rec m h r = Ok (False, h1) \<and> search m h1 (key m h r) = Ok (Some x, h2) \<and> x \<in># recs h1 \<and> key m h x = key m h r"
proof -
  obtain h1 where h1: "insert_rec m h r = Ok (False, h1)" "inv m h1" "recs h1 = add_mset r (recs h)" "\<forall>m. key m h1 = key m h"
    using insert_law [OF assms(1,2)] by blast
  obtain res h2 where s: "search m h1 (key m h r) = Ok (res, h2)"
      "case res of Some x \<Rightarrow> x \<in># recs h1 \<and> key m h1 x = key m h r | None \<Rightarrow> \<forall>x \<in># recs h1. key m h1 x \<noteq> key m h r"
    using search_law [OF h1(2) assms(3)] by blast
  then show ?thesis using h1 by (cases res) auto
qed

text \<open>Taking the record with a key out, if there is one.\<close>

lemma search_delete:
  assumes "inv m h" "k \<noteq> []"
  shows "(\<exists>h1. search m h k = Ok (None, h1) \<and> inv m h1 \<and> recs h1 = recs h \<and> (\<forall>m. key m h1 = key m h) \<and> (\<forall>r \<in># recs h. key m h r \<noteq> k))
    \<or> (\<exists>r h1 fr h2. search m h k = Ok (Some r, h1) \<and> r \<in># recs h \<and> key m h r = k \<and> delete m h1 r = Ok (False, fr, h2)
        \<and> inv m h2 \<and> recs h2 = recs h - {#r#} \<and> (\<forall>m. key m h2 = key m h))"
proof -
  obtain res h1 where s: "search m h k = Ok (res, h1)" "inv m h1" "recs h1 = recs h" "\<forall>m. key m h1 = key m h"
      "case res of Some r \<Rightarrow> r \<in># recs h \<and> key m h r = k | None \<Rightarrow> \<forall>r \<in># recs h. key m h r \<noteq> k"
    using search_law [OF assms] by blast
  show ?thesis
  proof (cases res)
    case None
    then show ?thesis using s by auto
  next
    case (Some r)
    then obtain fr h2 where "delete m h1 r = Ok (False, fr, h2)" "inv m h2" "recs h2 = recs h1 - {#r#}" "\<forall>m. key m h2 = key m h1"
      using delete_law [OF s(2), of r] s(3,5) by auto
    then show ?thesis using s Some by auto
  qed
qed

end

text \<open>The hash table keeps the contract; the length of the array is bounded.\<close>

lemma hash_key_same:
  "ha_get_key h' = ha_get_key h \<Longrightarrow> ha_key_length h' = ha_key_length h \<Longrightarrow> ha_key_offset h' = ha_key_offset h \<Longrightarrow> hash_key mem h' = hash_key mem h"
  by (rule ext) (simp add: hash_key_def split: option.split)

lemma hash_key_insert: "hash_insert mem room fresh h r = Ok (f, h') \<Longrightarrow> hash_key mem' h' = hash_key mem' h"
  by (auto simp: hash_insert_def Let_def res_simps intro!: hash_key_same split: if_splits)

lemma hash_key_delete: "hash_delete mem h r = Ok (f, fr, h') \<Longrightarrow> hash_key mem' h' = hash_key mem' h"
  by (auto simp: hash_delete_def Let_def res_simps intro!: hash_key_same split: if_splits option.splits prod.splits)

lemma hash_inv_memory:
  assumes "hash_inv mem h" "\<And>r. r \<in># hash_records h \<Longrightarrow> hash_key mem' h r = hash_key mem h r"
  shows "hash_inv mem' h"
proof -
  obtain C where g: "good (ha_array h) {..<ha_records h} (home_of mem h (ha_blength h) (ha_records h)) C" and l: "length (ha_array h) = ha_records h"
    using assms(1) by (auto simp: hash_inv_def)
  have "good (ha_array h) {..<ha_records h} (home_of mem' h (ha_blength h) (ha_records h)) C"
  proof (rule good_cong [OF g])
    fix i assume "i \<in> {..<ha_records h}"
    then have "dat (ha_array h) i \<in># hash_records h" using in_records [OF l, of "dat (ha_array h) i"] by blast
    then have "hash_key mem' h (dat (ha_array h) i) = hash_key mem h (dat (ha_array h) i)" by (rule assms(2))
    then show "home_of mem' h (ha_blength h) (ha_records h) (dat (ha_array h) i) = home_of mem h (ha_blength h) (ha_records h) (dat (ha_array h) i)"
      by (simp only: home_of_def rec_hashnr_def)
  qed
  then show ?thesis using assms(1) unfolding hash_inv_def by blast
qed

interpretation hash_table: record_table hash_inv hash_records hash_key "\<lambda>h. ha_records h + 1 < 2 ^ 31"
  "\<lambda>m h k. hash_search m h (k @ tl) (length k)" "\<lambda>m h. hash_insert m True fresh h" hash_delete
  for tl fresh
proof
  fix m m' :: "'a memory" and h
  assume "hash_inv m h" "\<And>r. r \<in># hash_records h \<Longrightarrow> hash_key m' h r = hash_key m h r"
  then show "hash_inv m' h" by (rule hash_inv_memory)
next
  fix m :: "'a memory" and h and k :: bytes
  assume a: "hash_inv m h" "k \<noteq> []"
  have k: "(if length k \<noteq> 0 then length k else ha_key_length h) = length k" "take (length k) (k @ tl) = k" using a(2) by simp_all
  obtain res c where r: "hash_search m h (k @ tl) (length k) = Ok (res, h\<lparr>ha_current_record := c\<rparr>)"
      "case res of Some r \<Rightarrow> r \<in># hash_records h \<and> hash_key m h r = k | None \<Rightarrow> \<forall>r \<in># hash_records h. hash_key m h r \<noteq> k"
    using search_ok [OF a(1) k(1) [symmetric], of "k @ tl"] a(2) unfolding k(2) by auto
  then show "\<exists>res h'. hash_search m h (k @ tl) (length k) = Ok (res, h') \<and> hash_inv m h' \<and> hash_records h' = hash_records h
      \<and> (\<forall>m. hash_key m h' = hash_key m h) \<and> (ha_records h' + 1 < 2 ^ 31) = (ha_records h + 1 < 2 ^ 31)
      \<and> (case res of Some r \<Rightarrow> r \<in># hash_records h \<and> hash_key m h r = k | None \<Rightarrow> \<forall>r \<in># hash_records h. hash_key m h r \<noteq> k)"
    using a(1) by (auto simp: hash_inv_current hash_key_fields hash_records_def)
next
  fix m :: "'a memory" and h r
  assume "hash_inv m h" "ha_records h + 1 < 2 ^ 31"
  then obtain h' where h': "hash_insert m True fresh h r = Ok (False, h')" "hash_inv m h'" "hash_records h' = add_mset r (hash_records h)"
    using insert_ok [of m h fresh r] by blast
  then show "\<exists>h'. hash_insert m True fresh h r = Ok (False, h') \<and> hash_inv m h' \<and> hash_records h' = add_mset r (hash_records h)
      \<and> (\<forall>m. hash_key m h' = hash_key m h)"
    using hash_key_insert [OF h'(1)] by (intro exI [of _ h']) simp
next
  fix m :: "'a memory" and h r
  assume "hash_inv m h" "r \<in># hash_records h"
  then obtain fr h' where h': "hash_delete m h r = Ok (False, fr, h')" "hash_inv m h'" "hash_records h' = hash_records h - {#r#}"
    using delete_ok [of m h r] by auto
  then show "\<exists>fr h'. hash_delete m h r = Ok (False, fr, h') \<and> hash_inv m h' \<and> hash_records h' = hash_records h - {#r#}
      \<and> (\<forall>m. hash_key m h' = hash_key m h)"
    using hash_key_delete [OF h'(1)] by (intro exI [of _ fr] exI [of _ h']) simp
qed

lemma two_inserts_inv:
  assumes "rbind (hash_insert mem True fresh (hash_init ko kl gk fr ci) a) (\<lambda>(f, h). hash_insert mem True fresh h b) = Ok (False, t)"
  shows "hash_inv mem t"
proof -
  let ?h0 = "hash_init ko kl gk fr ci"
  have n: "ha_records ?h0 = 0" by (simp add: hash_init_def)
  obtain h1 where h1: "hash_insert mem True fresh ?h0 a = Ok (False, h1)" "hash_inv mem h1" "ha_records h1 = 1"
    using insert_ok [OF hash_init_inv(1) [where mem = mem and ko = ko and kl = kl and gk = gk and fr = fr and ci = ci], of fresh a] n by auto
  obtain h2 where h2: "hash_insert mem True fresh h1 b = Ok (False, h2)" "hash_inv mem h2"
    using insert_ok [OF h1(2), of fresh b] h1(3) by auto
  have "h2 = t" using assms h1(1) h2(1) by simp
  then show ?thesis using h2(2) by simp
qed

lemma two_table_rows: "ha_records two_table = 2" "ha_key_length two_table = 1"
  by (simp_all add: two_table_def)

lemma two_table_inv: "hash_inv two_keys two_table"
  by (rule two_inserts_inv [OF two_table_built [where fresh = undefined]])

text \<open>A table with one record in each of its two positions.\<close>

definition other_keys :: "nat \<Rightarrow> bytes" where
  "other_keys r = (if r = 0 then [0] else [7])"

definition other_table :: "nat hash" where
  "other_table = two_table\<lparr>ha_array := [\<lparr>hl_next = NO_RECORD, hl_data = 1\<rparr>, \<lparr>hl_next = NO_RECORD, hl_data = 0\<rparr>]\<rparr>"

lemma other_table_built:
  "rbind (hash_insert other_keys True fresh (hash_init 0 1 None False False) 0) (\<lambda>(f, h). hash_insert other_keys True fresh h 1) = Ok (False, other_table)"
  by (simp add: hash_insert_def hash_init_def place_record_def split_end_def split_low_def split_high_def other_table_def two_table_def other_keys_def
      uint_sub_def uint_add_def put_pending_def movelink_def hash_eval Let_def)

lemma other_table_inv: "hash_inv other_keys other_table"
  by (rule two_inserts_inv [OF other_table_built [where fresh = undefined]])

section \<open>Properties\<close>

text \<open>
  C10. Inserting into a well-formed hash table, also where a chain is split, adds the record to the
  multiset of records and keeps the table well formed.
\<close>
theorem hash_insert_correct:
  assumes "hash_inv mem h" "ha_records h + 1 < 2 ^ 31"
  shows "\<exists>h'. hash_insert mem True fresh h r = Ok (False, h') \<and> hash_inv mem h' \<and> hash_records h' = add_mset r (hash_records h)
    \<and> ha_records h' = ha_records h + 1"
  using insert_ok [OF assms] by blast

theorem hash_insert_correct_witness:
  "\<exists>h'. hash_insert two_keys True \<lparr>hl_next = 5, hl_data = 9\<rparr> two_table 2 = Ok (False, h') \<and> hash_inv two_keys h'
    \<and> hash_records h' = add_mset 2 (hash_records two_table) \<and> ha_records h' = ha_records two_table + 1"
  by (rule hash_insert_correct [OF two_table_inv]) (simp add: two_table_def)

text \<open>
  C12. A search in a well-formed table returns, and returns a record with the key, if there is one,
  and nothing otherwise. Keys of a given length must match in length; without a length all
  keys have the constant length of the table.
\<close>
theorem hash_search_correct:
  assumes "hash_inv mem h" "L = (if len \<noteq> 0 then len else ha_key_length h)" "L \<le> length key"
    and "len = 0 \<longrightarrow> (\<forall>r \<in># hash_records h. length (hash_key mem h r) = L)"
  shows "\<exists>res c. hash_search mem h key len = Ok (res, h\<lparr>ha_current_record := c\<rparr>) \<and>
    (case res of Some r \<Rightarrow> r \<in># hash_records h \<and> hash_key mem h r = take L key | None \<Rightarrow> \<forall>r \<in># hash_records h. hash_key mem h r \<noteq> take L key)"
  by (rule search_ok [OF assms])

theorem hash_search_correct_witness:
  "\<exists>c. hash_search two_keys two_table [2] 0 = Ok (Some 1, two_table\<lparr>ha_current_record := c\<rparr>)"
proof -
  have recs: "set_mset (hash_records two_table) = {0, 1}" and keys: "hash_key two_keys two_table 0 = [0]" "hash_key two_keys two_table 1 = [2]"
    by (auto simp: two_table_def hash_records_def two_keys_def hash_key_def)
  have "\<exists>res c. hash_search two_keys two_table [2] 0 = Ok (res, two_table\<lparr>ha_current_record := c\<rparr>) \<and>
    (case res of Some r \<Rightarrow> r \<in># hash_records two_table \<and> hash_key two_keys two_table r = take 1 [2]
     | None \<Rightarrow> \<forall>r \<in># hash_records two_table. hash_key two_keys two_table r \<noteq> take 1 [2])"
    by (rule hash_search_correct [OF two_table_inv]) (simp_all add: two_table_def hash_records_def two_keys_def hash_key_def)
  then obtain res c where "hash_search two_keys two_table [2] 0 = Ok (res, two_table\<lparr>ha_current_record := c\<rparr>)" "res = Some 1"
    using recs keys by (auto split: option.splits)
  then show ?thesis by blast
qed

text \<open>
  C11. Deleting a record removes it once, keeps the table well formed and hands it to the free
  function; it fails, without a change, exactly when the record is not in the table.
\<close>
theorem hash_delete_correct:
  assumes "hash_inv mem h"
  shows "\<exists>failed fr h'. hash_delete mem h r = Ok (failed, fr, h') \<and> hash_inv mem h' \<and> (failed \<longleftrightarrow> r \<notin># hash_records h)
    \<and> hash_records h' = hash_records h - {#r#} \<and> fr = (if \<not> failed \<and> ha_free h then [r] else [])"
  using delete_ok [OF assms, of r] by blast

theorem hash_delete_correct_witness:
  "\<exists>failed fr h'. hash_delete two_keys two_table 1 = Ok (failed, fr, h') \<and> hash_inv two_keys h' \<and> (failed \<longleftrightarrow> 1 \<notin># hash_records two_table)
    \<and> hash_records h' = hash_records two_table - {#1#} \<and> fr = (if \<not> failed \<and> ha_free two_table then [1] else [])"
  by (rule hash_delete_correct [OF two_table_inv])

text \<open>
  C36. After the key of a record has changed, updating makes the table well formed again, when the
  record now at the new position was not one of the old chain.
\<close>
theorem hash_update_correct:
  assumes "hash_inv mem0 h" "\<And>x. x \<noteq> r \<Longrightarrow> hash_key mem h x = hash_key mem0 h x" "count (hash_records h) r = 1"
    and "L = (if len \<noteq> 0 then len else ha_key_length h)" "L \<le> length key" "take L key = hash_key mem0 h r"
    and "home0 = home_of mem0 h (ha_blength h) (ha_records h)" "home = home_of mem h (ha_blength h) (ha_records h)"
    and "home0 r \<noteq> home r \<Longrightarrow> home0 (hl_data (ha_array h ! home r)) \<noteq> home0 r"
  shows "\<exists>h'. hash_update mem h r key len = Ok (False, h') \<and> hash_inv mem h' \<and> hash_records h' = hash_records h"
  by (rule update_ok [OF assms(1-8)]) (simp_all add: assms(9))

theorem hash_update_correct_witness:
  "\<exists>h'. hash_update (other_keys(1 := [2])) other_table 1 [7] 0 = Ok (False, h') \<and> hash_inv (other_keys(1 := [2])) h'
    \<and> hash_records h' = hash_records other_table"
  by (rule hash_update_correct [OF other_table_inv _ _ refl _ _ refl refl])
    (simp_all add: other_table_def two_table_def hash_records_def other_keys_def home_of_def hash_eval)

text \<open>
  C38. Without that condition the update fails: it reports success on a table with two records, but
  a link refers to itself and the search for a missing key never ends; on the same table
  the update of the other record leaves the array.
\<close>
theorem hash_update_breaks:
  "hash_inv two_keys two_table \<and> (\<exists>h'. hash_update (two_keys(0 := [7])) two_table 0 [0] 1 = Ok (False, h') \<and> \<not> hash_inv (two_keys(0 := [7])) h'
      \<and> (\<forall>fuel. search_loop (two_keys(0 := [7])) h' [135] 1 fuel True (hash_mask (hashnr_of h' [135]) (ha_blength h') (ha_records h')) = Err ()))
    \<and> hash_update (two_keys(1 := [7])) two_table 1 [2] 1 = UB"
proof -
  let ?mem = "two_keys(0 := [7])"
  let ?h = "two_table\<lparr>ha_array := [\<lparr>hl_next = 0, hl_data = 0\<rparr>, \<lparr>hl_next = NO_RECORD, hl_data = 1\<rparr>]\<rparr>"
  have u: "hash_update ?mem two_table 0 [0] 1 = Ok (False, ?h)"
    by (simp add: hash_update_def unlink_def two_table_def two_keys_def movelink_def hash_eval Let_def)
  have p: "hash_mask (hashnr_of ?h [135]) (ha_blength ?h) (ha_records ?h) = 0"
    by (simp add: two_table_def hash_eval)
  have step: "search_loop ?mem ?h [135] 1 (Suc f) flag 0 = search_loop ?mem ?h [135] 1 f False 0" for f flag
    by (simp add: two_table_def two_keys_def hash_eval)
  have loop: "search_loop ?mem ?h [135] 1 f flag 0 = Err ()" for f flag
  proof (induction f arbitrary: flag)
    case (Suc f)
    then show ?case by (simp only: step)
  qed simp
  have "hash_search ?mem ?h [135] 1 = Err ()"
  proof -
    have "ha_records ?h \<noteq> 0" by (simp add: two_table_rows)
    then show ?thesis unfolding hash_search_def by (simp only: if_False load_bytes_def) (simp del: search_loop.simps add: p [simplified] loop [unfolded One_nat_def])
  qed
  moreover have "\<exists>res c. hash_search ?mem ?h [135] 1 = Ok (res, ?h\<lparr>ha_current_record := c\<rparr>)" if "hash_inv ?mem ?h"
    using search_ok [OF that refl, of 1 "[135]"] by auto
  ultimately have "\<not> hash_inv ?mem ?h" by auto
  moreover have "hash_update (two_keys(1 := [7])) two_table 1 [2] 1 = UB"
    by (simp add: hash_update_def unlink_def two_table_def two_keys_def movelink_def hash_eval Let_def)
  ultimately show ?thesis using two_table_inv u p loop by auto
qed

end
