(* ===== verification/Net.thy ===== *)
theory Net
  imports Prelude
begin

text \<open>
  Packets of the client/server protocol (\<^verbatim>\<open>ma_net.c\<close>) over a connection with a read-ahead
  cache (\<^verbatim>\<open>ma_pvio.c\<close>). \<^verbatim>\<open>HAVE_COMPRESS\<close> is undefined in \<^verbatim>\<open>ma_config.h\<close>, so the parts of the
  code under it are not there; the flag \<open>compress\<close> of \<open>NET\<close> is. The connection is blocking and
  without TLS and callbacks. The methods behind it are the environment: for each call a
  number, how many bytes it moves at most, or the value up to 0 it returns; when they are
  used up, every further call returns -1. Positions in the buffer are offsets, and
  \<open>buff_end\<close> is always \<open>buff + max_packet\<close>. \<open>unsigned long\<close> has 32 bits.
\<close>

section \<open>The connection\<close>

record wire =
  w_in :: bytes
  w_reads :: "int list"
  w_out :: bytes
  w_writes :: "int list"

definition method_read :: "wire \<Rightarrow> nat \<Rightarrow> int \<times> bytes \<times> wire" where
  "method_read w n = (case w_reads w of
     [] \<Rightarrow> (- 1, [], w)
   | k # ks \<Rightarrow>
       if k \<le> 0 then (k, [], w\<lparr>w_reads := ks\<rparr>)
       else let r = min n (min (nat k) (length (w_in w)))
            in (int r, take r (w_in w), w\<lparr>w_reads := ks, w_in := drop r (w_in w)\<rparr>))"

definition method_write :: "wire \<Rightarrow> bytes \<Rightarrow> int \<times> wire" where
  "method_write w data = (case w_writes w of
     [] \<Rightarrow> (- 1, w)
   | k # ks \<Rightarrow>
       if k \<le> 0 then (k, w\<lparr>w_writes := ks\<rparr>)
       else let r = min (nat k) (length data)
            in (int r, w\<lparr>w_writes := ks, w_out := w_out w @ take r data\<rparr>))"

record pvio =
  pv_cache :: "bytes option"
  pv_cache_size :: nat
  pv_cache_pos :: nat
  pv_wire :: wire

definition PVIO_READ_AHEAD_CACHE_SIZE :: nat where "PVIO_READ_AHEAD_CACHE_SIZE = 16384"
definition PVIO_READ_AHEAD_CACHE_MIN_SIZE :: nat where "PVIO_READ_AHEAD_CACHE_MIN_SIZE = 2048"

definition ma_pvio_read :: "pvio \<Rightarrow> nat \<Rightarrow> int \<times> bytes \<times> pvio" where
  "ma_pvio_read pv len = (case method_read (pv_wire pv) len of (r, bs, w) \<Rightarrow> (r, bs, pv\<lparr>pv_wire := w\<rparr>))"

definition ma_pvio_write :: "pvio \<Rightarrow> bytes \<Rightarrow> int \<times> pvio" where
  "ma_pvio_write pv data = (case method_write (pv_wire pv) data of (r, w) \<Rightarrow> (r, pv\<lparr>pv_wire := w\<rparr>))"

text \<open>The result, the bytes put into the buffer of the caller, and the connection.\<close>

definition ma_pvio_cache_read :: "pvio \<Rightarrow> nat \<Rightarrow> int \<times> bytes \<times> pvio" where
  "ma_pvio_cache_read pv len = (case pv_cache pv of
     None \<Rightarrow> ma_pvio_read pv len
   | Some cache \<Rightarrow>
       if pv_cache_pos pv < pv_cache_size pv then
         (let r = min len (pv_cache_size pv - pv_cache_pos pv)
          in (int r, take r (drop (pv_cache_pos pv) cache), pv\<lparr>pv_cache_pos := pv_cache_pos pv + r\<rparr>))
       else if PVIO_READ_AHEAD_CACHE_MIN_SIZE \<le> len then ma_pvio_read pv len
       else (case ma_pvio_read pv PVIO_READ_AHEAD_CACHE_SIZE of (r, bs, pv1) \<Rightarrow>
         if 0 < r then
           (let cache1 = bs @ drop (length bs) cache; pv2 = pv1\<lparr>pv_cache := Some cache1\<rparr>
            in if len < nat r
               then (int len, take len cache1, pv2\<lparr>pv_cache_size := nat r, pv_cache_pos := len\<rparr>)
               else (r, take (nat r) cache1, pv2))
         else (r, [], pv1)))"

section \<open>The packet buffer\<close>

record net =
  n_pvio :: pvio
  n_buff :: bytes
  n_write_pos :: nat
  n_read_pos :: nat
  n_max_packet :: nat
  n_max_packet_size :: nat
  n_pkt_nr :: u32
  n_compress_pkt_nr :: u32
  n_where_b :: nat
  n_error :: nat
  n_last_errno :: nat
  n_compress :: bool
  n_multi :: bool

definition MAX_PACKET_LENGTH :: nat where "MAX_PACKET_LENGTH = 256 * 256 * 256 - 1"
definition NET_HEADER_SIZE :: nat where "NET_HEADER_SIZE = 4"
definition COMP_HEADER_SIZE :: nat where "COMP_HEADER_SIZE = 3"
definition IO_SIZE :: nat where "IO_SIZE = 4096"
definition packet_error :: nat where "packet_error = 2 ^ 32 - 1"
definition ER_NET_PACKET_TOO_LARGE :: nat where "ER_NET_PACKET_TOO_LARGE = 1153"
definition ER_NET_ERROR_ON_WRITE :: nat where "ER_NET_ERROR_ON_WRITE = 1160"

text \<open>\<open>bl\<close> and \<open>ma\<close> are the global variables \<open>net_buffer_length\<close> and \<open>max_allowed_packet\<close>.\<close>

definition ma_net_init :: "alloc_env \<Rightarrow> nat \<Rightarrow> nat \<Rightarrow> net \<Rightarrow> pvio \<Rightarrow> bool \<times> net" where
  "ma_net_init E bl ma n pv = (case malloc E bl of
     None \<Rightarrow> (True, n)
   | Some b \<Rightarrow> (False, n\<lparr>n_buff := replicate bl 0, n_max_packet_size := max bl ma, n_max_packet := bl, n_pvio := pv,
       n_error := 0, n_compress_pkt_nr := 0, n_pkt_nr := 0, n_write_pos := 0, n_read_pos := 0,
       n_compress := False, n_where_b := 0, n_last_errno := 0\<rparr>))"

definition net_realloc :: "alloc_env \<Rightarrow> net \<Rightarrow> nat \<Rightarrow> bool \<times> net" where
  "net_realloc E n len =
     (if n_max_packet_size n \<le> len then (True, n\<lparr>n_error := 1, n_last_errno := ER_NET_PACKET_TOO_LARGE\<rparr>)
      else let pkt_length = (len + IO_SIZE - 1) div IO_SIZE * IO_SIZE
           in case realloc E (n_buff n) (pkt_length + NET_HEADER_SIZE + COMP_HEADER_SIZE) of
                None \<Rightarrow> (True, n\<lparr>n_error := 1\<rparr>)
              | Some b \<Rightarrow> (False, n\<lparr>n_buff := b, n_write_pos := 0, n_max_packet := pkt_length mod 2 ^ 32\<rparr>))"

definition ma_net_clear :: "net \<Rightarrow> net" where
  "ma_net_clear n = (if n_multi n then n else n\<lparr>n_compress_pkt_nr := 0, n_pkt_nr := 0, n_write_pos := 0\<rparr>)"

section \<open>Writing\<close>

text \<open>The loop of \<open>ma_net_real_write\<close>.\<close>

function write_loop :: "pvio \<Rightarrow> bytes \<Rightarrow> bool \<times> pvio" where
  "write_loop pv data =
     (if data = [] then (True, pv)
      else let (r, pv1) = ma_pvio_write pv data
           in if r \<le> 0 then (False, pv1) else write_loop pv1 (drop (nat r) data))"
  by pat_completeness auto
termination
  by (relation "measure (\<lambda>(pv, data). length data)") auto

declare write_loop.simps [simp del]

definition ma_net_real_write :: "net \<Rightarrow> bytes \<Rightarrow> int \<times> net" where
  "ma_net_real_write n packet =
     (if n_error n = 2 then (- 1, n)
      else case write_loop (n_pvio n) packet of
             (True, pv) \<Rightarrow> (0, n\<lparr>n_pvio := pv\<rparr>)
           | (False, pv) \<Rightarrow> (1, n\<lparr>n_pvio := pv, n_error := 2, n_last_errno := ER_NET_ERROR_ON_WRITE\<rparr>))"

definition ma_net_flush :: "net \<Rightarrow> int \<times> net" where
  "ma_net_flush n =
     (if n_multi n then (0, n)
      else let (e, n1) = (if n_write_pos n \<noteq> 0
                 then (case ma_net_real_write n (take (n_write_pos n) (n_buff n)) of (e, m) \<Rightarrow> (e, m\<lparr>n_write_pos := 0\<rparr>))
                 else (0, n))
           in (e, if n_compress n1 then n1\<lparr>n_pkt_nr := n_compress_pkt_nr n1\<rparr> else n1))"

function compress_loop :: "net \<Rightarrow> bytes \<Rightarrow> bool \<times> bytes \<times> net" where
  "compress_loop n packet =
     (if length packet \<le> MAX_PACKET_LENGTH then (False, packet, n)
      else case ma_net_real_write n (take MAX_PACKET_LENGTH packet) of (e, n1) \<Rightarrow>
             if e \<noteq> 0 then (True, packet, n1) else compress_loop n1 (drop MAX_PACKET_LENGTH packet))"
  by pat_completeness auto
termination
  by (relation "measure (\<lambda>(n, packet). length packet)") (auto simp: MAX_PACKET_LENGTH_def)

declare compress_loop.simps [simp del]

text \<open>The end of \<open>ma_net_write_buff\<close>, reached with and without an overflow of the buffer.\<close>

definition buff_store :: "net \<Rightarrow> bytes \<Rightarrow> (unit, bool \<times> net) res" where
  "buff_store n packet = rmap (\<lambda>b. (False, n\<lparr>n_buff := b, n_write_pos := n_write_pos n + length packet\<rparr>))
     (store_bytes (n_buff n) (n_write_pos n) packet)"

definition buff_rest :: "net \<Rightarrow> bytes \<Rightarrow> (unit, bool \<times> net) res" where
  "buff_rest n packet =
     (let (failed, packet1, n1) = (if n_compress n then compress_loop n packet else (False, packet, n))
      in if failed then Ok (True, n1)
         else if n_max_packet n1 < length packet1
         then (case ma_net_real_write n1 packet1 of (e, n2) \<Rightarrow> Ok (e \<noteq> 0, n2))
         else buff_store n1 packet1)"

definition ma_net_write_buff :: "net \<Rightarrow> bytes \<Rightarrow> (unit, bool \<times> net) res" where
  "ma_net_write_buff n packet =
     (let left_length = (if MAX_PACKET_LENGTH < n_max_packet n \<and> n_compress n
                         then size_sub MAX_PACKET_LENGTH (n_write_pos n) else size_sub (n_max_packet n) (n_write_pos n))
      in if left_length < length packet then
           (if n_write_pos n \<noteq> 0 then
              rbind (store_bytes (n_buff n) (n_write_pos n) (take left_length packet)) (\<lambda>b.
                case ma_net_real_write (n\<lparr>n_buff := b\<rparr>) (take (n_write_pos n + left_length) b) of (e, n1) \<Rightarrow>
                  if e \<noteq> 0 then Ok (True, n1)
                  else buff_rest (n1\<lparr>n_write_pos := 0\<rparr>) (drop left_length packet))
            else buff_rest n packet)
         else buff_store n packet)"

text \<open>Two parts, the second only when the first succeeded, as \<open>||\<close> evaluates them.\<close>

definition write_two :: "net \<Rightarrow> bytes \<Rightarrow> bytes \<Rightarrow> (unit, bool \<times> net) res" where
  "write_two n a b = rbind (ma_net_write_buff n a) (\<lambda>(failed, n1). if failed then Ok (True, n1) else ma_net_write_buff n1 b)"

definition header :: "nat \<Rightarrow> u32 \<Rightarrow> bytes" where
  "header len nr = le_bytes 3 len @ [ucast nr]"

function ma_net_write :: "net \<Rightarrow> bytes \<Rightarrow> (unit, bool \<times> net) res" where
  "ma_net_write n packet =
     (if MAX_PACKET_LENGTH \<le> length packet then
        rbind (write_two (n\<lparr>n_pkt_nr := n_pkt_nr n + 1\<rparr>) (header MAX_PACKET_LENGTH (n_pkt_nr n)) (take MAX_PACKET_LENGTH packet))
          (\<lambda>(failed, n1). if failed then Ok (True, n1) else ma_net_write n1 (drop MAX_PACKET_LENGTH packet))
      else write_two (n\<lparr>n_pkt_nr := n_pkt_nr n + 1\<rparr>) (header (length packet) (n_pkt_nr n)) packet)"
  by pat_completeness auto
termination
  by (relation "measure (\<lambda>(n, packet). length packet)") (auto simp: MAX_PACKET_LENGTH_def)

declare ma_net_write.simps [simp del]

text \<open>
  The loop of \<open>ma_net_write_command\<close> over full packets: \<open>cmd\<close> is the command byte in the first
  packet and empty in the later ones, and \<open>packet\<close> what is left of the argument.
\<close>

definition next_nr :: "net \<Rightarrow> u32 \<times> net" where
  "next_nr n = (if n_compress n then (0, n) else (n_pkt_nr n, n\<lparr>n_pkt_nr := n_pkt_nr n + 1\<rparr>))"

function command_loop :: "net \<Rightarrow> bytes \<Rightarrow> bytes \<Rightarrow> (unit, bool \<times> bytes \<times> bytes \<times> net) res" where
  "command_loop n cmd packet =
     (if MAX_PACKET_LENGTH \<le> length cmd + length packet
      then
        (let (nr, n1) = next_nr n; k = MAX_PACKET_LENGTH - length cmd
         in rbind (write_two n1 (header MAX_PACKET_LENGTH nr @ cmd) (take k packet))
              (\<lambda>(failed, n2). if failed then Ok (True, [], [], n2) else command_loop n2 [] (drop k packet)))
      else Ok (False, cmd, packet, n))"
  by pat_completeness auto
termination
  by (relation "measure (\<lambda>(n, cmd, packet). length cmd + length packet)") (auto simp: MAX_PACKET_LENGTH_def)

declare command_loop.simps [simp del]

definition ma_net_write_command :: "net \<Rightarrow> u8 \<Rightarrow> bytes \<Rightarrow> bool \<Rightarrow> (unit, bool \<times> net) res" where
  "ma_net_write_command n command packet disable_flush =
     rbind (command_loop n [command] packet) (\<lambda>(failed, cmd, rest, n1).
       if failed then Ok (True, n1)
       else let (nr, n2) = next_nr n1
            in rbind (write_two n2 (header (length cmd + length rest) nr @ cmd) rest) (\<lambda>(rc, n3).
                 if \<not> rc \<and> \<not> disable_flush then (case ma_net_flush n3 of (e, n4) \<Rightarrow> Ok (e \<noteq> 0, n4))
                 else Ok (rc, n3)))"

definition net_add_multi_command :: "net \<Rightarrow> u8 \<Rightarrow> bytes \<Rightarrow> (unit, bool \<times> net) res" where
  "net_add_multi_command n command packet =
     (if \<not> n_multi n then Ok (True, n)
      else ma_net_write_command (n\<lparr>n_compress_pkt_nr := 0, n_pkt_nr := 0\<rparr>) command packet True)"

section \<open>Reading\<close>

text \<open>The inner loop of \<open>ma_real_read\<close>: \<open>remain\<close> bytes to \<open>pos\<close>.\<close>

function fill_loop :: "net \<Rightarrow> nat \<Rightarrow> nat \<Rightarrow> (unit, bool \<times> net) res" where
  "fill_loop n pos remain =
     (if remain = 0 then Ok (True, n)
      else let (r, bs, pv) = ma_pvio_cache_read (n_pvio n) remain; n1 = n\<lparr>n_pvio := pv\<rparr>
           in if r \<le> 0 then Ok (False, n1\<lparr>n_error := 2\<rparr>)
              else rbind (store_bytes (n_buff n1) pos bs) (\<lambda>b.
                     fill_loop (n1\<lparr>n_buff := b\<rparr>) (pos + nat r) (remain - nat r)))"
  by pat_completeness auto
termination
  by (relation "measure (\<lambda>(n, pos, remain). remain)") auto

declare fill_loop.simps [simp del]

definition ma_real_read :: "alloc_env \<Rightarrow> net \<Rightarrow> (unit, nat \<times> net) res" where
  "ma_real_read E n =
     rbind (fill_loop n (n_where_b n) (if n_compress n then NET_HEADER_SIZE + COMP_HEADER_SIZE else NET_HEADER_SIZE)) (\<lambda>(ok, n1).
       if \<not> ok then Ok (packet_error, n1)
       else rbind (load1 (n_buff n1) (n_where_b n1 + 3)) (\<lambda>nr.
         let n2 = n1\<lparr>n_pkt_nr := ucast nr + 1, n_compress_pkt_nr := ucast nr + 1\<rparr>
         in rbind (uint3korr (n_buff n2) (n_where_b n2)) (\<lambda>len.
              if len = 0 then Ok (0, n2)
              else let helping = (len + n_where_b n2) mod 2 ^ 32;
                       (failed, n3) = (if n_max_packet n2 \<le> helping then net_realloc E n2 helping else (False, n2))
                   in if failed then Ok (packet_error, n3)
                      else rbind (fill_loop n3 (n_where_b n3) len) (\<lambda>(ok, n4).
                             Ok (if ok then len else packet_error, n4)))))"

section \<open>Properties of the connection\<close>

text \<open>The bytes a reader will see, whether they are in the cache or still on the wire.\<close>

definition cached :: "pvio \<Rightarrow> bytes" where
  "cached pv = (case pv_cache pv of None \<Rightarrow> [] | Some c \<Rightarrow> take (pv_cache_size pv - pv_cache_pos pv) (drop (pv_cache_pos pv) c))"

definition pending :: "pvio \<Rightarrow> bytes" where
  "pending pv = cached pv @ w_in (pv_wire pv)"

definition pvio_ok :: "pvio \<Rightarrow> bool" where
  "pvio_ok pv \<longleftrightarrow> (\<forall>c. pv_cache pv = Some c \<longrightarrow> length c = PVIO_READ_AHEAD_CACHE_SIZE \<and>
     pv_cache_pos pv \<le> pv_cache_size pv \<and> pv_cache_size pv \<le> PVIO_READ_AHEAD_CACHE_SIZE)"

text \<open>A connection that delivers everything that is on its way.\<close>

definition lively :: "pvio \<Rightarrow> bool" where
  "lively pv \<longleftrightarrow> list_all (\<lambda>k. 0 < k) (w_reads (pv_wire pv)) \<and> length (w_in (pv_wire pv)) \<le> length (w_reads (pv_wire pv))"

lemma pvio_read_spec:
  assumes "ma_pvio_read pv n = (r, bs, pv')"
  shows "pv_cache pv' = pv_cache pv" "pv_cache_size pv' = pv_cache_size pv" "pv_cache_pos pv' = pv_cache_pos pv"
    "w_in (pv_wire pv) = bs @ w_in (pv_wire pv')" "length bs \<le> n" "length bs = nat r"
    "lively pv \<Longrightarrow> w_in (pv_wire pv) \<noteq> [] \<Longrightarrow> 0 < n \<Longrightarrow> 0 < r \<and> lively pv'"
  using assms
  by (auto simp: ma_pvio_read_def method_read_def lively_def Let_def split: list.splits if_splits prod.splits)

lemma cache_read_spec:
  assumes ok: "pvio_ok pv" and n: "0 < n" and c: "ma_pvio_cache_read pv n = (r, bs, pv')"
  shows "pvio_ok pv' \<and> pending pv = bs @ pending pv' \<and> length bs \<le> n \<and> length bs = nat r
    \<and> (lively pv \<and> pending pv \<noteq> [] \<longrightarrow> 0 < r \<and> lively pv')"
proof -
  have direct: ?thesis if p: "ma_pvio_read pv n = (r, bs, pv')" and e: "cached pv = []"
  proof -
    have "cached pv' = []" using e unfolding cached_def pvio_read_spec(1-3) [OF p] .
    with e pvio_read_spec [OF p] ok n show ?thesis by (simp add: pending_def pvio_ok_def)
  qed
  show ?thesis
  proof (cases "pv_cache pv")
    case None
    then show ?thesis using c by (intro direct) (simp_all add: ma_pvio_cache_read_def cached_def)
  next
    case (Some cc)
    then have o: "length cc = PVIO_READ_AHEAD_CACHE_SIZE" "pv_cache_pos pv \<le> pv_cache_size pv"
        "pv_cache_size pv \<le> PVIO_READ_AHEAD_CACHE_SIZE"
      using ok by (simp_all add: pvio_ok_def)
    show ?thesis
    proof (cases "pv_cache_pos pv < pv_cache_size pv")
      case True
      let ?p = "pv_cache_pos pv" and ?s = "pv_cache_size pv"
      define k where "k = min n (?s - ?p)"
      have r: "r = int k" "bs = take k (drop ?p cc)" "pv' = pv\<lparr>pv_cache_pos := ?p + k\<rparr>"
        using c Some True by (simp_all add: ma_pvio_cache_read_def Let_def k_def)
      have k: "0 < k" "k \<le> n" "k \<le> ?s - ?p" using True n by (simp_all add: k_def)
      have "take (?s - ?p) (drop ?p cc) = take k (drop ?p cc) @ take (?s - (?p + k)) (drop (?p + k) cc)"
        using k take_add [of k "?s - ?p - k" "drop ?p cc"] by (simp add: add.commute)
      then have "pending pv = bs @ pending pv'" by (simp add: pending_def cached_def Some r)
      moreover have "length bs = k" using r(2) k o by simp
      ultimately show ?thesis using k o Some r by (simp add: pvio_ok_def lively_def)
    next
      case False
      then have e: "cached pv = []" by (simp add: cached_def Some)
      show ?thesis
      proof (cases "PVIO_READ_AHEAD_CACHE_MIN_SIZE \<le> n")
        case True
        then show ?thesis using c Some False e by (intro direct) (simp_all add: ma_pvio_cache_read_def)
      next
        case small: False
        obtain r1 b1 pv1 where p: "ma_pvio_read pv PVIO_READ_AHEAD_CACHE_SIZE = (r1, b1, pv1)"
          by (metis prod_cases3)
        note ps = pvio_read_spec [OF p]
        have b1: "length b1 \<le> PVIO_READ_AHEAD_CACHE_SIZE" "length b1 = nat r1" using ps(5,6) .
        let ?c = "b1 @ drop (length b1) cc"
        have lc: "length ?c = PVIO_READ_AHEAD_CACHE_SIZE" using o(1) b1(1) by simp
        have live: "0 < r1 \<and> lively pv1" if "lively pv" "pending pv \<noteq> []"
          using that ps(7) e by (simp add: pending_def PVIO_READ_AHEAD_CACHE_SIZE_def)
        have pos: "pv_cache_pos pv = pv_cache_size pv" using False o(2) by simp
        consider (none) "r1 \<le> 0" | (more) "0 < r1" "n < nat r1" | (all) "0 < r1" "\<not> n < nat r1" by linarith
        then show ?thesis
        proof cases
          case none
          then have "r = r1" "bs = []" "pv' = pv1" "b1 = []" using c Some False small p b1 by (simp_all add: ma_pvio_cache_read_def)
          moreover have "cached pv1 = cached pv" unfolding cached_def ps(1-3) ..
          ultimately show ?thesis using none ps(1-4) live ok by (auto simp: pending_def pvio_ok_def)
        next
          case more
          then have r: "r = int n" "bs = take n ?c" "pv' = pv1\<lparr>pv_cache := Some ?c, pv_cache_size := nat r1, pv_cache_pos := n\<rparr>"
            using c Some False small p by (simp_all add: ma_pvio_cache_read_def Let_def)
          have "bs = take n b1" "cached pv' = drop n b1" using r b1(2) more by (simp_all add: cached_def)
          then have "pending pv = bs @ pending pv'" using ps(4) r(3) e by (simp add: pending_def)
          then show ?thesis using r more live lc b1 n by (simp add: pvio_ok_def lively_def)
        next
          case all
          then have r: "r = r1" "bs = b1" "pv' = pv1\<lparr>pv_cache := Some ?c\<rparr>"
            using c Some False small p b1(2) by (auto simp: ma_pvio_cache_read_def Let_def)
          have "cached pv' = []" using r(3) ps(2,3) pos by (simp add: cached_def)
          then have "pending pv = bs @ pending pv'" using ps(4) r e by (simp add: pending_def)
          then show ?thesis using r all live lc b1 o ps(2,3) by (simp add: pvio_ok_def lively_def)
        qed
      qed
    qed
  qed
qed

section \<open>Properties of reading\<close>

text \<open>
  Filling part of the buffer either succeeds with the next bytes of the connection or fails
  and closes it; it succeeds when the bytes are on their way.
\<close>

definition fills :: "net \<Rightarrow> nat \<Rightarrow> nat \<Rightarrow> bool \<Rightarrow> net \<Rightarrow> bytes \<Rightarrow> bool" where
  "fills n pos remain ok n' d \<longleftrightarrow>
     n' = n\<lparr>n_pvio := n_pvio n', n_buff := n_buff n', n_error := n_error n'\<rparr>
     \<and> pvio_ok (n_pvio n') \<and> length (n_buff n') = length (n_buff n) \<and> pending (n_pvio n) = d @ pending (n_pvio n')
     \<and> (ok \<longrightarrow> length d = remain \<and> n_error n' = n_error n
              \<and> n_buff n' = take pos (n_buff n) @ d @ drop (pos + remain) (n_buff n))
     \<and> (\<not> ok \<longrightarrow> n_error n' = 2)
     \<and> (lively (n_pvio n) \<and> remain \<le> length (pending (n_pvio n)) \<longrightarrow> ok \<and> lively (n_pvio n'))"

lemma fills_step:
  assumes b: "length bs \<le> remain" "pos + remain \<le> length (n_buff n)" "pending (n_pvio n) = bs @ pending pv"
    and l: "lively (n_pvio n) \<Longrightarrow> pending (n_pvio n) \<noteq> [] \<Longrightarrow> lively pv" and r: "0 < remain"
  defines "n1 \<equiv> n\<lparr>n_pvio := pv, n_buff := take pos (n_buff n) @ bs @ drop (pos + length bs) (n_buff n)\<rparr>"
  assumes f: "fills n1 (pos + length bs) (remain - length bs) ok n' d"
  shows "fills n pos remain ok n' (bs @ d)"
proof -
  have lb: "length (n_buff n1) = length (n_buff n)" using b by (simp add: n1_def)
  have e: "n' = n1\<lparr>n_pvio := n_pvio n', n_buff := n_buff n', n_error := n_error n'\<rparr>" using f by (simp only: fills_def)
  have 1: "n' = n\<lparr>n_pvio := n_pvio n', n_buff := n_buff n', n_error := n_error n'\<rparr>" by (subst e) (simp add: n1_def)
  have 2: "take (pos + length bs) (n_buff n1) @ d @ drop (pos + length bs + (remain - length bs)) (n_buff n1)
      = take pos (n_buff n) @ (bs @ d) @ drop (pos + remain) (n_buff n)"
    using b by (simp add: n1_def add.commute)
  have 3: "lively pv \<and> remain - length bs \<le> length (pending pv)" if "lively (n_pvio n)" "remain \<le> length (pending (n_pvio n))"
    using l [OF that(1)] that(2) r b(3) by (cases "pending (n_pvio n) = []") auto
  have c: "pvio_ok (n_pvio n')" "length (n_buff n') = length (n_buff n1)" "pending pv = d @ pending (n_pvio n')" "\<not> ok \<longrightarrow> n_error n' = 2"
    and o: "ok \<Longrightarrow> length d = remain - length bs" "ok \<Longrightarrow> n_error n' = n_error n"
      "ok \<Longrightarrow> n_buff n' = take (pos + length bs) (n_buff n1) @ d @ drop (pos + length bs + (remain - length bs)) (n_buff n1)"
    and v: "lively pv \<Longrightarrow> remain - length bs \<le> length (pending pv) \<Longrightarrow> ok \<and> lively (n_pvio n')"
    using f by (simp_all only: fills_def) (simp_all add: n1_def)
  have v': "ok \<and> lively (n_pvio n')" if "lively (n_pvio n)" "remain \<le> length (pending (n_pvio n))"
    using 3 [OF that] v by blast
  have w: "pending (n_pvio n) = (bs @ d) @ pending (n_pvio n')" using b(3) c(3) by simp
  have x: "ok \<longrightarrow> length (bs @ d) = remain" using o(1) b(1) by simp
  show ?thesis
    unfolding fills_def using 1 c(1,4) c(2) [unfolded lb] w x o(2) o(3) [unfolded 2] v' by blast
qed

lemma fill_loop_spec:
  assumes "pvio_ok (n_pvio n)" "pos + remain \<le> length (n_buff n)"
  shows "\<exists>ok n' d. fill_loop n pos remain = Ok (ok, n') \<and> fills n pos remain ok n' d"
  using assms
proof (induction remain arbitrary: n pos rule: less_induct)
  case (less remain)
  show ?case
  proof (cases "remain = 0")
    case True
    then show ?thesis using less.prems
      by (intro exI [of _ True] exI [of _ n] exI [of _ "[]"]) (simp add: fill_loop.simps fills_def)
  next
    case False
    obtain r bs pv where c: "ma_pvio_cache_read (n_pvio n) remain = (r, bs, pv)" by (metis prod_cases3)
    have cs: "pvio_ok pv" "pending (n_pvio n) = bs @ pending pv" "length bs \<le> remain" "length bs = nat r"
        "lively (n_pvio n) \<Longrightarrow> bs @ pending pv \<noteq> [] \<Longrightarrow> 0 < r \<and> lively pv"
      using cache_read_spec [OF less.prems(1) _ c] False by auto
    show ?thesis
    proof (cases "r \<le> 0")
      case True
      then have "fill_loop n pos remain = Ok (False, n\<lparr>n_pvio := pv, n_error := 2\<rparr>)"
        using False by (subst fill_loop.simps) (simp add: c)
      moreover have "fills n pos remain False (n\<lparr>n_pvio := pv, n_error := 2\<rparr>) []"
        using cs True False by (cases "pending pv = []") (auto simp: fills_def)
      ultimately show ?thesis by blast
    next
      case r: False
      define n1 where "n1 = n\<lparr>n_pvio := pv, n_buff := take pos (n_buff n) @ bs @ drop (pos + length bs) (n_buff n)\<rparr>"
      have step: "fill_loop n pos remain = fill_loop n1 (pos + length bs) (remain - length bs)"
        using False r less.prems(2) cs(3,4) by (subst fill_loop.simps) (simp add: c store_bytes_def n1_def)
      have "remain - length bs < remain" "pvio_ok (n_pvio n1)" "pos + length bs + (remain - length bs) \<le> length (n_buff n1)"
        using cs r False less.prems(2) by (simp_all add: n1_def)
      from less.IH [OF this] obtain ok n' d where
        f: "fill_loop n1 (pos + length bs) (remain - length bs) = Ok (ok, n')" "fills n1 (pos + length bs) (remain - length bs) ok n' d"
        by blast
      have "fills n pos remain ok n' (bs @ d)"
        by (rule fills_step [OF cs(3) less.prems(2) cs(2) _ _ f(2) [unfolded n1_def]]) (use cs(2,5) False in auto)
      with step f(1) show ?thesis by auto
    qed
  qed
qed

text \<open>
  The buffer is as long as \<open>max_packet\<close> says, and has room for one more header when it is
  longer than a packet.
\<close>

definition sized :: "net \<Rightarrow> bool" where
  "sized n \<longleftrightarrow> NET_HEADER_SIZE \<le> length (n_buff n) \<and> n_max_packet n \<le> length (n_buff n) \<and> n_max_packet n < n_max_packet_size n + IO_SIZE
     \<and> (n_max_packet n + NET_HEADER_SIZE + COMP_HEADER_SIZE \<le> length (n_buff n) \<or> n_max_packet n \<le> MAX_PACKET_LENGTH)
     \<and> n_max_packet_size n \<le> 2 ^ 32 - 2 ^ 25"

definition grown :: "alloc_env \<Rightarrow> net \<Rightarrow> nat \<Rightarrow> bool \<times> net" where
  "grown E n h = (if n_max_packet n \<le> h then net_realloc E n h else (False, n))"

lemma round_up:
  fixes h k m :: nat
  assumes "0 < m" "(h + m - 1) div m * m = k"
  shows "h \<le> k \<and> k < h + m"
  using assms div_mult_mod_eq [of "h + m - 1" m] mod_less_divisor [of m "h + m - 1"] by linarith

lemma grown_spec:
  assumes s: "sized n" and g: "grown E n h = (failed, n')"
  shows "sized n'"
    and "n' = n\<lparr>n_buff := n_buff n', n_write_pos := n_write_pos n', n_max_packet := n_max_packet n', n_error := n_error n',
      n_last_errno := n_last_errno n'\<rparr>"
    and "k \<le> h \<Longrightarrow> k \<le> length (n_buff n) \<Longrightarrow> take k (n_buff n') = take k (n_buff n)"
    and "\<not> failed \<Longrightarrow> h < length (n_buff n') \<and> (MAX_PACKET_LENGTH \<le> h \<longrightarrow> h + 4 \<le> length (n_buff n')) \<and> h < n_max_packet_size n + IO_SIZE"
    and "(\<forall>k. alloc_ok E k) \<Longrightarrow> h < n_max_packet_size n \<Longrightarrow> \<not> failed"
    and "\<not> failed \<Longrightarrow> n_error n' = n_error n"
proof -
  define p where "p = (h + IO_SIZE - 1) div IO_SIZE * IO_SIZE"
  have p: "h \<le> p" "p < h + IO_SIZE" using round_up [OF _ p_def [symmetric]] by (simp_all add: IO_SIZE_def)
  have re: "net_realloc E n h = (if n_max_packet_size n \<le> h then (True, n\<lparr>n_error := 1, n_last_errno := ER_NET_PACKET_TOO_LARGE\<rparr>)
      else if alloc_ok E (p + 7) then (False, n\<lparr>n_buff := take (p + 7) (n_buff n) @ map (junk E) [length (n_buff n)..<p + 7],
        n_write_pos := 0, n_max_packet := p mod 2 ^ 32\<rparr>) else (True, n\<lparr>n_error := 1\<rparr>))"
    unfolding net_realloc_def Let_def p_def [symmetric] realloc_def by (simp add: NET_HEADER_SIZE_def COMP_HEADER_SIZE_def add.commute)
  consider (fits) "h < n_max_packet n" "n' = n" "\<not> failed"
    | (big) "n_max_packet_size n \<le> h" "failed" "n' = n\<lparr>n_error := 1, n_last_errno := ER_NET_PACKET_TOO_LARGE\<rparr>"
    | (nomem) "\<not> alloc_ok E (p + 7)" "failed" "n' = n\<lparr>n_error := 1\<rparr>"
    | (new) "h < n_max_packet_size n" "n_max_packet n \<le> h" "\<not> failed"
        "n' = n\<lparr>n_buff := take (p + 7) (n_buff n) @ map (junk E) [length (n_buff n)..<p + 7], n_write_pos := 0, n_max_packet := p mod 2 ^ 32\<rparr>"
    using g unfolding grown_def re by (metis (no_types, lifting) not_le prod.inject)
  note cases = this
  have big: "p < 2 ^ 32" if "h < n_max_packet_size n" using that p s by (simp add: sized_def IO_SIZE_def)
  show "sized n'" using cases
  proof cases
    case new
    then have "length (n_buff n') = p + 7" "n_max_packet n' = p" using big by simp_all
    then show ?thesis using new s p by (simp add: sized_def NET_HEADER_SIZE_def COMP_HEADER_SIZE_def)
  qed (use s in \<open>simp_all add: sized_def\<close>)
  show "n' = n\<lparr>n_buff := n_buff n', n_write_pos := n_write_pos n', n_max_packet := n_max_packet n', n_error := n_error n',
      n_last_errno := n_last_errno n'\<rparr>"
    using cases by cases simp_all
  show "k \<le> h \<Longrightarrow> k \<le> length (n_buff n) \<Longrightarrow> take k (n_buff n') = take k (n_buff n)"
    using cases p by cases auto
  show "\<not> failed \<Longrightarrow> h < length (n_buff n') \<and> (MAX_PACKET_LENGTH \<le> h \<longrightarrow> h + 4 \<le> length (n_buff n')) \<and> h < n_max_packet_size n + IO_SIZE"
    using cases p s by cases (auto simp: sized_def NET_HEADER_SIZE_def COMP_HEADER_SIZE_def)
  show "(\<forall>k. alloc_ok E k) \<Longrightarrow> h < n_max_packet_size n \<Longrightarrow> \<not> failed"
    using cases by cases simp_all
  show "\<not> failed \<Longrightarrow> n_error n' = n_error n"
    using cases by cases simp_all
qed

text \<open>
  One physical packet: the bytes \<open>d\<close> taken from the connection are a header and the data it
  announces, and the data is in the buffer from \<open>where_b\<close> on.
\<close>

definition read_kept :: "net \<Rightarrow> net \<Rightarrow> bool" where
  "read_kept n n' \<longleftrightarrow> pvio_ok (n_pvio n') \<and> sized n' \<and> n_compress n' = n_compress n \<and> n_where_b n' = n_where_b n
     \<and> n_max_packet_size n' = n_max_packet_size n \<and> n_multi n' = n_multi n"

definition got_packet :: "net \<Rightarrow> nat \<Rightarrow> net \<Rightarrow> bytes \<Rightarrow> bool" where
  "got_packet n len n' d \<longleftrightarrow> len \<le> MAX_PACKET_LENGTH \<and> length d = 4 + len \<and> le_val (take 3 d) = len
     \<and> n_pkt_nr n' = ucast (d ! 3) + 1 \<and> n_error n' = n_error n
     \<and> take (n_where_b n) (n_buff n') = take (n_where_b n) (n_buff n)
     \<and> take len (drop (n_where_b n) (n_buff n')) = drop 4 d
     \<and> n_where_b n + len < length (n_buff n')
     \<and> (len = MAX_PACKET_LENGTH \<longrightarrow> n_where_b n + len + 4 \<le> length (n_buff n') \<and> n_where_b n + len < n_max_packet_size n + IO_SIZE)"

definition read_ready :: "net \<Rightarrow> bool" where
  "read_ready n \<longleftrightarrow> pvio_ok (n_pvio n) \<and> sized n \<and> \<not> n_compress n
     \<and> n_where_b n + 4 \<le> length (n_buff n) \<and> n_where_b n + MAX_PACKET_LENGTH < 2 ^ 32"

text \<open>What must be on its way for a packet to be read.\<close>

definition announced :: "bytes \<Rightarrow> nat" where
  "announced p = le_val (take 3 p)"

lemma announced_le: "announced p \<le> MAX_PACKET_LENGTH"
  using le_val_bound [of "take 3 p"] power_increasing [of "length (take 3 p)" 3 "256 :: nat"]
  by (simp add: announced_def MAX_PACKET_LENGTH_def)

lemma realloc_where [simp]: "n_where_b (snd (net_realloc E n h)) = n_where_b n"
  by (simp add: net_realloc_def Let_def split: option.split)

lemma MAX_PACKET_LENGTH_pos [simp]: "0 < MAX_PACKET_LENGTH" "MAX_PACKET_LENGTH \<noteq> 0"
  by (simp_all add: MAX_PACKET_LENGTH_def)

lemma real_read_header:
  assumes r: "read_ready n"
  shows "\<exists>n1 h. (ma_real_read E n = Ok (packet_error, n1) \<and> read_kept n n1 \<and> pending (n_pvio n) = h @ pending (n_pvio n1)
         \<and> \<not> (lively (n_pvio n) \<and> 4 \<le> length (pending (n_pvio n))))
    \<or> (let n2 = n1\<lparr>n_pkt_nr := ucast (h ! 3) + 1, n_compress_pkt_nr := ucast (h ! 3) + 1\<rparr>; len = announced h
       in fills n (n_where_b n) 4 True n1 h
       \<and> ma_real_read E n = (if len = 0 then Ok (0, n2)
            else case grown E n2 (len + n_where_b n) of (failed, n3) \<Rightarrow>
              if failed then Ok (packet_error, n3)
              else rbind (fill_loop n3 (n_where_b n) len) (\<lambda>(ok, n4). Ok (if ok then len else packet_error, n4))))"
proof -
  have b: "n_where_b n + 4 \<le> length (n_buff n)" "pvio_ok (n_pvio n)" and c: "\<not> n_compress n" and w: "n_where_b n + MAX_PACKET_LENGTH < 2 ^ 32"
    using r by (simp_all add: read_ready_def)
  obtain ok n1 h where f: "fill_loop n (n_where_b n) 4 = Ok (ok, n1)" "fills n (n_where_b n) 4 ok n1 h"
    using fill_loop_spec [OF b(2,1)] by blast
  have k: "n1 = n\<lparr>n_pvio := n_pvio n1, n_buff := n_buff n1, n_error := n_error n1\<rparr>" using f(2) by (simp only: fills_def)
  have k': "n_where_b n1 = n_where_b n" "n_compress n1 = n_compress n" "n_max_packet n1 = n_max_packet n"
      "n_max_packet_size n1 = n_max_packet_size n" "n_multi n1 = n_multi n" by (subst k, simp)+
  show ?thesis
  proof (cases ok)
    case False
    then have "ma_real_read E n = Ok (packet_error, n1)" using f(1) c by (simp add: ma_real_read_def NET_HEADER_SIZE_def)
    moreover have "read_kept n n1" using f(2) r k' by (simp add: read_kept_def fills_def sized_def read_ready_def)
    moreover have "pending (n_pvio n) = h @ pending (n_pvio n1)" "\<not> (lively (n_pvio n) \<and> 4 \<le> length (pending (n_pvio n)))"
      using f(2) False unfolding fills_def by blast+
    ultimately show ?thesis by blast
  next
    case True
    then have h: "length h = 4" "n_buff n1 = take (n_where_b n) (n_buff n) @ h @ drop (n_where_b n + 4) (n_buff n)"
      using f(2) by (simp_all add: fills_def)
    have l: "load1 (n_buff n1) (n_where_b n + 3) = (Ok (h ! 3) :: (unit, u8) res)"
      using h b by (simp add: load1_def nth_append)
    have t3: "take 3 h @ [h ! 3] = h" using h(1) by (simp add: take_Suc_conv_app_nth [symmetric] numeral_eq_Suc)
    have "le_val h = le_val (take 3 h) + 256 ^ 3 * unat (h ! 3)"
      using le_val_append [of "take 3 h" "[h ! 3]"] h(1) t3 by simp
    then have a: "le_val h mod 0x1000000 = announced h"
      using announced_le [of h] by (simp add: announced_def MAX_PACKET_LENGTH_def)
    have u: "uint3korr (n_buff n1) (n_where_b n) = (Ok (announced h) :: (unit, nat) res)"
      using h b a by (simp add: uint3korr_def uintN_load_def load_bytes_def)
    have m: "(announced h + n_where_b n) mod 2 ^ 32 = announced h + n_where_b n"
      using w announced_le [of h] by simp
    show ?thesis
      using f True c by (intro exI [of _ n1] exI [of _ h] disjI2)
        (simp add: ma_real_read_def NET_HEADER_SIZE_def k' l u Let_def grown_def m [simplified] split_beta)
  qed
qed

lemma real_read_spec:
  assumes r: "read_ready n"
  shows "\<exists>len n' d. ma_real_read E n = Ok (len, n') \<and> read_kept n n' \<and> pending (n_pvio n) = d @ pending (n_pvio n')
    \<and> (len \<noteq> packet_error \<longrightarrow> got_packet n len n' d)
    \<and> (lively (n_pvio n) \<and> (\<forall>k. alloc_ok E k) \<and> 4 + announced (pending (n_pvio n)) \<le> length (pending (n_pvio n))
        \<and> announced (pending (n_pvio n)) + n_where_b n < n_max_packet_size n
       \<longrightarrow> len = announced (pending (n_pvio n)) \<and> lively (n_pvio n'))"
proof -
  let ?w = "n_where_b n"
  have b: "?w + 4 \<le> length (n_buff n)" "sized n" using r by (simp_all add: read_ready_def)
  from real_read_header [OF r, of E] consider
      (fail) n1 h where "ma_real_read E n = Ok (packet_error, n1)" "read_kept n n1" "pending (n_pvio n) = h @ pending (n_pvio n1)"
        "\<not> (lively (n_pvio n) \<and> 4 \<le> length (pending (n_pvio n)))"
    | (head) n1 h where "fills n ?w 4 True n1 h"
        "ma_real_read E n = (if announced h = 0 then Ok (0, n1\<lparr>n_pkt_nr := ucast (h ! 3) + 1, n_compress_pkt_nr := ucast (h ! 3) + 1\<rparr>)
            else case grown E (n1\<lparr>n_pkt_nr := ucast (h ! 3) + 1, n_compress_pkt_nr := ucast (h ! 3) + 1\<rparr>) (announced h + ?w) of (failed, n3) \<Rightarrow>
              if failed then Ok (packet_error, n3)
              else rbind (fill_loop n3 ?w (announced h)) (\<lambda>(ok, n4). Ok (if ok then announced h else packet_error, n4)))"
    by (metis (no_types, lifting))
  then show ?thesis
  proof cases
    case fail
    then show ?thesis by (intro exI [of _ packet_error] exI [of _ n1] exI [of _ h]) auto
  next
    case head
    define n2 where "n2 = n1\<lparr>n_pkt_nr := ucast (h ! 3) + 1, n_compress_pkt_nr := ucast (h ! 3) + 1\<rparr>"
    have f: "n1 = n\<lparr>n_pvio := n_pvio n1, n_buff := n_buff n1, n_error := n_error n1\<rparr>" "pvio_ok (n_pvio n1)"
        "length (n_buff n1) = length (n_buff n)" "pending (n_pvio n) = h @ pending (n_pvio n1)" "length h = 4" "n_error n1 = n_error n"
        "n_buff n1 = take ?w (n_buff n) @ h @ drop (?w + 4) (n_buff n)"
        "lively (n_pvio n) \<and> 4 \<le> length (pending (n_pvio n)) \<longrightarrow> lively (n_pvio n1)"
      using head(1) unfolding fills_def by blast+
    have k2: "n_pvio n2 = n_pvio n1" "n_buff n2 = n_buff n1" "n_where_b n2 = ?w" "n_compress n2 = n_compress n" "n_max_packet n2 = n_max_packet n"
        "n_max_packet_size n2 = n_max_packet_size n" "n_multi n2 = n_multi n" "n_error n2 = n_error n" "n_pkt_nr n2 = ucast (h ! 3) + 1"
      by (simp_all add: n2_def f(6)) (subst f(1), simp)+
    have s2: "sized n2" using b(2) f(3) by (simp add: sized_def k2)
    have ann: "announced (pending (n_pvio n)) = announced h" using f(4,5) by (simp add: announced_def)
    have h3: "le_val (take 3 h) = announced h" by (simp add: announced_def)
    show ?thesis
    proof (cases "announced h = 0")
      case True
      have "got_packet n 0 n2 h" using f k2 b True by (simp add: got_packet_def h3 MAX_PACKET_LENGTH_def)
      moreover have "read_kept n n2" using f(2) s2 k2 by (simp add: read_kept_def)
      ultimately show ?thesis using head(2) True f(4,8) ann k2
        by (intro exI [of _ 0] exI [of _ n2] exI [of _ h]) (simp add: n2_def [symmetric])
    next
      case False
      let ?L = "announced h"
      obtain failed n3 where g: "grown E n2 (?L + ?w) = (failed, n3)" by (metis surj_pair)
      note gs = grown_spec [OF s2 g]
      have k3: "n_pvio n3 = n_pvio n1" "n_where_b n3 = ?w" "n_compress n3 = n_compress n" "n_max_packet_size n3 = n_max_packet_size n"
          "n_multi n3 = n_multi n" "n_pkt_nr n3 = ucast (h ! 3) + 1"
        by (subst gs(2), simp add: k2)+
      have rr: "ma_real_read E n = (if failed then Ok (packet_error, n3)
          else rbind (fill_loop n3 ?w ?L) (\<lambda>(ok, n4). Ok (if ok then ?L else packet_error, n4)))"
        using head(2) False g by (simp add: n2_def [symmetric])
      show ?thesis
      proof (cases failed)
        case True
        have "read_kept n n3" using f(2) gs(1) k3 by (simp add: read_kept_def)
        moreover have "\<not> (\<forall>k. alloc_ok E k) \<or> \<not> ?L + ?w < n_max_packet_size n" using gs(5) True k2 by auto
        ultimately show ?thesis using rr True f(4) k3 ann
          by (intro exI [of _ packet_error] exI [of _ n3] exI [of _ h]) auto
      next
        case alloc: False
        have room: "?w + ?L < length (n_buff n3)" "?L = MAX_PACKET_LENGTH \<longrightarrow> ?w + MAX_PACKET_LENGTH + 4 \<le> length (n_buff n3)"
            "?w + ?L < n_max_packet_size n + IO_SIZE"
          using gs(4) [OF alloc] k2 by (auto simp: add.commute)
        have "pvio_ok (n_pvio n3)" "?w + ?L \<le> length (n_buff n3)" using f(2) k3 room by simp_all
        from fill_loop_spec [OF this] obtain ok n4 d where fl: "fill_loop n3 ?w ?L = Ok (ok, n4)" "fills n3 ?w ?L ok n4 d" by blast
        have k4: "n4 = n3\<lparr>n_pvio := n_pvio n4, n_buff := n_buff n4, n_error := n_error n4\<rparr>" using fl(2) unfolding fills_def by blast
        have k5: "n_where_b n4 = ?w" "n_compress n4 = n_compress n" "n_max_packet n4 = n_max_packet n3"
            "n_max_packet_size n4 = n_max_packet_size n" "n_multi n4 = n_multi n" "n_pkt_nr n4 = ucast (h ! 3) + 1"
          by (subst k4, simp add: k3)+
        have d: "pvio_ok (n_pvio n4)" "length (n_buff n4) = length (n_buff n3)" "pending (n_pvio n1) = d @ pending (n_pvio n4)"
            "ok \<longrightarrow> length d = ?L \<and> n_error n4 = n_error n3 \<and> n_buff n4 = take ?w (n_buff n3) @ d @ drop (?w + ?L) (n_buff n3)"
            "lively (n_pvio n1) \<and> ?L \<le> length (pending (n_pvio n1)) \<longrightarrow> ok \<and> lively (n_pvio n4)"
          using fl(2) unfolding fills_def k3 by blast+
        have kept: "read_kept n n4" using gs(1) d(1,2) k3 k5 by (simp add: read_kept_def sized_def)
        have p: "pending (n_pvio n) = (h @ d) @ pending (n_pvio n4)" using f(4) d(3) by simp
        have tw: "take ?w (n_buff n3) = take ?w (n_buff n)" using gs(3) [of ?w] b(1) f(3,7) k2(2) by simp
        have "got_packet n ?L n4 (h @ d)" if ok
          using that d(2,4) f(5) k5 room gs(6) [OF alloc] k2(8) tw announced_le [of h]
          by (simp add: got_packet_def nth_append h3)
        moreover have "lively (n_pvio n) \<and> 4 + ?L \<le> length (pending (n_pvio n)) \<longrightarrow> ok \<and> lively (n_pvio n4)"
          using d(5) f(4,5,8) by auto
        ultimately show ?thesis using rr alloc fl(1) kept p ann
          by (intro exI [of _ "if ok then ?L else packet_error"] exI [of _ n4] exI [of _ "h @ d"]) auto
      qed
    qed
  qed
qed

text \<open>Every call that returns data uses up some of what is left to read, so reading terminates.\<close>

definition unread :: "net \<Rightarrow> nat" where
  "unread n = (pv_cache_size (n_pvio n) - pv_cache_pos (n_pvio n)) + length (w_in (pv_wire (n_pvio n)))"

lemma cache_read_unread:
  assumes "ma_pvio_cache_read pv len = (r, bs, pv')" "0 < len"
  shows "unread (n\<lparr>n_pvio := pv'\<rparr>) \<le> unread (n\<lparr>n_pvio := pv\<rparr>)"
    "0 < r \<Longrightarrow> unread (n\<lparr>n_pvio := pv'\<rparr>) < unread (n\<lparr>n_pvio := pv\<rparr>)"
proof -
  have d: "length (w_in (pv_wire p)) = nat r1 + length (w_in (pv_wire p'))" "pv_cache_size p' = pv_cache_size p" "pv_cache_pos p' = pv_cache_pos p"
    if "ma_pvio_read p k = (r1, b1, p')" for p k r1 b1 p'
    using pvio_read_spec(2,3,4,6) [OF that] by (metis length_append)+
  show "unread (n\<lparr>n_pvio := pv'\<rparr>) \<le> unread (n\<lparr>n_pvio := pv\<rparr>)"
    "0 < r \<Longrightarrow> unread (n\<lparr>n_pvio := pv'\<rparr>) < unread (n\<lparr>n_pvio := pv\<rparr>)"
    using assms d [of pv len] d [of pv PVIO_READ_AHEAD_CACHE_SIZE]
    by (auto simp: ma_pvio_cache_read_def unread_def Let_def split: option.splits if_splits prod.splits)
qed

lemma fill_loop_unread:
  "fill_loop n pos remain = Ok (ok, n') \<Longrightarrow> unread n' \<le> unread n \<and> (ok \<and> 0 < remain \<longrightarrow> unread n' < unread n)"
proof (induction n pos remain rule: fill_loop.induct)
  case (1 n pos remain)
  show ?case
  proof (cases "remain = 0")
    case True
    with "1.prems" show ?thesis by (simp add: fill_loop.simps)
  next
    case False
    obtain r bs pv where c: "ma_pvio_cache_read (n_pvio n) remain = (r, bs, pv)" by (metis prod_cases3)
    note u = cache_read_unread [OF c, of n]
    show ?thesis
    proof (cases "r \<le> 0")
      case True
      with "1.prems" False have "\<not> ok" "n' = n\<lparr>n_pvio := pv, n_error := 2\<rparr>" by (simp_all add: fill_loop.simps [of n] c)
      with u False show ?thesis by (simp add: unread_def)
    next
      case r: False
      then obtain b where b: "store_bytes (n_buff n) pos bs = (Ok b :: (unit, bytes) res)"
        and f: "fill_loop (n\<lparr>n_pvio := pv, n_buff := b\<rparr>) (pos + nat r) (remain - nat r) = Ok (ok, n')"
        using "1.prems" False by (auto simp: fill_loop.simps [of n] c res_simps)
      have "unread n' \<le> unread (n\<lparr>n_pvio := pv, n_buff := b\<rparr>)"
        using "1.IH" [OF False c [symmetric] refl refl refl r, of b] f b by (simp add: c)
      with u False r show ?thesis by (simp add: unread_def)
    qed
  qed
qed

lemma realloc_unread: "unread (snd (net_realloc E n h)) = unread n"
  by (simp add: unread_def net_realloc_def Let_def split: option.split)

lemma real_read_unread:
  assumes r: "ma_real_read E n = Ok (len, n')" "len \<noteq> packet_error"
  shows "unread n' < unread n"
proof -
  let ?k = "if n_compress n then NET_HEADER_SIZE + COMP_HEADER_SIZE else NET_HEADER_SIZE"
  obtain ok n1 where f: "fill_loop n (n_where_b n) ?k = Ok (ok, n1)"
    using r(1) by (auto simp: ma_real_read_def res_simps)
  have ok using r f by (cases ok) (simp_all add: ma_real_read_def)
  obtain nr :: u8 and L where L: "load1 (n_buff n1) (n_where_b n1 + 3) = (Ok nr :: (unit, u8) res)"
      "uint3korr (n_buff n1) (n_where_b n1) = (Ok L :: (unit, nat) res)"
    using r(1) f \<open>ok\<close> by (auto simp: ma_real_read_def res_simps Let_def)
  define n2 where "n2 = n1\<lparr>n_pkt_nr := ucast nr + 1, n_compress_pkt_nr := ucast nr + 1\<rparr>"
  have u2: "unread n2 = unread n1" by (simp add: n2_def unread_def)
  have k2: "n_where_b n2 = n_where_b n1" "n_max_packet n2 = n_max_packet n1" by (simp_all add: n2_def)
  obtain failed n3 where g: "(if n_max_packet n1 \<le> (L + n_where_b n1) mod 2 ^ 32 then net_realloc E n2 ((L + n_where_b n1) mod 2 ^ 32)
      else (False, n2)) = (failed, n3)" by (metis surj_pair)
  have u3: "unread n3 = unread n2" using g realloc_unread [of E n2] by (metis snd_conv)
  have w3: "n_where_b n3 = n_where_b n1" using g realloc_where [of E n2] k2 by (metis snd_conv)
  have rr: "ma_real_read E n = (if L = 0 then Ok (0, n2) else if failed then Ok (packet_error, n3)
      else rbind (fill_loop n3 (n_where_b n3) L) (\<lambda>(ok, n4). Ok (if ok then L else packet_error, n4)))"
    using f \<open>ok\<close> L g unfolding ma_real_read_def by (auto simp: Let_def n2_def [symmetric] k2 w3 split: if_splits)
  have "unread n' \<le> unread n1"
  proof (cases "L = 0 \<or> failed")
    case True
    then show ?thesis using r rr u2 by (auto split: if_splits)
  next
    case False
    then obtain ok4 where "fill_loop n3 (n_where_b n3) L = Ok (ok4, n')" using r(1) rr by (auto simp: res_simps)
    from fill_loop_unread [OF this] show ?thesis using u2 u3 by simp
  qed
  moreover have "unread n1 < unread n" using fill_loop_unread [OF f] \<open>ok\<close> by (simp add: NET_HEADER_SIZE_def split: if_splits)
  ultimately show ?thesis by simp
qed

section \<open>Logical packets\<close>

text \<open>
  The loop of \<open>ma_net_read\<close> over the packets of maximal length: \<open>len\<close> is the length of the
  last one, \<open>acc\<close> the sum of those before.
\<close>

function more_packets :: "alloc_env \<Rightarrow> net \<Rightarrow> nat \<Rightarrow> nat \<Rightarrow> (unit, nat \<times> nat \<times> net) res" where
  "more_packets E n len acc =
     (if len = MAX_PACKET_LENGTH then
        rbind (ma_real_read E (n\<lparr>n_where_b := (n_where_b n + len) mod 2 ^ 32\<rparr>))
          (\<lambda>(len1, n1). more_packets E n1 len1 (acc + len))
      else Ok (len, acc, n))"
  by pat_completeness auto
termination
proof (relation "measure (\<lambda>(E, n, len, acc). if len = MAX_PACKET_LENGTH then Suc (unread n) else 0)")
  show "wf (measure (\<lambda>(E, n, len, acc). if len = MAX_PACKET_LENGTH then Suc (unread n) else 0))" by simp
next
  fix E :: alloc_env and n :: net and len acc :: nat and a x y
  assume a: "len = MAX_PACKET_LENGTH" "ma_real_read E (n\<lparr>n_where_b := (n_where_b n + len) mod 2 ^ 32\<rparr>) = Ok a" "(x, y) = a"
  then show "((E, y, x, acc + len), E, n, len, acc) \<in> measure (\<lambda>(E, n, len, acc). if len = MAX_PACKET_LENGTH then Suc (unread n) else 0)"
    using real_read_unread [of E "n\<lparr>n_where_b := (n_where_b n + len) mod 2 ^ 32\<rparr>" x y]
    by (auto simp: unread_def packet_error_def MAX_PACKET_LENGTH_def)
qed

declare more_packets.simps [simp del]

definition ma_net_read :: "alloc_env \<Rightarrow> net \<Rightarrow> (unit, nat \<times> net) res" where
  "ma_net_read E n =
     rbind (ma_real_read E n) (\<lambda>(len, n1).
       let last_pos = n_where_b n1
       in rbind (more_packets E n1 len 0) (\<lambda>(len2, acc, n2).
            let n3 = n2\<lparr>n_where_b := last_pos, n_read_pos := last_pos\<rparr>;
                len3 = (if len2 \<noteq> packet_error then len2 + acc else len2)
            in if len3 \<noteq> packet_error
               then rmap (\<lambda>b. (len3 mod 2 ^ 32, n3\<lparr>n_buff := b\<rparr>)) (store1 (n_buff n3) (n_read_pos n3 + len3) 0)
               else Ok (len3 mod 2 ^ 32, n3)))"

text \<open>Between two packets: what is known of the buffer after a packet of length \<open>len\<close>.\<close>

definition mid :: "net \<Rightarrow> nat \<Rightarrow> bool" where
  "mid n len \<longleftrightarrow> pvio_ok (n_pvio n) \<and> sized n \<and> \<not> n_compress n \<and> (len \<noteq> packet_error \<longrightarrow> n_where_b n + len < length (n_buff n) \<and> n_where_b n + len < 2 ^ 32)
     \<and> (len = MAX_PACKET_LENGTH \<longrightarrow> n_where_b n + len + 4 \<le> length (n_buff n) \<and> n_where_b n + len < n_max_packet_size n + IO_SIZE)"

lemma packet_error_MAX: "packet_error \<noteq> MAX_PACKET_LENGTH" "MAX_PACKET_LENGTH \<noteq> packet_error"
  by (simp_all add: packet_error_def MAX_PACKET_LENGTH_def)

lemma mid_next:
  assumes "mid n MAX_PACKET_LENGTH"
  shows "(n_where_b n + MAX_PACKET_LENGTH) mod 2 ^ 32 = n_where_b n + MAX_PACKET_LENGTH"
    and "read_ready (n\<lparr>n_where_b := n_where_b n + MAX_PACKET_LENGTH\<rparr>)"
proof -
  have "n_where_b n + MAX_PACKET_LENGTH + MAX_PACKET_LENGTH < 2 ^ 32"
    using assms by (simp add: mid_def sized_def IO_SIZE_def MAX_PACKET_LENGTH_def)
  then show "(n_where_b n + MAX_PACKET_LENGTH) mod 2 ^ 32 = n_where_b n + MAX_PACKET_LENGTH"
      "read_ready (n\<lparr>n_where_b := n_where_b n + MAX_PACKET_LENGTH\<rparr>)"
    using assms by (simp_all add: mid_def read_ready_def sized_def)
qed

lemma got_mid:
  assumes "read_ready n" "read_kept n n'" "len \<noteq> packet_error \<longrightarrow> got_packet n len n' d"
  shows "mid n' len"
proof -
  have k: "pvio_ok (n_pvio n')" "sized n'" "\<not> n_compress n'" "n_where_b n' = n_where_b n" "n_max_packet_size n' = n_max_packet_size n"
      and w: "n_where_b n + MAX_PACKET_LENGTH < 2 ^ 32"
    using assms(1,2) by (simp_all add: read_kept_def read_ready_def)
  show ?thesis
  proof (cases "len = packet_error")
    case True
    then show ?thesis using k by (simp add: mid_def packet_error_MAX)
  next
    case False
    then have g: "got_packet n len n' d" using assms(3) by simp
    then have "n_where_b n + len < 2 ^ 32" using w by (simp add: got_packet_def)
    then show ?thesis using g k by (simp add: mid_def got_packet_def)
  qed
qed

lemma more_packets_safe:
  assumes "mid n len"
  shows "\<exists>len2 acc2 n2. more_packets E n len acc = Ok (len2, acc2, n2) \<and> mid n2 len2
    \<and> n_max_packet_size n2 = n_max_packet_size n
    \<and> (len2 \<noteq> packet_error \<longrightarrow> acc2 + n_where_b n = n_where_b n2 + acc)"
  using assms
proof (induction E n len acc rule: more_packets.induct)
  case (1 E n len acc)
  show ?case
  proof (cases "len = MAX_PACKET_LENGTH")
    case True
    let ?n = "n\<lparr>n_where_b := n_where_b n + MAX_PACKET_LENGTH\<rparr>"
    note nx = mid_next [OF "1.prems" [unfolded True]]
    obtain len1 n1 d where r: "ma_real_read E ?n = Ok (len1, n1)" "read_kept ?n n1" "len1 \<noteq> packet_error \<longrightarrow> got_packet ?n len1 n1 d"
      using real_read_spec [OF nx(2), of E] by blast
    have m: "mid n1 len1" by (rule got_mid [OF nx(2) r(2,3)])
    have s: "more_packets E n len acc = more_packets E n1 len1 (acc + len)"
      by (subst more_packets.simps) (simp add: True nx(1) [simplified] r(1))
    obtain len2 acc2 n2 where t: "more_packets E n1 len1 (acc + len) = Ok (len2, acc2, n2)" "mid n2 len2"
        "n_max_packet_size n2 = n_max_packet_size n1" "len2 \<noteq> packet_error \<longrightarrow> acc2 + n_where_b n1 = n_where_b n2 + (acc + len)"
      using "1.IH" [OF True, of "(len1, n1)" len1 n1] m r(1) nx(1) True by auto
    then show ?thesis using s r(2) True by (auto simp: read_kept_def)
  next
    case False
    then show ?thesis using "1.prems" by (simp add: more_packets.simps)
  qed
qed

definition net_ok :: "net \<Rightarrow> bool" where
  "net_ok n \<longleftrightarrow> read_ready n \<and> n_where_b n = 0"

text \<open>
  Whatever bytes arrive, and whichever allocations and reads fail: reading a packet stays
  inside the buffer and leaves the connection ready for the next one.
\<close>

lemma net_read_ready:
  assumes "net_ok n"
  shows "\<exists>len n'. ma_net_read E n = Ok (len, n') \<and> net_ok n' \<and> (len \<noteq> packet_error \<longrightarrow> n_read_pos n' + len < length (n_buff n') \<and> n_buff n' ! (n_read_pos n' + len) = 0)"
proof -
  have r: "read_ready n" and w: "n_where_b n = 0" using assms by (simp_all add: net_ok_def)
  obtain len n1 d where a: "ma_real_read E n = Ok (len, n1)" "read_kept n n1" "len \<noteq> packet_error \<longrightarrow> got_packet n len n1 d"
    using real_read_spec [OF r, of E] by blast
  have w1: "n_where_b n1 = 0" using a(2) w by (simp add: read_kept_def)
  obtain len2 acc2 n2 where b: "more_packets E n1 len 0 = Ok (len2, acc2, n2)" "mid n2 len2"
      "len2 \<noteq> packet_error \<longrightarrow> acc2 = n_where_b n2"
    using more_packets_safe [OF got_mid [OF r a(2,3)], of E 0] w1 by auto
  define n3 where "n3 = n2\<lparr>n_where_b := 0, n_read_pos := 0\<rparr>"
  define len3 where "len3 = (if len2 \<noteq> packet_error then len2 + acc2 else len2)"
  have eq: "ma_net_read E n = (if len3 \<noteq> packet_error then rmap (\<lambda>b. (len3 mod 2 ^ 32, n3\<lparr>n_buff := b\<rparr>)) (store1 (n_buff n3) len3 0)
      else Ok (len3 mod 2 ^ 32, n3))"
    by (simp add: ma_net_read_def a(1) b(1) Let_def w1 n3_def len3_def)
  have m: "pvio_ok (n_pvio n3)" "sized n3" "\<not> n_compress n3" "n_where_b n3 = 0" "n_read_pos n3 = 0" "length (n_buff n3) = length (n_buff n2)"
    using b(2) by (simp_all add: mid_def n3_def sized_def)
  have four: "4 \<le> length (n_buff n2)" using m(2,6) by (simp add: sized_def NET_HEADER_SIZE_def)
  show ?thesis
  proof (cases "len3 = packet_error")
    case True
    then show ?thesis using eq m four by (simp add: net_ok_def read_ready_def packet_error_def MAX_PACKET_LENGTH_def)
  next
    case False
    then have "len3 < length (n_buff n3)" "len3 < 2 ^ 32" using b m(6) by (auto simp: len3_def mid_def split: if_splits)
    then show ?thesis using eq m four False
      by (simp add: net_ok_def read_ready_def store1_def MAX_PACKET_LENGTH_def sized_def)
  qed
qed

section \<open>The size of the buffer\<close>

text \<open>
  A buffer of at least 16 bytes stays one: reading only ever replaces it by a longer one.
  \<open>ma_net_init\<close> allocates \<open>net_buffer_length\<close> bytes, 8192 unless an option changes it.
\<close>

definition roomy :: "net \<Rightarrow> bool" where
  "roomy n \<longleftrightarrow> 16 \<le> n_max_packet n \<and> 16 \<le> length (n_buff n) \<and> n_max_packet_size n \<le> 2 ^ 32 - 2 ^ 25"

lemma roomy_update [simp]:
  "roomy (n\<lparr>n_pvio := pv\<rparr>) = roomy n" "roomy (n\<lparr>n_error := e\<rparr>) = roomy n"
  "roomy (n\<lparr>n_pkt_nr := k\<rparr>) = roomy n" "roomy (n\<lparr>n_compress_pkt_nr := k\<rparr>) = roomy n"
  "roomy (n\<lparr>n_where_b := w\<rparr>) = roomy n" "roomy (n\<lparr>n_read_pos := w\<rparr>) = roomy n"
  "length b = length (n_buff n) \<Longrightarrow> roomy (n\<lparr>n_buff := b\<rparr>) = roomy n"
  by (simp_all add: roomy_def)

lemma fill_loop_roomy: "fill_loop n pos remain = Ok (ok, n') \<Longrightarrow> roomy n' = roomy n \<and> n_where_b n' = n_where_b n"
proof (induction n pos remain rule: fill_loop.induct)
  case (1 n pos remain)
  obtain r bs pv where c: "ma_pvio_cache_read (n_pvio n) remain = (r, bs, pv)" by (metis prod_cases3)
  show ?case
  proof (cases "remain = 0 \<or> r \<le> 0")
    case True
    then have "n' = n \<or> n' = n\<lparr>n_pvio := pv, n_error := 2\<rparr>"
      using "1.prems" by (subst (asm) fill_loop.simps) (auto simp: c split: if_splits)
    then show ?thesis by auto
  next
    case False
    then obtain b where b: "store_bytes (n_buff n) pos bs = (Ok b :: (unit, bytes) res)"
      and f: "fill_loop (n\<lparr>n_pvio := pv, n_buff := b\<rparr>) (pos + nat r) (remain - nat r) = Ok (ok, n')"
      using "1.prems" by (auto simp: fill_loop.simps [of n] c res_simps)
    have "roomy n' = roomy (n\<lparr>n_pvio := pv, n_buff := b\<rparr>) \<and> n_where_b n' = n_where_b n"
      using "1.IH" [OF _ c [symmetric] refl refl refl, of b] False f b by (simp add: c)
    then show ?thesis using store_bytes_length [OF b] by simp
  qed
qed

lemma realloc_roomy:
  assumes "roomy n" "n_max_packet n \<le> h"
  shows "roomy (snd (net_realloc E n h))"
proof -
  define p where "p = (h + IO_SIZE - 1) div IO_SIZE * IO_SIZE"
  have p: "h \<le> p" "p < h + IO_SIZE" using round_up [OF _ p_def [symmetric]] by (simp_all add: IO_SIZE_def)
  have "p mod 2 ^ 32 = p" if "h < n_max_packet_size n"
    using that assms p by (simp add: roomy_def IO_SIZE_def)
  then show ?thesis
    using assms p unfolding net_realloc_def Let_def p_def [symmetric] realloc_def
    by (auto simp: roomy_def NET_HEADER_SIZE_def COMP_HEADER_SIZE_def)
qed

lemma real_read_roomy:
  assumes r: "ma_real_read E n = Ok (len, n')" "roomy n"
  shows "roomy n' \<and> n_where_b n' = n_where_b n"
proof -
  let ?k = "if n_compress n then NET_HEADER_SIZE + COMP_HEADER_SIZE else NET_HEADER_SIZE"
  obtain ok n1 where f: "fill_loop n (n_where_b n) ?k = Ok (ok, n1)"
    using r(1) by (auto simp: ma_real_read_def res_simps)
  note r1 = fill_loop_roomy [OF f]
  show ?thesis
  proof (cases ok)
    case False
    then show ?thesis using r f r1 by (simp add: ma_real_read_def)
  next
    case True
    obtain nr :: u8 and L where L: "load1 (n_buff n1) (n_where_b n1 + 3) = (Ok nr :: (unit, u8) res)"
        "uint3korr (n_buff n1) (n_where_b n1) = (Ok L :: (unit, nat) res)"
      using r(1) f True by (auto simp: ma_real_read_def res_simps Let_def)
    define n2 where "n2 = n1\<lparr>n_pkt_nr := ucast nr + 1, n_compress_pkt_nr := ucast nr + 1\<rparr>"
    let ?h = "(L + n_where_b n1) mod 2 ^ 32"
    have r2: "roomy n2" "n_where_b n2 = n_where_b n" "n_max_packet n2 = n_max_packet n1" using r1 r(2) by (simp_all add: n2_def)
    obtain failed n3 where g: "(if n_max_packet n1 \<le> ?h then net_realloc E n2 ?h else (False, n2)) = (failed, n3)"
      by (metis surj_pair)
    have r3: "roomy n3" "n_where_b n3 = n_where_b n"
      using g r2 realloc_roomy [of n2 ?h E] realloc_where [of E n2 ?h] by (metis snd_conv)+
    have rr: "ma_real_read E n = (if L = 0 then Ok (0, n2) else if failed then Ok (packet_error, n3)
        else rbind (fill_loop n3 (n_where_b n3) L) (\<lambda>(ok, n4). Ok (if ok then L else packet_error, n4)))"
      using f True L g r1 r2(2) r3(2) unfolding ma_real_read_def by (auto simp: Let_def n2_def [symmetric] r2(3) split: if_splits)
    show ?thesis
    proof (cases "L = 0 \<or> failed")
      case True
      then show ?thesis using r(1) rr r2 r3 by (auto split: if_splits)
    next
      case False
      then obtain ok4 where "fill_loop n3 (n_where_b n3) L = Ok (ok4, n')" using r(1) rr by (auto simp: res_simps)
      from fill_loop_roomy [OF this] show ?thesis using r3 by simp
    qed
  qed
qed

lemma more_packets_roomy: "more_packets E n len acc = Ok (len2, acc2, n2) \<Longrightarrow> roomy n \<Longrightarrow> roomy n2"
proof (induction E n len acc rule: more_packets.induct)
  case (1 E n len acc)
  show ?case
  proof (cases "len = MAX_PACKET_LENGTH")
    case False
    then show ?thesis using "1.prems" by (simp add: more_packets.simps)
  next
    case True
    let ?n = "n\<lparr>n_where_b := (n_where_b n + len) mod 2 ^ 32\<rparr>"
    obtain len1 n1 where r: "ma_real_read E ?n = Ok (len1, n1)" "more_packets E n1 len1 (acc + len) = Ok (len2, acc2, n2)"
      using "1.prems"(1) True by (subst (asm) more_packets.simps) (auto simp: res_simps)
    have "roomy ?n" using "1.prems"(2) by simp
    then show ?thesis using "1.IH" [OF True r(1) refl r(2)] real_read_roomy [OF r(1)] by simp
  qed
qed

lemma net_read_roomy:
  assumes "ma_net_read E n = Ok (len, n')" "roomy n"
  shows "roomy n' \<and> n_read_pos n' = n_where_b n"
proof -
  obtain len1 n1 where r: "ma_real_read E n = Ok (len1, n1)" using assms(1) by (auto simp: ma_net_read_def res_simps)
  obtain len2 acc2 n2 where m: "more_packets E n1 len1 0 = Ok (len2, acc2, n2)"
    using assms(1) r by (auto simp: ma_net_read_def res_simps Let_def)
  have "roomy n2" "n_where_b n1 = n_where_b n"
    using real_read_roomy [OF r assms(2)] more_packets_roomy [OF m] by simp_all
  then show ?thesis
    using assms(1) r m by (auto simp: ma_net_read_def Let_def rmap_eq_Ok store1_def split: if_splits)
qed

lemma init_roomy:
  "ma_net_init E bl ma n pv = (False, n') \<Longrightarrow> 16 \<le> bl \<Longrightarrow> max bl ma \<le> 2 ^ 32 - 2 ^ 25 \<Longrightarrow> roomy n'"
  by (auto simp: ma_net_init_def roomy_def split: option.splits)

section \<open>The format on the wire\<close>

text \<open>
  A message is cut into packets of \<open>MAX_PACKET_LENGTH\<close> bytes and one shorter packet, which
  may be empty; each has a header with its length and its number.
\<close>

function packets :: "u32 \<Rightarrow> bytes \<Rightarrow> bytes" where
  "packets nr data =
     (if MAX_PACKET_LENGTH \<le> length data
      then header MAX_PACKET_LENGTH nr @ take MAX_PACKET_LENGTH data @ packets (nr + 1) (drop MAX_PACKET_LENGTH data)
      else header (length data) nr @ data)"
  by pat_completeness auto
termination
  by (relation "measure (\<lambda>(nr, data). length data)") (auto simp: MAX_PACKET_LENGTH_def)

declare packets.simps [simp del]

lemma length_header [simp]: "length (header len nr) = 4"
  by (simp add: header_def)

lemma announced_header: "len \<le> MAX_PACKET_LENGTH \<Longrightarrow> announced (header len nr @ bs) = len"
  by (simp add: announced_def header_def le_val_bytes MAX_PACKET_LENGTH_def)

lemma packets_parts:
  obtains (last) "length data < MAX_PACKET_LENGTH" "packets nr data = header (length data) nr @ data"
  | (more) "MAX_PACKET_LENGTH \<le> length data"
      "packets nr data = header MAX_PACKET_LENGTH nr @ take MAX_PACKET_LENGTH data @ packets (nr + 1) (drop MAX_PACKET_LENGTH data)"
  by (cases "MAX_PACKET_LENGTH \<le> length data") (simp_all add: packets.simps [of nr data])

text \<open>One packet of a connection that delivers it.\<close>

lemma real_read_packet:
  assumes r: "read_ready n" and l: "lively (n_pvio n)" "\<forall>k. alloc_ok E k"
    and p: "pending (n_pvio n) = header len nr @ data @ rest" "length data = len" "len \<le> MAX_PACKET_LENGTH" "n_where_b n + len < n_max_packet_size n"
  obtains n' where "ma_real_read E n = Ok (len, n')" "read_kept n n'" "lively (n_pvio n')" "pending (n_pvio n') = rest"
    "got_packet n len n' (header len nr @ data)"
proof -
  have a: "announced (pending (n_pvio n)) = len" using p(1,3) by (simp add: announced_header)
  have e: "len \<noteq> packet_error" using p(3) by (auto simp: packet_error_def MAX_PACKET_LENGTH_def)
  obtain n' d where n': "ma_real_read E n = Ok (len, n')" "read_kept n n'" "pending (n_pvio n) = d @ pending (n_pvio n')"
      "got_packet n len n' d" "lively (n_pvio n')"
    using real_read_spec [OF r, of E] l a e p by (auto simp: add.commute)
  have "length d = 4 + len" using n'(4) by (simp add: got_packet_def)
  then have "d = header len nr @ data \<and> pending (n_pvio n') = rest"
    using n'(3) p(1,2) append_eq_append_conv [of d "header len nr @ data" "pending (n_pvio n')" rest] by simp
  then show thesis using n' that by blast
qed

lemma read_message:
  assumes "read_ready n" "lively (n_pvio n)" "\<forall>k. alloc_ok E k" "pending (n_pvio n) = packets nr data @ rest"
    "n_where_b n + length data < n_max_packet_size n"
  shows "\<exists>len n1 len2 acc2 n2. ma_real_read E n = Ok (len, n1) \<and> read_kept n n1 \<and> more_packets E n1 len acc = Ok (len2, acc2, n2)
    \<and> len2 \<noteq> packet_error \<and> len2 + acc2 = acc + length data \<and> lively (n_pvio n2) \<and> pending (n_pvio n2) = rest
    \<and> take (n_where_b n + length data) (n_buff n2) = take (n_where_b n) (n_buff n) @ data \<and> n_error n2 = n_error n"
  using assms
proof (induction "length data" arbitrary: n nr data acc rule: less_induct)
  case less
  let ?w = "n_where_b n"
  show ?case
  proof (cases nr data rule: packets_parts)
    case last
    then obtain n1 where n1: "ma_real_read E n = Ok (length data, n1)" "read_kept n n1" "lively (n_pvio n1)" "pending (n_pvio n1) = rest"
        "got_packet n (length data) n1 (header (length data) nr @ data)"
      using less.prems real_read_packet [of n E "length data" nr data rest] by auto
    have t: "take ?w (n_buff n1) = take ?w (n_buff n)" "take (length data) (drop ?w (n_buff n1)) = data" "n_error n1 = n_error n"
      using n1(5) by (simp_all add: got_packet_def)
    have "take (?w + length data) (n_buff n1) = take ?w (n_buff n) @ data" by (simp add: take_add t)
    moreover have "length data \<noteq> packet_error" using last by (simp add: packet_error_def MAX_PACKET_LENGTH_def)
    moreover have "more_packets E n1 (length data) acc = Ok (length data, acc, n1)" using last by (simp add: more_packets.simps)
    ultimately show ?thesis using n1 t by auto
  next
    case more
    let ?M = MAX_PACKET_LENGTH
    obtain n1 where n1: "ma_real_read E n = Ok (?M, n1)" "read_kept n n1" "lively (n_pvio n1)"
        "pending (n_pvio n1) = packets (nr + 1) (drop ?M data) @ rest" "got_packet n ?M n1 (header ?M nr @ take ?M data)"
      using less.prems more real_read_packet [of n E ?M nr "take ?M data" "packets (nr + 1) (drop ?M data) @ rest"] by auto
    have mid: "mid n1 ?M" using got_mid [OF less.prems(1) n1(2)] n1(5) by blast
    note nx = mid_next [OF this]
    let ?n = "n1\<lparr>n_where_b := n_where_b n1 + ?M\<rparr>"
    have w1: "n_where_b n1 = ?w" "n_max_packet_size n1 = n_max_packet_size n" using n1(2) by (simp_all add: read_kept_def)
    have sh: "length (drop ?M data) < length data" using more(1) MAX_PACKET_LENGTH_pos(1) unfolding length_drop by linarith
    have lv: "lively (n_pvio ?n)" "pending (n_pvio ?n) = packets (nr + 1) (drop ?M data) @ rest"
        "n_where_b ?n + length (drop ?M data) < n_max_packet_size ?n"
      using less.prems(5) more(1) w1 n1(3,4) by simp_all
    obtain len n2 len2 acc2 n3 where IH: "ma_real_read E ?n = Ok (len, n2)"
        "more_packets E n2 len (acc + ?M) = Ok (len2, acc2, n3)"
        "len2 \<noteq> packet_error" "len2 + acc2 = acc + ?M + length (drop ?M data)" "lively (n_pvio n3)" "pending (n_pvio n3) = rest"
        "take (n_where_b ?n + length (drop ?M data)) (n_buff n3) = take (n_where_b ?n) (n_buff ?n) @ drop ?M data" "n_error n3 = n_error ?n"
      using less.hyps [OF sh nx(2) lv(1) less.prems(3) lv(2,3), of "acc + ?M"] by blast
    have m: "more_packets E n1 ?M acc = Ok (len2, acc2, n3)"
      using IH(1,2) nx(1) by (subst more_packets.simps) simp
    have t: "take ?w (n_buff n1) = take ?w (n_buff n)" "take ?M (drop ?w (n_buff n1)) = take ?M data" "n_error n1 = n_error n"
      using n1(5) by (simp_all add: got_packet_def)
    have "take (?w + ?M) (n_buff n1) = take ?w (n_buff n) @ take ?M data" by (simp add: take_add t)
    then have "take (?w + length data) (n_buff n3) = take ?w (n_buff n) @ data" using IH(7) w1 more(1) by simp
    then show ?thesis using n1(1,2) m IH t(3) more(1) by auto
  qed
qed

section \<open>Properties of writing\<close>

text \<open>
  What has been written: the bytes on the wire and those still in the buffer. A connection is
  willing to take \<open>k\<close> more bytes when its next \<open>k\<close> calls move at least one byte each.
\<close>

definition out :: "net \<Rightarrow> bytes" where
  "out n = w_out (pv_wire (n_pvio n))"

definition sent :: "net \<Rightarrow> bytes" where
  "sent n = out n @ take (n_write_pos n) (n_buff n)"

definition willing :: "nat \<Rightarrow> net \<Rightarrow> bool" where
  "willing k n \<longleftrightarrow> list_all (\<lambda>k. 0 < k) (w_writes (pv_wire (n_pvio n))) \<and> k \<le> length (w_writes (pv_wire (n_pvio n))) \<and> n_error n \<noteq> 2"

definition writable :: "net \<Rightarrow> bool" where
  "writable n \<longleftrightarrow> n_write_pos n \<le> n_max_packet n \<and> n_max_packet n \<le> length (n_buff n) \<and> \<not> n_compress n"

definition write_kept :: "net \<Rightarrow> net \<Rightarrow> bool" where
  "write_kept n n' \<longleftrightarrow> n_max_packet n' = n_max_packet n \<and> length (n_buff n') = length (n_buff n) \<and> n_compress n' = n_compress n
     \<and> n_multi n' = n_multi n \<and> n_pkt_nr n' = n_pkt_nr n"

lemma write_kept_trans: "write_kept a b \<Longrightarrow> write_kept b c \<Longrightarrow> write_kept a c"
  by (simp add: write_kept_def)

lemma write_kept_refl [simp]: "write_kept a a"
  by (simp add: write_kept_def)

lemma write_loop_spec:
  assumes "write_loop pv data = (ok, pv')"
  shows "\<exists>x y. data = x @ y \<and> (ok \<longrightarrow> y = []) \<and> w_out (pv_wire pv') = w_out (pv_wire pv) @ x
    \<and> (list_all (\<lambda>k. 0 < k) (w_writes (pv_wire pv)) \<and> length data \<le> length (w_writes (pv_wire pv)) \<longrightarrow>
        ok \<and> list_all (\<lambda>k. 0 < k) (w_writes (pv_wire pv')) \<and> length (w_writes (pv_wire pv)) \<le> length (w_writes (pv_wire pv')) + length data)"
  using assms
proof (induction pv data rule: write_loop.induct)
  case (1 pv data)
  show ?case
  proof (cases "data = []")
    case True
    with "1.prems" show ?thesis by (simp add: write_loop.simps)
  next
    case False
    obtain r pv1 where w: "ma_pvio_write pv data = (r, pv1)" by (metis surj_pair)
    have m: "w_out (pv_wire pv1) = w_out (pv_wire pv) @ take (nat r) data \<and>
        (list_all (\<lambda>k. 0 < k) (w_writes (pv_wire pv)) \<and> length data \<le> length (w_writes (pv_wire pv)) \<longrightarrow>
          0 < r \<and> list_all (\<lambda>k. 0 < k) (w_writes (pv_wire pv1)) \<and> length (w_writes (pv_wire pv)) = Suc (length (w_writes (pv_wire pv1))))"
      using w False by (auto simp: ma_pvio_write_def method_write_def Let_def split: list.splits if_splits prod.splits)
    show ?thesis
    proof (cases "r \<le> 0")
      case True
      with "1.prems" False w m show ?thesis by (intro exI [of _ "[]"] exI [of _ data]) (auto simp: write_loop.simps [of pv])
    next
      case r: False
      then have s: "write_loop pv1 (drop (nat r) data) = (ok, pv')" using "1.prems" False w by (simp add: write_loop.simps [of pv])
      from "1.IH" [OF False w [symmetric] refl r s] obtain x y where xy: "drop (nat r) data = x @ y" "ok \<longrightarrow> y = []"
          "w_out (pv_wire pv') = w_out (pv_wire pv1) @ x"
          "list_all (\<lambda>k. 0 < k) (w_writes (pv_wire pv1)) \<and> length (drop (nat r) data) \<le> length (w_writes (pv_wire pv1)) \<longrightarrow>
            ok \<and> list_all (\<lambda>k. 0 < k) (w_writes (pv_wire pv')) \<and> length (w_writes (pv_wire pv1)) \<le> length (w_writes (pv_wire pv')) + length (drop (nat r) data)"
        by blast
      have e: "data = (take (nat r) data @ x) @ y" using xy(1) by (metis append.assoc append_take_drop_id)
      have o: "w_out (pv_wire pv') = w_out (pv_wire pv) @ take (nat r) data @ x" using xy(3) m by simp
      have pos: "0 < length data" "0 < nat r" using False r by simp_all
      have "ok \<and> list_all (\<lambda>k. 0 < k) (w_writes (pv_wire pv')) \<and> length (w_writes (pv_wire pv)) \<le> length (w_writes (pv_wire pv')) + length data"
        if "list_all (\<lambda>k. 0 < k) (w_writes (pv_wire pv))" "length data \<le> length (w_writes (pv_wire pv))"
      proof -
        have p1: "list_all (\<lambda>k. 0 < k) (w_writes (pv_wire pv1))" "length (w_writes (pv_wire pv)) = Suc (length (w_writes (pv_wire pv1)))"
          using m that by blast+
        have lt: "length (drop (nat r) data) < length data" using pos unfolding length_drop by linarith
        have "length (drop (nat r) data) \<le> length (w_writes (pv_wire pv1))" using lt p1(2) that(2) by linarith
        with xy(4) p1(1) have "ok" "list_all (\<lambda>k. 0 < k) (w_writes (pv_wire pv'))"
            "length (w_writes (pv_wire pv1)) \<le> length (w_writes (pv_wire pv')) + length (drop (nat r) data)" by blast+
        then show ?thesis using lt p1(2) by simp
      qed
      with e o xy(2) show ?thesis by blast
    qed
  qed
qed

lemma real_write_spec:
  assumes "ma_net_real_write n packet = (e, n')"
  shows "n' = n\<lparr>n_pvio := n_pvio n', n_error := n_error n', n_last_errno := n_last_errno n'\<rparr>"
    and "\<exists>x y. packet = x @ y \<and> out n' = out n @ x \<and> (e = 0 \<longrightarrow> y = [])"
    and "willing (length packet + k) n \<Longrightarrow> e = 0 \<and> willing k n'"
    and "e = 0 \<Longrightarrow> n_error n' = n_error n"
proof -
  obtain ok pv where w: "write_loop (n_pvio n) packet = (ok, pv)" by (metis surj_pair)
  have c: "e = (if n_error n = 2 then - 1 else if ok then 0 else 1)"
    "n' = (if n_error n = 2 then n else if ok then n\<lparr>n_pvio := pv\<rparr> else n\<lparr>n_pvio := pv, n_error := 2, n_last_errno := ER_NET_ERROR_ON_WRITE\<rparr>)"
    using assms w by (auto simp: ma_net_real_write_def split: if_splits bool.splits)
  obtain x y where xy: "packet = x @ y" "ok \<longrightarrow> y = []" "w_out (pv_wire pv) = w_out (pv_wire (n_pvio n)) @ x"
      "list_all (\<lambda>k. 0 < k) (w_writes (pv_wire (n_pvio n))) \<and> length packet \<le> length (w_writes (pv_wire (n_pvio n))) \<longrightarrow>
        ok \<and> list_all (\<lambda>k. 0 < k) (w_writes (pv_wire pv)) \<and> length (w_writes (pv_wire (n_pvio n))) \<le> length (w_writes (pv_wire pv)) + length packet"
    using write_loop_spec [OF w] by blast
  show "n' = n\<lparr>n_pvio := n_pvio n', n_error := n_error n', n_last_errno := n_last_errno n'\<rparr>" using c(2) by simp
  show "\<exists>x y. packet = x @ y \<and> out n' = out n @ x \<and> (e = 0 \<longrightarrow> y = [])"
    using c xy(1-3) by (cases "n_error n = 2") (auto simp: out_def)
  show "willing (length packet + k) n \<Longrightarrow> e = 0 \<and> willing k n'"
    using c xy(4) by (auto simp: willing_def)
  show "e = 0 \<Longrightarrow> n_error n' = n_error n" using c by (simp split: if_splits)
qed

definition wrote :: "net \<Rightarrow> bytes \<Rightarrow> bool \<Rightarrow> net \<Rightarrow> bool" where
  "wrote n packet failed n' \<longleftrightarrow> write_kept n n' \<and> (\<not> failed \<longrightarrow> writable n' \<and> sent n' = sent n @ packet)
     \<and> (\<exists>rest. out n' @ rest = sent n @ packet)
     \<and> (\<forall>k. willing (n_write_pos n + length packet + k) n \<longrightarrow> \<not> failed \<and> willing (n_write_pos n' + k) n')"

lemma buff_store_spec:
  assumes "writable n" "n_write_pos n + length packet \<le> n_max_packet n"
  shows "\<exists>n'. buff_store n packet = Ok (False, n') \<and> wrote n packet False n'"
proof -
  let ?b = "take (n_write_pos n) (n_buff n) @ packet @ drop (n_write_pos n + length packet) (n_buff n)"
  let ?n = "n\<lparr>n_buff := ?b, n_write_pos := n_write_pos n + length packet\<rparr>"
  have l: "n_write_pos n \<le> length (n_buff n)" "n_write_pos n + length packet \<le> length (n_buff n)"
    using assms by (simp_all add: writable_def)
  have s: "sent ?n = sent n @ packet" "length ?b = length (n_buff n)" using l by (simp_all add: sent_def out_def)
  have "out ?n @ take (n_write_pos n) (n_buff n) @ packet = sent n @ packet" by (simp add: sent_def out_def)
  then have o: "\<exists>rest. out ?n @ rest = sent n @ packet" by blast
  have "write_kept n ?n" "writable ?n" using s assms by (auto simp: write_kept_def writable_def)
  moreover have "\<forall>k. willing (n_write_pos n + length packet + k) n \<longrightarrow> willing (n_write_pos ?n + k) ?n"
    by (simp add: willing_def)
  ultimately have "wrote n packet False ?n" using o s(1) unfolding wrote_def by blast
  moreover have "buff_store n packet = Ok (False, ?n)" using l by (simp add: buff_store_def store_bytes_def)
  ultimately show ?thesis by blast
qed

lemma buff_rest_spec:
  assumes "writable n" "n_write_pos n = 0"
  shows "\<exists>failed n'. buff_rest n packet = Ok (failed, n') \<and> wrote n packet failed n'"
proof (cases "n_max_packet n < length packet")
  case True
  obtain e n' where w: "ma_net_real_write n packet = (e, n')" by (metis surj_pair)
  note rs = real_write_spec [OF w]
  have k: "n_max_packet n' = n_max_packet n" "n_buff n' = n_buff n" "n_compress n' = n_compress n" "n_multi n' = n_multi n"
      "n_pkt_nr n' = n_pkt_nr n" "n_write_pos n' = n_write_pos n" by (subst rs(1), simp)+
  obtain x y where xy: "packet = x @ y" "out n' = out n @ x" "e = 0 \<longrightarrow> y = []" using rs(2) by blast
  have "buff_rest n packet = Ok (e \<noteq> 0, n')" using assms True w by (simp add: buff_rest_def writable_def)
  moreover have "wrote n packet (e \<noteq> 0) n'"
    using rs(3) xy k assms by (auto simp: wrote_def write_kept_def writable_def sent_def)
  ultimately show ?thesis by blast
next
  case False
  then have "buff_rest n packet = buff_store n packet" using assms by (simp add: buff_rest_def writable_def)
  moreover obtain n' where "buff_store n packet = Ok (False, n') \<and> wrote n packet False n'"
    using buff_store_spec [OF assms(1), of packet] assms(2) False by auto
  ultimately show ?thesis by auto
qed

lemma write_buff_spec:
  assumes w: "writable n"
  shows "\<exists>failed n'. ma_net_write_buff n packet = Ok (failed, n') \<and> wrote n packet failed n'"
proof -
  define left where "left = n_max_packet n - n_write_pos n"
  have l: "size_sub (n_max_packet n) (n_write_pos n) = left" using w by (simp add: left_def writable_def)
  show ?thesis
  proof (cases "left < length packet")
    case False
    then have "ma_net_write_buff n packet = buff_store n packet" using w l by (simp add: ma_net_write_buff_def writable_def)
    moreover have "n_write_pos n + length packet \<le> n_max_packet n" using False w unfolding left_def writable_def by linarith
    from buff_store_spec [OF w this] obtain n' where "buff_store n packet = Ok (False, n') \<and> wrote n packet False n'" ..
    ultimately show ?thesis by auto
  next
    case big: True
    show ?thesis
    proof (cases "n_write_pos n = 0")
      case True
      then have "ma_net_write_buff n packet = buff_rest n packet" using w l big by (simp add: ma_net_write_buff_def writable_def)
      then show ?thesis using buff_rest_spec [OF w True] by simp
    next
      case False
      let ?p = "n_write_pos n"
      define b where "b = take ?p (n_buff n) @ take left packet @ drop (?p + left) (n_buff n)"
      have pl: "?p + left = n_max_packet n" "n_max_packet n \<le> length (n_buff n)" using w by (simp_all add: left_def writable_def)
      have tl: "length (take left packet) = left" using big by simp
      have st: "store_bytes (n_buff n) ?p (take left packet) = (Ok b :: (unit, bytes) res)" using pl tl by (simp add: store_bytes_def b_def)
      have "length (take ?p (n_buff n) @ take left packet) = ?p + left" using pl tl unfolding length_append length_take by linarith
      then have tb: "take (?p + left) b = take ?p (n_buff n) @ take left packet"
        unfolding b_def by (metis append.assoc append_eq_conv_conj)
      obtain e n1 where rw: "ma_net_real_write (n\<lparr>n_buff := b\<rparr>) (take (?p + left) b) = (e, n1)" by (metis surj_pair)
      note rs = real_write_spec [OF rw]
      have k: "n_max_packet n1 = n_max_packet n" "n_buff n1 = b" "n_compress n1 = n_compress n" "n_multi n1 = n_multi n"
          "n_pkt_nr n1 = n_pkt_nr n" by (subst rs(1), simp)+
      obtain x y where xy: "take ?p (n_buff n) @ take left packet = x @ y" "out n1 = out n @ x" "e = 0 \<longrightarrow> y = []"
        using rs(2) tb by (auto simp: out_def)
      have lb: "length b = length (n_buff n)" using pl tl by (simp add: b_def)
      have eq: "ma_net_write_buff n packet = (if e \<noteq> 0 then Ok (True, n1) else buff_rest (n1\<lparr>n_write_pos := 0\<rparr>) (drop left packet))"
        using w l big False st rw by (simp add: ma_net_write_buff_def writable_def)
      have will: "e = 0 \<and> willing (length (drop left packet) + k) n1" if "willing (?p + length packet + k) n" for k
      proof -
        have "length (take (?p + left) b) + (length (drop left packet) + k) = ?p + length packet + k"
          using tb tl big pl by simp
        then show ?thesis using rs(3) [of "length (drop left packet) + k"] that by (simp add: willing_def)
      qed
      have pre: "out n1 @ y @ drop left packet = sent n @ packet"
      proof -
        have "out n1 @ y = out n @ take ?p (n_buff n) @ take left packet" using xy(1,2) by simp
        then have "(out n1 @ y) @ drop left packet = out n @ take ?p (n_buff n) @ take left packet @ drop left packet" by simp
        then show ?thesis by (simp add: sent_def)
      qed
      show ?thesis
      proof (cases "e = 0")
        case False
        then have "wrote n packet True n1" using k lb pre will by (auto simp: wrote_def write_kept_def)
        then show ?thesis using eq False by auto
      next
        case True
        let ?n = "n1\<lparr>n_write_pos := 0\<rparr>"
        have "writable ?n" "n_write_pos ?n = 0" using w k lb by (simp_all add: writable_def)
        from buff_rest_spec [OF this, of "drop left packet"] obtain failed n' where
          br: "buff_rest ?n (drop left packet) = Ok (failed, n')" "wrote ?n (drop left packet) failed n'" by blast
        have s: "sent ?n @ drop left packet = sent n @ packet" using pre xy(3) True by (simp add: sent_def out_def)
        have "wrote n packet failed n'"
          using br(2) s k lb will by (auto simp: wrote_def write_kept_def willing_def)
        then show ?thesis using eq True br(1) by auto
      qed
    qed
  qed
qed

lemma wrote_append:
  assumes "wrote n a False n1" "wrote n1 b failed n2"
  shows "wrote n (a @ b) failed n2"
proof -
  have s: "sent n1 = sent n @ a" "write_kept n n1" using assms(1) by (simp_all add: wrote_def)
  have w: "\<not> failed \<and> willing (n_write_pos n2 + k) n2" if "willing (n_write_pos n + length (a @ b) + k) n" for k
  proof -
    have "willing (n_write_pos n1 + (length b + k)) n1" using assms(1) that by (auto simp: wrote_def add.assoc)
    then show ?thesis using assms(2) by (auto simp: wrote_def add.assoc)
  qed
  have "write_kept n n2" using s(2) assms(2) write_kept_trans by (auto simp: wrote_def)
  then show ?thesis using assms(2) s(1) w by (auto simp: wrote_def)
qed

lemma wrote_failed:
  assumes "wrote n a True n1"
  shows "wrote n (a @ b) True n1"
proof -
  obtain r where "out n1 @ r = sent n @ a" using assms by (auto simp: wrote_def)
  then have "out n1 @ r @ b = sent n @ a @ b" by (simp flip: append_assoc)
  moreover have "\<not> willing (n_write_pos n + length (a @ b) + k) n" for k
    using assms by (auto simp: wrote_def add.assoc)
  ultimately show ?thesis using assms unfolding wrote_def append_assoc by blast
qed

lemma write_two_spec:
  assumes "writable n"
  shows "\<exists>failed n'. write_two n a b = Ok (failed, n') \<and> wrote n (a @ b) failed n'"
proof -
  obtain f1 n1 where 1: "ma_net_write_buff n a = Ok (f1, n1)" "wrote n a f1 n1" using write_buff_spec [OF assms] by blast
  show ?thesis
  proof (cases f1)
    case True
    then show ?thesis using 1 wrote_failed by (auto simp: write_two_def)
  next
    case False
    then have "writable n1" using 1(2) by (simp add: wrote_def)
    then obtain f2 n2 where 2: "ma_net_write_buff n1 b = Ok (f2, n2)" "wrote n1 b f2 n2" using write_buff_spec by blast
    then show ?thesis using 1 False wrote_append by (auto simp: write_two_def)
  qed
qed

text \<open>A new packet number changes nothing of what was written.\<close>

lemma nr_simps [simp]:
  "out (n\<lparr>n_pkt_nr := m\<rparr>) = out n" "sent (n\<lparr>n_pkt_nr := m\<rparr>) = sent n" "willing k (n\<lparr>n_pkt_nr := m\<rparr>) = willing k n"
  "writable (n\<lparr>n_pkt_nr := m\<rparr>) = writable n"
  by (simp_all add: sent_def out_def willing_def writable_def)

lemma wrote_nr: "wrote (n\<lparr>n_pkt_nr := m\<rparr>) p failed (n'\<lparr>n_pkt_nr := m\<rparr>) = wrote n p failed (n'\<lparr>n_pkt_nr := n_pkt_nr n\<rparr>)"
  by (simp add: wrote_def write_kept_def)

lemma wrote_next:
  assumes "wrote (n\<lparr>n_pkt_nr := m\<rparr>) p failed n'"
  shows "wrote n p failed (n'\<lparr>n_pkt_nr := n_pkt_nr n\<rparr>) \<and> n_pkt_nr n' = m"
proof -
  have m: "n_pkt_nr n' = m" using assms by (simp add: wrote_def write_kept_def)
  then have "n' = n'\<lparr>n_pkt_nr := m\<rparr>" by simp
  then show ?thesis using assms m wrote_nr by metis
qed

definition wrote_msg :: "net \<Rightarrow> bytes \<Rightarrow> bool \<Rightarrow> net \<Rightarrow> bool" where
  "wrote_msg n p failed n' \<longleftrightarrow> wrote n p failed (n'\<lparr>n_pkt_nr := n_pkt_nr n\<rparr>)"

lemma net_write_spec:
  assumes "writable n"
  shows "\<exists>failed n'. ma_net_write n packet = Ok (failed, n') \<and> wrote_msg n (packets (n_pkt_nr n) packet) failed n'"
  using assms
proof (induction n packet rule: ma_net_write.induct)
  case (1 n packet)
  let ?n = "n\<lparr>n_pkt_nr := n_pkt_nr n + 1\<rparr>" and ?M = MAX_PACKET_LENGTH
  have w: "writable ?n" using "1.prems" by (simp add: writable_def)
  show ?case
  proof (cases "n_pkt_nr n" packet rule: packets_parts)
    case last
    obtain f n' where a: "write_two ?n (header (length packet) (n_pkt_nr n)) packet = Ok (f, n')"
        "wrote ?n (header (length packet) (n_pkt_nr n) @ packet) f n'" using write_two_spec [OF w] by blast
    then have "ma_net_write n packet = Ok (f, n')" using last by (simp add: ma_net_write.simps)
    moreover have "wrote_msg n (packets (n_pkt_nr n) packet) f n'"
      using wrote_next [OF a(2)] last by (simp add: wrote_msg_def)
    ultimately show ?thesis by blast
  next
    case more
    let ?h = "header ?M (n_pkt_nr n)"
    obtain f n1 where a: "write_two ?n ?h (take ?M packet) = Ok (f, n1)" "wrote ?n (?h @ take ?M packet) f n1"
      using write_two_spec [OF w] by blast
    have k: "wrote n (?h @ take ?M packet) f (n1\<lparr>n_pkt_nr := n_pkt_nr n\<rparr>)" "n_pkt_nr n1 = n_pkt_nr n + 1" using wrote_next [OF a(2)] by simp_all
    show ?thesis
    proof (cases f)
      case True
      then have "ma_net_write n packet = Ok (True, n1)" using a more by (simp add: ma_net_write.simps)
      moreover have "wrote_msg n (packets (n_pkt_nr n) packet) True n1"
        using wrote_failed [of n "?h @ take ?M packet"] k True more by (simp add: wrote_msg_def)
      ultimately show ?thesis by blast
    next
      case False
      then have w1: "writable n1" using a(2) by (simp add: wrote_def)
      then obtain f2 n2 where b: "ma_net_write n1 (drop ?M packet) = Ok (f2, n2)" "wrote_msg n1 (packets (n_pkt_nr n1) (drop ?M packet)) f2 n2"
        using "1.IH" [OF more(1) _ refl] a(1) False by blast
      have "wrote (n1\<lparr>n_pkt_nr := n_pkt_nr n\<rparr>) (packets (n_pkt_nr n1) (drop ?M packet)) f2 (n2\<lparr>n_pkt_nr := n_pkt_nr n\<rparr>)"
        using b(2) wrote_nr [where n = n1 and m = "n_pkt_nr n"] by (simp add: wrote_msg_def)
      with k False have "wrote_msg n (packets (n_pkt_nr n) packet) f2 n2"
        using wrote_append [of n "?h @ take ?M packet" "n1\<lparr>n_pkt_nr := n_pkt_nr n\<rparr>"] more by (simp add: wrote_msg_def)
      moreover have "ma_net_write n packet = Ok (f2, n2)" using a b more False by (subst ma_net_write.simps) simp
      ultimately show ?thesis by blast
    qed
  qed
qed

lemma flush_spec:
  assumes "writable n" "\<not> n_multi n" "ma_net_flush n = (e, n')"
  shows "(\<exists>rest. out n' @ rest = sent n) \<and> (e = 0 \<longrightarrow> out n' = sent n \<and> n_write_pos n' = 0)
    \<and> (willing (n_write_pos n + k) n \<longrightarrow> e = 0 \<and> willing k n')"
proof (cases "n_write_pos n = 0")
  case True
  then show ?thesis using assms by (auto simp: ma_net_flush_def sent_def writable_def)
next
  case False
  obtain e1 n1 where r: "ma_net_real_write n (take (n_write_pos n) (n_buff n)) = (e1, n1)" by (metis surj_pair)
  note rs = real_write_spec [OF r]
  have c: "n_compress n1 = n_compress n" by (subst rs(1)) simp
  have e: "e1 = e" "n' = n1\<lparr>n_write_pos := 0\<rparr>" using assms r False c by (simp_all add: ma_net_flush_def writable_def)
  have l: "length (take (n_write_pos n) (n_buff n)) = n_write_pos n" using assms(1) by (simp add: writable_def)
  show ?thesis using rs(2) rs(3) [of k] e l by (auto simp: sent_def out_def willing_def)
qed

section \<open>Messages from end to end\<close>

lemma net_read_message:
  assumes ok: "net_ok n" "lively (n_pvio n)" "\<forall>k. alloc_ok E k"
    and p: "pending (n_pvio n) = packets nr data @ rest" "length data < n_max_packet_size n"
  shows "\<exists>n'. ma_net_read E n = Ok (length data, n') \<and> net_ok n' \<and> lively (n_pvio n') \<and> pending (n_pvio n') = rest
    \<and> take (length data) (drop (n_read_pos n') (n_buff n')) = data \<and> n_buff n' ! (n_read_pos n' + length data) = 0
    \<and> n_read_pos n' + length data < length (n_buff n') \<and> n_max_packet_size n' = n_max_packet_size n"
proof -
  have r: "read_ready n" and w: "n_where_b n = 0" using ok(1) by (simp_all add: net_ok_def)
  obtain len n1 len2 acc2 n2 where a: "ma_real_read E n = Ok (len, n1)" "read_kept n n1" "more_packets E n1 len 0 = Ok (len2, acc2, n2)"
      "len2 \<noteq> packet_error" "len2 + acc2 = length data" "lively (n_pvio n2)" "pending (n_pvio n2) = rest"
      "take (length data) (n_buff n2) = data"
    using read_message [OF r ok(2,3) p(1), of 0] w p(2) by auto
  have ne: "length data \<noteq> packet_error" "length data < 2 ^ 32"
    using p(2) ok(1) by (auto simp: net_ok_def read_ready_def sized_def packet_error_def)
  have w1: "n_where_b n1 = 0" using a(2) w by (simp add: read_kept_def)
  have sz: "n_max_packet_size n2 = n_max_packet_size n"
  proof -
    obtain d where "len \<noteq> packet_error \<longrightarrow> got_packet n len n1 d" using real_read_spec [OF r, of E] a(1) by auto
    from more_packets_safe [OF got_mid [OF r a(2) this], of E 0] a(3) have "n_max_packet_size n2 = n_max_packet_size n1" by simp
    then show ?thesis using a(2) by (simp add: read_kept_def)
  qed
  obtain len' n' where b: "ma_net_read E n = Ok (len', n')" "net_ok n'"
      "len' \<noteq> packet_error \<longrightarrow> n_read_pos n' + len' < length (n_buff n') \<and> n_buff n' ! (n_read_pos n' + len') = 0"
    using net_read_ready [OF ok(1)] by blast
  let ?n3 = "n2\<lparr>n_where_b := 0, n_read_pos := 0\<rparr>"
  have eq: "ma_net_read E n = rmap (\<lambda>b. (length data, ?n3\<lparr>n_buff := b\<rparr>)) (store1 (n_buff n2) (length data) 0)"
    using a(4,5) ne by (simp add: ma_net_read_def a(1,3) Let_def w1)
  have "rmap (\<lambda>b. (length data, ?n3\<lparr>n_buff := b\<rparr>)) (store1 (n_buff n2) (length data) 0) = (Ok (len', n') :: (unit, nat \<times> net) res)"
    using b(1) unfolding eq .
  then obtain b' where c: "store1 (n_buff n2) (length data) 0 = (Ok b' :: (unit, bytes) res)" "len' = length data" "n' = ?n3\<lparr>n_buff := b'\<rparr>"
    by (auto simp: rmap_eq_Ok)
  have "b' = (n_buff n2)[length data := 0]" using c(1) by (simp add: store1_def split: if_splits)
  then have "take (length data) b' = data" using a(8) by simp
  then show ?thesis using b c ne(1) a(6,7) sz by auto
qed

lemma message_sent:
  assumes w: "writable a" "\<not> n_multi a" "n_write_pos a = 0" "willing (length (packets (n_pkt_nr a) data)) a"
  shows "\<exists>a1 a2. ma_net_write a data = Ok (False, a1) \<and> ma_net_flush a1 = (0, a2) \<and> out a2 = out a @ packets (n_pkt_nr a) data"
proof -
  let ?p = "packets (n_pkt_nr a) data"
  obtain f a1 where 1: "ma_net_write a data = Ok (f, a1)" "wrote_msg a ?p f a1" using net_write_spec [OF w(1)] by blast
  let ?a = "a1\<lparr>n_pkt_nr := n_pkt_nr a\<rparr>"
  have o: "wrote a ?p f ?a" using 1(2) by (simp add: wrote_msg_def)
  have "willing (n_write_pos a + length ?p + 0) a" using w(3,4) by simp
  then have "\<not> f \<and> willing (n_write_pos ?a + 0) ?a" using o unfolding wrote_def by blast
  then have f: "\<not> f" and wl: "willing (n_write_pos a1 + 0) a1" by simp_all
  have wr: "writable a1" "sent a1 = sent a @ ?p" and m: "\<not> n_multi a1"
    using o f w(2) by (simp_all add: wrote_def write_kept_def)
  obtain e a2 where 2: "ma_net_flush a1 = (e, a2)" by (metis surj_pair)
  from flush_spec [OF wr(1) m 2, of 0] wl wr(2) w(3) have "e = 0" "out a2 = out a @ ?p" by (auto simp: sent_def)
  then show ?thesis using 1(1) f 2 by auto
qed

text \<open>
  C7. What \<open>ma_net_write\<close> and \<open>ma_net_flush\<close> send, \<open>ma_net_read\<close> at the other end returns: for every
  message below the limit of the reader, whatever pieces the connection moves and wherever
  the buffers and the read-ahead cache cut them, the call returns the length, the message
  is in the buffer, and what follows on the connection is untouched.
\<close>
theorem net_roundtrip:
  assumes w: "writable a" "\<not> n_multi a" "n_write_pos a = 0" "willing (length (packets (n_pkt_nr a) data)) a"
    and E: "\<forall>k. alloc_ok E k"
  shows "\<exists>a1 a2. ma_net_write a data = Ok (False, a1) \<and> ma_net_flush a1 = (0, a2)
    \<and> (\<forall>b rest. net_ok b \<and> lively (n_pvio b) \<and> length data < n_max_packet_size b
          \<and> pending (n_pvio b) = drop (length (out a)) (out a2) @ rest \<longrightarrow>
        (\<exists>b'. ma_net_read E b = Ok (length data, b') \<and> net_ok b' \<and> lively (n_pvio b') \<and> pending (n_pvio b') = rest
           \<and> take (length data) (drop (n_read_pos b') (n_buff b')) = data))"
proof -
  obtain a1 a2 where s: "ma_net_write a data = Ok (False, a1)" "ma_net_flush a1 = (0, a2)" "out a2 = out a @ packets (n_pkt_nr a) data"
    using message_sent [OF w] by blast
  show ?thesis
    using s net_read_message [OF _ _ E] by (intro exI [of _ a1] exI [of _ a2]) fastforce
qed

text \<open>
  C9. Memory safety of reading: whatever arrives and whichever reads and allocations fail,
  \<open>ma_net_read\<close> returns, never leaves the packet buffer, and keeps the connection ready for
  the next packet; a packet it returns is followed by a zero byte inside the buffer.
\<close>
theorem net_read_safe:
  assumes "net_ok n"
  shows "\<exists>len n'. ma_net_read E n = Ok (len, n') \<and> net_ok n'
    \<and> (len \<noteq> packet_error \<longrightarrow> n_read_pos n' + len < length (n_buff n') \<and> n_buff n' ! (n_read_pos n' + len) = 0)"
  using assms by (rule net_read_ready)

definition wire0 :: "bytes \<Rightarrow> wire" where
  "wire0 bs = \<lparr>w_in = bs, w_reads = replicate (length bs) 3, w_out = [], w_writes = replicate 9 2\<rparr>"

definition net0 :: "bytes \<Rightarrow> net" where
  "net0 bs = \<lparr>n_pvio = \<lparr>pv_cache = Some (replicate PVIO_READ_AHEAD_CACHE_SIZE 0), pv_cache_size = 0, pv_cache_pos = 0, pv_wire = wire0 bs\<rparr>,
     n_buff = replicate 8192 0, n_write_pos = 0, n_read_pos = 0, n_max_packet = 8192, n_max_packet_size = 2 ^ 30, n_pkt_nr = 0, n_compress_pkt_nr = 0,
     n_where_b = 0, n_error = 0, n_last_errno = 0, n_compress = False, n_multi = False\<rparr>"

lemma net0_ok: "net_ok (net0 bs)" "lively (n_pvio (net0 bs))" "writable (net0 bs)" "k \<le> 9 \<Longrightarrow> willing k (net0 bs)"
  by (simp_all add: net_ok_def read_ready_def sized_def pvio_ok_def lively_def writable_def willing_def net0_def wire0_def
      NET_HEADER_SIZE_def COMP_HEADER_SIZE_def MAX_PACKET_LENGTH_def IO_SIZE_def list_all_iff)

lemma net0_roomy: "roomy (net0 bs)"
  by (simp add: roomy_def net0_def)

lemma net0_simps: "\<not> n_multi (net0 bs)" "n_write_pos (net0 bs) = 0" "n_max_packet_size (net0 bs) = 2 ^ 30" "n_pkt_nr (net0 bs) = 0"
    "pending (n_pvio (net0 bs)) = bs" "out (net0 bs) = []"
  by (simp_all add: net0_def pending_def cached_def wire0_def out_def)

theorem net_roundtrip_witness:
  "\<exists>a1 a2. ma_net_write (net0 []) [1, 2, 3] = Ok (False, a1) \<and> ma_net_flush a1 = (0, a2)
    \<and> (\<exists>b'. ma_net_read all_ok (net0 (out a2)) = Ok (length [1 :: u8, 2, 3], b')
        \<and> take (length [1 :: u8, 2, 3]) (drop (n_read_pos b') (n_buff b')) = [1, 2, 3])"
proof -
  have p: "packets (n_pkt_nr (net0 [])) [1, 2, 3] = [3, 0, 0, 0, 1, 2, 3]"
  proof -
    have "header (Suc (Suc (Suc 0))) 0 = [3, 0, 0, 0]" by code_simp
    then show ?thesis by (subst packets.simps) (simp add: MAX_PACKET_LENGTH_def net0_simps)
  qed
  have w: "willing (length (packets (n_pkt_nr (net0 [])) [1, 2, 3])) (net0 [])" unfolding p by (rule net0_ok(4)) simp
  have E: "\<forall>k. alloc_ok all_ok k" by simp
  obtain a1 a2 where a: "ma_net_write (net0 []) [1, 2, 3] = Ok (False, a1)" "ma_net_flush a1 = (0, a2)"
    and b: "\<And>b rest. net_ok b \<and> lively (n_pvio b) \<and> length [1 :: u8, 2, 3] < n_max_packet_size b
       \<and> pending (n_pvio b) = drop (length (out (net0 []))) (out a2) @ rest \<Longrightarrow>
        \<exists>b'. ma_net_read all_ok b = Ok (length [1 :: u8, 2, 3], b')
           \<and> take (length [1 :: u8, 2, 3]) (drop (n_read_pos b') (n_buff b')) = [1, 2, 3]"
    using net_roundtrip [OF net0_ok(3) net0_simps(1,2) w E] by blast
  show ?thesis
    using a b [of "net0 (out a2)" "[]"] net0_ok(1,2) [of "out a2"] by (simp add: net0_simps)
qed

theorem net_read_safe_witness:
  "net_ok (net0 [5, 0, 0, 9, 1]) \<and> (\<exists>len n'. ma_net_read all_ok (net0 [5, 0, 0, 9, 1]) = Ok (len, n') \<and> net_ok n')"
  using net_read_safe [OF net0_ok(1), of all_ok "[5, 0, 0, 9, 1]"] net0_ok(1) by blast

section \<open>Commands\<close>

lemma next_nr_simps: "\<not> n_compress n \<Longrightarrow> next_nr n = (n_pkt_nr n, n\<lparr>n_pkt_nr := n_pkt_nr n + 1\<rparr>)"
  by (simp add: next_nr_def)

text \<open>The loop writes full packets, the first with the command byte; the rest is still to be written.\<close>

lemma packets_full:
  assumes "MAX_PACKET_LENGTH \<le> length cmd + length packet" "length cmd \<le> 1"
  shows "packets nr (cmd @ packet) = (header MAX_PACKET_LENGTH nr @ cmd) @ take (MAX_PACKET_LENGTH - length cmd) packet
     @ packets (nr + 1) (drop (MAX_PACKET_LENGTH - length cmd) packet)"
proof -
  have "length cmd \<le> MAX_PACKET_LENGTH" using assms(2) by (simp add: MAX_PACKET_LENGTH_def)
  then show ?thesis using assms by (subst packets.simps) simp
qed

lemma command_loop_spec:
  assumes "writable n" "length cmd \<le> 1"
  shows "\<exists>failed cmd' rest n1 p. command_loop n cmd packet = Ok (failed, cmd', rest, n1) \<and> wrote_msg n p failed n1
    \<and> (\<not> failed \<longrightarrow> length (cmd' @ rest) < MAX_PACKET_LENGTH \<and> packets (n_pkt_nr n) (cmd @ packet) = p @ packets (n_pkt_nr n1) (cmd' @ rest))
    \<and> (failed \<longrightarrow> p = packets (n_pkt_nr n) (cmd @ packet))"
  using assms
proof (induction n cmd packet rule: command_loop.induct)
  case (1 n cmd packet)
  let ?M = MAX_PACKET_LENGTH
  show ?case
  proof (cases "?M \<le> length cmd + length packet")
    case False
    have "wrote_msg n [] False n" using "1.prems" by (auto simp: wrote_msg_def wrote_def sent_def)
    then show ?thesis using False by (subst command_loop.simps) (auto intro!: exI [of _ "[]"])
  next
    case True
    let ?n = "n\<lparr>n_pkt_nr := n_pkt_nr n + 1\<rparr>" and ?k = "?M - length cmd"
    have nn: "next_nr n = (n_pkt_nr n, ?n)" using "1.prems"(1) by (simp add: next_nr_simps writable_def)
    let ?q = "(header ?M (n_pkt_nr n) @ cmd) @ take ?k packet"
    obtain f n1 where a: "write_two ?n (header ?M (n_pkt_nr n) @ cmd) (take ?k packet) = Ok (f, n1)" "wrote ?n ?q f n1"
      using write_two_spec [of ?n "header ?M (n_pkt_nr n) @ cmd" "take ?k packet"] "1.prems"(1) unfolding nr_simps by blast
    have k: "wrote n ?q f (n1\<lparr>n_pkt_nr := n_pkt_nr n\<rparr>)" "n_pkt_nr n1 = n_pkt_nr n + 1" using wrote_next [OF a(2)] by simp_all
    note pf = packets_full [OF True "1.prems"(2), of "n_pkt_nr n"]
    show ?thesis
    proof (cases f)
      case fail: True
      have "command_loop n cmd packet = Ok (True, [], [], n1)" using True nn a(1) fail by (subst command_loop.simps) simp
      moreover have "wrote_msg n (packets (n_pkt_nr n) (cmd @ packet)) True n1"
        using wrote_failed [of n ?q] k(1) fail pf by (simp add: wrote_msg_def)
      ultimately show ?thesis by blast
    next
      case ok: False
      then have w1: "writable n1" using a(2) by (simp add: wrote_def)
      obtain f2 cmd' rest n2 p where b: "command_loop n1 [] (drop ?k packet) = Ok (f2, cmd', rest, n2)" "wrote_msg n1 p f2 n2"
          "\<not> f2 \<longrightarrow> length (cmd' @ rest) < ?M \<and> packets (n_pkt_nr n1) (drop ?k packet) = p @ packets (n_pkt_nr n2) (cmd' @ rest)"
          "f2 \<longrightarrow> p = packets (n_pkt_nr n1) (drop ?k packet)"
        using "1.IH" [OF True refl nn [symmetric] refl a(1) refl ok w1] unfolding append_Nil by fastforce
      have "wrote (n1\<lparr>n_pkt_nr := n_pkt_nr n\<rparr>) p f2 (n2\<lparr>n_pkt_nr := n_pkt_nr n\<rparr>)"
        using b(2) wrote_nr [where n = n1 and m = "n_pkt_nr n"] by (simp add: wrote_msg_def)
      with k ok have "wrote_msg n (?q @ p) f2 n2"
        using wrote_append [of n ?q "n1\<lparr>n_pkt_nr := n_pkt_nr n\<rparr>"] by (simp add: wrote_msg_def)
      moreover have "command_loop n cmd packet = Ok (f2, cmd', rest, n2)" using True nn a(1) ok b(1) by (subst command_loop.simps) simp
      ultimately show ?thesis using b(3,4) pf k(2)
        by (intro exI [of _ f2] exI [of _ cmd'] exI [of _ rest] exI [of _ n2] exI [of _ "?q @ p"]) simp
    qed
  qed
qed

lemma command_sent:
  assumes w: "writable n" "\<not> n_multi n" "n_write_pos n = 0" "willing (length (packets (n_pkt_nr n) (command # packet))) n"
  shows "\<exists>n'. ma_net_write_command n command packet False = Ok (False, n') \<and> out n' = out n @ packets (n_pkt_nr n) (command # packet)"
proof -
  let ?P = "packets (n_pkt_nr n) (command # packet)"
  obtain f cmd rest n1 p where a: "command_loop n [command] packet = Ok (f, cmd, rest, n1)" "wrote_msg n p f n1"
      "\<not> f \<longrightarrow> length (cmd @ rest) < MAX_PACKET_LENGTH \<and> ?P = p @ packets (n_pkt_nr n1) (cmd @ rest)" "f \<longrightarrow> p = ?P"
    using command_loop_spec [OF w(1), of "[command]" packet] unfolding append_Cons append_Nil by fastforce
  have o: "wrote n p f (n1\<lparr>n_pkt_nr := n_pkt_nr n\<rparr>)" using a(2) by (simp add: wrote_msg_def)
  have f: "\<not> f" using o a(4) w(3,4) unfolding wrote_def by (metis add.right_neutral add_0)
  let ?h = "header (length cmd + length rest) (n_pkt_nr n1) @ cmd"
  have P: "?P = p @ ?h @ rest" using a(3) f packets.simps [of "n_pkt_nr n1" "cmd @ rest"] by simp
  have w1: "writable n1" "\<not> n_compress n1" using o f by (simp_all add: wrote_def writable_def)
  let ?n1 = "n1\<lparr>n_pkt_nr := n_pkt_nr n1 + 1\<rparr>"
  obtain f2 n2 where b: "write_two ?n1 ?h rest = Ok (f2, n2)" "wrote ?n1 (?h @ rest) f2 n2"
    using write_two_spec [of ?n1 ?h rest] w1 unfolding nr_simps by blast
  have "wrote (n1\<lparr>n_pkt_nr := n_pkt_nr n\<rparr>) (?h @ rest) f2 (n2\<lparr>n_pkt_nr := n_pkt_nr n\<rparr>)"
    using wrote_next [OF b(2)] wrote_nr [where n = n1 and m = "n_pkt_nr n"] by simp
  then have all: "wrote n ?P f2 (n2\<lparr>n_pkt_nr := n_pkt_nr n\<rparr>)"
    using wrote_append [of n p "n1\<lparr>n_pkt_nr := n_pkt_nr n\<rparr>"] o f P by simp
  have "willing (n_write_pos n + length ?P + 0) n" using w(3,4) by simp
  then have "\<not> f2 \<and> willing (n_write_pos (n2\<lparr>n_pkt_nr := n_pkt_nr n\<rparr>) + 0) (n2\<lparr>n_pkt_nr := n_pkt_nr n\<rparr>)"
    using all unfolding wrote_def by blast
  then have f2: "\<not> f2" "willing (n_write_pos n2 + 0) n2" by simp_all
  have w2: "writable n2" "sent n2 = sent n @ ?P" "\<not> n_multi n2" using all f2(1) w(2) by (simp_all add: wrote_def write_kept_def)
  obtain e n3 where fl: "ma_net_flush n2 = (e, n3)" by (metis surj_pair)
  from flush_spec [OF w2(1,3) fl, of 0] f2(2) w2(2) w(3) have "e = 0" "out n3 = out n @ ?P" by (auto simp: sent_def)
  moreover have "ma_net_write_command n command packet False = Ok (e \<noteq> 0, n3)"
    using a(1) f b(1) f2(1) fl next_nr_simps [OF w1(2)] by (simp add: ma_net_write_command_def Let_def)
  ultimately show ?thesis by auto
qed

text \<open>
  C18. A command with its argument arrives as the command byte followed by the argument, also when
  it takes several packets.
\<close>
theorem command_roundtrip:
  assumes w: "writable a" "\<not> n_multi a" "n_write_pos a = 0" "willing (length (packets (n_pkt_nr a) (command # arg))) a"
    and E: "\<forall>k. alloc_ok E k"
  shows "\<exists>a'. ma_net_write_command a command arg False = Ok (False, a')
    \<and> (\<forall>b rest. net_ok b \<and> lively (n_pvio b) \<and> length (command # arg) < n_max_packet_size b
          \<and> pending (n_pvio b) = drop (length (out a)) (out a') @ rest \<longrightarrow>
        (\<exists>b'. ma_net_read E b = Ok (length (command # arg), b') \<and> net_ok b' \<and> pending (n_pvio b') = rest
           \<and> take (length (command # arg)) (drop (n_read_pos b') (n_buff b')) = command # arg))"
proof -
  obtain a' where s: "ma_net_write_command a command arg False = Ok (False, a')" "out a' = out a @ packets (n_pkt_nr a) (command # arg)"
    using command_sent [OF w] by blast
  show ?thesis
    using s net_read_message [OF _ _ E, of _ "n_pkt_nr a" "command # arg"] by (intro exI [of _ a']) fastforce
qed

theorem command_roundtrip_witness:
  "\<exists>a'. ma_net_write_command (net0 []) 3 [65, 66] False = Ok (False, a')
    \<and> (\<exists>b'. ma_net_read all_ok (net0 (out a')) = Ok (length [3 :: u8, 65, 66], b')
        \<and> take (length [3 :: u8, 65, 66]) (drop (n_read_pos b') (n_buff b')) = [3, 65, 66])"
proof -
  have p: "packets (n_pkt_nr (net0 [])) [3, 65, 66] = [3, 0, 0, 0, 3, 65, 66]"
  proof -
    have "header (Suc (Suc (Suc 0))) 0 = [3, 0, 0, 0]" by code_simp
    then show ?thesis by (subst packets.simps) (simp add: MAX_PACKET_LENGTH_def net0_simps)
  qed
  have w: "willing (length (packets (n_pkt_nr (net0 [])) [3, 65, 66])) (net0 [])" unfolding p by (rule net0_ok(4)) simp
  have E: "\<forall>k. alloc_ok all_ok k" by simp
  obtain a' where a: "ma_net_write_command (net0 []) 3 [65, 66] False = Ok (False, a')"
    and b: "\<And>b rest. net_ok b \<and> lively (n_pvio b) \<and> length [3 :: u8, 65, 66] < n_max_packet_size b
       \<and> pending (n_pvio b) = drop (length (out (net0 []))) (out a') @ rest \<Longrightarrow>
        \<exists>b'. ma_net_read all_ok b = Ok (length [3 :: u8, 65, 66], b')
           \<and> take (length [3 :: u8, 65, 66]) (drop (n_read_pos b') (n_buff b')) = [3, 65, 66]"
    using command_roundtrip [OF net0_ok(3) net0_simps(1,2) w E] by blast
  show ?thesis
    using a b [of "net0 (out a')" "[]"] net0_ok(1,2) [of "out a'"] by (simp add: net0_simps)
qed

section \<open>Initial buffers\<close>

lemma net_init_ok:
  assumes "ma_net_init E bl ma n pv = (False, n')" "pvio_ok pv" "4 \<le> bl" "bl \<le> MAX_PACKET_LENGTH" "max bl ma \<le> 2 ^ 32 - 2 ^ 25"
  shows "net_ok n' \<and> writable n' \<and> n_write_pos n' = 0"
  using assms by (auto simp: ma_net_init_def net_ok_def read_ready_def sized_def writable_def NET_HEADER_SIZE_def IO_SIZE_def MAX_PACKET_LENGTH_def
      split: option.splits)

text \<open>Filling past the end of the buffer.\<close>

lemma fill_overflow:
  assumes "pvio_ok (n_pvio n)" "lively (n_pvio n)" "remain \<le> length (pending (n_pvio n))" "pos \<le> length (n_buff n)" "length (n_buff n) < pos + remain"
  shows "fill_loop n pos remain = UB"
  using assms
proof (induction remain arbitrary: n pos rule: less_induct)
  case (less remain)
  have r0: "0 < remain" using less.prems by simp
  obtain r bs pv where c: "ma_pvio_cache_read (n_pvio n) remain = (r, bs, pv)" by (metis prod_cases3)
  have ne: "pending (n_pvio n) \<noteq> []" using less.prems(3) r0 by auto
  have cs: "pvio_ok pv" "pending (n_pvio n) = bs @ pending pv" "length bs \<le> remain" "length bs = nat r" "0 < r" "lively pv"
    using cache_read_spec [OF less.prems(1) r0 c] less.prems(2) ne by auto
  show ?case
  proof (cases "pos + length bs \<le> length (n_buff n)")
    case False
    then show ?thesis using r0 cs by (subst fill_loop.simps) (simp add: c store_bytes_def)
  next
    case True
    define n1 where "n1 = n\<lparr>n_pvio := pv, n_buff := take pos (n_buff n) @ bs @ drop (pos + length bs) (n_buff n)\<rparr>"
    have "fill_loop n pos remain = fill_loop n1 (pos + length bs) (remain - length bs)"
      using r0 cs True by (subst fill_loop.simps) (simp add: c store_bytes_def n1_def)
    also have "\<dots> = UB"
      using cs less.prems True by (intro less.IH) (simp_all add: n1_def)
    finally show ?thesis .
  qed
qed

lemma first_packet_read:
  assumes n: "pvio_ok (n_pvio n)" "lively (n_pvio n)" "\<not> n_compress n" "n_where_b n = 0" "n_max_packet n = length (n_buff n)"
    and p: "pending (n_pvio n) = header MAX_PACKET_LENGTH nr @ data @ x" "length data = MAX_PACKET_LENGTH" "MAX_PACKET_LENGTH < length (n_buff n)"
  obtains n' where "ma_real_read E n = Ok (MAX_PACKET_LENGTH, n')" "pvio_ok (n_pvio n')" "lively (n_pvio n')" "\<not> n_compress n'" "n_where_b n' = 0"
    "length (n_buff n') = length (n_buff n)" "pending (n_pvio n') = x"
proof -
  let ?M = MAX_PACKET_LENGTH
  have four: "0 + 4 \<le> length (n_buff n)" using p(3) by (simp add: MAX_PACKET_LENGTH_def)
  obtain ok n1 h where f: "fill_loop n 0 4 = Ok (ok, n1)" "fills n 0 4 ok n1 h" using fill_loop_spec [OF n(1) four] by blast
  have l: "lively (n_pvio n) \<and> 4 \<le> length (pending (n_pvio n))" using n(2) p(1) by simp
  then have ok: ok "lively (n_pvio n1)" and f1: "n1 = n\<lparr>n_pvio := n_pvio n1, n_buff := n_buff n1, n_error := n_error n1\<rparr>" "pvio_ok (n_pvio n1)"
      "length (n_buff n1) = length (n_buff n)" "pending (n_pvio n) = h @ pending (n_pvio n1)"
    using f(2) unfolding fills_def by blast+
  have h: "length h = 4" "n_buff n1 = h @ drop 4 (n_buff n)" using f(2) ok(1) by (simp_all add: fills_def)
  have hd: "h = header ?M nr" "pending (n_pvio n1) = data @ x" using f1(4) p(1) h(1) by (simp_all add: append_eq_append_conv)
  have k: "n_where_b n1 = 0" "n_compress n1 = n_compress n" "n_max_packet n1 = n_max_packet n" using n(4) by (subst f1(1), simp)+
  have l1: "load1 (n_buff n1) 3 = (Ok (h ! 3) :: (unit, u8) res)" using h by (simp add: load1_def nth_append)
  have "le_val h mod 0x1000000 = ?M" unfolding hd(1) header_def
    by (simp add: le_val_append le_val_bytes MAX_PACKET_LENGTH_def)
  then have u: "uint3korr (n_buff n1) 0 = (Ok ?M :: (unit, nat) res)" using h by (simp add: uint3korr_def uintN_load_def load_bytes_def)
  let ?n2 = "n1\<lparr>n_pkt_nr := ucast (h ! 3) + 1, n_compress_pkt_nr := ucast (h ! 3) + 1\<rparr>"
  have "0 + ?M \<le> length (n_buff ?n2)" "pvio_ok (n_pvio ?n2)" using p(3) f1(2,3) by simp_all
  from fill_loop_spec [OF this(2,1)] obtain ok4 n4 d where g: "fill_loop ?n2 0 ?M = Ok (ok4, n4)" "fills ?n2 0 ?M ok4 n4 d" by blast
  have "lively (n_pvio ?n2) \<and> ?M \<le> length (pending (n_pvio ?n2))" using ok(2) hd(2) p(2) by simp
  then have ok4: ok4 "lively (n_pvio n4)" and g1: "n4 = ?n2\<lparr>n_pvio := n_pvio n4, n_buff := n_buff n4, n_error := n_error n4\<rparr>" "pvio_ok (n_pvio n4)"
      "length (n_buff n4) = length (n_buff ?n2)" "pending (n_pvio ?n2) = d @ pending (n_pvio n4)"
    using g(2) unfolding fills_def by blast+
  have "length d = ?M" using g(2) ok4(1) by (simp add: fills_def)
  then have x: "pending (n_pvio n4) = x" using g1(4) hd(2) p(2) by (simp add: append_eq_append_conv)
  have k4: "n_where_b n4 = 0" "n_compress n4 = n_compress n" by (subst g1(1), simp add: k)+
  have "?M mod 2 ^ 32 = ?M" "?M \<noteq> 0" by (simp_all add: MAX_PACKET_LENGTH_def)
  then have "ma_real_read E n = Ok (?M, n4)"
    using f(1) ok(1) l1 u g(1) ok4(1) n p(3) k by (simp add: ma_real_read_def NET_HEADER_SIZE_def Let_def)
  then show thesis using that [of n4] g1 ok4 k4 n(3) f1(3) x by simp
qed

text \<open>
  The first buffer has no room for a second header. When the option \<open>net-buffer-length\<close> makes it
  one to three bytes longer than a maximal packet, reading a message of more than one packet
  writes past its end.
\<close>
theorem net_header_overflow:
  assumes n: "ma_net_init E bl ma n pv = (False, n')" "MAX_PACKET_LENGTH < bl" "bl < MAX_PACKET_LENGTH + 4"
    and p: "pvio_ok pv" "lively pv" "pending pv = header MAX_PACKET_LENGTH nr @ data @ x" "length data = MAX_PACKET_LENGTH" "4 \<le> length x"
  shows "is_UB (ma_net_read E n')"
proof -
  have i: "n_pvio n' = pv" "\<not> n_compress n'" "n_where_b n' = 0" "n_max_packet n' = bl" "length (n_buff n') = bl"
    using n(1) by (auto simp: ma_net_init_def split: option.splits)
  obtain n1 where r: "ma_real_read E n' = Ok (MAX_PACKET_LENGTH, n1)" "pvio_ok (n_pvio n1)" "lively (n_pvio n1)" "\<not> n_compress n1" "n_where_b n1 = 0"
      "length (n_buff n1) = bl" "pending (n_pvio n1) = x"
    using first_packet_read [of n' nr data x E] i n(2) p by auto
  let ?n = "n1\<lparr>n_where_b := MAX_PACKET_LENGTH\<rparr>"
  have "fill_loop ?n MAX_PACKET_LENGTH 4 = UB"
    using r p(5) n(2,3) by (intro fill_overflow) simp_all
  then have "ma_real_read E ?n = UB" using r(4) by (simp add: ma_real_read_def NET_HEADER_SIZE_def)
  moreover have "MAX_PACKET_LENGTH mod 2 ^ 32 = MAX_PACKET_LENGTH" by (simp add: MAX_PACKET_LENGTH_def)
  ultimately have "more_packets E n1 MAX_PACKET_LENGTH 0 = UB"
    using r(5) by (subst more_packets.simps) simp
  then show ?thesis using r(1) by (simp add: ma_net_read_def Let_def)
qed

theorem net_header_overflow_witness:
  "\<exists>n'. ma_net_init all_ok 16777216 0 (net0 []) (n_pvio (net0 (header MAX_PACKET_LENGTH 0 @ replicate MAX_PACKET_LENGTH 7 @ [0, 0, 0, 1]))) = (False, n')
     \<and> is_UB (ma_net_read all_ok n')"
proof -
  let ?p = "header MAX_PACKET_LENGTH 0 @ replicate MAX_PACKET_LENGTH 7 @ [0, 0, 0, 1]"
  have s: "16777216 = MAX_PACKET_LENGTH + 1" by (simp add: MAX_PACKET_LENGTH_def)
  obtain n' where i: "ma_net_init all_ok 16777216 0 (net0 []) (n_pvio (net0 ?p)) = (False, n')"
    by (simp add: ma_net_init_def malloc_def)
  have "pvio_ok (n_pvio (net0 ?p))" using net0_ok(1) by (simp add: net_ok_def read_ready_def)
  then have "is_UB (ma_net_read all_ok n')"
    using net_header_overflow [OF i _ _ _ net0_ok(2) net0_simps(5)] by (simp add: s)
  with i show ?thesis by blast
qed

end
