(* ===== verification/Rows.thy ===== *)
theory Rows
  imports Net Dynamic_String
begin

text \<open>
  Results (\<^verbatim>\<open>mariadb_lib.c\<close>): length-encoded integers, packets with error handling, and the rows of
  a result, read one by one or all together. A row is the list of its columns, \<open>None\<close> for
  NULL. The SQL state and the text of an error are the C strings the client stores: read from
  the packet for an error of the server, and for an error of the client the text is the
  message of \<^verbatim>\<open>errmsg.c\<close> for its number, which is kept as the number only. Of the options the
  model knows whether progress reports are expected and handled; the handler itself is a
  function of the user and not part of the model. \<open>unsigned long\<close> has 32 bits.
\<close>

section \<open>Length-encoded integers\<close>

definition NULL_LENGTH :: nat where "NULL_LENGTH = 2 ^ 32 - 1"

text \<open>The value and the position after it.\<close>

definition net_field_length :: "bytes \<Rightarrow> nat \<Rightarrow> ('e, nat \<times> nat) res" where
  "net_field_length buf pos =
     rbind (load1 buf pos) (\<lambda>b.
       if b < 251 then Ok (unat b, pos + 1)
       else if b = 251 then Ok (NULL_LENGTH, pos + 1)
       else if b = 252 then rmap (\<lambda>v. (v, pos + 3)) (uint2korr buf (pos + 1))
       else if b = 253 then rmap (\<lambda>v. (v, pos + 4)) (uint3korr buf (pos + 1))
       else rmap (\<lambda>v. (v, pos + 9)) (uint4korr buf (pos + 1)))"

definition net_field_length_ll :: "bytes \<Rightarrow> nat \<Rightarrow> ('e, nat \<times> nat) res" where
  "net_field_length_ll buf pos =
     rbind (load1 buf pos) (\<lambda>b.
       if b < 251 then Ok (unat b, pos + 1)
       else if b = 251 then Ok (NULL_LENGTH, pos + 1)
       else if b = 252 then rmap (\<lambda>v. (v, pos + 3)) (uint2korr buf (pos + 1))
       else if b = 253 then rmap (\<lambda>v. (v, pos + 4)) (uint3korr buf (pos + 1))
       else rmap (\<lambda>v. (v, pos + 9)) (uint8korr buf (pos + 1)))"

definition mysql_net_store_length :: "bytes \<Rightarrow> nat \<Rightarrow> nat \<Rightarrow> ('e, bytes \<times> nat) res" where
  "mysql_net_store_length buf p len =
     (if len < 251 then rmap (\<lambda>b. (b, p + 1)) (store1 buf p (word_of_nat len))
      else if len < 65536 then rbind (store1 buf p 252) (\<lambda>b. rmap (\<lambda>b. (b, p + 1 + 2)) (int2store b (p + 1) len))
      else if len < 16777216 then rbind (store1 buf p 253) (\<lambda>b. rmap (\<lambda>b. (b, p + 1 + 3)) (int3store b (p + 1) len))
      else rbind (store1 buf p 254) (\<lambda>b. rmap (\<lambda>b. (b, p + 1 + 8)) (int8store b (p + 1) len)))"

section \<open>Packets with errors\<close>

definition CR_UNKNOWN_ERROR :: nat where "CR_UNKNOWN_ERROR = 2000"
definition CR_OUT_OF_MEMORY :: nat where "CR_OUT_OF_MEMORY = 2008"
definition CR_SERVER_LOST :: nat where "CR_SERVER_LOST = 2013"
definition CR_NET_PACKET_TOO_LARGE :: nat where "CR_NET_PACKET_TOO_LARGE = 2020"
definition CR_MALFORMED_PACKET :: nat where "CR_MALFORMED_PACKET = 2027"

definition SQLSTATE_LENGTH :: nat where "SQLSTATE_LENGTH = 5"
definition MYSQL_ERRMSG_SIZE :: nat where "MYSQL_ERRMSG_SIZE = 512"

text \<open>The text ``HY000''.\<close>

definition SQLSTATE_UNKNOWN :: bytes where "SQLSTATE_UNKNOWN = [0x48, 0x59, 0x30, 0x30, 0x30]"

text \<open>The message of the client for a number, or the text a server sent.\<close>

datatype error_text = Client_text nat | Server_text bytes

record mysql =
  my_net :: net
  my_open :: bool
  my_server_status :: u32
  my_warning_count :: nat
  my_progress :: bool
  my_report :: bool
  my_sqlstate :: bytes
  my_last_error :: error_text

definition set_errno :: "nat \<Rightarrow> mysql \<Rightarrow> mysql" where
  "set_errno e m = m\<lparr>my_net := (my_net m)\<lparr>n_last_errno := e\<rparr>, my_sqlstate := SQLSTATE_UNKNOWN,
     my_last_error := Client_text e\<rparr>"

text \<open>The connection is closed and its buffer is released.\<close>

definition end_server :: "mysql \<Rightarrow> mysql" where
  "end_server m = m\<lparr>my_open := False, my_net := (my_net m)\<lparr>n_buff := []\<rparr>\<rparr>"

text \<open>
  \<open>True\<close> for a wrong packet. The function of the user gets the \<open>proc_length\<close> bytes from \<open>p\<close> on.
\<close>

definition cli_report_progress :: "mysql \<Rightarrow> nat \<Rightarrow> nat \<Rightarrow> (unit, bool) res" where
  "cli_report_progress m packet len =
     (if len < 5 then Ok True
      else if \<not> my_report m then Ok False
      else rbind (uint3korr (n_buff (my_net m)) (packet + 3)) (\<lambda>progress.
           rbind (net_field_length (n_buff (my_net m)) (packet + 6)) (\<lambda>(proc_length, p).
             Ok (packet + len < p + proc_length))))"

text \<open>
  The SQL state and the text of an error packet, from \<open>pos\<close> on, with \<open>len\<close> already reduced by
  2. Both copies end at a zero byte.
\<close>

definition read_error :: "bytes \<Rightarrow> nat \<Rightarrow> nat \<Rightarrow> (unit, bytes \<times> bytes) res" where
  "read_error buf pos len =
     rbind (load1 buf pos) (\<lambda>c.
     rbind (if c = 0x23
            then rmap (\<lambda>(s, i). (take i s, pos + SQLSTATE_LENGTH + 1))
                   (ma_strmake (replicate (SQLSTATE_LENGTH + 1) 0) 0 buf (pos + 1) SQLSTATE_LENGTH)
            else Ok (SQLSTATE_UNKNOWN, pos)) (\<lambda>(sqlstate, pos1).
     rmap (\<lambda>(s, i). (sqlstate, take i s))
       (ma_strmake (replicate MYSQL_ERRMSG_SIZE 0) 0 buf pos1 (min len (MYSQL_ERRMSG_SIZE - 1)))))"

text \<open>The branch for an error packet: \<open>None\<close> when the packet was a progress report.\<close>

definition error_packet :: "mysql \<Rightarrow> nat \<Rightarrow> (unit, (nat \<times> mysql) option) res" where
  "error_packet m len =
     (let p = n_read_pos (my_net m);
          done = (\<lambda>m. Ok (Some (packet_error, m\<lparr>my_server_status := my_server_status m AND NOT 8\<rparr>)))
      in if 3 < len then
           rbind (uint2korr (n_buff (my_net m)) (p + 1)) (\<lambda>last_errno.
             if last_errno = 65535 \<and> my_progress m then
               rbind (cli_report_progress m (p + 3) (len - 3)) (\<lambda>wrong.
                 if wrong then Ok (Some (packet_error, set_errno CR_MALFORMED_PACKET m)) else Ok None)
             else rbind (read_error (n_buff (my_net m)) (p + 3) (len - 2)) (\<lambda>(sqlstate, msg).
                    done (m\<lparr>my_net := (my_net m)\<lparr>n_last_errno := last_errno\<rparr>, my_sqlstate := sqlstate,
                      my_last_error := Server_text msg\<rparr>)))
         else done (set_errno CR_UNKNOWN_ERROR m))"

text \<open>A packet that was returned uses up some of what is left to read.\<close>

lemma more_packets_unread: "more_packets E n len acc = Ok (len2, acc2, n2) \<Longrightarrow> len2 \<noteq> packet_error \<Longrightarrow> unread n2 \<le> unread n"
proof (induction E n len acc rule: more_packets.induct)
  case (1 E n len acc)
  show ?case
  proof (cases "len = MAX_PACKET_LENGTH")
    case False
    then show ?thesis using "1.prems" by (simp add: more_packets.simps)
  next
    case True
    let ?n = "n\<lparr>n_where_b := (n_where_b n + len) mod 2 ^ 32\<rparr>"
    obtain len1 n1 where r: "ma_real_read E ?n = Ok (len1, n1)" "more_packets E n1 len1 (acc + len) = Ok (len2, acc2, n2)"
      using "1.prems"(1) True by (subst (asm) more_packets.simps) (auto simp: res_simps)
    have "len1 \<noteq> packet_error" using r(2) "1.prems"(2) packet_error_MAX by (auto simp: more_packets.simps)
    then have "unread n1 \<le> unread ?n" using real_read_unread [OF r(1)] by simp
    moreover have "unread n2 \<le> unread n1" using "1.IH" [OF True r(1) refl r(2)] "1.prems"(2) by simp
    ultimately show ?thesis by (simp add: unread_def)
  qed
qed

lemma net_read_unread:
  assumes "ma_net_read E n = Ok (len, n')" "len \<noteq> packet_error"
  shows "unread n' < unread n"
proof -
  obtain len1 n1 where r: "ma_real_read E n = Ok (len1, n1)" using assms(1) by (auto simp: ma_net_read_def res_simps)
  obtain len2 acc2 n2 where m: "more_packets E n1 len1 0 = Ok (len2, acc2, n2)" using assms(1) r by (auto simp: ma_net_read_def res_simps Let_def)
  have l2: "len2 \<noteq> packet_error" using assms r m by (auto simp: ma_net_read_def Let_def packet_error_def)
  have u: "unread n' = unread n2"
    using assms(1) r m l2 by (auto simp: ma_net_read_def Let_def rmap_eq_Ok unread_def split: if_splits)
  have "len1 \<noteq> packet_error" using m l2 packet_error_MAX by (auto simp: more_packets.simps)
  then show ?thesis using real_read_unread [OF r] more_packets_unread [OF m l2] u by simp
qed

lemma error_packet_net: "error_packet m len = Ok (Some (l, m')) \<Longrightarrow> l = packet_error"
  by (auto simp: error_packet_def Let_def res_simps set_errno_def split: if_splits)

function ma_net_safe_read :: "alloc_env \<Rightarrow> mysql \<Rightarrow> (unit, nat \<times> mysql) res" where
  "ma_net_safe_read E m =
     rbind (if my_open m then ma_net_read E (my_net m) else Ok (0, my_net m)) (\<lambda>(len, n).
       let m1 = m\<lparr>my_net := n\<rparr>
       in if len = packet_error \<or> len = 0
          then Ok (packet_error, set_errno (if n_last_errno n = ER_NET_PACKET_TOO_LARGE then CR_NET_PACKET_TOO_LARGE else CR_SERVER_LOST) (end_server m1))
          else rbind (load1 (n_buff n) (n_read_pos n)) (\<lambda>b.
            if b = 255 then rbind (error_packet m1 len) (\<lambda>r. case r of Some e \<Rightarrow> Ok e | None \<Rightarrow> ma_net_safe_read E m1)
            else Ok (len, m1)))"
  by pat_completeness auto
termination
proof (relation "measure (\<lambda>(E, m). unread (my_net m))")
  fix E :: alloc_env and m :: mysql and a x y and xa and b :: u8 and r
  assume a: "(if my_open m then ma_net_read E (my_net m) else Ok (0, my_net m)) = Ok a" "(x, y) = a" "xa = m\<lparr>my_net := y\<rparr>"
    "\<not> (x = packet_error \<or> x = 0)"
  then have "ma_net_read E (my_net m) = Ok (x, y)" by (auto split: if_splits)
  from net_read_unread [OF this] a show "((E, xa), E, m) \<in> measure (\<lambda>(E, m). unread (my_net m))" by simp
qed simp

declare ma_net_safe_read.simps [simp del]

section \<open>Rows\<close>

text \<open>
  The loop of \<open>mthd_my_read_one_row\<close>: \<open>pos\<close>, \<open>end_pos\<close> and \<open>prev_pos\<close> are offsets in the buffer,
  \<open>k\<close> counts the remaining columns, a column is its offset and length. Differences of pointers are converted
  to \<open>unsigned long\<close> by \<open>uint_sub\<close>. \<open>None\<close> is the error exit.
\<close>

definition terminate_prev :: "bytes \<Rightarrow> nat option \<Rightarrow> (unit, bytes) res" where
  "terminate_prev buf prev = (case prev of None \<Rightarrow> Ok buf | Some q \<Rightarrow> store1 buf q 0)"

primrec one_row :: "nat \<Rightarrow> bytes \<Rightarrow> nat \<Rightarrow> nat \<Rightarrow> nat option \<Rightarrow> (nat option \<times> nat) list \<Rightarrow> (unit, (nat option \<times> nat) list option \<times> bytes) res" where
  "one_row 0 buf pos end_pos prev row = (case prev of None \<Rightarrow> UB | Some q \<Rightarrow> rmap (\<lambda>b. (Some row, b)) (store1 buf q 0))"
| "one_row (Suc k) buf pos end_pos prev row =
     rbind (net_field_length buf pos) (\<lambda>(len, p).
       if len = NULL_LENGTH
       then rbind (terminate_prev buf prev) (\<lambda>b. one_row k b p end_pos (Some p) (row @ [(None, 0)]))
       else if uint_sub end_pos p < len then Ok (None, buf)
       else rbind (terminate_prev buf prev) (\<lambda>b. one_row k b (p + len) end_pos (Some (p + len)) (row @ [(Some p, len)])))"

definition put_buff :: "bytes \<Rightarrow> mysql \<Rightarrow> mysql" where
  "put_buff b m = m\<lparr>my_net := (my_net m)\<lparr>n_buff := b\<rparr>\<rparr>"

definition end_of_data :: "mysql \<Rightarrow> (unit, mysql) res" where
  "end_of_data m =
     (let b = n_buff (my_net m); p = n_read_pos (my_net m)
      in rbind (uint2korr b (p + 1)) (\<lambda>w. rmap (\<lambda>s. m\<lparr>my_warning_count := w, my_server_status := word_of_nat s\<rparr>) (uint2korr b (p + 3))))"

text \<open>The result is -1 for an error, 1 at the end of the data and 0 with a row.\<close>

definition mthd_my_read_one_row :: "alloc_env \<Rightarrow> mysql \<Rightarrow> nat \<Rightarrow> (unit, int \<times> (nat option \<times> nat) list \<times> mysql) res" where
  "mthd_my_read_one_row E m nf =
     rbind (ma_net_safe_read E m) (\<lambda>(pkt_len, m1).
       if pkt_len = packet_error then Ok (- 1, [], m1)
       else let b = n_buff (my_net m1); p = n_read_pos (my_net m1)
            in rbind (load1 b p) (\<lambda>c.
                 if pkt_len \<le> 8 \<and> c = 254 then rmap (\<lambda>m2. (1, [], m2)) (end_of_data m1)
                 else rbind (one_row nf b p (p + pkt_len) None []) (\<lambda>(r, b').
                        case r of None \<Rightarrow> Ok (- 1, [], set_errno CR_UNKNOWN_ERROR (put_buff b' m1))
                        | Some row \<Rightarrow> Ok (0, row, put_buff b' m1))))"

text \<open>
  The loop of \<open>mthd_my_read_rows\<close> over the columns: \<open>cp\<close> is the position in the packet, \<open>t\<close> the
  position in the memory of the row, which has \<open>room\<close> bytes for the columns.
\<close>

primrec copy_row :: "nat \<Rightarrow> bytes \<Rightarrow> nat \<Rightarrow> nat \<Rightarrow> nat \<Rightarrow> bytes option list \<Rightarrow> (unit, bytes option list option) res" where
  "copy_row 0 buf cp room t row = Ok (Some row)"
| "copy_row (Suc k) buf cp room t row =
     rbind (net_field_length buf cp) (\<lambda>(len, p).
       if len = NULL_LENGTH then copy_row k buf p room t (row @ [None])
       else if uint_sub (room - 1) t < len then Ok None
       else if t + len < room
       then rbind (load_bytes buf p len) (\<lambda>bs. copy_row k buf (p + len) room (t + len + 1) (row @ [Some bs]))
       else UB)"

lemma safe_read_unread: "ma_net_safe_read E m = Ok (len, m') \<Longrightarrow> len \<noteq> packet_error \<Longrightarrow> unread (my_net m') < unread (my_net m)"
proof (induction E m rule: ma_net_safe_read.induct)
  case (1 E m)
  obtain l n where r: "(if my_open m then ma_net_read E (my_net m) else Ok (0, my_net m)) = Ok (l, n)"
    using "1.prems"(1) by (subst (asm) ma_net_safe_read.simps) (auto simp: res_simps)
  have l: "l \<noteq> packet_error" "l \<noteq> 0" using "1.prems" r by (auto simp: ma_net_safe_read.simps [of E m] Let_def split: if_splits)
  then have u: "unread n < unread (my_net m)" using r net_read_unread by (auto split: if_splits)
  obtain b where b: "load1 (n_buff n) (n_read_pos n) = (Ok b :: (unit, u8) res)"
    using "1.prems"(1) r l by (subst (asm) ma_net_safe_read.simps) (auto simp: res_simps Let_def)
  let ?m = "m\<lparr>my_net := n\<rparr>"
  have eq: "ma_net_safe_read E m = (if b = 255 then rbind (error_packet ?m l) (\<lambda>r. case r of Some e \<Rightarrow> Ok e | None \<Rightarrow> ma_net_safe_read E ?m) else Ok (l, ?m))"
    using r l b by (subst ma_net_safe_read.simps) (simp add: Let_def)
  show ?case
  proof (cases "b = 255")
    case False
    then show ?thesis using eq "1.prems" u by simp
  next
    case True
    have "rbind (error_packet ?m l) (\<lambda>r. case r of Some e \<Rightarrow> Ok e | None \<Rightarrow> ma_net_safe_read E ?m) = Ok (len, m')"
      using "1.prems"(1) unfolding eq if_P [OF True] .
    then obtain e where e: "error_packet ?m l = Ok e" "(case e of Some x \<Rightarrow> Ok x | None \<Rightarrow> ma_net_safe_read E ?m) = Ok (len, m')"
      unfolding rbind_eq_Ok by blast
    show ?thesis
    proof (cases e)
      case (Some x)
      then show ?thesis using e error_packet_net [of ?m l len m'] "1.prems"(2) by simp
    next
      case None
      then show ?thesis using "1.IH" [OF r refl refl _ b True e(1)] e(2) l "1.prems"(2) u by simp
    qed
  qed
qed

text \<open>The loop over the rows; the memory for a row has \<open>nf + pkt_len\<close> bytes for its columns.\<close>

function rows_loop :: "alloc_env \<Rightarrow> mysql \<Rightarrow> nat \<Rightarrow> nat \<Rightarrow> bytes option list list \<Rightarrow> (unit, bytes option list list option \<times> mysql) res" where
  "rows_loop E m nf pkt_len acc =
     (let b = n_buff (my_net m); cp = n_read_pos (my_net m)
      in rbind (load1 b cp) (\<lambda>c.
           if c \<noteq> 254 \<or> 8 \<le> pkt_len then
             (if \<not> (alloc_ok E 24 \<and> alloc_ok E ((nf + 1) * 8 + nf + pkt_len)) then Ok (None, set_errno CR_OUT_OF_MEMORY m)
              else rbind (copy_row nf b cp (nf + pkt_len) 0 []) (\<lambda>r. case r of
                     None \<Rightarrow> Ok (None, set_errno CR_UNKNOWN_ERROR m)
                   | Some row \<Rightarrow> rbind (ma_net_safe_read E m) (\<lambda>(len, m1).
                       if len = packet_error then Ok (None, m1) else rows_loop E m1 nf len (acc @ [row]))))
           else if 1 < pkt_len then rmap (\<lambda>m1. (Some acc, m1)) (end_of_data m)
           else Ok (Some acc, m)))"
  by pat_completeness auto
termination
  by (relation "measure (\<lambda>(E, m, nf, pkt_len, acc). unread (my_net m))") (auto dest: safe_read_unread)

declare rows_loop.simps [simp del]

definition mthd_my_read_rows :: "alloc_env \<Rightarrow> mysql \<Rightarrow> nat \<Rightarrow> (unit, bytes option list list option \<times> mysql) res" where
  "mthd_my_read_rows E m nf =
     rbind (ma_net_safe_read E m) (\<lambda>(pkt_len, m1).
       if pkt_len = packet_error then Ok (None, m1)
       else if \<not> alloc_ok E 96 then Ok (None, set_errno CR_OUT_OF_MEMORY m1)
       else rows_loop E m1 nf pkt_len [])"

section \<open>Properties of length-encoded integers\<close>

definition len_bytes :: "nat \<Rightarrow> bytes" where
  "len_bytes n = (if n < 251 then [word_of_nat n] else if n < 65536 then 252 # le_bytes 2 n
     else if n < 16777216 then 253 # le_bytes 3 n else 254 # le_bytes 8 n)"

lemma store_length_spec:
  assumes "length X = length (len_bytes n)"
  shows "mysql_net_store_length (A @ X @ B) (length A) n = Ok (A @ len_bytes n @ B, length A + length (len_bytes n))"
proof -
  obtain x Y where X: "X = x # Y" using assms by (cases X) (auto simp: len_bytes_def split: if_splits)
  have one: "store1 (A @ X @ B) (length A) c = (Ok (A @ c # Y @ B) :: ('a, bytes) res)" for c
    by (simp add: store1_def X)
  have two: "store_bytes (A @ c # Y @ B) (length A + 1) bs = (Ok (A @ c # bs @ B) :: ('a, bytes) res)" if "length Y = length bs" for c bs
    using store_bytes_mid [of "length A + 1" "A @ [c]" bs Y B] that by simp
  consider (1) "n < 251" | (2) "251 \<le> n" "n < 65536" | (3) "65536 \<le> n" "n < 16777216" | (4) "16777216 \<le> n" by linarith
  then show ?thesis
  proof cases
    case 1
    then show ?thesis using assms X one by (simp add: mysql_net_store_length_def len_bytes_def)
  next
    case 2
    then show ?thesis using assms X one two [of "le_bytes 2 n"] by (simp add: mysql_net_store_length_def len_bytes_def int2store_def)
  next
    case 3
    then show ?thesis using assms X one two [of "le_bytes 3 n"] by (simp add: mysql_net_store_length_def len_bytes_def int3store_def)
  next
    case 4
    then show ?thesis using assms X one two [of "le_bytes 8 n"] by (simp add: mysql_net_store_length_def len_bytes_def int8store_def)
  qed
qed

lemma load1_at: "load1 (A @ b # B) (length A) = Ok b"
  by (simp add: load1_def)

lemma uintN_at: "length A = i \<Longrightarrow> n = length bs \<Longrightarrow> uintN_load n (A @ bs @ B) i = Ok (le_val bs)"
  by (simp add: uintN_load_def load_bytes_mid)

lemma le_bytes_add: "le_bytes (m + k) n = le_bytes m n @ le_bytes k (n div 256 ^ m)"
  by (induction m arbitrary: n) (simp_all add: div_mult2_eq)

lemma field_length_spec:
  assumes "n < 2 ^ 32 - 1" "65536 \<le> n \<longrightarrow> B \<noteq> []"
  shows "net_field_length (A @ len_bytes n @ B) (length A) = Ok (n, length A + length (len_bytes n))"
proof -
  consider (1) "n < 251" | (2) "251 \<le> n" "n < 65536" | (3) "65536 \<le> n" "n < 16777216" | (4) "16777216 \<le> n" by linarith
  then show ?thesis
  proof cases
    case 1
    then have "unat (word_of_nat n :: u8) = n" "(word_of_nat n :: u8) < 251" by (simp_all add: unat_of_nat word_less_nat_alt)
    then show ?thesis using 1 by (simp add: net_field_length_def len_bytes_def load1_at)
  next
    case 2
    have "uintN_load 2 ((A @ [252]) @ le_bytes 2 n @ B) (length A + 1) = (Ok n :: ('a, nat) res)"
      using 2 by (subst uintN_at) (simp_all add: le_val_bytes)
    then show ?thesis using 2 by (simp add: net_field_length_def len_bytes_def load1_at uint2korr_def)
  next
    case 3
    then obtain c B' where B: "B = c # B'" using assms(2) by (cases B) auto
    have "uintN_load 4 ((A @ [253]) @ (le_bytes 3 n @ [c]) @ B') (length A + 1) = (Ok (n + 256 ^ 3 * unat c) :: ('a, nat) res)"
      using 3 by (subst uintN_at) (simp_all add: le_val_append le_val_bytes)
    then show ?thesis using 3 B by (simp add: net_field_length_def len_bytes_def load1_at uint3korr_def)
  next
    case 4
    have "le_bytes 8 n = le_bytes 4 n @ le_bytes 4 (n div 256 ^ 4)" using le_bytes_add [of 4 4 n] by simp
    moreover have "uintN_load 4 ((A @ [254]) @ le_bytes 4 n @ le_bytes 4 (n div 256 ^ 4) @ B) (length A + 1) = (Ok n :: ('a, nat) res)"
      using assms(1) by (subst uintN_at) (simp_all add: le_val_bytes)
    ultimately show ?thesis using 4 by (simp add: net_field_length_def len_bytes_def load1_at uint4korr_def)
  qed
qed

lemma field_length_ll_eq: "pos < length buf \<Longrightarrow> buf ! pos < 254 \<Longrightarrow> net_field_length_ll buf pos = net_field_length buf pos"
proof -
  have "b < 254 \<longrightarrow> \<not> b < 251 \<longrightarrow> b = 251 \<or> b = 252 \<or> b = 253" for b :: u8
    by (rule all_u8) code_simp
  then show "pos < length buf \<Longrightarrow> buf ! pos < 254 \<Longrightarrow> net_field_length_ll buf pos = net_field_length buf pos"
    by (auto simp: net_field_length_ll_def net_field_length_def load1_def)
qed

lemma field_length_ll_spec:
  assumes "n < 2 ^ 64" "65536 \<le> n \<longrightarrow> B \<noteq> []"
  shows "net_field_length_ll (A @ len_bytes n @ B) (length A) = Ok (n, length A + length (len_bytes n))"
proof (cases "n < 16777216")
  case True
  have "(A @ len_bytes n @ B) ! length A < 254" using True
    by (auto simp: len_bytes_def nth_append word_less_nat_alt unat_of_nat)
  moreover have "length A < length (A @ len_bytes n @ B)" by (simp add: len_bytes_def)
  ultimately have "net_field_length_ll (A @ len_bytes n @ B) (length A) = (net_field_length (A @ len_bytes n @ B) (length A) :: ('a, nat \<times> nat) res)"
    by (intro field_length_ll_eq)
  then show ?thesis using field_length_spec [of n B A] assms(2) True by simp
next
  case False
  have "uintN_load 8 ((A @ [254]) @ le_bytes 8 n @ B) (length A + 1) = (Ok n :: ('a, nat) res)"
    using assms(1) by (subst uintN_at) (simp_all add: le_val_bytes)
  then show ?thesis using False by (simp add: net_field_length_ll_def len_bytes_def load1_at uint8korr_def)
qed

section \<open>Properties of rows\<close>

text \<open>The packet a server sends for a row, and for the end of the data.\<close>

definition col_bytes :: "bytes option \<Rightarrow> bytes" where
  "col_bytes c = (case c of None \<Rightarrow> [251] | Some bs \<Rightarrow> len_bytes (length bs) @ bs)"

definition row_bytes :: "bytes option list \<Rightarrow> bytes" where
  "row_bytes cols = concat (map col_bytes cols)"

lemma row_bytes_Cons [simp]: "row_bytes (c # cols) = col_bytes c @ row_bytes cols" "row_bytes [] = []"
  by (simp_all add: row_bytes_def)

lemma len_bytes_not_Nil: "len_bytes n \<noteq> []" "0 < length (len_bytes n)"
  by (simp_all add: len_bytes_def)

text \<open>Reading the length of a column leads to its first byte; the column fits.\<close>

lemma column_length:
  assumes "length (col_bytes c) < 2 ^ 32 - 1"
  shows "net_field_length (A @ col_bytes c @ B) (length A)
    = Ok (case c of None \<Rightarrow> (NULL_LENGTH, length A + 1) | Some bs \<Rightarrow> (length bs, length A + length (len_bytes (length bs))))"
proof (cases c)
  case None
  then show ?thesis by (simp add: net_field_length_def col_bytes_def load1_at)
next
  case (Some bs)
  have "length bs < 2 ^ 32 - 1" using assms Some len_bytes_not_Nil(2) [of "length bs"] by (simp add: col_bytes_def)
  moreover have "65536 \<le> length bs \<longrightarrow> bs @ B \<noteq> []" by auto
  ultimately show ?thesis using field_length_spec [of "length bs" "bs @ B" A] Some by (simp add: col_bytes_def)
qed

text \<open>Copying a row.\<close>

lemma copy_row_spec:
  assumes "length (row_bytes cols) < 2 ^ 32 - 1"
    and "t + length (row_bytes cols) < room" "room < 2 ^ 32"
  shows "copy_row (length cols) (A @ row_bytes cols @ B) (length A) room t row = Ok (Some (row @ cols))"
  using assms
proof (induction cols arbitrary: A t row)
  case (Cons c cols)
  let ?buf = "A @ row_bytes (c # cols) @ B"
  have f: "net_field_length ?buf (length A)
      = (Ok (case c of None \<Rightarrow> (NULL_LENGTH, length A + 1) | Some bs \<Rightarrow> (length bs, length A + length (len_bytes (length bs)))) :: (unit, nat \<times> nat) res)"
    using column_length [of c A "row_bytes cols @ B"] Cons.prems by simp
  show ?case
  proof (cases c)
    case None
    have "copy_row (length cols) ((A @ [251]) @ row_bytes cols @ B) (length (A @ [251])) room t (row @ [None]) = Ok (Some ((row @ [None]) @ cols))"
      using Cons.prems None by (intro Cons.IH) (simp_all add: col_bytes_def)
    then show ?thesis using f None by (simp add: col_bytes_def)
  next
    case (Some bs)
    let ?l = "len_bytes (length bs)"
    obtain j where l: "length ?l = Suc j" using len_bytes_not_Nil(2) [of "length bs"] gr0_implies_Suc by blast
    have n: "length bs \<noteq> NULL_LENGTH" using Cons.prems Some by (simp add: NULL_LENGTH_def col_bytes_def)
    have u: "uint_sub (room - 1) t = room - 1 - t" using Cons.prems by (intro uint_sub_small) auto
    have fit: "\<not> room - 1 - t < length bs" "t + length bs < room" using Cons.prems Some by (simp_all add: col_bytes_def)
    have ld: "load_bytes ?buf (length A + length ?l) (length bs) = (Ok bs :: (unit, bytes) res)"
      using load_bytes_mid [of "length A + length ?l" "A @ ?l" "length bs" bs "row_bytes cols @ B"] Some by (simp add: col_bytes_def)
    have "copy_row (length cols) ((A @ ?l @ bs) @ row_bytes cols @ B) (length (A @ ?l @ bs)) room (t + length bs + 1) (row @ [Some bs])
        = Ok (Some ((row @ [Some bs]) @ cols))"
      using Cons.prems Some l by (intro Cons.IH) (simp_all add: col_bytes_def)
    then show ?thesis using f Some n u fit ld by (simp add: col_bytes_def add.assoc)
  qed
qed simp

section \<open>Whole results\<close>

lemma load1_hd: "d \<noteq> [] \<Longrightarrow> load1 (A @ d @ B) (length A) = Ok (hd d)"
  by (cases d) (simp_all add: load1_at)

lemma safe_read_packet:
  assumes ok: "my_open m" "net_ok (my_net m)" "lively (n_pvio (my_net m))" "\<forall>k. alloc_ok E k"
    and p: "pending (n_pvio (my_net m)) = packets nr data @ rest" "length data < n_max_packet_size (my_net m)" "data \<noteq> []" "hd data \<noteq> 255"
  shows "\<exists>n A B. ma_net_safe_read E m = Ok (length data, m\<lparr>my_net := n\<rparr>) \<and> net_ok n \<and> lively (n_pvio n) \<and> pending (n_pvio n) = rest
    \<and> n_max_packet_size n = n_max_packet_size (my_net m) \<and> n_buff n = A @ data @ 0 # B \<and> length A = n_read_pos n \<and> length data \<noteq> packet_error"
proof -
  obtain n where n: "ma_net_read E (my_net m) = Ok (length data, n)" "net_ok n" "lively (n_pvio n)" "pending (n_pvio n) = rest"
      "take (length data) (drop (n_read_pos n) (n_buff n)) = data" "n_buff n ! (n_read_pos n + length data) = 0"
      "n_read_pos n + length data < length (n_buff n)" "n_max_packet_size n = n_max_packet_size (my_net m)"
    using net_read_message [OF ok(2-4) p(1,2)] by blast
  let ?p = "n_read_pos n"
  have "n_buff n = take (?p + length data) (n_buff n) @ n_buff n ! (?p + length data) # drop (Suc (?p + length data)) (n_buff n)"
    using n(7) by (rule id_take_nth_drop)
  then have b: "n_buff n = take ?p (n_buff n) @ data @ 0 # drop (Suc (?p + length data)) (n_buff n)" using n(5,6) by (simp add: take_add)
  have l: "length (take ?p (n_buff n)) = ?p" using n(7) by simp
  have ne: "length data \<noteq> packet_error" using p(2) ok(2) by (auto simp: net_ok_def read_ready_def sized_def packet_error_def)
  have "load1 (n_buff n) ?p = (Ok (hd data) :: (unit, u8) res)"
  proof -
    have "0 < length data" using p(3) by simp
    then have "n_buff n ! ?p = hd data" using n(5,7) nth_take [of 0 "length data" "drop ?p (n_buff n)"] p(3) by (simp add: hd_conv_nth)
    then show ?thesis using n(7) by (simp add: load1_def)
  qed
  then have "ma_net_safe_read E m = Ok (length data, m\<lparr>my_net := n\<rparr>)"
    using n(1) ok(1) p(3,4) ne by (subst ma_net_safe_read.simps) (simp add: Let_def)
  then show ?thesis using n b l ne by blast
qed

lemma row_bytes_start:
  assumes "cols \<noteq> []"
  shows "row_bytes cols \<noteq> []" "hd (row_bytes cols) \<noteq> 255" "hd (row_bytes cols) = 254 \<Longrightarrow> 8 < length (row_bytes cols)"
proof -
  obtain c cs where c: "cols = c # cs" using assms by (cases cols) auto
  have "(word_of_nat n :: u8) \<noteq> 255 \<and> (word_of_nat n :: u8) \<noteq> 254" if "n < 251" for n
  proof -
    have "unat (word_of_nat n :: u8) = n" using that by (simp add: unat_of_nat)
    then show ?thesis using that by auto
  qed
  then show "row_bytes cols \<noteq> []" "hd (row_bytes cols) \<noteq> 255" "hd (row_bytes cols) = 254 \<Longrightarrow> 8 < length (row_bytes cols)"
    by (auto simp: c col_bytes_def len_bytes_def split: option.splits if_splits)
qed

definition eof_bytes :: "nat \<Rightarrow> nat \<Rightarrow> bytes" where
  "eof_bytes warnings status = 254 # le_bytes 2 warnings @ le_bytes 2 status"

text \<open>The bytes of a result: a message per row and one for the end, with any packet numbers.\<close>

definition result_bytes :: "u32 list \<Rightarrow> bytes option list list \<Rightarrow> nat \<Rightarrow> nat \<Rightarrow> bytes" where
  "result_bytes nrs rows w s = concat (map2 packets nrs (map row_bytes rows @ [eof_bytes w s]))"

definition good_rows :: "nat \<Rightarrow> nat \<Rightarrow> bytes option list list \<Rightarrow> bool" where
  "good_rows nf limit rows \<longleftrightarrow> 0 < nf \<and> 5 < limit \<and> limit + nf < 2 ^ 32 \<and> list_all (\<lambda>r. length r = nf \<and> length (row_bytes r) < limit) rows"

definition held :: "mysql \<Rightarrow> nat \<Rightarrow> bytes \<Rightarrow> bool" where
  "held m limit rest \<longleftrightarrow> my_open m \<and> net_ok (my_net m) \<and> lively (n_pvio (my_net m)) \<and> pending (n_pvio (my_net m)) = rest
     \<and> n_max_packet_size (my_net m) = limit"

text \<open>One message of a result, and the loop that is entered with it in the buffer.\<close>

lemma held_read:
  assumes h: "held m limit (packets nr data @ rest)" and "\<forall>k. alloc_ok E k" "length data < limit" "data \<noteq> []" "hd data \<noteq> 255"
  shows "\<exists>n A B. ma_net_safe_read E m = Ok (length data, m\<lparr>my_net := n\<rparr>) \<and> held (m\<lparr>my_net := n\<rparr>) limit rest
    \<and> n_buff n = A @ data @ 0 # B \<and> length A = n_read_pos n \<and> length data \<noteq> packet_error"
  using safe_read_packet [of m E nr data rest] assms by (fastforce simp: held_def)

lemma end_of_data_spec:
  assumes "n_buff (my_net m) = A @ eof_bytes w s @ B" "length A = n_read_pos (my_net m)" "w < 65536" "s < 65536"
  shows "end_of_data m = Ok (m\<lparr>my_warning_count := w, my_server_status := word_of_nat s\<rparr>)"
proof -
  have "uintN_load 2 ((A @ [254]) @ le_bytes 2 w @ le_bytes 2 s @ B) (length A + 1) = (Ok w :: (unit, nat) res)"
    using assms(3) by (subst uintN_at) (simp_all add: le_val_bytes)
  moreover have "uintN_load 2 ((A @ [254] @ le_bytes 2 w) @ le_bytes 2 s @ B) (length A + 3) = (Ok s :: (unit, nat) res)"
    using assms(4) by (subst uintN_at) (simp_all add: le_val_bytes)
  ultimately show ?thesis using assms(1,2) by (simp add: end_of_data_def eof_bytes_def uint2korr_def)
qed

lemma rows_loop_spec:
  assumes E: "\<forall>k. alloc_ok E k" and ws: "w < 65536" "s < 65536"
    and "good_rows nf limit rows" "length nrs = length rows"
    and "map row_bytes rows @ [eof_bytes w s] = d # ds" "held m limit (concat (map2 packets nrs ds) @ rest)"
    and "n_buff (my_net m) = A @ d @ 0 # B" "length A = n_read_pos (my_net m)"
  shows "\<exists>m'. rows_loop E m nf (length d) acc = Ok (Some (acc @ rows), m') \<and> held m' limit rest \<and> my_warning_count m' = w
    \<and> my_server_status m' = word_of_nat s"
  using assms(4-)
proof (induction rows arbitrary: m nrs d ds A B acc)
  case Nil
  then have d: "d = eof_bytes w s" "ds = []" by simp_all
  have "load1 (n_buff (my_net m)) (n_read_pos (my_net m)) = (Ok 254 :: (unit, u8) res)"
    using Nil.prems(5,6) d load1_at [of A 254] by (simp add: eof_bytes_def)
  moreover have "length d = 5" by (simp add: d eof_bytes_def)
  moreover have e: "end_of_data m = Ok (m\<lparr>my_warning_count := w, my_server_status := word_of_nat s\<rparr>)"
    using end_of_data_spec [of m A w s "0 # B"] Nil.prems(5,6) d ws by simp
  ultimately have "rows_loop E m nf (length d) acc = Ok (Some acc, m\<lparr>my_warning_count := w, my_server_status := word_of_nat s\<rparr>)"
    by (subst rows_loop.simps) (simp add: Let_def)
  then show ?case using Nil.prems(4) d by (simp add: held_def)
next
  case (Cons r rows)
  have d: "d = row_bytes r" "ds = map row_bytes rows @ [eof_bytes w s]" using Cons.prems(3) by simp_all
  obtain nr nrs' where nrs: "nrs = nr # nrs'" "length nrs' = length rows" using Cons.prems(2) by (cases nrs) auto
  have "ds \<noteq> []" using d(2) by simp
  then obtain d' ds' where ds: "ds = d' # ds'" unfolding neq_Nil_conv by blast
  have g: "length r = nf" "length (row_bytes r) < limit" "0 < nf" "limit + nf < 2 ^ 32" "good_rows nf limit rows" "5 < limit"
    using Cons.prems(1) by (simp_all add: good_rows_def)
  have r0: "r \<noteq> []" using g by auto
  note st = row_bytes_start [OF r0]
  have l1: "load1 (n_buff (my_net m)) (n_read_pos (my_net m)) = (Ok (hd d) :: (unit, u8) res)"
    using Cons.prems(5,6) d(1) st(1) load1_hd [of d A "0 # B"] by simp
  have cp: "copy_row nf (n_buff (my_net m)) (n_read_pos (my_net m)) (nf + length d) 0 [] = Ok (Some r)"
    using copy_row_spec [of r 0 "nf + length d" A "0 # B" "[]"] g d(1) Cons.prems(5,6) by simp
  have "d' \<noteq> [] \<and> hd d' \<noteq> 255 \<and> length d' < limit"
  proof (cases rows)
    case Nil
    then show ?thesis using d(2) ds g(6) by (auto simp: eof_bytes_def)
  next
    case (Cons r' rs)
    then have "d' = row_bytes r'" "length r' = nf" "length (row_bytes r') < limit" using d(2) ds g(5) by (auto simp: good_rows_def)
    then show ?thesis using row_bytes_start [of r'] g(3) by auto
  qed
  then obtain n A' B' where n: "ma_net_safe_read E m = Ok (length d', m\<lparr>my_net := n\<rparr>)" "held (m\<lparr>my_net := n\<rparr>) limit (concat (map2 packets nrs' ds') @ rest)"
      "n_buff n = A' @ d' @ 0 # B'" "length A' = n_read_pos n" "length d' \<noteq> packet_error"
    using held_read [of m limit nr d' "concat (map2 packets nrs' ds') @ rest" E] Cons.prems(4) E ds nrs by auto
  have "rows_loop E m nf (length d) acc = rows_loop E (m\<lparr>my_net := n\<rparr>) nf (length d') (acc @ [r])"
    using l1 cp n(1,5) E st(3) d(1) by (subst rows_loop.simps) (auto simp: Let_def)
  moreover obtain m' where "rows_loop E (m\<lparr>my_net := n\<rparr>) nf (length d') (acc @ [r]) = Ok (Some ((acc @ [r]) @ rows), m')" "held m' limit rest"
      "my_warning_count m' = w" "my_server_status m' = word_of_nat s"
    using Cons.IH [OF g(5) nrs(2), of d' ds' "m\<lparr>my_net := n\<rparr>" A' B' "acc @ [r]"] n d(2) ds by auto
  ultimately show ?case by auto
qed

text \<open>
  C8. \<open>mthd_my_read_rows\<close> returns exactly the rows the server sent, NULL and empty columns told apart,
  however the connection cuts the bytes, stops at the end packet, and takes the warning count
  and the status from it; what follows the result stays on the connection.
\<close>
theorem result_read:
  assumes "\<forall>k. alloc_ok E k" "w < 65536" "s < 65536" "good_rows nf limit rows" "length nrs = length rows + 1"
    and h: "held m limit (result_bytes nrs rows w s @ rest)"
  shows "\<exists>m'. mthd_my_read_rows E m nf = Ok (Some rows, m') \<and> held m' limit rest \<and> my_warning_count m' = w \<and> my_server_status m' = word_of_nat s"
proof -
  obtain d ds where d: "map row_bytes rows @ [eof_bytes w s] = d # ds" by (cases "map row_bytes rows @ [eof_bytes w s]") auto
  obtain nr nrs' where nrs: "nrs = nr # nrs'" "length nrs' = length rows" using assms(5) by (cases nrs) auto
  have "d \<noteq> [] \<and> hd d \<noteq> 255 \<and> length d < limit"
  proof (cases rows)
    case Nil
    then show ?thesis using d assms(4) by (auto simp: eof_bytes_def good_rows_def)
  next
    case (Cons r rs)
    then show ?thesis using d assms(4) row_bytes_start [of r] by (auto simp: good_rows_def)
  qed
  then obtain n A B where n: "ma_net_safe_read E m = Ok (length d, m\<lparr>my_net := n\<rparr>)" "held (m\<lparr>my_net := n\<rparr>) limit (concat (map2 packets nrs' ds) @ rest)"
      "n_buff n = A @ d @ 0 # B" "length A = n_read_pos n" "length d \<noteq> packet_error"
    using held_read [of m limit nr d "concat (map2 packets nrs' ds) @ rest" E] h d nrs assms(1) by (auto simp: result_bytes_def)
  then show ?thesis
    using rows_loop_spec [OF assms(1-4) nrs(2) d n(2), of A B "[]"] assms(1) by (simp add: mthd_my_read_rows_def)
qed

section \<open>One row in the packet buffer\<close>

text \<open>Each column is where the row says, followed by a zero byte.\<close>

definition column_at :: "bytes \<Rightarrow> nat option \<times> nat \<Rightarrow> bytes option \<Rightarrow> bool" where
  "column_at buf pl c \<longleftrightarrow> (case c of None \<Rightarrow> pl = (None, 0)
     | Some bs \<Rightarrow> (\<exists>p. pl = (Some p, length bs) \<and> p + length bs < length buf \<and> take (length bs) (drop p buf) = bs \<and> buf ! (p + length bs) = 0))"

definition row_at :: "bytes \<Rightarrow> (nat option \<times> nat) list \<Rightarrow> bytes option list \<Rightarrow> bool" where
  "row_at buf row cols \<longleftrightarrow> list_all2 (column_at buf) row cols"

lemma terminate_prev_spec:
  assumes "prev = None \<or> prev = Some (length P)"
  shows "\<exists>z. terminate_prev (P @ y # Y) prev = Ok (P @ z # Y) \<and> (prev \<noteq> None \<longrightarrow> z = 0)"
  using assms by (auto simp: terminate_prev_def store1_def)

lemma one_row_spec:
  assumes "length (row_bytes cols) < 2 ^ 32 - 1" "prev = Some (length P) \<or> prev = None \<and> cols \<noteq> []"
  shows "\<exists>row' X. one_row (length cols) (P @ row_bytes cols @ z # B) (length P) (length P + length (row_bytes cols)) prev row
      = Ok (Some (row @ row'), P @ X) \<and> length X = length (row_bytes cols) + Suc (length B)
      \<and> row_at (P @ X) row' cols \<and> (prev \<noteq> None \<longrightarrow> X ! 0 = 0)"
  using assms
proof (induction cols arbitrary: P prev row)
  case Nil
  then show ?case by (auto simp: store1_def row_at_def intro!: exI [of _ "0 # B"])
next
  case (Cons c cols)
  let ?stop = "length P + length (row_bytes (c # cols))"
  define L where "L = (case c of None \<Rightarrow> [251] | Some bs \<Rightarrow> len_bytes (length bs))"
  define bs where "bs = (case c of None \<Rightarrow> [] | Some bs \<Rightarrow> bs)"
  have cb: "col_bytes c = L @ bs" by (simp add: col_bytes_def L_def bs_def split: option.splits)
  obtain y Y where L: "L = y # Y" unfolding L_def using len_bytes_not_Nil(1) by (cases L) (auto simp: L_def split: option.splits)
  obtain z' where t: "terminate_prev (P @ y # Y @ bs @ row_bytes cols @ z # B) prev = Ok (P @ z' # Y @ bs @ row_bytes cols @ z # B)"
      "prev \<noteq> None \<longrightarrow> z' = 0"
    using terminate_prev_spec [of prev P y "Y @ bs @ row_bytes cols @ z # B"] Cons.prems(2) by auto
  let ?P = "P @ z' # Y @ bs"
  obtain row' X where ih: "one_row (length cols) (?P @ row_bytes cols @ z # B) (length ?P) (length ?P + length (row_bytes cols)) (Some (length ?P))
        (row @ [(map_option (\<lambda>_. length P + length L) c, length bs)])
      = Ok (Some ((row @ [(map_option (\<lambda>_. length P + length L) c, length bs)]) @ row'), ?P @ X)"
      "length X = length (row_bytes cols) + Suc (length B)" "row_at (?P @ X) row' cols" "X ! 0 = 0"
    using Cons.IH [of "Some (length ?P)" ?P "row @ [(map_option (\<lambda>_. length P + length L) c, length bs)]"] Cons.prems(1) cb by auto
  have f: "net_field_length (P @ L @ bs @ row_bytes cols @ z # B) (length P)
      = (Ok (case c of None \<Rightarrow> (NULL_LENGTH, length P + 1) | Some bs \<Rightarrow> (length bs, length P + length (len_bytes (length bs)))) :: (unit, nat \<times> nat) res)"
    using column_length [of c P "row_bytes cols @ z # B"] Cons.prems(1) cb by simp
  have "one_row (length (c # cols)) (P @ row_bytes (c # cols) @ z # B) (length P) ?stop prev row
      = one_row (length cols) (?P @ row_bytes cols @ z # B) (length ?P) ?stop (Some (length ?P)) (row @ [(map_option (\<lambda>_. length P + length L) c, length bs)])"
  proof (cases c)
    case None
    then show ?thesis using f t cb L by (simp add: L_def bs_def)
  next
    case (Some v)
    have v: "bs = v" "length (len_bytes (length v)) = Suc (length Y)" "col_bytes c = L @ v"
      using Some cb L by (simp_all add: bs_def L_def)
    have l: "length (row_bytes (c # cols)) = length L + length v + length (row_bytes cols)" using v by simp
    have "length v \<noteq> NULL_LENGTH" using Cons.prems(1) l by (simp add: NULL_LENGTH_def)
    moreover have "uint_sub ?stop (length P + length L) = length v + length (row_bytes cols)"
      using Cons.prems(1) l by (subst uint_sub_small) simp_all
    ultimately show ?thesis using f t v L Some by (simp add: add.assoc)
  qed
  then have "one_row (length (c # cols)) (P @ row_bytes (c # cols) @ z # B) (length P) ?stop prev row
      = Ok (Some (row @ (map_option (\<lambda>_. length P + length L) c, length bs) # row'), P @ z' # Y @ bs @ X)"
    using ih(1) cb L by (simp add: add.assoc)
  moreover have "column_at (P @ z' # Y @ bs @ X) (map_option (\<lambda>_. length P + length L) c, length bs) c"
    using ih(2,4) L by (cases c) (auto simp: column_at_def bs_def nth_append)
  ultimately show ?case using ih(2,3) t(2) cb L by (fastforce simp: row_at_def)
qed

lemma held_put_buff: "held m limit rest \<Longrightarrow> length b = length (n_buff (my_net m)) \<Longrightarrow> held (put_buff b m) limit rest"
  by (simp add: held_def put_buff_def net_ok_def read_ready_def sized_def)

text \<open>
  C16. \<open>mthd_my_read_one_row\<close> leaves every column of the row in the packet buffer, at the position and
  with the length it reports and with a zero byte after it, although these zero bytes overwrite
  the length bytes of the next columns.
\<close>
theorem one_row_read:
  assumes "\<forall>k. alloc_ok E k" "good_rows nf limit [r]" "held m limit (packets nr (row_bytes r) @ rest)"
  shows "\<exists>row m'. mthd_my_read_one_row E m nf = Ok (0, row, m') \<and> row_at (n_buff (my_net m')) row r \<and> held m' limit rest"
proof -
  have g: "length r = nf" "r \<noteq> []" "length (row_bytes r) < limit" "limit + nf < 2 ^ 32" using assms(2) by (auto simp: good_rows_def)
  note st = row_bytes_start [OF g(2)]
  obtain n A B where n: "ma_net_safe_read E m = Ok (length (row_bytes r), m\<lparr>my_net := n\<rparr>)" "held (m\<lparr>my_net := n\<rparr>) limit rest"
      "n_buff n = A @ row_bytes r @ 0 # B" "length A = n_read_pos n" "length (row_bytes r) \<noteq> packet_error"
    using held_read [OF assms(3,1) g(3) st(1,2)] by blast
  have l: "load1 (n_buff n) (n_read_pos n) = (Ok (hd (row_bytes r)) :: (unit, u8) res)"
    using load1_hd [OF st(1), of A "0 # B"] n(3,4) by simp
  obtain row X where r: "one_row nf (n_buff n) (n_read_pos n) (n_read_pos n + length (row_bytes r)) None [] = Ok (Some row, A @ X)"
      "length X = length (row_bytes r) + Suc (length B)" "row_at (A @ X) row r"
    using one_row_spec [of r None A 0 B "[]"] g n(3,4) by auto
  have "mthd_my_read_one_row E m nf = Ok (0, row, put_buff (A @ X) (m\<lparr>my_net := n\<rparr>))"
    using n(1,5) l r(1) st(3) by (auto simp: mthd_my_read_one_row_def Let_def)
  moreover have "held (put_buff (A @ X) (m\<lparr>my_net := n\<rparr>)) limit rest" using n(2,3) r(2) by (intro held_put_buff) simp_all
  moreover have "row_at (n_buff (my_net (put_buff (A @ X) (m\<lparr>my_net := n\<rparr>)))) row r" using r(3) by (simp add: put_buff_def)
  ultimately show ?thesis by blast
qed

section \<open>Safety and limits\<close>

lemma strmake_bounded:
  assumes "j + n \<le> length src" "i + n < length dst"
  shows "\<exists>r. ma_strmake dst i src j n = (Ok r :: (unit, bytes \<times> nat) res)"
  using assms by (induction n arbitrary: dst i j) (auto simp: mem_simps)

lemma strmake_zero:
  assumes "j \<le> k" "k < length src" "src ! k = 0" "i + n < length dst"
  shows "\<exists>r. ma_strmake dst i src j n = (Ok r :: (unit, bytes \<times> nat) res)"
  using assms
proof (induction n arbitrary: dst i j)
  case (Suc n)
  then show ?case by (cases "j = k") (auto simp: mem_simps)
qed (auto simp: mem_simps)

text \<open>
  A short packet can end before the text it is supposed to have. The copy of the text then
  starts behind the zero byte at the end of the packet, but ends within the first 16 bytes.
\<close>

lemma read_error_safe:
  assumes "3 < len" "len < length buf" "buf ! len = 0" "16 \<le> length buf"
  shows "\<exists>r. read_error buf 3 (len - 2) = Ok r"
proof -
  have state: "\<exists>r. ma_strmake (replicate 6 0) 0 buf 4 5 = (Ok r :: (unit, bytes \<times> nat) res)"
    using assms by (intro strmake_zero [of _ len]) auto
  have msg: "\<exists>r. ma_strmake (replicate 512 0) 0 buf q (min (len - 2) 511) = (Ok r :: (unit, bytes \<times> nat) res)"
    if "q \<le> 9" for q
  proof (cases "q \<le> len")
    case True
    then show ?thesis using assms by (intro strmake_zero [of _ len]) auto
  next
    case False
    then show ?thesis using assms that by (intro strmake_bounded) auto
  qed
  show ?thesis
    using state msg [of 3] msg [of 9] assms
    by (auto simp: read_error_def SQLSTATE_LENGTH_def MYSQL_ERRMSG_SIZE_def mem_simps simp del: ma_strmake.simps)
qed

lemma report_safe:
  assumes "n_read_pos (my_net m) = 0" "16 \<le> length (n_buff (my_net m))"
  shows "\<exists>wrong. cli_report_progress m 3 len = Ok wrong"
  using assms
  by (auto simp: cli_report_progress_def uint3korr_def uint2korr_def uint4korr_def uintN_load_def load_bytes_def
      net_field_length_def load1_def)

lemma error_packet_safe:
  assumes "n_read_pos (my_net m) = 0" "16 \<le> length (n_buff (my_net m))"
    "len < length (n_buff (my_net m))" "n_buff (my_net m) ! len = 0"
  shows "\<exists>r. error_packet m len = Ok r"
proof -
  obtain wrong where "cli_report_progress m 3 (len - 3) = Ok wrong" using report_safe [OF assms(1,2)] by blast
  moreover have "\<exists>v. uint2korr (n_buff (my_net m)) 1 = (Ok v :: (unit, nat) res)"
    using assms(2) by (simp add: uint2korr_def uintN_load_def load_bytes_def)
  moreover have "\<exists>r. read_error (n_buff (my_net m)) 3 (len - 2) = Ok r" if "3 < len"
    using read_error_safe [OF that assms(3,4,2)] .
  ultimately show ?thesis using assms(1) by (auto simp: error_packet_def Let_def)
qed

text \<open>
  C17. On a connection in order (\<open>net_ok\<close>) \<open>ma_net_safe_read\<close> returns, whatever the server sends, also an unlimited number of progress
  reports, whether the connection handles them or not, and never leaves the packet buffer: not
  for the packet, not for a progress report and not for the SQL state and the text of an error.
  Unless it reports an error, the packet is not empty, not an error packet, and has a zero byte
  after it. The buffer has at least 16 bytes (\<open>roomy\<close>; \<open>ma_net_init\<close> allocates 8192), because
  short error packets and progress reports are read up to 15 bytes far whatever their length.
\<close>
theorem safe_read_returns:
  assumes "net_ok (my_net m)" "roomy (my_net m)"
  shows "\<exists>len m'. ma_net_safe_read E m = Ok (len, m') \<and>
    (len \<noteq> packet_error \<longrightarrow> 0 < len \<and> my_open m' \<and> net_ok (my_net m') \<and> roomy (my_net m') \<and> n_buff (my_net m') ! n_read_pos (my_net m') \<noteq> 255
       \<and> n_read_pos (my_net m') + len < length (n_buff (my_net m')) \<and> n_buff (my_net m') ! (n_read_pos (my_net m') + len) = 0)"
  using assms
proof (induction E m rule: ma_net_safe_read.induct)
  case (1 E m)
  show ?case
  proof (cases "my_open m")
    case False
    then show ?thesis by (subst ma_net_safe_read.simps) (simp add: Let_def)
  next
    case True
    obtain len n where n: "ma_net_read E (my_net m) = Ok (len, n)" "net_ok n"
        "len \<noteq> packet_error \<longrightarrow> n_read_pos n + len < length (n_buff n) \<and> n_buff n ! (n_read_pos n + len) = 0"
      using net_read_ready [OF "1.prems"(1)] by blast
    have rm: "roomy n" "n_read_pos n = 0"
      using net_read_roomy [OF n(1) "1.prems"(2)] "1.prems"(1) by (simp_all add: net_ok_def)
    let ?m = "m\<lparr>my_net := n\<rparr>"
    show ?thesis
    proof (cases "len = packet_error \<or> len = 0")
      case err: True
      then show ?thesis using n True by (subst ma_net_safe_read.simps) (simp add: Let_def)
    next
      case len: False
      then have b: "load1 (n_buff n) (n_read_pos n) = (Ok (n_buff n ! n_read_pos n) :: (unit, u8) res)" using n(3) by (simp add: load1_def)
      have eq: "ma_net_safe_read E m = (if n_buff n ! n_read_pos n = 255
          then rbind (error_packet ?m len) (\<lambda>r. case r of Some e \<Rightarrow> Ok e | None \<Rightarrow> ma_net_safe_read E ?m) else Ok (len, ?m))"
        using n len b True by (subst ma_net_safe_read.simps) (simp add: Let_def)
      obtain r where r: "error_packet ?m len = Ok r"
        using error_packet_safe [of ?m len] n(3) len rm by (auto simp: roomy_def)
      show ?thesis
      proof (cases "n_buff n ! n_read_pos n = 255")
        case False
        then show ?thesis using eq n len True rm by simp
      next
        case e: True
        have o: "(if my_open m then ma_net_read E (my_net m) else Ok (0, my_net m)) = Ok (len, n)" using n(1) True by simp
        show ?thesis
        proof (cases r)
          case None
          have "\<exists>len m'. ma_net_safe_read E ?m = Ok (len, m') \<and>
            (len \<noteq> packet_error \<longrightarrow> 0 < len \<and> my_open m' \<and> net_ok (my_net m') \<and> roomy (my_net m') \<and> n_buff (my_net m') ! n_read_pos (my_net m') \<noteq> 255
              \<and> n_read_pos (my_net m') + len < length (n_buff (my_net m')) \<and> n_buff (my_net m') ! (n_read_pos (my_net m') + len) = 0)"
            using "1.IH" [OF o refl refl len b e r None] n(2) rm(1) by simp
          then show ?thesis using eq e r None by simp
        next
          case (Some x)
          then show ?thesis using eq e r error_packet_net [of ?m len "fst x" "snd x"] by (cases x) auto
        qed
      qed
    qed
  qed
qed

text \<open>
  What the progress handler gets lies in the packet: the check of \<open>cli_report_progress\<close> holds
  for the bytes behind the length it has read.
\<close>

lemma report_in_packet:
  assumes "cli_report_progress m packet len = Ok False" "my_report m"
  shows "\<exists>proc_length p. net_field_length (n_buff (my_net m)) (packet + 6) = (Ok (proc_length, p) :: (unit, nat \<times> nat) res)
    \<and> p + proc_length \<le> packet + len"
  using assms by (auto simp: cli_report_progress_def res_simps split: if_splits)

text \<open>
  An error packet of four bytes that ends with the mark of an SQL state: the text is copied from
  behind the packet, so the message shows bytes an earlier packet left in the buffer.
\<close>

lemma error_text_stale:
  "read_error [0xFF, 1, 4, 0x23, 0, 7, 7, 7, 7, 0x70, 0x77, 0, 0, 0, 0, 0] 3 (4 - 2) = Ok ([], [0x70, 0x77])"
  by code_simp

text \<open>
  Length-encoded integers: what \<open>mysql_net_store_length\<close> stores, \<open>net_field_length\<close> and \<open>net_field_length_ll\<close>
  read back, and all leave the same position. The value \<open>NULL_LENGTH\<close> itself is excluded.
\<close>
theorem length_roundtrip:
  assumes "n < 2 ^ 32 - 1" "length X = length (len_bytes n)" "B \<noteq> []"
  shows "\<exists>buf q. mysql_net_store_length (A @ X @ B) (length A) n = (Ok (buf, q) :: (unit, bytes \<times> nat) res) \<and> drop q buf = B \<and> take (length A) buf = A
    \<and> net_field_length buf (length A) = (Ok (n, q) :: (unit, nat \<times> nat) res) \<and> net_field_length_ll buf (length A) = (Ok (n, q) :: (unit, nat \<times> nat) res)"
  using store_length_spec [OF assms(2), of A B] field_length_spec [of n B A] field_length_ll_spec [of n B A] assms(1,3)
  by (intro exI [of _ "A @ len_bytes n @ B"] exI [of _ "length A + length (len_bytes n)"]) simp

text \<open>
  C40. The bound on the columns of a row can be passed. A packet of one byte with the value 2, read as
  a row of two columns, fills the memory of the row with its first column; the difference
  \<open>end_to - to\<close> is then -1, as an unsigned number larger than every length, and the second column is
  written behind the memory of the row.
\<close>
theorem row_overflow:
  assumes "l < 251"
  shows "copy_row 2 (A @ [2] @ x # y # l # B) (length A) (2 + 1) 0 [] = UB"
proof -
  have "uint_sub 2 0 = 2" "uint_sub 2 (Suc (Suc (Suc 0))) = 2 ^ 32 - 1" by (simp_all add: uint_sub_def)
  moreover have "load_bytes (A @ [2, x, y, l] @ B) (length A + 1) 2 = (Ok [x, y] :: (unit, bytes) res)"
    using load_bytes_mid [of "length A + 1" "A @ [2]" 2 "[x, y]" "l # B"] by simp
  moreover have "net_field_length (A @ [2, x, y, l] @ B) (length A) = (Ok (2, length A + 1) :: (unit, nat \<times> nat) res)"
    by (simp add: net_field_length_def load1_at)
  moreover have "net_field_length (A @ [2, x, y, l] @ B) (Suc (Suc (Suc (length A)))) = (Ok (unat l, length A + 4) :: (unit, nat \<times> nat) res)"
    using load1_at [of "A @ [2, x, y]" l B, where 'a = unit] assms by (simp add: net_field_length_def)
  moreover have "unat l < 251" using assms by (simp add: word_less_nat_alt)
  moreover have "copy_row 2 = copy_row (Suc (Suc 0))" by (simp add: numeral_2_eq_2)
  ultimately show ?thesis by (simp add: NULL_LENGTH_def split: if_splits)
qed

text \<open>A connection on which the bytes arrive, for examples.\<close>

definition mysql0 :: "bytes \<Rightarrow> mysql" where
  "mysql0 bs = \<lparr>my_net = net0 bs, my_open = True, my_server_status = 2, my_warning_count = 0, my_progress = True, my_report = False,
     my_sqlstate = [], my_last_error = Server_text []\<rparr>"

lemma held0: "held (mysql0 bs) (2 ^ 30) bs"
  using net0_ok(1,2) [of bs] by (simp add: held_def mysql0_def net0_simps)

theorem result_read_witness:
  "good_rows 2 (2 ^ 30) [[Some [65, 66], None], [Some [], Some [67]]]
   \<and> (\<exists>m'. mthd_my_read_rows all_ok (mysql0 (result_bytes [1, 2, 3] [[Some [65, 66], None], [Some [], Some [67]]] 1 34)) 2
         = Ok (Some [[Some [65, 66], None], [Some [], Some [67]]], m') \<and> my_warning_count m' = 1)"
proof -
  have g: "good_rows 2 (2 ^ 30) [[Some [65, 66], None], [Some [], Some [67]]]"
    by (simp add: good_rows_def col_bytes_def len_bytes_def)
  have "held (mysql0 (result_bytes [1, 2, 3] [[Some [65, 66], None], [Some [], Some [67]]] 1 34)) (2 ^ 30)
      (result_bytes [1, 2, 3] [[Some [65, 66], None], [Some [], Some [67]]] 1 34 @ [])"
    using held0 by simp
  from result_read [OF _ _ _ g _ this, of all_ok] g show ?thesis by auto
qed

theorem one_row_read_witness:
  "good_rows 2 (2 ^ 30) [[Some [65, 66], None]]
   \<and> (\<exists>row m'. mthd_my_read_one_row all_ok (mysql0 (packets 7 (row_bytes [Some [65, 66], None]))) 2 = Ok (0, row, m')
        \<and> row_at (n_buff (my_net m')) row [Some [65, 66], None])"
proof -
  have g: "good_rows 2 (2 ^ 30) [[Some [65, 66], None]]" by (simp add: good_rows_def col_bytes_def len_bytes_def)
  have "held (mysql0 (packets 7 (row_bytes [Some [65, 66], None]))) (2 ^ 30) (packets 7 (row_bytes [Some [65, 66], None]) @ [])"
    using held0 by simp
  from one_row_read [OF _ g this, of all_ok] g show ?thesis by auto
qed

text \<open>A server that sends a progress report for a handler, and then an error packet.\<close>

definition reporting :: mysql where
  "reporting = (mysql0 (packets 0 [0xFF, 0xFF, 0xFF, 1, 1, 2, 0, 0, 0, 1, 0x61] @
     packets 1 [0xFF, 1, 4, 0x23, 0x34, 0x32, 0x30, 0x30, 0x30, 0x6E, 0x6F]))\<lparr>my_report := True\<rparr>"

theorem safe_read_returns_witness:
  "net_ok (my_net reporting) \<and> roomy (my_net reporting) \<and> my_report reporting
   \<and> (\<exists>len m'. ma_net_safe_read all_ok reporting = Ok (len, m') \<and> (len \<noteq> packet_error \<longrightarrow> 0 < len))"
proof -
  have a: "net_ok (my_net reporting)" "roomy (my_net reporting)"
    using net0_ok(1) net0_roomy by (simp_all add: reporting_def mysql0_def)
  from safe_read_returns [OF a, of all_ok] a show ?thesis by (auto simp: reporting_def)
qed

theorem length_roundtrip_witness:
  "\<exists>buf q. mysql_net_store_length ([9] @ [0, 0, 0] @ [7, 8]) 1 300 = (Ok (buf, q) :: (unit, bytes \<times> nat) res) \<and> drop q buf = [7, 8]
     \<and> net_field_length buf 1 = (Ok (300, q) :: (unit, nat \<times> nat) res)"
  using length_roundtrip [of 300 "[0, 0, 0]" "[7, 8]" "[9]"] by (auto simp: len_bytes_def)

theorem row_overflow_witness:
  "(0 :: u8) < 251 \<and> copy_row 2 ([1, 0, 0, 0] @ [2] @ [0, 0, 0]) (length [1 :: u8, 0, 0, 0]) (2 + 1) 0 [] = UB"
  using row_overflow [of 0 "[1, 0, 0, 0]" 0 0 "[]"] by (intro conjI) simp_all

end
