(* ===== verification/Conn_Attrs.thy ===== *)
theory Conn_Attrs
  imports Hash_Delete Rows
begin

text \<open>
  Connection attributes and user data (\<^verbatim>\<open>mariadb_lib.c\<close>): two hash tables of blocks that hold
  a key, a zero and a value. Attributes are added, deleted, listed and sent to the server
  when a connection is made; user data are pointers. A block is known by its address; the
  heap of the options gives its bytes. C strings given by the user are the bytes before the
  zero, \<open>None\<close> for \<open>NULL\<close>. Whether the allocations succeed is an argument.
\<close>

section \<open>State\<close>

record connect_ext =
  connect_attrs :: "nat hash option"
  connect_attrs_len :: nat
  userdata :: "nat hash option"

record options =
  opt_extension :: "connect_ext option"
  opt_heap :: "nat memory"

text \<open>
  The outcome of the allocations of one call: of the extension, of the array of a new table,
  of the block (its address) and of the room in the table; \<open>ae_junk\<close> and \<open>ae_link\<close> are the
  contents of fresh memory.
\<close>

record attr_env =
  ae_extension :: bool
  ae_table :: bool
  ae_block :: "nat option"
  ae_room :: bool
  ae_junk :: u8
  ae_link :: "nat hash_link"

definition CR_INVALID_PARAMETER_NO :: nat where "CR_INVALID_PARAMETER_NO = 2034"

definition fresh_extension :: connect_ext where
  "fresh_extension = \<lparr>connect_attrs = None, connect_attrs_len = 0, userdata = None\<rparr>"

text \<open>A failed allocation of the extension is not checked.\<close>

definition check_extension :: "attr_env \<Rightarrow> options \<Rightarrow> (unit, connect_ext) res" where
  "check_extension env opt = (case opt_extension opt of Some e \<Rightarrow> Ok e
     | None \<Rightarrow> if ae_extension env then Ok fresh_extension else UB)"

definition get_store_length :: "nat \<Rightarrow> nat" where
  "get_store_length len = (if len < 251 then 1 else if len < 65536 then 2 else if len < 16777216 then 3 else 9)"

text \<open>The C string at an offset of a block.\<close>

definition c_string :: "bytes \<Rightarrow> nat \<Rightarrow> (unit, bytes) res" where
  "c_string buf i = (if 0 \<in> set (drop i buf) then Ok (takeWhile (\<lambda>b. b \<noteq> 0) (drop i buf)) else UB)"

definition ma_get_hash_keyval :: "nat memory \<Rightarrow> nat \<Rightarrow> bytes" where
  "ma_get_hash_keyval mem hash_entry = takeWhile (\<lambda>b. b \<noteq> 0) (mem hash_entry)"

definition new_table :: "nat hash" where
  "new_table = hash_init 0 0 (Some ma_get_hash_keyval) True False"

text \<open>A table, initialised before its first use; \<open>None\<close> when that fails.\<close>

definition init_table :: "attr_env \<Rightarrow> nat hash option \<Rightarrow> nat hash option" where
  "init_table env t = (case t of Some h \<Rightarrow> Some h | None \<Rightarrow> if ae_table env then Some new_table else None)"

section \<open>Attributes\<close>

definition connect_attr_add :: "attr_env \<Rightarrow> bytes option \<Rightarrow> bytes option \<Rightarrow> options \<Rightarrow> (unit, nat \<times> options) res" where
  "connect_attr_add env arg1 arg2 opt =
     (let key_len = (case arg1 of Some k \<Rightarrow> length k | None \<Rightarrow> 0);
          value_len = (case arg2 of Some v \<Rightarrow> length v | None \<Rightarrow> 0);
          storage_len = key_len + value_len + get_store_length key_len + get_store_length value_len
      in rbind (check_extension env opt) (\<lambda>e.
         if size_add key_len 1 = 0 \<or> 65535 < storage_len + connect_attrs_len e
         then Ok (CR_INVALID_PARAMETER_NO, opt\<lparr>opt_extension := Some e\<rparr>)
         else (case init_table env (connect_attrs e) of
           None \<Rightarrow> Ok (CR_OUT_OF_MEMORY, opt\<lparr>opt_extension := Some e\<rparr>)
         | Some h \<Rightarrow> (case ae_block env of
             None \<Rightarrow> Ok (CR_OUT_OF_MEMORY, opt\<lparr>opt_extension := Some (e\<lparr>connect_attrs := Some h\<rparr>)\<rparr>)
           | Some p \<Rightarrow> (case arg1 of None \<Rightarrow> UB
             | Some k \<Rightarrow>
                 let mem = (opt_heap opt)(p := k @ [0] @ (case arg2 of Some v \<Rightarrow> v @ [0] | None \<Rightarrow> [ae_junk env]))
                 in rbind (hash_insert mem (ae_room env) (ae_link env) h p) (\<lambda>(failed, h1).
                    if failed then Ok (CR_INVALID_PARAMETER_NO, opt\<lparr>opt_extension := Some (e\<lparr>connect_attrs := Some h1\<rparr>)\<rparr>)
                    else Ok (0, opt\<lparr>opt_extension := Some (e\<lparr>connect_attrs := Some h1, connect_attrs_len := connect_attrs_len e + storage_len\<rparr>),
                                  opt_heap := mem\<rparr>)))))))"

text \<open>The length for the key is zero for \<open>NULL\<close>, and no bytes can be read there.\<close>

definition connect_attr_delete :: "attr_env \<Rightarrow> bytes option \<Rightarrow> options \<Rightarrow> (unit, options) res" where
  "connect_attr_delete env arg1 opt =
     rbind (check_extension env opt) (\<lambda>e.
       case connect_attrs e of None \<Rightarrow> Ok (opt\<lparr>opt_extension := Some e\<rparr>)
       | Some h \<Rightarrow>
           let key = (case arg1 of Some k \<Rightarrow> k @ [0] | None \<Rightarrow> []); len = (case arg1 of Some k \<Rightarrow> length k | None \<Rightarrow> 0)
           in rbind (hash_search (opt_heap opt) h key len) (\<lambda>(r, h1).
              case r of None \<Rightarrow> Ok (opt\<lparr>opt_extension := Some (e\<lparr>connect_attrs := Some h1\<rparr>)\<rparr>)
              | Some p \<Rightarrow>
                  rbind (c_string (opt_heap opt p) 0) (\<lambda>k.
                  rbind (c_string (opt_heap opt p) (length k + 1)) (\<lambda>v.
                    let len1 = size_sub (connect_attrs_len e) (length k + get_store_length (length k));
                        len2 = size_sub len1 (length v + get_store_length (length v))
                    in rmap (\<lambda>(failed, freed, h2). opt\<lparr>opt_extension := Some (e\<lparr>connect_attrs := Some h2, connect_attrs_len := len2\<rparr>)\<rparr>)
                         (hash_delete (opt_heap opt) h1 p)))))"

text \<open>The second result are the blocks given back.\<close>

definition connect_attr_reset :: "attr_env \<Rightarrow> options \<Rightarrow> (unit, options \<times> nat list) res" where
  "connect_attr_reset env opt =
     rbind (check_extension env opt) (\<lambda>e.
       case connect_attrs e of None \<Rightarrow> Ok (opt\<lparr>opt_extension := Some e\<rparr>, [])
       | Some h \<Rightarrow> rmap (\<lambda>(freed, h1). (opt\<lparr>opt_extension := Some (e\<lparr>connect_attrs := None, connect_attrs_len := 0\<rparr>)\<rparr>, freed)) (hash_free h))"

text \<open>The entry at a position of the table, read as key and value: the strings behind the pointers.\<close>

definition attr_at :: "options \<Rightarrow> nat hash \<Rightarrow> nat \<Rightarrow> (unit, bytes \<times> bytes) res" where
  "attr_at opt h i =
     rbind (hash_element h i) (\<lambda>r. case r of None \<Rightarrow> UB
       | Some p \<Rightarrow> rbind (c_string (opt_heap opt p) 0) (\<lambda>k. rmap (\<lambda>v. (k, v)) (c_string (opt_heap opt p) (length k + 1))))"

primrec get_attrs :: "options \<Rightarrow> nat hash \<Rightarrow> nat list \<Rightarrow> (unit, (bytes \<times> bytes) list) res" where
  "get_attrs opt h [] = Ok []"
| "get_attrs opt h (i # ixs) = rbind (attr_at opt h i) (\<lambda>a. rmap (\<lambda>as. a # as) (get_attrs opt h ixs))"

definition get_connect_attrs :: "options \<Rightarrow> (unit, nat \<times> (bytes \<times> bytes) list) res" where
  "get_connect_attrs opt =
     (case opt_extension opt of None \<Rightarrow> Ok (0, [])
      | Some e \<Rightarrow> (case connect_attrs e of None \<Rightarrow> Ok (0, [])
        | Some h \<Rightarrow> rmap (\<lambda>as. (ha_records h, as)) (get_attrs opt h [0..<ha_records h])))"

text \<open>A string with its length in front, at a place of the buffer.\<close>

definition send_string :: "bytes \<Rightarrow> nat \<Rightarrow> bytes \<Rightarrow> (unit, bytes \<times> nat) res" where
  "send_string buf pos s =
     rbind (mysql_net_store_length buf pos (length s)) (\<lambda>(buf, pos). rmap (\<lambda>buf. (buf, pos + length s)) (store_bytes buf pos s))"

primrec send_attrs :: "options \<Rightarrow> nat hash \<Rightarrow> nat list \<Rightarrow> bytes \<Rightarrow> nat \<Rightarrow> (unit, bytes \<times> nat) res" where
  "send_attrs opt h [] buf pos = Ok (buf, pos)"
| "send_attrs opt h (i # ixs) buf pos =
     rbind (attr_at opt h i) (\<lambda>(k, v). rbind (send_string buf pos k) (\<lambda>(buf, pos). rbind (send_string buf pos v) (\<lambda>(buf, pos). send_attrs opt h ixs buf pos)))"

definition CLIENT_CONNECT_ATTRS :: u32 where "CLIENT_CONNECT_ATTRS = 2 ^ 20"

definition ma_send_connect_attr :: "u32 \<Rightarrow> options \<Rightarrow> bytes \<Rightarrow> nat \<Rightarrow> (unit, bytes \<times> nat) res" where
  "ma_send_connect_attr server_capabilities opt buf pos =
     (if server_capabilities AND CLIENT_CONNECT_ATTRS = 0 then Ok (buf, pos)
      else rbind (mysql_net_store_length buf pos (case opt_extension opt of Some e \<Rightarrow> connect_attrs_len e | None \<Rightarrow> 0)) (\<lambda>(buf, pos).
           case opt_extension opt of None \<Rightarrow> Ok (buf, pos)
           | Some e \<Rightarrow> (case connect_attrs e of None \<Rightarrow> Ok (buf, pos)
             | Some h \<Rightarrow> send_attrs opt h [0..<ha_records h] buf pos)))"

section \<open>User data\<close>

text \<open>The value of a pointer, as a number.\<close>

definition userdata_set :: "attr_env \<Rightarrow> bytes option \<Rightarrow> nat \<Rightarrow> options \<Rightarrow> (unit, nat \<times> options) res" where
  "userdata_set env arg1 data opt =
     (case arg1 of None \<Rightarrow> Ok (CR_INVALID_PARAMETER_NO, opt)
      | Some key \<Rightarrow>
          if data = 0 then Ok (CR_INVALID_PARAMETER_NO, opt)
          else rbind (check_extension env opt) (\<lambda>e.
            case init_table env (userdata e) of None \<Rightarrow> Ok (CR_OUT_OF_MEMORY, opt\<lparr>opt_extension := Some e\<rparr>)
            | Some h \<Rightarrow> rbind (hash_search (opt_heap opt) h (key @ [0]) (length key)) (\<lambda>(r, h1).
                case r of
                  Some p \<Rightarrow> rmap (\<lambda>b. (0, opt\<lparr>opt_extension := Some (e\<lparr>userdata := Some h1\<rparr>), opt_heap := (opt_heap opt)(p := b)\<rparr>))
                              (store_bytes (opt_heap opt p) (length key + 1) (le_bytes 8 data))
                | None \<Rightarrow> (case ae_block env of
                    None \<Rightarrow> Ok (CR_OUT_OF_MEMORY, opt\<lparr>opt_extension := Some (e\<lparr>userdata := Some h1\<rparr>)\<rparr>)
                  | Some p \<Rightarrow>
                      let mem = (opt_heap opt)(p := key @ [0] @ le_bytes 8 data)
                      in rmap (\<lambda>(failed, h2). if failed then (CR_INVALID_PARAMETER_NO, opt\<lparr>opt_extension := Some (e\<lparr>userdata := Some h2\<rparr>)\<rparr>)
                                 else (0, opt\<lparr>opt_extension := Some (e\<lparr>userdata := Some h2\<rparr>), opt_heap := mem\<rparr>))
                           (hash_insert mem (ae_room env) (ae_link env) h1 p)))))"

text \<open>The search leaves the found position in the table.\<close>

definition userdata_get :: "bytes option \<Rightarrow> options \<Rightarrow> (unit, nat \<times> options) res" where
  "userdata_get arg opt =
     (case (arg, opt_extension opt) of
        (Some key, Some e) \<Rightarrow> (case userdata e of None \<Rightarrow> Ok (0, opt)
          | Some h \<Rightarrow> rbind (hash_search (opt_heap opt) h (key @ [0]) (length key)) (\<lambda>(r, h1).
              let o1 = opt\<lparr>opt_extension := Some (e\<lparr>userdata := Some h1\<rparr>)\<rparr>
              in case r of None \<Rightarrow> Ok (0, o1) | Some p \<Rightarrow> rmap (\<lambda>v. (v, o1)) (uint8korr (opt_heap opt p) (length key + 1))))
      | _ \<Rightarrow> Ok (0, opt))"

section \<open>What the options hold\<close>

definition ext_of :: "options \<Rightarrow> connect_ext" where
  "ext_of opt = (case opt_extension opt of Some e \<Rightarrow> e | None \<Rightarrow> fresh_extension)"

definition table_of :: "nat hash option \<Rightarrow> nat hash" where
  "table_of t = (case t of Some h \<Rightarrow> h | None \<Rightarrow> new_table)"

definition attr_of :: "nat memory \<Rightarrow> nat \<Rightarrow> bytes \<times> bytes" where
  "attr_of mem p = (let k = takeWhile (\<lambda>b. b \<noteq> 0) (mem p) in (k, takeWhile (\<lambda>b. b \<noteq> 0) (drop (length k + 1) (mem p))))"

definition attr_block :: "bytes \<Rightarrow> bool" where
  "attr_block b \<longleftrightarrow> (\<exists>k v. 0 \<notin> set k \<and> 0 \<notin> set v \<and> b = k @ [0] @ v @ [0])"

definition attr_size :: "bytes \<times> bytes \<Rightarrow> nat" where
  "attr_size a = length (fst a) + length (snd a) + get_store_length (length (fst a)) + get_store_length (length (snd a))"

definition table_records :: "nat hash option \<Rightarrow> nat multiset" where
  "table_records t = hash_records (table_of t)"

text \<open>The attributes are a multiset: a key may be added twice.\<close>

definition attrs :: "options \<Rightarrow> (bytes \<times> bytes) multiset" where
  "attrs opt = image_mset (attr_of (opt_heap opt)) (table_records (connect_attrs (ext_of opt)))"

definition key_table :: "nat memory \<Rightarrow> nat hash \<Rightarrow> bool" where
  "key_table mem h \<longleftrightarrow> hash_inv mem h \<and> ha_get_key h = Some ma_get_hash_keyval"

definition attr_inv :: "options \<Rightarrow> bool" where
  "attr_inv opt \<longleftrightarrow> key_table (opt_heap opt) (table_of (connect_attrs (ext_of opt)))
     \<and> (\<forall>p \<in># table_records (connect_attrs (ext_of opt)). attr_block (opt_heap opt p))
     \<and> connect_attrs_len (ext_of opt) = (\<Sum>a \<in># attrs opt. attr_size a) \<and> connect_attrs_len (ext_of opt) \<le> 65535"

lemma takeWhile_terminated: "0 \<notin> set k \<Longrightarrow> takeWhile (\<lambda>b. b \<noteq> 0) (k @ 0 # r) = (k :: bytes)"
  by (induction k) auto

lemma attr_of_block: "0 \<notin> set k \<Longrightarrow> 0 \<notin> set v \<Longrightarrow> mem p = k @ [0] @ v @ [0] \<Longrightarrow> attr_of mem p = (k, v)"
  by (simp add: attr_of_def takeWhile_terminated)

lemma attr_of_strings:
  assumes "attr_block (mem p)" "attr_of mem p = (k, v)"
  shows "c_string (mem p) 0 = Ok k" "c_string (mem p) (length k + 1) = Ok v" "mem p = k @ [0] @ v @ [0]"
proof -
  obtain k' v' where b: "0 \<notin> set k'" "0 \<notin> set v'" "mem p = k' @ [0] @ v' @ [0]" using assms(1) by (auto simp: attr_block_def)
  then have "k' = k" "v' = v" using attr_of_block [where mem = mem and p = p, OF b] assms(2) by simp_all
  then show "c_string (mem p) 0 = Ok k" "c_string (mem p) (length k + 1) = Ok v" "mem p = k @ [0] @ v @ [0]"
    using b by (simp_all add: c_string_def takeWhile_terminated)
qed

lemma key_is_attr: "ha_get_key h = Some ma_get_hash_keyval \<Longrightarrow> hash_key mem h p = fst (attr_of mem p)"
  by (simp add: hash_key_def ma_get_hash_keyval_def attr_of_def Let_def)

lemma new_table_ok: "key_table mem new_table" "hash_records new_table = {#}"
  by (simp_all add: key_table_def new_table_def hash_init_inv) (simp add: hash_init_def)

lemma attr_size_pos: "2 \<le> attr_size a"
  by (auto simp: attr_size_def get_store_length_def)

text \<open>The table is far from full.\<close>

lemma attr_room:
  assumes "attr_inv opt"
  shows "ha_records (table_of (connect_attrs (ext_of opt))) + 1 < 2 ^ 31"
proof -
  let ?h = "table_of (connect_attrs (ext_of opt))"
  have "(\<Sum>p \<in># hash_records ?h. 2) \<le> (\<Sum>p \<in># hash_records ?h. attr_size (attr_of (opt_heap opt) p))"
    by (intro sum_mset_mono attr_size_pos)
  also have "\<dots> \<le> 65535" using assms by (simp add: attr_inv_def attrs_def table_records_def image_mset.compositionality comp_def)
  finally have "2 * size (hash_records ?h) \<le> 65535" by (simp add: sum_mset_constant)
  moreover have "size (hash_records ?h) = ha_records ?h" using assms by (simp add: attr_inv_def key_table_def hash_inv_def hash_records_def)
  ultimately show ?thesis by simp
qed

text \<open>The options with another table and length.\<close>

lemma attr_inv_step:
  assumes "key_table mem h" "\<And>p. p \<in># hash_records h \<Longrightarrow> attr_block (mem p)" "L = (\<Sum>p \<in># hash_records h. attr_size (attr_of mem p))" "L \<le> 65535"
    and opt: "opt' = opt\<lparr>opt_extension := Some (e\<lparr>connect_attrs := Some h, connect_attrs_len := L\<rparr>), opt_heap := mem\<rparr>"
  shows "attr_inv opt'" "attrs opt' = image_mset (attr_of mem) (hash_records h)"
  using assms(1-4) unfolding opt
  by (simp_all add: attr_inv_def attrs_def ext_of_def table_of_def table_records_def image_mset.compositionality comp_def)

lemma attr_inv_same:
  assumes "attr_inv opt" "opt_heap opt' = opt_heap opt" "connect_attrs_len (ext_of opt') = connect_attrs_len (ext_of opt)"
    and "table_of (connect_attrs (ext_of opt')) = table_of (connect_attrs (ext_of opt))"
  shows "attr_inv opt'" "attrs opt' = attrs opt"
  using assms by (simp_all add: attr_inv_def attrs_def table_records_def)

lemma check_ext_of: "opt_extension opt \<noteq> None \<or> ae_extension env \<Longrightarrow> check_extension env opt = Ok (ext_of opt)"
  by (auto simp: check_extension_def ext_of_def split: option.split)

lemma init_table_of: "init_table env t = (if t \<noteq> None \<or> ae_table env then Some (table_of t) else None)"
  by (auto simp: init_table_def table_of_def split: option.split)

section \<open>Adding and deleting\<close>

lemma insert_failed: "hash_insert mem False fresh h r = Ok (True, h)"
  by (simp add: hash_insert_def)

lemma get_key_same: "hash_insert mem room fresh h r = Ok (f, h') \<Longrightarrow> ha_get_key h' = ha_get_key h"
  "hash_delete mem h r = Ok (f, fr, h') \<Longrightarrow> ha_get_key h' = ha_get_key h"
  "hash_search mem h key len = Ok (res, h') \<Longrightarrow> ha_get_key h' = ha_get_key h"
  by (auto simp: hash_insert_def hash_delete_def hash_search_def Let_def res_simps split: if_splits option.splits prod.splits)

text \<open>A block at a fresh address leaves the others alone.\<close>

lemma fresh_block:
  assumes "key_table mem h" "p \<notin># hash_records h" "ha_records h + 1 < 2 ^ 31"
  shows "\<exists>h'. hash_insert (mem(p := b)) True fresh h p = Ok (False, h') \<and> key_table (mem(p := b)) h' \<and> hash_records h' = add_mset p (hash_records h)"
proof -
  have "hash_inv mem h" using assms(1) by (simp add: key_table_def)
  moreover have "hash_key (mem(p := b)) h x = hash_key mem h x" if "x \<in># hash_records h" for x
    using that assms(1,2) by (auto simp: key_table_def hash_key_def ma_get_hash_keyval_def)
  ultimately obtain h' where h': "hash_insert (mem(p := b)) True fresh h p = Ok (False, h')" "hash_inv (mem(p := b)) h'"
      "hash_records h' = add_mset p (hash_records h)"
    using hash_table.insert_fresh [where m = mem and m' = "mem(p := b)" and r = p and fresh = fresh] assms(3) by blast
  then show ?thesis using get_key_same(1) [OF h'(1)] assms(1) by (auto simp: key_table_def)
qed

lemma attr_add_ok:
  assumes inv: "attr_inv opt" and k: "0 \<notin> set k" "0 \<notin> set v"
    and env: "opt_extension opt \<noteq> None \<or> ae_extension env" "\<And>p. ae_block env = Some p \<Longrightarrow> p \<notin># table_records (connect_attrs (ext_of opt))"
  shows "\<exists>c opt'. connect_attr_add env (Some k) (Some v) opt = Ok (c, opt') \<and> attr_inv opt' \<and> userdata (ext_of opt') = userdata (ext_of opt)
    \<and> (c = 0 \<longleftrightarrow> attr_size (k, v) + connect_attrs_len (ext_of opt) \<le> 65535 \<and> (connect_attrs (ext_of opt) \<noteq> None \<or> ae_table env)
         \<and> ae_block env \<noteq> None \<and> ae_room env)
    \<and> attrs opt' = (if c = 0 then add_mset (k, v) (attrs opt) else attrs opt)
    \<and> set_mset (table_records (connect_attrs (ext_of opt'))) \<subseteq> set_mset (table_records (connect_attrs (ext_of opt))) \<union> set_option (ae_block env)
    \<and> (\<forall>q. ae_block env \<noteq> Some q \<longrightarrow> opt_heap opt' q = opt_heap opt q)"
proof -
  let ?e = "ext_of opt" and ?s = "attr_size (k, v)"
  let ?h = "table_of (connect_attrs ?e)"
  have size: "length k + length v + get_store_length (length k) + get_store_length (length v) = ?s" by (simp add: attr_size_def)
  have errs: "CR_INVALID_PARAMETER_NO \<noteq> 0" "CR_OUT_OF_MEMORY \<noteq> 0" by (simp_all add: CR_INVALID_PARAMETER_NO_def CR_OUT_OF_MEMORY_def)
  have add: "connect_attr_add env (Some k) (Some v) opt =
      (if 65535 < ?s + connect_attrs_len ?e then Ok (CR_INVALID_PARAMETER_NO, opt\<lparr>opt_extension := Some ?e\<rparr>)
       else if \<not> (connect_attrs ?e \<noteq> None \<or> ae_table env) then Ok (CR_OUT_OF_MEMORY, opt\<lparr>opt_extension := Some ?e\<rparr>)
       else (case ae_block env of None \<Rightarrow> Ok (CR_OUT_OF_MEMORY, opt\<lparr>opt_extension := Some (?e\<lparr>connect_attrs := Some ?h\<rparr>)\<rparr>)
         | Some p \<Rightarrow> rbind (hash_insert ((opt_heap opt)(p := k @ [0] @ v @ [0])) (ae_room env) (ae_link env) ?h p) (\<lambda>(failed, h1).
             if failed then Ok (CR_INVALID_PARAMETER_NO, opt\<lparr>opt_extension := Some (?e\<lparr>connect_attrs := Some h1\<rparr>)\<rparr>)
             else Ok (0, opt\<lparr>opt_extension := Some (?e\<lparr>connect_attrs := Some h1, connect_attrs_len := connect_attrs_len ?e + ?s\<rparr>),
                            opt_heap := (opt_heap opt)(p := k @ [0] @ v @ [0])\<rparr>))))"
  proof -
    have "size_add (length k) 1 = 0 \<or> 65535 < ?s + connect_attrs_len ?e \<longleftrightarrow> 65535 < ?s + connect_attrs_len ?e"
      by (cases "length k \<le> 65535") (auto simp: attr_size_def)
    then show ?thesis
      unfolding connect_attr_add_def Let_def check_ext_of [OF env(1)] rbind.simps option.case size init_table_of
      by (cases "connect_attrs ?e \<noteq> None \<or> ae_table env") simp_all
  qed
  have same: "attr_inv (opt\<lparr>opt_extension := Some ?e\<rparr>)" "attrs (opt\<lparr>opt_extension := Some ?e\<rparr>) = attrs opt"
      "attr_inv (opt\<lparr>opt_extension := Some (?e\<lparr>connect_attrs := Some ?h\<rparr>)\<rparr>)"
      "attrs (opt\<lparr>opt_extension := Some (?e\<lparr>connect_attrs := Some ?h\<rparr>)\<rparr>) = attrs opt"
    using attr_inv_same [OF inv, of "opt\<lparr>opt_extension := Some ?e\<rparr>"] attr_inv_same [OF inv, of "opt\<lparr>opt_extension := Some (?e\<lparr>connect_attrs := Some ?h\<rparr>)\<rparr>"]
    by (simp_all add: ext_of_def table_of_def)
  consider (long) "65535 < ?s + connect_attrs_len ?e" | (table) "\<not> 65535 < ?s + connect_attrs_len ?e" "\<not> (connect_attrs ?e \<noteq> None \<or> ae_table env)"
    | (block) "\<not> 65535 < ?s + connect_attrs_len ?e" "connect_attrs ?e \<noteq> None \<or> ae_table env" "ae_block env = None \<or> \<not> ae_room env"
    | (ok) p where "\<not> 65535 < ?s + connect_attrs_len ?e" "connect_attrs ?e \<noteq> None \<or> ae_table env" "ae_block env = Some p" "ae_room env" by (cases "ae_block env") blast+
  then show ?thesis
  proof cases
    case long
    then show ?thesis using add same errs by (auto simp: ext_of_def)
  next
    case table
    then show ?thesis using add same errs by (auto simp: ext_of_def)
  next
    case block
    then show ?thesis using add same errs by (cases "ae_block env") (auto simp: insert_failed ext_of_def table_records_def table_of_def)
  next
    case ok
    let ?mem = "(opt_heap opt)(p := k @ [0] @ v @ [0])"
    have new: "p \<notin># hash_records ?h" using env(2) [OF ok(3)] by (simp add: table_records_def)
    have kt: "key_table (opt_heap opt) ?h" using inv by (simp add: attr_inv_def)
    obtain h' where h': "hash_insert ?mem True (ae_link env) ?h p = Ok (False, h')" "key_table ?mem h'" "hash_records h' = add_mset p (hash_records ?h)"
      using fresh_block [OF kt new attr_room [OF inv]] by blast
    have others: "attr_of ?mem x = attr_of (opt_heap opt) x" if "x \<in># hash_records ?h" for x
      using that new by (auto simp: attr_of_def)
    have one: "attr_of ?mem p = (k, v)" using k by (intro attr_of_block) simp_all
    have im: "image_mset (attr_of ?mem) (hash_records h') = add_mset (k, v) (attrs opt)"
      using image_mset_cong [of "hash_records ?h" "attr_of ?mem" "attr_of (opt_heap opt)"] others one by (simp add: h'(3) attrs_def table_records_def)
    have sum: "connect_attrs_len ?e + ?s = (\<Sum>x \<in># hash_records h'. attr_size (attr_of ?mem x))"
    proof -
      have "(\<Sum>x \<in># hash_records h'. attr_size (attr_of ?mem x)) = (\<Sum>a \<in># image_mset (attr_of ?mem) (hash_records h'). attr_size a)"
        by (simp add: image_mset.compositionality comp_def)
      also have "\<dots> = connect_attrs_len ?e + ?s" using inv unfolding im by (simp add: attr_inv_def)
      finally show ?thesis by (rule sym)
    qed
    have blocks: "attr_block (?mem x)" if "x \<in># hash_records h'" for x
    proof (cases "x = p")
      case True
      then show ?thesis using k by (auto simp: attr_block_def)
    next
      case False
      then show ?thesis using that inv h'(3) by (simp add: attr_inv_def table_records_def)
    qed
    let ?opt = "opt\<lparr>opt_extension := Some (?e\<lparr>connect_attrs := Some h', connect_attrs_len := connect_attrs_len ?e + ?s\<rparr>), opt_heap := ?mem\<rparr>"
    have "attr_inv ?opt" "attrs ?opt = image_mset (attr_of ?mem) (hash_records h')"
      by (rule attr_inv_step [OF h'(2) blocks sum _ refl]; use ok(1) in simp)+
    then show ?thesis using add ok h'(1,3) im by (auto simp: ext_of_def table_records_def table_of_def)
  qed
qed

lemma sum_attr_remove: "p \<in># R \<Longrightarrow> (\<Sum>x \<in># R - {#p#}. f x) = (\<Sum>x \<in># R. f x) - (f p :: nat)"
  by (metis add_diff_cancel_left' image_mset_add_mset insert_DiffM sum_mset.add_mset)

lemma sum_attr_member: "p \<in># R \<Longrightarrow> f p \<le> (\<Sum>x \<in># R. f x :: nat)"
  by (metis image_mset_add_mset insert_DiffM le_add1 sum_mset.add_mset)

lemma attr_delete_ok:
  assumes inv: "attr_inv opt" and k: "0 \<notin> set k" "k \<noteq> []" and env: "opt_extension opt \<noteq> None \<or> ae_extension env"
  shows "\<exists>opt'. connect_attr_delete env (Some k) opt = Ok opt' \<and> attr_inv opt' \<and> userdata (ext_of opt') = userdata (ext_of opt)
    \<and> (if \<exists>v. (k, v) \<in># attrs opt then \<exists>v. (k, v) \<in># attrs opt \<and> attrs opt' = attrs opt - {#(k, v)#} else attrs opt' = attrs opt)
    \<and> set_mset (table_records (connect_attrs (ext_of opt'))) \<subseteq> set_mset (table_records (connect_attrs (ext_of opt))) \<and> opt_heap opt' = opt_heap opt"
proof (cases "connect_attrs (ext_of opt)")
  case None
  let ?opt = "opt\<lparr>opt_extension := Some (ext_of opt)\<rparr>"
  have "connect_attr_delete env (Some k) opt = Ok ?opt"
    unfolding connect_attr_delete_def check_ext_of [OF env] rbind.simps None option.case by (rule refl)
  moreover have "attr_inv ?opt" "attrs ?opt = attrs opt" using attr_inv_same [OF inv, of ?opt] by (simp_all add: ext_of_def)
  moreover have "attrs opt = {#}" by (simp add: attrs_def table_records_def table_of_def None new_table_ok(2))
  ultimately show ?thesis by (auto simp: ext_of_def)
next
  case (Some h)
  let ?e = "ext_of opt" and ?mem = "opt_heap opt"
  have h: "table_of (connect_attrs ?e) = h" by (simp add: table_of_def Some)
  have kt: "hash_inv ?mem h" "ha_get_key h = Some ma_get_hash_keyval" using inv by (simp_all add: attr_inv_def key_table_def h)
  have blocks: "attr_block (?mem p)" if "p \<in># hash_records h" for p using that inv by (simp add: attr_inv_def table_records_def h)
  have len: "connect_attrs_len ?e = (\<Sum>p \<in># hash_records h. attr_size (attr_of ?mem p))" "connect_attrs_len ?e \<le> 65535"
    using inv by (simp_all add: attr_inv_def attrs_def table_records_def h image_mset.compositionality comp_def)
  have at: "attrs opt = image_mset (attr_of ?mem) (hash_records h)" by (simp add: attrs_def table_records_def h)
  define rest_of where "rest_of = (\<lambda>(r, h1). case r of None \<Rightarrow> Ok (opt\<lparr>opt_extension := Some (?e\<lparr>connect_attrs := Some h1\<rparr>)\<rparr>)
      | Some p \<Rightarrow> rbind (c_string (?mem p) 0) (\<lambda>k. rbind (c_string (?mem p) (length k + 1)) (\<lambda>v.
          rmap (\<lambda>(failed, freed, h2). opt\<lparr>opt_extension := Some (?e\<lparr>connect_attrs := Some h2, connect_attrs_len :=
             size_sub (size_sub (connect_attrs_len ?e) (length k + get_store_length (length k))) (length v + get_store_length (length v))\<rparr>)\<rparr>)
           (hash_delete ?mem h1 p))))"
  have del: "connect_attr_delete env (Some k) opt = rbind (hash_search ?mem h (k @ [0]) (length k)) rest_of"
    unfolding connect_attr_delete_def check_ext_of [OF env] rbind.simps Some option.case Let_def rest_of_def by (rule refl)
  have key: "hash_key ?mem h p = fst (attr_of ?mem p)" for p using kt(2) by (rule key_is_attr)
  consider (none) h1 where "hash_search ?mem h (k @ [0]) (length k) = Ok (None, h1)" "hash_inv ?mem h1" "hash_records h1 = hash_records h"
      "\<forall>r \<in># hash_records h. hash_key ?mem h r \<noteq> k"
    | (one) r h1 fr h2 where "hash_search ?mem h (k @ [0]) (length k) = Ok (Some r, h1)" "r \<in># hash_records h" "hash_key ?mem h r = k"
      "hash_delete ?mem h1 r = Ok (False, fr, h2)" "hash_inv ?mem h2" "hash_records h2 = hash_records h - {#r#}"
    using hash_table.search_delete [OF kt(1) k(2), where tl = "[0]"] by blast
  then show ?thesis
  proof cases
    case none
    let ?opt = "opt\<lparr>opt_extension := Some (?e\<lparr>connect_attrs := Some h1\<rparr>)\<rparr>"
    have "connect_attr_delete env (Some k) opt = Ok ?opt" by (simp add: del none(1) rest_of_def)
    moreover have "\<nexists>v. (k, v) \<in># attrs opt" using none(4) unfolding at key by (metis fst_conv image_iff set_image_mset)
    moreover have "key_table ?mem h1" using none(2) kt(2) get_key_same(3) [OF none(1)] by (simp add: key_table_def)
    then have "attr_inv ?opt" "attrs ?opt = attrs opt"
      using inv none(3) h by (simp_all add: attr_inv_def attrs_def table_records_def ext_of_def table_of_def)
    ultimately show ?thesis using none(3) h by (auto simp: ext_of_def table_records_def table_of_def)
  next
    case one
    obtain v where a: "attr_of ?mem r = (k, v)" using one(3) by (cases "attr_of ?mem r") (simp add: key)
    note st = attr_of_strings [OF blocks [OF one(2)] a]
    let ?L = "connect_attrs_len ?e - attr_size (k, v)"
    have le: "attr_size (k, v) \<le> connect_attrs_len ?e"
      using sum_attr_member [OF one(2), of "\<lambda>p. attr_size (attr_of ?mem p)"] len(1) a by simp
    have L: "size_sub (size_sub (connect_attrs_len ?e) (length k + get_store_length (length k))) (length v + get_store_length (length v)) = ?L"
      using le by (simp add: attr_size_def)
    let ?opt = "opt\<lparr>opt_extension := Some (?e\<lparr>connect_attrs := Some h2, connect_attrs_len := ?L\<rparr>), opt_heap := ?mem\<rparr>"
    have "connect_attr_delete env (Some k) opt = Ok ?opt" using st(1,2) by (simp add: del one(1,4) rest_of_def L)
    moreover have "key_table ?mem h2" using one(5) kt(2) get_key_same(2) [OF one(4)] get_key_same(3) [OF one(1)] by (simp add: key_table_def)
    moreover have "?L = (\<Sum>p \<in># hash_records h2. attr_size (attr_of ?mem p))"
      using sum_attr_remove [OF one(2), of "\<lambda>p. attr_size (attr_of ?mem p)"] one(6) len(1) a by simp
    moreover have "attr_block (?mem p)" if "p \<in># hash_records h2" for p using that blocks in_diffD one(6) by metis
    ultimately have "attr_inv ?opt" "attrs ?opt = image_mset (attr_of ?mem) (hash_records h2)"
      using attr_inv_step [where mem = ?mem and h = h2 and L = ?L and opt' = ?opt and opt = opt and e = ?e] len(2) by auto
    moreover have "(k, v) \<in># attrs opt" using one(2) a unfolding at by (metis image_mset_add_mset insert_DiffM union_single_eq_member)
    moreover have "image_mset (attr_of ?mem) (hash_records h2) = attrs opt - {#(k, v)#}" using one(2,6) a by (simp add: at image_mset_Diff)
    ultimately show ?thesis using \<open>connect_attr_delete env (Some k) opt = Ok ?opt\<close> one(6) h
      by (auto simp: ext_of_def table_records_def table_of_def dest: in_diffD)
  qed
qed

section \<open>Sending\<close>

definition string_bytes :: "bytes \<Rightarrow> bytes" where
  "string_bytes s = len_bytes (length s) @ s"

definition attr_bytes :: "bytes \<times> bytes \<Rightarrow> bytes" where
  "attr_bytes a = string_bytes (fst a) @ string_bytes (snd a)"

text \<open>The strings whose length is counted one byte too short.\<close>

definition long_strings :: "bytes \<times> bytes \<Rightarrow> nat" where
  "long_strings a = (if 251 \<le> length (fst a) then 1 else 0) + (if 251 \<le> length (snd a) then 1 else 0)"

lemma attr_bytes_length:
  assumes "attr_size a \<le> 65535"
  shows "length (attr_bytes a) = attr_size a + long_strings a"
proof -
  have "length (fst a) < 65536" "length (snd a) < 65536" using assms by (auto simp: attr_size_def)
  then show ?thesis by (auto simp: attr_bytes_def string_bytes_def attr_size_def long_strings_def get_store_length_def len_bytes_def)
qed

lemma send_string_spec:
  assumes "length X = length (string_bytes s)"
  shows "send_string (A @ X @ B) (length A) s = Ok (A @ string_bytes s @ B, length A + length (string_bytes s))"
proof -
  let ?n = "length (len_bytes (length s))"
  have X: "X = take ?n X @ drop ?n X" "length (take ?n X) = ?n" "length (drop ?n X) = length s"
    using assms by (simp_all add: string_bytes_def)
  have "send_string (A @ X @ B) (length A) s = send_string (A @ take ?n X @ (drop ?n X @ B)) (length A) s" using X(1) by (metis append.assoc)
  also have "\<dots> = rmap (\<lambda>buf. (buf, length A + ?n + length s)) (store_bytes (A @ len_bytes (length s) @ drop ?n X @ B) (length A + ?n) s)"
    by (simp add: send_string_def store_length_spec [OF X(2)])
  also have "\<dots> = Ok (A @ string_bytes s @ B, length A + length (string_bytes s))"
  proof -
    have "store_bytes (A @ len_bytes (length s) @ drop ?n X @ B) (length A + ?n) s = (Ok (A @ len_bytes (length s) @ s @ B) :: (unit, bytes) res)"
      using store_bytes_mid [of "length A + ?n" "A @ len_bytes (length s)" s "drop ?n X" B] X(3) by simp
    then show ?thesis by (simp add: string_bytes_def)
  qed
  finally show ?thesis .
qed

definition attr_list :: "options \<Rightarrow> nat hash \<Rightarrow> (bytes \<times> bytes) list" where
  "attr_list opt h = map (\<lambda>l. attr_of (opt_heap opt) (hl_data l)) (ha_array h)"

lemma attr_at_ok:
  assumes "attr_block (opt_heap opt (dat (ha_array h) i))" "i < ha_records h" "length (ha_array h) = ha_records h"
  shows "attr_at opt h i = Ok (attr_list opt h ! i)"
proof -
  obtain k v where a: "attr_of (opt_heap opt) (dat (ha_array h) i) = (k, v)" by (cases "attr_of (opt_heap opt) (dat (ha_array h) i)")
  show ?thesis
    using attr_of_strings [OF assms(1) a] a assms(2,3) by (simp add: attr_at_def hash_element_def link_at_def attr_list_def)
qed

lemma get_attrs_ok:
  assumes "\<And>i. i \<in> set ixs \<Longrightarrow> attr_at opt h i = Ok (attr_list opt h ! i)"
  shows "get_attrs opt h ixs = Ok (map (\<lambda>i. attr_list opt h ! i) ixs)"
  using assms by (induction ixs) simp_all

lemma send_attrs_ok:
  assumes "\<And>i. i \<in> set ixs \<Longrightarrow> attr_at opt h i = Ok (attr_list opt h ! i)"
    and "length X = length (concat (map (\<lambda>i. attr_bytes (attr_list opt h ! i)) ixs))"
  shows "send_attrs opt h ixs (A @ X @ B) (length A) =
    Ok (A @ concat (map (\<lambda>i. attr_bytes (attr_list opt h ! i)) ixs) @ B, length A + length X)"
  using assms
proof (induction ixs arbitrary: A X)
  case (Cons i ixs)
  obtain k v where a: "attr_list opt h ! i = (k, v)" by (cases "attr_list opt h ! i")
  let ?r = "concat (map (\<lambda>i. attr_bytes (attr_list opt h ! i)) ixs)"
  let ?k = "string_bytes k" and ?v = "string_bytes v"
  have l: "length X = length ?k + length ?v + length ?r" using Cons.prems(2) a by (simp add: attr_bytes_def)
  define X1 where "X1 = take (length ?k) X"
  define X2 where "X2 = take (length ?v) (drop (length ?k) X)"
  define X3 where "X3 = drop (length ?v) (drop (length ?k) X)"
  have X: "X = X1 @ X2 @ X3" "length X1 = length ?k" "length X2 = length ?v" "length X3 = length ?r"
    using l by (simp_all add: X1_def X2_def X3_def del: drop_drop)
  have "send_attrs opt h (i # ixs) (A @ X @ B) (length A) = send_attrs opt h ixs (((A @ ?k) @ ?v) @ X3 @ B) (length ((A @ ?k) @ ?v))"
    using Cons.prems(1) [of i] a send_string_spec [OF X(2), of A "X2 @ X3 @ B"] send_string_spec [OF X(3), of "A @ ?k" "X3 @ B"]
    by (simp add: X(1) add.assoc)
  also have "\<dots> = Ok (((A @ ?k) @ ?v) @ ?r @ B, length ((A @ ?k) @ ?v) + length X3)"
    using Cons.prems(1) X(4) by (intro Cons.IH) simp_all
  finally show ?case using a l X(4) by (simp add: attr_bytes_def)
qed simp

lemma map_nth_upt: "length xs = n \<Longrightarrow> map (\<lambda>i. xs ! i) [0..<n] = xs"
  by (metis map_nth)

lemma attr_table_list:
  assumes inv: "attr_inv opt" and e: "opt_extension opt = Some e" "connect_attrs e = Some h"
  shows "mset (attr_list opt h) = attrs opt" "length (attr_list opt h) = ha_records h" "\<And>i. i < ha_records h \<Longrightarrow> attr_at opt h i = Ok (attr_list opt h ! i)"
    and "connect_attrs_len e = sum_list (map attr_size (attr_list opt h))" "connect_attrs_len e \<le> 65535"
proof -
  have h: "ext_of opt = e" "table_of (connect_attrs e) = h" by (simp_all add: ext_of_def table_of_def e)
  have l: "length (ha_array h) = ha_records h" using inv by (simp add: attr_inv_def key_table_def hash_inv_def h)
  show m: "mset (attr_list opt h) = attrs opt"
    by (simp add: attrs_def table_records_def h attr_list_def hash_records_def image_mset.compositionality comp_def)
  show "length (attr_list opt h) = ha_records h" by (simp add: attr_list_def l)
  show "attr_at opt h i = Ok (attr_list opt h ! i)" if "i < ha_records h" for i
  proof (rule attr_at_ok [OF _ that l])
    have "dat (ha_array h) i \<in># hash_records h" using in_records [OF l] that by blast
    then show "attr_block (opt_heap opt (dat (ha_array h) i))" using inv by (simp add: attr_inv_def table_records_def h)
  qed
  show "connect_attrs_len e = sum_list (map attr_size (attr_list opt h))" "connect_attrs_len e \<le> 65535"
    using inv by (simp_all add: attr_inv_def h flip: m sum_mset_sum_list)
qed

text \<open>The bytes sent are the announced ones and one for every long string.\<close>

lemma attr_bytes_total:
  assumes "sum_list (map attr_size as) \<le> 65535"
  shows "length (concat (map attr_bytes as)) = sum_list (map attr_size as) + sum_list (map long_strings as)"
  using assms
proof (induction as)
  case (Cons a as)
  then show ?case using attr_bytes_length [of a] by simp
qed simp

lemma send_ok:
  assumes inv: "attr_inv opt" and caps: "caps AND CLIENT_CONNECT_ATTRS \<noteq> 0"
    and X: "length X = length (len_bytes L) + L + (\<Sum>a \<in># attrs opt. long_strings a)" "L = connect_attrs_len (ext_of opt)"
  shows "\<exists>as. mset as = attrs opt \<and> ma_send_connect_attr caps opt (A @ X @ B) (length A) =
    Ok (A @ len_bytes L @ concat (map attr_bytes as) @ B, length A + length X)"
proof -
  define X1 where "X1 = take (length (len_bytes L)) X"
  define X2 where "X2 = drop (length (len_bytes L)) X"
  have X12: "X = X1 @ X2" "length X1 = length (len_bytes L)" "length X2 = L + (\<Sum>a \<in># attrs opt. long_strings a)"
    using X(1) by (simp_all add: X1_def X2_def)
  have first: "mysql_net_store_length (A @ X @ B) (length A) L = (Ok (A @ len_bytes L @ X2 @ B, length A + length (len_bytes L)) :: (unit, bytes \<times> nat) res)"
    using store_length_spec [OF X12(2), of A "X2 @ B"] by (simp add: X12(1))
  show ?thesis
  proof (cases "\<exists>e h. opt_extension opt = Some e \<and> connect_attrs e = Some h")
    case True
    then obtain e h where e: "opt_extension opt = Some e" "connect_attrs e = Some h" by blast
    note t = attr_table_list [OF inv e]
    let ?as = "attr_list opt h"
    have L: "L = sum_list (map attr_size ?as)" using X(2) t(4) by (simp add: ext_of_def e(1))
    have bytes: "concat (map (\<lambda>i. attr_bytes (?as ! i)) [0..<ha_records h]) = concat (map attr_bytes ?as)"
    proof -
      have "map (\<lambda>i. attr_bytes (?as ! i)) [0..<ha_records h] = map attr_bytes (map (\<lambda>i. ?as ! i) [0..<ha_records h])" by simp
      then show ?thesis using map_nth_upt [OF t(2)] by simp
    qed
    have len: "length X2 = length (concat (map attr_bytes ?as))"
      using attr_bytes_total [of ?as] t(4,5) L X12(3) by (simp flip: t(1) sum_mset_sum_list)
    have "send_attrs opt h [0..<ha_records h] ((A @ len_bytes L) @ X2 @ B) (length (A @ len_bytes L)) =
        Ok ((A @ len_bytes L) @ concat (map attr_bytes ?as) @ B, length (A @ len_bytes L) + length X2)"
      using send_attrs_ok [of "[0..<ha_records h]" opt h X2 "A @ len_bytes L" B] t(3) unfolding bytes by (simp add: len)
    then have "ma_send_connect_attr caps opt (A @ X @ B) (length A) = Ok (A @ len_bytes L @ concat (map attr_bytes ?as) @ B, length A + length X)"
      using caps first X(2) X12(1,2) e by (simp add: ma_send_connect_attr_def ext_of_def)
    then show ?thesis using t(1) by blast
  next
    case False
    have no: "table_of (connect_attrs (ext_of opt)) = new_table"
      using False by (auto simp: ext_of_def table_of_def fresh_extension_def split: option.split)
    then have at: "attrs opt = {#}" by (simp add: attrs_def table_records_def new_table_ok(2))
    then have "L = 0" using inv X(2) by (simp add: attr_inv_def)
    then have "X2 = []" using X12(3) at by simp
    then have "ma_send_connect_attr caps opt (A @ X @ B) (length A) = Ok (A @ len_bytes L @ concat (map attr_bytes []) @ B, length A + length X)"
      using caps first X(2) X12(1,2) False
      by (cases "opt_extension opt") (auto simp: ma_send_connect_attr_def ext_of_def fresh_extension_def split: option.splits)
    then show ?thesis using at by (intro exI [of _ "[]"]) simp
  qed
qed

section \<open>What the server reads\<close>

definition read_string :: "bytes \<Rightarrow> nat \<Rightarrow> (unit, bytes \<times> nat) res" where
  "read_string buf pos = rbind (net_field_length buf pos) (\<lambda>(n, q). rmap (\<lambda>s. (s, q + n)) (load_bytes buf q n))"

text \<open>Pairs up to the announced end; every pair has at least two bytes.\<close>

fun read_attrs :: "nat \<Rightarrow> bytes \<Rightarrow> nat \<Rightarrow> nat \<Rightarrow> (unit, (bytes \<times> bytes) list) res" where
  "read_attrs fuel buf pos stop =
     (if stop \<le> pos then Ok []
      else case fuel of 0 \<Rightarrow> Err ()
      | Suc f \<Rightarrow> rbind (read_string buf pos) (\<lambda>(k, pos). rbind (read_string buf pos) (\<lambda>(v, pos).
          rmap (\<lambda>r. (k, v) # r) (read_attrs f buf pos stop))))"

declare read_attrs.simps [simp del]

lemma read_string_spec:
  assumes "length s < 65536"
  shows "read_string (A @ string_bytes s @ B) (length A) = Ok (s, length A + length (string_bytes s))"
proof -
  have "net_field_length (A @ string_bytes s @ B) (length A) = (Ok (length s, length A + length (len_bytes (length s))) :: (unit, nat \<times> nat) res)"
    using field_length_spec [of "length s" "s @ B" A] assms by (simp add: string_bytes_def)
  then show ?thesis by (simp add: read_string_def string_bytes_def load_bytes_def)
qed

lemma read_attrs_spec:
  assumes "\<And>a. a \<in> set as \<Longrightarrow> length (fst a) < 65536 \<and> length (snd a) < 65536" "length as \<le> fuel"
  shows "read_attrs fuel (A @ concat (map attr_bytes as) @ B) (length A) (length A + length (concat (map attr_bytes as))) = Ok as"
  using assms
proof (induction as arbitrary: A fuel)
  case Nil
  then show ?case by (simp add: read_attrs.simps [of fuel])
next
  case (Cons a as)
  obtain k v where a: "a = (k, v)" by (cases a)
  obtain f where f: "fuel = Suc f" using Cons.prems(2) by (cases fuel) auto
  let ?k = "string_bytes k" and ?v = "string_bytes v" and ?r = "concat (map attr_bytes as)"
  have s: "length k < 65536" "length v < 65536" using Cons.prems(1) [of a] a by simp_all
  have ih: "read_attrs f (((A @ ?k) @ ?v) @ ?r @ B) (length ((A @ ?k) @ ?v)) (length ((A @ ?k) @ ?v) + length ?r) = Ok as"
    by (rule Cons.IH) (use Cons.prems f in auto)
  have "0 < length ?k" by (simp add: string_bytes_def len_bytes_not_Nil)
  then show ?case
    using read_string_spec [OF s(1), of A "?v @ ?r @ B"] read_string_spec [OF s(2), of "A @ ?k" "?r @ B"] ih
    by (subst read_attrs.simps) (simp add: f a attr_bytes_def add.assoc)
qed

lemma no_long_strings: "(\<And>a. a \<in># M \<Longrightarrow> length (fst a) < 251 \<and> length (snd a) < 251) \<Longrightarrow> (\<Sum>a \<in># M. long_strings a) = 0"
  by (fastforce simp: sum_mset_0_iff long_strings_def)

section \<open>Listing, reset\<close>

lemma listing_ok:
  assumes "attr_inv opt"
  shows "\<exists>as. get_connect_attrs opt = Ok (size (attrs opt), as) \<and> mset as = attrs opt"
proof (cases "\<exists>e h. opt_extension opt = Some e \<and> connect_attrs e = Some h")
  case True
  then obtain e h where e: "opt_extension opt = Some e" "connect_attrs e = Some h" by blast
  note t = attr_table_list [OF assms e]
  have "get_attrs opt h [0..<ha_records h] = Ok (attr_list opt h)"
    using get_attrs_ok [of "[0..<ha_records h]" opt h] t(3) map_nth_upt [OF t(2)] by simp
  moreover have "size (attrs opt) = ha_records h" by (simp flip: t(1) add: t(2))
  ultimately show ?thesis using t(1) by (simp add: get_connect_attrs_def e)
next
  case False
  then have "table_of (connect_attrs (ext_of opt)) = new_table"
    by (auto simp: ext_of_def table_of_def fresh_extension_def split: option.split)
  then have "attrs opt = {#}" by (simp add: attrs_def table_records_def new_table_ok(2))
  then show ?thesis using False by (auto simp: get_connect_attrs_def split: option.split)
qed

lemma reset_ok:
  assumes "attr_inv opt" "opt_extension opt \<noteq> None \<or> ae_extension env"
  shows "\<exists>opt' freed. connect_attr_reset env opt = Ok (opt', freed) \<and> attr_inv opt' \<and> attrs opt' = {#} \<and> userdata (ext_of opt') = userdata (ext_of opt)
    \<and> opt_heap opt' = opt_heap opt"
proof (cases "connect_attrs (ext_of opt)")
  case None
  let ?opt = "opt\<lparr>opt_extension := Some (ext_of opt)\<rparr>"
  have "attr_inv ?opt" "attrs ?opt = attrs opt" using attr_inv_same [OF assms(1), of ?opt] by (simp_all add: ext_of_def)
  moreover have "attrs opt = {#}" by (simp add: attrs_def table_records_def table_of_def None new_table_ok(2))
  ultimately show ?thesis using None by (simp add: connect_attr_reset_def check_ext_of [OF assms(2)] ext_of_def)
next
  case (Some h)
  let ?opt = "opt\<lparr>opt_extension := Some ((ext_of opt)\<lparr>connect_attrs := None, connect_attrs_len := 0\<rparr>)\<rparr>"
  have "length (ha_array h) = ha_records h" using assms(1) Some by (simp add: attr_inv_def table_of_def key_table_def hash_inv_def)
  then have "\<exists>freed. connect_attr_reset env opt = Ok (?opt, freed)"
    using Some by (simp add: connect_attr_reset_def check_ext_of [OF assms(2)] hash_free_def)
  moreover have "attr_inv ?opt" "attrs ?opt = {#}"
    by (simp_all add: attr_inv_def attrs_def table_records_def ext_of_def table_of_def new_table_ok)
  ultimately show ?thesis by (auto simp: ext_of_def)
qed

section \<open>User data are a map\<close>

definition user_block :: "bytes \<Rightarrow> bool" where
  "user_block b \<longleftrightarrow> (\<exists>k d. k \<noteq> [] \<and> 0 \<notin> set k \<and> length d = 8 \<and> b = k @ [0] @ d)"

definition user_entry :: "nat memory \<Rightarrow> nat \<Rightarrow> bytes \<times> nat" where
  "user_entry mem p = (let k = takeWhile (\<lambda>b. b \<noteq> 0) (mem p) in (k, le_val (take 8 (drop (length k + 1) (mem p)))))"

definition user_table :: "options \<Rightarrow> nat hash" where
  "user_table opt = table_of (userdata (ext_of opt))"

definition entries_of :: "nat memory \<Rightarrow> nat hash \<Rightarrow> (bytes \<times> nat) list" where
  "entries_of mem h = map (\<lambda>l. user_entry mem (hl_data l)) (ha_array h)"

definition userdata_map :: "options \<Rightarrow> bytes \<rightharpoonup> nat" where
  "userdata_map opt = map_of (entries_of (opt_heap opt) (user_table opt))"

definition entries_ok :: "nat memory \<Rightarrow> nat hash \<Rightarrow> bool" where
  "entries_ok mem h \<longleftrightarrow> key_table mem h \<and> (\<forall>p \<in># hash_records h. user_block (mem p)) \<and> distinct (map fst (entries_of mem h))"

definition user_inv :: "options \<Rightarrow> bool" where
  "user_inv opt \<longleftrightarrow> entries_ok (opt_heap opt) (user_table opt)"

lemma user_entry_block: "0 \<notin> set k \<Longrightarrow> length d = 8 \<Longrightarrow> mem p = k @ [0] @ d \<Longrightarrow> user_entry mem p = (k, le_val d)"
  by (simp add: user_entry_def takeWhile_terminated)

lemma key_is_entry: "ha_get_key h = Some ma_get_hash_keyval \<Longrightarrow> hash_key mem h p = fst (user_entry mem p)"
  by (simp add: hash_key_def ma_get_hash_keyval_def user_entry_def Let_def)

lemma mset_entries: "mset (entries_of mem h) = image_mset (user_entry mem) (hash_records h)"
  by (simp add: entries_of_def hash_records_def image_mset.compositionality comp_def)

lemma map_of_mset:
  assumes "distinct (map fst xs)" "mset ys = mset xs"
  shows "map_of ys = map_of xs" "distinct (map fst ys)"
proof -
  have "mset (map fst ys) = mset (map fst xs)" using assms(2) by simp
  then show d: "distinct (map fst ys)" using assms(1) mset_eq_imp_distinct_iff by blast
  show "map_of ys = map_of xs" using map_of_inject_set [OF d assms(1)] mset_eq_setD [OF assms(2)] by blast
qed

lemma map_of_replace:
  assumes "(k, v) \<in> set xs"
  shows "map_of (map (\<lambda>a. if fst a = k then (k, d) else a) xs) = (map_of xs)(k \<mapsto> d)"
proof
  fix x
  have "x \<noteq> k \<Longrightarrow> map_of (map (\<lambda>a. if fst a = k then (k, d) else a) ys) x = map_of ys x" for ys by (induction ys) auto
  moreover have "map_of (map (\<lambda>a. if fst a = k then (k, d) else a) xs) k = Some d" using assms by (induction xs) auto
  ultimately show "map_of (map (\<lambda>a. if fst a = k then (k, d) else a) xs) x = ((map_of xs)(k \<mapsto> d)) x" by simp
qed

text \<open>A search sees the map.\<close>

lemma user_search:
  assumes ok: "entries_ok mem h" and k: "k \<noteq> []"
  shows "\<exists>res h'. hash_search mem h (k @ [0]) (length k) = Ok (res, h') \<and> entries_ok mem h' \<and> mset (entries_of mem h') = mset (entries_of mem h)
    \<and> hash_records h' = hash_records h \<and> ha_records h' = ha_records h
    \<and> (case res of None \<Rightarrow> map_of (entries_of mem h) k = None
       | Some p \<Rightarrow> p \<in># hash_records h \<and> user_entry mem p = (k, the (map_of (entries_of mem h) k)) \<and> k \<in> dom (map_of (entries_of mem h)))"
proof -
  have kt: "hash_inv mem h" "ha_get_key h = Some ma_get_hash_keyval" using ok by (simp_all add: entries_ok_def key_table_def)
  obtain res h' where s: "hash_search mem h (k @ [0]) (length k) = Ok (res, h')" "hash_inv mem h'" "hash_records h' = hash_records h"
      "case res of Some r \<Rightarrow> r \<in># hash_records h \<and> hash_key mem h r = k | None \<Rightarrow> \<forall>r \<in># hash_records h. hash_key mem h r \<noteq> k"
    using hash_table.search_law [OF kt(1) k, where tl = "[0]"] by blast
  have g: "ha_get_key h' = Some ma_get_hash_keyval" using get_key_same(3) [OF s(1)] kt(2) by simp
  have m: "mset (entries_of mem h') = mset (entries_of mem h)" by (simp add: mset_entries s(3))
  have d: "distinct (map fst (entries_of mem h))" using ok by (simp add: entries_ok_def)
  have "entries_ok mem h'" using ok s(2,3) g map_of_mset(2) [OF d m] by (simp add: entries_ok_def key_table_def)
  moreover have "ha_records h' = ha_records h" using s(2,3) kt(1) by (metis hash_inv_def hash_records_def length_map size_mset)
  moreover have "set (entries_of mem h) = user_entry mem ` set_mset (hash_records h)" using mset_entries [of mem h] by (metis set_image_mset set_mset_mset)
  then have "case res of None \<Rightarrow> map_of (entries_of mem h) k = None
       | Some p \<Rightarrow> p \<in># hash_records h \<and> user_entry mem p = (k, the (map_of (entries_of mem h) k)) \<and> k \<in> dom (map_of (entries_of mem h))"
  proof (cases res)
    case None
    assume "set (entries_of mem h) = user_entry mem ` set_mset (hash_records h)"
    then have "k \<notin> fst ` set (entries_of mem h)" using s(4) None kt(2) by (auto simp: key_is_entry)
    then show ?thesis using None by (simp add: map_of_eq_None_iff)
  next
    case (Some p)
    assume e: "set (entries_of mem h) = user_entry mem ` set_mset (hash_records h)"
    then have p: "p \<in># hash_records h" "fst (user_entry mem p) = k" using s(4) Some kt(2) by (auto simp: key_is_entry)
    then have "(k, snd (user_entry mem p)) \<in> set (entries_of mem h)" unfolding e by (metis imageI prod.collapse)
    then have "map_of (entries_of mem h) k = Some (snd (user_entry mem p))" using d by simp
    then show ?thesis using Some p by (simp add: dom_def prod_eq_iff)
  qed
  ultimately show ?thesis using s(1,3) m by blast
qed

text \<open>Overwriting the value of an entry.\<close>

lemma user_overwrite:
  assumes ok: "entries_ok mem h" and p: "p \<in># hash_records h" "user_entry mem p = (k, v)" and d: "d < 2 ^ 64"
  shows "\<exists>b. store_bytes (mem p) (length k + 1) (le_bytes 8 d) = (Ok b :: (unit, bytes) res) \<and> entries_ok (mem(p := b)) h
    \<and> map_of (entries_of (mem(p := b)) h) = (map_of (entries_of mem h))(k \<mapsto> d)"
proof -
  obtain k' w where w: "k' \<noteq> []" "0 \<notin> set k'" "length w = 8" "mem p = k' @ [0] @ w" using ok p(1) by (auto simp: entries_ok_def user_block_def)
  have k: "k' = k" using user_entry_block [where mem = mem and p = p, OF w(2,3,4)] p(2) by simp
  let ?b = "k @ [0] @ le_bytes 8 d" and ?mem = "mem(p := k @ [0] @ le_bytes 8 d)"
  have st: "store_bytes (mem p) (length k + 1) (le_bytes 8 d) = (Ok ?b :: (unit, bytes) res)"
    using store_bytes_mid [of "length k + 1" "k @ [0]" "le_bytes 8 d" w "[]"] w(3,4) k by simp
  have new: "user_entry ?mem p = (k, d)"
    using user_entry_block [where mem = ?mem and p = p and k = k and d = "le_bytes 8 d"] w(2) k d by (simp add: le_val_bytes)
  have dis: "distinct (map fst (entries_of mem h))" using ok by (simp add: entries_ok_def)
  have l: "length (ha_array h) = ha_records h" using ok by (simp add: entries_ok_def key_table_def hash_inv_def)
  obtain j where j: "j < ha_records h" "dat (ha_array h) j = p" using in_records [OF l] p(1) by blast
  have entry: "user_entry ?mem (dat (ha_array h) i) = (if fst (user_entry mem (dat (ha_array h) i)) = k then (k, d) else user_entry mem (dat (ha_array h) i))"
    if "i < ha_records h" for i
  proof (cases "dat (ha_array h) i = p")
    case True
    then show ?thesis using new p(2) by simp
  next
    case False
    have "fst (user_entry mem (dat (ha_array h) i)) \<noteq> k"
    proof
      assume "fst (user_entry mem (dat (ha_array h) i)) = k"
      then have "map fst (entries_of mem h) ! i = map fst (entries_of mem h) ! j" using that j p(2) l by (simp add: entries_of_def)
      moreover have "length (map fst (entries_of mem h)) = ha_records h" by (simp add: entries_of_def l)
      ultimately have "i = j" using nth_eq_iff_index_eq [OF dis, of i j] that j(1) by simp
      then show False using False j(2) by simp
    qed
    then show ?thesis using False by (simp add: user_entry_def)
  qed
  have es: "entries_of ?mem h = map (\<lambda>a. if fst a = k then (k, d) else a) (entries_of mem h)"
  proof (rule nth_equalityI)
    fix i assume "i < length (entries_of ?mem h)"
    then show "entries_of ?mem h ! i = map (\<lambda>a. if fst a = k then (k, d) else a) (entries_of mem h) ! i"
      using entry [of i] l by (simp add: entries_of_def)
  qed (simp add: entries_of_def)
  have fsts: "map fst (entries_of ?mem h) = map fst (entries_of mem h)" unfolding es by (induction "entries_of mem h") auto
  have "entries_of mem h ! j = (k, v)" "j < length (entries_of mem h)" using j p(2) l by (simp_all add: entries_of_def)
  then have "(k, v) \<in> set (entries_of mem h)" by (metis nth_mem)
  then have "map_of (entries_of ?mem h) = (map_of (entries_of mem h))(k \<mapsto> d)" unfolding es by (rule map_of_replace)
  moreover have "entries_ok ?mem h"
  proof -
    have "hash_key ?mem h x = hash_key mem h x" for x
      using ok w(2,4) k by (auto simp: entries_ok_def key_table_def hash_key_def ma_get_hash_keyval_def takeWhile_terminated)
    then have "hash_inv ?mem h" using hash_inv_memory [of mem h ?mem] ok by (simp add: entries_ok_def key_table_def)
    moreover have "user_block (?mem x)" if "x \<in># hash_records h" for x
      using ok that w(1,2) k unfolding entries_ok_def user_block_def by (metis fun_upd_apply length_le_bytes)
    moreover have "distinct (map fst (entries_of ?mem h))" unfolding fsts by (rule dis)
    ultimately show ?thesis using ok by (simp add: entries_ok_def key_table_def)
  qed
  ultimately show ?thesis using st by blast
qed

lemma new_entries_ok: "entries_ok mem new_table" "entries_of mem new_table = []"
  by (simp_all add: entries_ok_def new_table_ok entries_of_def) (simp_all add: new_table_def hash_init_def)

lemma user_inv_step:
  assumes "entries_ok mem h" "opt' = opt\<lparr>opt_extension := Some (e\<lparr>userdata := Some h\<rparr>), opt_heap := mem\<rparr>"
  shows "user_inv opt' \<and> userdata_map opt' = map_of (entries_of mem h)"
  using assms by (simp add: user_inv_def userdata_map_def user_table_def ext_of_def table_of_def)

lemma user_add:
  assumes ok: "entries_ok mem h" and k: "0 \<notin> set k" "k \<noteq> []" and new: "map_of (entries_of mem h) k = None"
    and p: "p \<notin># hash_records h" and room: "ha_records h + 1 < 2 ^ 31" and d: "d < 2 ^ 64"
  shows "\<exists>h'. hash_insert (mem(p := k @ [0] @ le_bytes 8 d)) True fresh h p = Ok (False, h') \<and> hash_records h' = add_mset p (hash_records h) \<and> entries_ok (mem(p := k @ [0] @ le_bytes 8 d)) h'
    \<and> map_of (entries_of (mem(p := k @ [0] @ le_bytes 8 d)) h') = (map_of (entries_of mem h))(k \<mapsto> d)"
proof -
  let ?mem = "mem(p := k @ [0] @ le_bytes 8 d)"
  have kt: "key_table mem h" and dis: "distinct (map fst (entries_of mem h))" using ok by (simp_all add: entries_ok_def)
  obtain h' where h': "hash_insert ?mem True fresh h p = Ok (False, h')" "key_table ?mem h'" "hash_records h' = add_mset p (hash_records h)"
    using fresh_block [OF kt p room] by blast
  have one: "user_entry ?mem p = (k, d)"
    using user_entry_block [where mem = ?mem and p = p and k = k and d = "le_bytes 8 d"] k d by (simp add: le_val_bytes)
  have others: "user_entry ?mem x = user_entry mem x" if "x \<in># hash_records h" for x using that p by (auto simp: user_entry_def)
  have m: "mset (entries_of ?mem h') = mset ((k, d) # entries_of mem h)"
    using image_mset_cong [of "hash_records h" "user_entry ?mem" "user_entry mem"] others one by (simp add: mset_entries h'(3))
  have dk: "distinct (map fst ((k, d) # entries_of mem h))" using new dis by (simp add: map_of_eq_None_iff)
  have "user_block (?mem x)" if "x \<in># hash_records h'" for x
    using that ok k unfolding h'(3) entries_ok_def user_block_def by (metis fun_upd_apply insert_iff length_le_bytes set_mset_add_mset_insert)
  then have "entries_ok ?mem h'" using h'(2) map_of_mset(2) [OF dk m] by (simp add: entries_ok_def)
  then show ?thesis using h'(1,3) map_of_mset(1) [OF dk m] by auto
qed

lemma userdata_set_ok:
  assumes inv: "user_inv opt" and k: "0 \<notin> set k" "k \<noteq> []" and d: "0 < d" "d < 2 ^ 64"
    and env: "opt_extension opt \<noteq> None \<or> ae_extension env" "\<And>p. ae_block env = Some p \<Longrightarrow> p \<notin># hash_records (user_table opt)"
    and room: "ha_records (user_table opt) + 1 < 2 ^ 31"
  shows "\<exists>c opt'. userdata_set env (Some k) d opt = Ok (c, opt') \<and> user_inv opt'
    \<and> (c = 0 \<longleftrightarrow> k \<in> dom (userdata_map opt) \<or> (userdata (ext_of opt) \<noteq> None \<or> ae_table env) \<and> ae_block env \<noteq> None \<and> ae_room env)
    \<and> userdata_map opt' = (if c = 0 then (userdata_map opt)(k \<mapsto> d) else userdata_map opt)
    \<and> connect_attrs (ext_of opt') = connect_attrs (ext_of opt) \<and> connect_attrs_len (ext_of opt') = connect_attrs_len (ext_of opt)
    \<and> (\<forall>p. p \<notin># hash_records (user_table opt) \<longrightarrow> ae_block env \<noteq> Some p \<longrightarrow> opt_heap opt' p = opt_heap opt p)
    \<and> set_mset (hash_records (user_table opt')) \<subseteq> set_mset (hash_records (user_table opt)) \<union> set_option (ae_block env)"
proof -
  let ?e = "ext_of opt" and ?mem = "opt_heap opt"
  let ?h = "user_table opt"
  have errs: "CR_INVALID_PARAMETER_NO \<noteq> 0" "CR_OUT_OF_MEMORY \<noteq> 0" by (simp_all add: CR_INVALID_PARAMETER_NO_def CR_OUT_OF_MEMORY_def)
  have ok: "entries_ok ?mem ?h" using inv by (simp add: user_inv_def)
  have map: "userdata_map opt = map_of (entries_of ?mem ?h)" by (simp add: userdata_map_def)
  define found where "found = (\<lambda>(r, h1). case r of
        Some p \<Rightarrow> rmap (\<lambda>b. (0, opt\<lparr>opt_extension := Some (?e\<lparr>userdata := Some h1\<rparr>), opt_heap := ?mem(p := b)\<rparr>))
                    (store_bytes (?mem p) (length k + 1) (le_bytes 8 d))
      | None \<Rightarrow> (case ae_block env of
          None \<Rightarrow> Ok (CR_OUT_OF_MEMORY, opt\<lparr>opt_extension := Some (?e\<lparr>userdata := Some h1\<rparr>)\<rparr>)
        | Some p \<Rightarrow> rmap (\<lambda>(failed, h2). if failed then (CR_INVALID_PARAMETER_NO, opt\<lparr>opt_extension := Some (?e\<lparr>userdata := Some h2\<rparr>)\<rparr>)
                       else (0, opt\<lparr>opt_extension := Some (?e\<lparr>userdata := Some h2\<rparr>), opt_heap := ?mem(p := k @ [0] @ le_bytes 8 d)\<rparr>))
                 (hash_insert (?mem(p := k @ [0] @ le_bytes 8 d)) (ae_room env) (ae_link env) h1 p)))"
  have set: "userdata_set env (Some k) d opt = (if userdata ?e \<noteq> None \<or> ae_table env then rbind (hash_search ?mem ?h (k @ [0]) (length k)) found
      else Ok (CR_OUT_OF_MEMORY, opt\<lparr>opt_extension := Some ?e\<rparr>))"
    using d(1) unfolding userdata_set_def check_ext_of [OF env(1)] init_table_of option.case rbind.simps Let_def found_def user_table_def by simp
  show ?thesis
  proof (cases "userdata ?e \<noteq> None \<or> ae_table env")
    case False
    then have "?h = new_table" by (simp add: user_table_def table_of_def)
    then have "userdata_map opt = Map.empty" by (simp add: map new_entries_ok(2))
    moreover have "user_inv (opt\<lparr>opt_extension := Some ?e\<rparr>)" "userdata_map (opt\<lparr>opt_extension := Some ?e\<rparr>) = userdata_map opt"
      using inv by (simp_all add: user_inv_def userdata_map_def user_table_def ext_of_def)
    ultimately show ?thesis using set False errs by (auto simp: ext_of_def user_table_def)
  next
    case True
    obtain res h1 where s: "hash_search ?mem ?h (k @ [0]) (length k) = Ok (res, h1)" "entries_ok ?mem h1"
        "mset (entries_of ?mem h1) = mset (entries_of ?mem ?h)" "hash_records h1 = hash_records ?h" "ha_records h1 = ha_records ?h"
        "case res of None \<Rightarrow> map_of (entries_of ?mem ?h) k = None
         | Some p \<Rightarrow> p \<in># hash_records ?h \<and> user_entry ?mem p = (k, the (map_of (entries_of ?mem ?h) k)) \<and> k \<in> dom (map_of (entries_of ?mem ?h))"
      using user_search [OF ok k(2)] by blast
    have m1: "map_of (entries_of ?mem h1) = userdata_map opt" using map_of_mset(1) [OF _ s(3)] ok by (simp add: entries_ok_def map)
    have run: "userdata_set env (Some k) d opt = found (res, h1)" using set True s(1) by simp
    show ?thesis
    proof (cases res)
      case (Some p)
      then have p: "p \<in># hash_records h1" "user_entry ?mem p = (k, the (map_of (entries_of ?mem ?h) k))" "k \<in> dom (userdata_map opt)"
        using s(4,6) map by simp_all
      obtain b where b: "store_bytes (?mem p) (length k + 1) (le_bytes 8 d) = (Ok b :: (unit, bytes) res)" "entries_ok (?mem(p := b)) h1"
          "map_of (entries_of (?mem(p := b)) h1) = (map_of (entries_of ?mem h1))(k \<mapsto> d)"
        using user_overwrite [OF s(2) p(1,2) d(2)] by blast
      let ?opt = "opt\<lparr>opt_extension := Some (?e\<lparr>userdata := Some h1\<rparr>), opt_heap := ?mem(p := b)\<rparr>"
      have "userdata_set env (Some k) d opt = Ok (0, ?opt)" using run Some b(1) by (simp add: found_def)
      moreover have "user_inv ?opt \<and> userdata_map ?opt = (userdata_map opt)(k \<mapsto> d)" using user_inv_step [OF b(2) refl] b(3) m1 by simp
      moreover have "\<forall>q. q \<notin># hash_records ?h \<longrightarrow> opt_heap ?opt q = ?mem q" using p(1) s(4) by auto
      ultimately show ?thesis using p(3) s(4) by (auto simp: ext_of_def user_table_def table_of_def)
    next
      case None
      then have new: "map_of (entries_of ?mem h1) k = None" using s(6) m1 map by simp
      let ?opt1 = "opt\<lparr>opt_extension := Some (?e\<lparr>userdata := Some h1\<rparr>)\<rparr>"
      have same: "user_inv ?opt1 \<and> userdata_map ?opt1 = userdata_map opt" using user_inv_step [OF s(2), where opt' = ?opt1 and opt = opt and e = ?e] m1 by simp
      show ?thesis
      proof (cases "ae_block env = None \<or> \<not> ae_room env")
        case True
        then have "\<exists>c. c \<noteq> 0 \<and> userdata_set env (Some k) d opt = Ok (c, ?opt1)"
          using run None errs by (cases "ae_block env") (auto simp: found_def insert_failed)
        then show ?thesis using same True new m1 s(4) by (auto simp: ext_of_def user_table_def table_of_def)
      next
        case False
        then obtain p where p: "ae_block env = Some p" "ae_room env" by (cases "ae_block env") auto
        have fresh: "p \<notin># hash_records h1" "ha_records h1 + 1 < 2 ^ 31" using env(2) [OF p(1)] s(4,5) room by simp_all
        let ?mem1 = "?mem(p := k @ [0] @ le_bytes 8 d)"
        obtain h2 where h2: "hash_insert ?mem1 True (ae_link env) h1 p = Ok (False, h2)" "hash_records h2 = add_mset p (hash_records h1)" "entries_ok ?mem1 h2"
            "map_of (entries_of ?mem1 h2) = (map_of (entries_of ?mem h1))(k \<mapsto> d)"
          using user_add [OF s(2) k new fresh d(2)] by blast
        let ?opt = "opt\<lparr>opt_extension := Some (?e\<lparr>userdata := Some h2\<rparr>), opt_heap := ?mem1\<rparr>"
        have "userdata_set env (Some k) d opt = Ok (0, ?opt)" using run None p h2(1) by (simp add: found_def)
        moreover have "user_inv ?opt \<and> userdata_map ?opt = (userdata_map opt)(k \<mapsto> d)" using user_inv_step [OF h2(3) refl] h2(4) m1 by simp
        moreover have "\<forall>q. ae_block env \<noteq> Some q \<longrightarrow> opt_heap ?opt q = ?mem q" using p(1) by auto
        ultimately show ?thesis using p True h2(2) s(4) by (auto simp: ext_of_def user_table_def table_of_def)
      qed
    qed
  qed
qed

lemma userdata_get_ok:
  assumes inv: "user_inv opt" and k: "0 \<notin> set k" "k \<noteq> []"
  shows "\<exists>opt'. userdata_get (Some k) opt = Ok (case userdata_map opt k of Some d \<Rightarrow> d | None \<Rightarrow> 0, opt') \<and> user_inv opt'
    \<and> userdata_map opt' = userdata_map opt \<and> hash_records (user_table opt') = hash_records (user_table opt) \<and> opt_heap opt' = opt_heap opt
    \<and> connect_attrs (ext_of opt') = connect_attrs (ext_of opt) \<and> connect_attrs_len (ext_of opt') = connect_attrs_len (ext_of opt)"
proof (cases "\<exists>e h. opt_extension opt = Some e \<and> userdata e = Some h")
  case False
  then have "user_table opt = new_table" by (auto simp: user_table_def ext_of_def table_of_def fresh_extension_def split: option.split)
  then have "userdata_map opt k = None" by (simp add: userdata_map_def new_entries_ok(2))
  then show ?thesis using False inv by (auto simp: userdata_get_def split: option.split)
next
  case True
  then obtain e h where e: "opt_extension opt = Some e" "userdata e = Some h" by blast
  have h: "user_table opt = h" by (simp add: user_table_def ext_of_def table_of_def e)
  let ?mem = "opt_heap opt"
  have ok: "entries_ok ?mem h" using inv by (simp add: user_inv_def h)
  obtain res h1 where s: "hash_search ?mem h (k @ [0]) (length k) = Ok (res, h1)" "entries_ok ?mem h1"
      "mset (entries_of ?mem h1) = mset (entries_of ?mem h)" "hash_records h1 = hash_records h"
      "case res of None \<Rightarrow> map_of (entries_of ?mem h) k = None
       | Some p \<Rightarrow> p \<in># hash_records h \<and> user_entry ?mem p = (k, the (map_of (entries_of ?mem h) k)) \<and> k \<in> dom (map_of (entries_of ?mem h))"
    using user_search [OF ok k(2)] by blast
  let ?opt = "opt\<lparr>opt_extension := Some (e\<lparr>userdata := Some h1\<rparr>)\<rparr>"
  have m: "userdata_map opt = map_of (entries_of ?mem h)" by (simp add: userdata_map_def h)
  have "user_inv ?opt \<and> userdata_map ?opt = userdata_map opt"
    using user_inv_step [OF s(2), where opt' = ?opt and opt = opt and e = e] map_of_mset(1) [OF _ s(3)] ok by (simp add: m entries_ok_def)
  moreover have "userdata_get (Some k) opt = Ok (case userdata_map opt k of Some d \<Rightarrow> d | None \<Rightarrow> 0, ?opt)"
  proof (cases res)
    case None
    then show ?thesis using s(1,5) by (simp add: userdata_get_def e m)
  next
    case (Some p)
    then have p: "p \<in># hash_records h" "user_entry ?mem p = (k, the (userdata_map opt k))" "k \<in> dom (userdata_map opt)" using s(5) m by simp_all
    obtain k' w where w: "0 \<notin> set k'" "length w = 8" "?mem p = k' @ [0] @ w" using ok p(1) by (auto simp: entries_ok_def user_block_def)
    have "(k', le_val w) = (k, the (userdata_map opt k))" using user_entry_block [where mem = ?mem and p = p, OF w] p(2) by (simp only:)
    then have "k' = k" "le_val w = the (userdata_map opt k)" by blast+
    then have "uint8korr (?mem p) (length k + 1) = (Ok (the (userdata_map opt k)) :: (unit, nat) res)"
      using w(2,3) by (simp add: uint8korr_def uintN_load_def load_bytes_def)
    then show ?thesis using s(1) Some p(3) by (auto simp: userdata_get_def e Let_def)
  qed
  moreover have "hash_records (user_table ?opt) = hash_records (user_table opt)" "ext_of ?opt = e\<lparr>userdata := Some h1\<rparr>" "ext_of opt = e"
    using s(4) h by (simp_all add: user_table_def ext_of_def table_of_def e(1))
  ultimately show ?thesis by (intro exI [of _ ?opt]) simp
qed

section \<open>Sequences of calls\<close>

text \<open>
  The two tables use different blocks. \<open>fresh\<close> says that \<open>malloc\<close> returns an address that is not in use.
\<close>

definition attr_blocks :: "options \<Rightarrow> nat set" where
  "attr_blocks opt = set_mset (table_records (connect_attrs (ext_of opt)))"

definition user_blocks :: "options \<Rightarrow> nat set" where
  "user_blocks opt = set_mset (hash_records (user_table opt))"

definition options_inv :: "options \<Rightarrow> bool" where
  "options_inv opt \<longleftrightarrow> attr_inv opt \<and> user_inv opt \<and> attr_blocks opt \<inter> user_blocks opt = {}"

definition fresh :: "attr_env \<Rightarrow> options \<Rightarrow> bool" where
  "fresh env opt \<longleftrightarrow> (opt_extension opt \<noteq> None \<or> ae_extension env) \<and> set_option (ae_block env) \<inter> (attr_blocks opt \<union> user_blocks opt) = {}"

inductive opt_step :: "options \<Rightarrow> options \<Rightarrow> bool" where
  add: "fresh env opt \<Longrightarrow> 0 \<notin> set k \<Longrightarrow> 0 \<notin> set v \<Longrightarrow> connect_attr_add env (Some k) (Some v) opt = Ok (c, opt') \<Longrightarrow> opt_step opt opt'"
| delete: "fresh env opt \<Longrightarrow> 0 \<notin> set k \<Longrightarrow> k \<noteq> [] \<Longrightarrow> connect_attr_delete env (Some k) opt = Ok opt' \<Longrightarrow> opt_step opt opt'"
| reset: "fresh env opt \<Longrightarrow> connect_attr_reset env opt = Ok (opt', freed) \<Longrightarrow> opt_step opt opt'"
| set: "fresh env opt \<Longrightarrow> 0 \<notin> set k \<Longrightarrow> k \<noteq> [] \<Longrightarrow> d < 2 ^ 64 \<Longrightarrow> ha_records (user_table opt) + 1 < 2 ^ 31 \<Longrightarrow>
    userdata_set env (Some k) d opt = Ok (c, opt') \<Longrightarrow> opt_step opt opt'"
| get: "0 \<notin> set k \<Longrightarrow> k \<noteq> [] \<Longrightarrow> userdata_get (Some k) opt = Ok (d, opt') \<Longrightarrow> opt_step opt opt'"

inductive opt_reachable :: "options \<Rightarrow> bool" where
  init: "opt_reachable \<lparr>opt_extension = None, opt_heap = mem\<rparr>"
| step: "opt_reachable opt \<Longrightarrow> opt_step opt opt' \<Longrightarrow> opt_reachable opt'"

text \<open>Each table is untouched by what happens in the other.\<close>

lemma attr_table_frame:
  assumes "attr_inv opt" "connect_attrs (ext_of opt') = connect_attrs (ext_of opt)" "connect_attrs_len (ext_of opt') = connect_attrs_len (ext_of opt)"
    and "\<And>p. p \<in> attr_blocks opt \<Longrightarrow> opt_heap opt' p = opt_heap opt p"
  shows "attr_inv opt'" "attrs opt' = attrs opt"
proof -
  let ?h = "table_of (connect_attrs (ext_of opt))"
  have same: "opt_heap opt' p = opt_heap opt p" if "p \<in># hash_records ?h" for p using assms(4) that by (simp add: attr_blocks_def table_records_def)
  show at: "attrs opt' = attrs opt"
    unfolding attrs_def assms(2) table_records_def by (intro image_mset_cong) (simp add: attr_of_def same)
  have kt: "key_table (opt_heap opt) ?h" using assms(1) by (simp add: attr_inv_def)
  have "hash_inv (opt_heap opt') ?h"
    by (rule hash_inv_memory [of "opt_heap opt"]) (use kt same in \<open>simp_all add: key_table_def hash_key_def ma_get_hash_keyval_def\<close>)
  then have "key_table (opt_heap opt') ?h" using kt by (simp add: key_table_def)
  moreover have "attr_block (opt_heap opt' p)" if "p \<in># hash_records ?h" for p
    using assms(1) that same by (simp add: attr_inv_def table_records_def)
  ultimately show "attr_inv opt'" using assms(1) by (simp add: attr_inv_def at assms(2,3) table_records_def)
qed

lemma user_table_frame:
  assumes "user_inv opt" "userdata (ext_of opt') = userdata (ext_of opt)" "\<And>p. p \<in> user_blocks opt \<Longrightarrow> opt_heap opt' p = opt_heap opt p"
  shows "user_inv opt'" "userdata_map opt' = userdata_map opt" "user_table opt' = user_table opt"
proof -
  let ?h = "user_table opt"
  show t: "user_table opt' = user_table opt" by (simp add: user_table_def assms(2))
  have same: "opt_heap opt' p = opt_heap opt p" if "p \<in># hash_records ?h" for p using assms(3) that by (simp add: user_blocks_def)
  have ok: "entries_ok (opt_heap opt) ?h" using assms(1) by (simp add: user_inv_def)
  have es: "entries_of (opt_heap opt') ?h = entries_of (opt_heap opt) ?h"
    using same unfolding entries_of_def hash_records_def by (intro map_cong refl) (auto simp: user_entry_def)
  have "hash_inv (opt_heap opt') ?h"
    by (rule hash_inv_memory [of "opt_heap opt"]) (use ok same in \<open>simp_all add: entries_ok_def key_table_def hash_key_def ma_get_hash_keyval_def\<close>)
  then have "entries_ok (opt_heap opt') ?h" using ok same by (simp add: entries_ok_def key_table_def es)
  then show "user_inv opt'" by (simp add: user_inv_def t)
  show "userdata_map opt' = userdata_map opt" by (simp add: userdata_map_def t es)
qed

lemma opt_step_inv: "opt_step opt opt' \<Longrightarrow> options_inv opt \<Longrightarrow> options_inv opt'"
proof (induction rule: opt_step.induct)
  case (add env opt k v c opt')
  have inv: "attr_inv opt" "user_inv opt" "attr_blocks opt \<inter> user_blocks opt = {}" using add.prems by (simp_all add: options_inv_def)
  have f: "opt_extension opt \<noteq> None \<or> ae_extension env" "set_option (ae_block env) \<inter> (attr_blocks opt \<union> user_blocks opt) = {}"
    using add.hyps(1) by (simp_all add: fresh_def)
  have b: "\<And>p. ae_block env = Some p \<Longrightarrow> p \<notin># table_records (connect_attrs (ext_of opt))" using f(2) by (auto simp: attr_blocks_def)
  have r: "attr_inv opt'" "userdata (ext_of opt') = userdata (ext_of opt)" "attr_blocks opt' \<subseteq> attr_blocks opt \<union> set_option (ae_block env)"
      "\<forall>q. ae_block env \<noteq> Some q \<longrightarrow> opt_heap opt' q = opt_heap opt q"
    using attr_add_ok [OF inv(1) add.hyps(2,3) f(1) b] add.hyps(4) by (auto simp: attr_blocks_def)
  have "opt_heap opt' p = opt_heap opt p" if "p \<in> user_blocks opt" for p using r(4) f(2) that by auto
  note u = user_table_frame [OF inv(2) r(2) this]
  have "user_blocks opt' = user_blocks opt" by (simp only: user_blocks_def user_table_def r(2))
  then show ?case using r(1,3) u(1) inv(3) f(2) by (auto simp: options_inv_def)
next
  case (delete env opt k opt')
  have inv: "attr_inv opt" "user_inv opt" "attr_blocks opt \<inter> user_blocks opt = {}" using delete.prems by (simp_all add: options_inv_def)
  have f: "opt_extension opt \<noteq> None \<or> ae_extension env" using delete.hyps(1) by (simp add: fresh_def)
  have r: "attr_inv opt'" "userdata (ext_of opt') = userdata (ext_of opt)" "attr_blocks opt' \<subseteq> attr_blocks opt" "opt_heap opt' = opt_heap opt"
    using attr_delete_ok [OF inv(1) delete.hyps(2,3) f] delete.hyps(4) by (auto simp: attr_blocks_def)
  have "opt_heap opt' p = opt_heap opt p" if "p \<in> user_blocks opt" for p by (simp add: r(4))
  note u = user_table_frame [OF inv(2) r(2) this]
  have "user_blocks opt' = user_blocks opt" by (simp only: user_blocks_def user_table_def r(2))
  then show ?case using r(1,3) u(1) inv(3) by (auto simp: options_inv_def)
next
  case (reset env opt opt' freed)
  have inv: "attr_inv opt" "user_inv opt" using reset.prems by (simp_all add: options_inv_def)
  have f: "opt_extension opt \<noteq> None \<or> ae_extension env" using reset.hyps(1) by (simp add: fresh_def)
  have r: "attr_inv opt'" "attrs opt' = {#}" "userdata (ext_of opt') = userdata (ext_of opt)" "opt_heap opt' = opt_heap opt"
    using reset_ok [OF inv(1) f] reset.hyps(2) by auto
  have "opt_heap opt' p = opt_heap opt p" if "p \<in> user_blocks opt" for p by (simp add: r(4))
  note u = user_table_frame [OF inv(2) r(3) this]
  have "attr_blocks opt' = {}" using r(2) by (simp add: attrs_def attr_blocks_def)
  then show ?case using r(1) u(1) by (simp add: options_inv_def)
next
  case (set env opt k d c opt')
  have inv: "attr_inv opt" "user_inv opt" "attr_blocks opt \<inter> user_blocks opt = {}" using set.prems by (simp_all add: options_inv_def)
  have f: "opt_extension opt \<noteq> None \<or> ae_extension env" "set_option (ae_block env) \<inter> (attr_blocks opt \<union> user_blocks opt) = {}"
    using set.hyps(1) by (simp_all add: fresh_def)
  have b: "\<And>p. ae_block env = Some p \<Longrightarrow> p \<notin># hash_records (user_table opt)" using f(2) by (auto simp: user_blocks_def)
  show ?case
  proof (cases "d = 0")
    case True
    then have "opt' = opt" using set.hyps(6) by (simp add: userdata_set_def)
    then show ?thesis using set.prems by simp
  next
    case False
    then have r: "user_inv opt'" "connect_attrs (ext_of opt') = connect_attrs (ext_of opt)" "connect_attrs_len (ext_of opt') = connect_attrs_len (ext_of opt)"
        "\<forall>p. p \<notin> user_blocks opt \<longrightarrow> ae_block env \<noteq> Some p \<longrightarrow> opt_heap opt' p = opt_heap opt p" "user_blocks opt' \<subseteq> user_blocks opt \<union> set_option (ae_block env)"
      using userdata_set_ok [OF inv(2) set.hyps(2,3) _ set.hyps(4) f(1) b set.hyps(5)] set.hyps(6) by (auto simp: user_blocks_def)
    have "opt_heap opt' p = opt_heap opt p" if "p \<in> attr_blocks opt" for p using r(4) inv(3) f(2) that by auto
    note a = attr_table_frame [OF inv(1) r(2,3) this]
    have "attr_blocks opt' = attr_blocks opt" by (simp add: attr_blocks_def r(2))
    then show ?thesis using a(1) r(1,5) inv(3) f(2) by (auto simp: options_inv_def)
  qed
next
  case (get k opt d opt')
  have inv: "attr_inv opt" "user_inv opt" "attr_blocks opt \<inter> user_blocks opt = {}" using get.prems by (simp_all add: options_inv_def)
  have r: "user_inv opt'" "hash_records (user_table opt') = hash_records (user_table opt)" "opt_heap opt' = opt_heap opt"
      "connect_attrs (ext_of opt') = connect_attrs (ext_of opt)" "connect_attrs_len (ext_of opt') = connect_attrs_len (ext_of opt)"
    using userdata_get_ok [OF inv(2) get.hyps(1,2)] get.hyps(3) by auto
  have "opt_heap opt' p = opt_heap opt p" if "p \<in> attr_blocks opt" for p by (simp add: r(3))
  note a = attr_table_frame [OF inv(1) r(4,5) this]
  then show ?case using r inv(3) by (simp add: options_inv_def attr_blocks_def user_blocks_def)
qed

lemma options_inv_init: "options_inv \<lparr>opt_extension = None, opt_heap = mem\<rparr>"
  by (simp add: options_inv_def attr_inv_def user_inv_def ext_of_def fresh_extension_def table_of_def new_table_ok attr_blocks_def attrs_def
      table_records_def user_table_def new_entries_ok)

lemma reachable_inv: "opt_reachable opt \<Longrightarrow> options_inv opt"
  by (induction rule: opt_reachable.induct) (blast intro: options_inv_init opt_step_inv)+

section \<open>Properties\<close>

definition no_options :: options where
  "no_options = \<lparr>opt_extension = None, opt_heap = \<lambda>_. []\<rparr>"

definition block_at :: "nat \<Rightarrow> attr_env" where
  "block_at p = \<lparr>ae_extension = True, ae_table = True, ae_block = Some p, ae_room = True, ae_junk = 1, ae_link = \<lparr>hl_next = 0, hl_data = 0\<rparr>\<rparr>"

lemma no_options_inv: "attr_inv no_options" "user_inv no_options" "attrs no_options = {#}" "userdata_map no_options = Map.empty"
    "table_records (connect_attrs (ext_of no_options)) = {#}" "hash_records (user_table no_options) = {#}" "ha_records (user_table no_options) = 0"
    "connect_attrs_len (ext_of no_options) = 0"
  using options_inv_init [of "\<lambda>_. []"]
  by (simp_all add: no_options_def options_inv_def attrs_def table_records_def ext_of_def fresh_extension_def table_of_def new_table_ok userdata_map_def
      user_table_def new_entries_ok) (simp add: new_table_def hash_init_def)

lemma one_attr:
  assumes "0 \<notin> set k" "0 \<notin> set v" "attr_size (k, v) \<le> 65535"
  shows "\<exists>opt. attr_inv opt \<and> attrs opt = {#(k, v)#}"
proof -
  obtain c opt where "attr_inv opt" "c = 0" "attrs opt = (if c = 0 then add_mset (k, v) (attrs no_options) else attrs no_options)"
    using attr_add_ok [OF no_options_inv(1) assms(1,2), of "block_at 1"] assms(3) no_options_inv(5,8) by (auto simp: block_at_def)
  then show ?thesis by (auto simp: no_options_inv(3))
qed

text \<open>
  C13. Take any sequence of calls, from options without an extension on, in which every key and
  value is a C string and not \<open>NULL\<close>, the keys given to delete, set and get are not empty,
  the blocks that \<open>malloc\<close> returns are not in use, the extension can be allocated, and there are
  fewer than \<open>2 ^ 31 - 1\<close> user data (the conditions of \<open>opt_step\<close>; a \<open>NULL\<close> value breaks the
  invariant, see \<open>null_arguments\<close>). After each call the announced length is the sum
  over the attributes and below 64 KB, both tables are well formed with readable entries, the
  keys of the user data are distinct, and the tables share no block.
\<close>
theorem options_keep_invariant:
  assumes "opt_reachable opt"
  shows "attr_inv opt \<and> user_inv opt \<and> attr_blocks opt \<inter> user_blocks opt = {} \<and> (\<forall>opt'. opt_step opt opt' \<longrightarrow> options_inv opt')"
  using reachable_inv [OF assms] opt_step_inv [of opt] by (simp add: options_inv_def)

text \<open>
  C27. Adding an attribute adds the pair to the multiset of attributes, or returns an error and changes
  nothing; it succeeds exactly when the limit of 64 KB is kept and the memory suffices.
\<close>
theorem connect_attr_add_correct:
  assumes "attr_inv opt" "0 \<notin> set k" "0 \<notin> set v" "opt_extension opt \<noteq> None \<or> ae_extension env"
    and "\<And>p. ae_block env = Some p \<Longrightarrow> p \<notin># table_records (connect_attrs (ext_of opt))"
  shows "\<exists>c opt'. connect_attr_add env (Some k) (Some v) opt = Ok (c, opt') \<and> attr_inv opt'
    \<and> (c = 0 \<longleftrightarrow> attr_size (k, v) + connect_attrs_len (ext_of opt) \<le> 65535 \<and> (connect_attrs (ext_of opt) \<noteq> None \<or> ae_table env)
         \<and> ae_block env \<noteq> None \<and> ae_room env)
    \<and> attrs opt' = (if c = 0 then add_mset (k, v) (attrs opt) else attrs opt)"
  using attr_add_ok [OF assms] by blast

text \<open>
  C28. Deleting by a key that is a C string, neither \<open>NULL\<close> nor empty, removes one attribute with the
  key, if there is one, and the length that adding it had counted; without one nothing changes.
  The options are well formed and their extension exists or can be allocated.
  (An empty key is searched with length 0, which compares no lengths and reads out of bounds.)
\<close>
theorem connect_attr_delete_correct:
  assumes "attr_inv opt" "0 \<notin> set k" "k \<noteq> []" "opt_extension opt \<noteq> None \<or> ae_extension env"
  shows "\<exists>opt'. connect_attr_delete env (Some k) opt = Ok opt' \<and> attr_inv opt'
    \<and> (if \<exists>v. (k, v) \<in># attrs opt then \<exists>v. (k, v) \<in># attrs opt \<and> attrs opt' = attrs opt - {#(k, v)#} else attrs opt' = attrs opt)"
  using attr_delete_ok [OF assms] by blast

lemma short_fits:
  assumes "mset as = attrs opt" "attr_inv opt"
  shows "length as \<le> connect_attrs_len (ext_of opt)"
proof -
  have "length as \<le> sum_list (map attr_size as)"
  proof (induction as)
    case (Cons a as)
    then show ?case using attr_size_pos [of a] by simp
  qed simp
  then show ?thesis using assms(2) by (simp add: attr_inv_def flip: assms(1) sum_mset_sum_list)
qed

text \<open>
  C15. When all keys and values are shorter than 251 bytes, the attributes sent to the server fill
  exactly the announced length, nothing beyond is touched, and reading them back gives the
  attributes.
\<close>
theorem attributes_roundtrip:
  assumes "attr_inv opt" "caps AND CLIENT_CONNECT_ATTRS \<noteq> 0" "\<And>a. a \<in># attrs opt \<Longrightarrow> length (fst a) < 251 \<and> length (snd a) < 251"
    and "L = connect_attrs_len (ext_of opt)" "length X = length (len_bytes L) + L"
  shows "\<exists>buf q as. ma_send_connect_attr caps opt (A @ X @ B) (length A) = Ok (buf, q) \<and> take (length A) buf = A \<and> drop q buf = B
    \<and> net_field_length buf (length A) = (Ok (L, q - L) :: (unit, nat \<times> nat) res) \<and> read_attrs L buf (q - L) q = Ok as \<and> mset as = attrs opt"
proof -
  have "length X = length (len_bytes L) + L + (\<Sum>a \<in># attrs opt. long_strings a)" using no_long_strings [of "attrs opt"] assms(3,5) by simp
  then obtain as where as: "mset as = attrs opt"
      "ma_send_connect_attr caps opt (A @ X @ B) (length A) = Ok (A @ len_bytes L @ concat (map attr_bytes as) @ B, length A + length X)"
    using send_ok [OF assms(1,2), of X L A B] assms(4) by blast
  let ?bs = "concat (map attr_bytes as)"
  have L: "L = sum_list (map attr_size as)" "L \<le> 65535" using assms(1,4) by (simp_all add: attr_inv_def flip: as(1) sum_mset_sum_list)
  have s: "length (fst a) < 251 \<and> length (snd a) < 251" if "a \<in> set as" for a using assms(3) that by (metis as(1) set_mset_mset)
  then have "sum_list (map long_strings as) = 0" by (fastforce simp: long_strings_def sum_list_eq_0_iff)
  then have l: "length ?bs = L" using attr_bytes_total [of as] L by simp
  have "length (fst a) < 65536 \<and> length (snd a) < 65536" if "a \<in> set as" for a using s [OF that] by simp
  then have "read_attrs L ((A @ len_bytes L) @ ?bs @ B) (length (A @ len_bytes L)) (length (A @ len_bytes L) + length ?bs) = Ok as"
    using read_attrs_spec [of as L "A @ len_bytes L" B] short_fits [OF as(1) assms(1)] assms(4) by simp
  moreover have "net_field_length (A @ len_bytes L @ ?bs @ B) (length A) = (Ok (L, length A + length (len_bytes L)) :: (unit, nat \<times> nat) res)"
    using L(2) by (intro field_length_spec) simp_all
  moreover have "length A + length X - L = length (A @ len_bytes L)" "length A + length X = length (A @ len_bytes L) + length ?bs"
    "drop (length A + length X) (A @ len_bytes L @ ?bs @ B) = B" using assms(5) l by simp_all
  ultimately show ?thesis using as
    by (intro exI [of _ "A @ len_bytes L @ ?bs @ B"] exI [of _ "length A + length X"] exI [of _ as]) (simp add: add.assoc)
qed

text \<open>
  C39. A value of 251 bytes is announced one byte too short: \<open>get_store_length\<close> counts two bytes for a
  length that is stored in three, so 256 bytes follow where 255 are announced.
\<close>
theorem announced_length_short:
  "\<exists>opt. attr_inv opt \<and> attrs opt = {#([1], replicate 251 2)#} \<and> connect_attrs_len (ext_of opt) = 255
    \<and> ma_send_connect_attr CLIENT_CONNECT_ATTRS opt (replicate 259 0) 0 = Ok (len_bytes 255 @ attr_bytes ([1], replicate 251 2), 3 + 256)"
proof -
  let ?a = "([1 :: u8], replicate 251 (2 :: u8))"
  have size: "attr_size ?a = 255" "long_strings ?a = 1" by (simp_all add: attr_size_def get_store_length_def long_strings_def)
  obtain opt where opt: "attr_inv opt" "attrs opt = {#?a#}" using one_attr [of "[1]" "replicate 251 2"] size by auto
  have L: "connect_attrs_len (ext_of opt) = 255" using opt size by (simp add: attr_inv_def)
  have caps: "CLIENT_CONNECT_ATTRS AND CLIENT_CONNECT_ATTRS \<noteq> 0" by (simp add: CLIENT_CONNECT_ATTRS_def)
  have len: "length (replicate 259 (0 :: u8)) = length (len_bytes 255) + 255 + (\<Sum>a \<in># attrs opt. long_strings a)"
    by (simp add: opt(2) size len_bytes_def)
  obtain as where as: "mset as = attrs opt" "ma_send_connect_attr CLIENT_CONNECT_ATTRS opt ([] @ replicate 259 0 @ []) (length ([] :: bytes)) =
      Ok ([] @ len_bytes 255 @ concat (map attr_bytes as) @ [], length ([] :: bytes) + length (replicate 259 (0 :: u8)))"
    using send_ok [OF opt(1) caps len L [symmetric]] by blast
  have "as = [?a]" using as(1) unfolding opt(2) by (simp only: mset_single_iff)
  then have "ma_send_connect_attr CLIENT_CONNECT_ATTRS opt (replicate 259 0) 0 = Ok (len_bytes 255 @ attr_bytes ?a, 3 + 256)"
    using as(2) by (simp only: append_Nil append_Nil2 list.size(3) list.map concat.simps length_replicate) simp
  then show ?thesis using opt L by blast
qed

text \<open>
  The check for a missing key comes after its length was increased, so \<open>NULL\<close> as a key is copied
  from; with \<open>NULL\<close> as a value the call succeeds and leaves a block without a final zero,
  which the sending of the attributes then reads past its end.
\<close>
theorem null_arguments:
  "connect_attr_add (block_at p) None None no_options = UB
   \<and> (\<exists>opt. connect_attr_add (block_at p) (Some [7]) None no_options = Ok (0, opt)
     \<and> ma_send_connect_attr CLIENT_CONNECT_ATTRS opt (replicate 100 0) 0 = UB)"
proof
  show "connect_attr_add (block_at p) None None no_options = UB"
    by (simp add: connect_attr_add_def no_options_def check_extension_def block_at_def fresh_extension_def get_store_length_def init_table_def Let_def)
  let ?mem = "(opt_heap no_options)(p := [7, 0, 1])"
  have n: "ha_records new_table = 0" by (simp add: new_table_def hash_init_def)
  obtain h' where h': "hash_insert ?mem True \<lparr>hl_next = 0, hl_data = 0\<rparr> new_table p = Ok (False, h')" "hash_inv ?mem h'" "hash_records h' = {#p#}"
    using fresh_block [OF new_table_ok(1), of p "opt_heap no_options" "[7, 0, 1]" "\<lparr>hl_next = 0, hl_data = 0\<rparr>"] n
    by (auto simp: new_table_ok(2) key_table_def)
  let ?opt = "no_options\<lparr>opt_extension := Some (fresh_extension\<lparr>connect_attrs := Some h', connect_attrs_len := 3\<rparr>), opt_heap := ?mem\<rparr>"
  have a: "connect_attr_add (block_at p) (Some [7]) None no_options = Ok (0, ?opt)"
    using h'(1) by (simp add: connect_attr_add_def no_options_def check_extension_def block_at_def fresh_extension_def get_store_length_def init_table_def Let_def)
  have "map hl_data (ha_array h') = [p]" using h'(3) unfolding hash_records_def by (simp only: mset_single_iff)
  then have "ha_records h' = 1" "dat (ha_array h') 0 = p" "length (ha_array h') = 1" using h'(2) by (auto simp: hash_inv_def)
  then have "ma_send_connect_attr CLIENT_CONNECT_ATTRS ?opt (replicate 100 0) 0 = UB"
    by (simp add: ma_send_connect_attr_def CLIENT_CONNECT_ATTRS_def mysql_net_store_length_def store1_def attr_at_def hash_element_def link_at_def c_string_def)
  then show "\<exists>opt. connect_attr_add (block_at p) (Some [7]) None no_options = Ok (0, opt)
      \<and> ma_send_connect_attr CLIENT_CONNECT_ATTRS opt (replicate 100 0) 0 = UB" using a by blast
qed

text \<open>
  C14. User data implement a map from keys to pointers: setting updates the map, also where the key is
  present and its block is overwritten, an error changes nothing, and reading looks the key up.
\<close>
theorem userdata_is_map:
  assumes "user_inv opt" "0 \<notin> set k" "k \<noteq> []" "0 < d" "d < 2 ^ 64" "opt_extension opt \<noteq> None \<or> ae_extension env"
    and "\<And>p. ae_block env = Some p \<Longrightarrow> p \<notin># hash_records (user_table opt)" "ha_records (user_table opt) + 1 < 2 ^ 31"
  shows "\<exists>c opt'. userdata_set env (Some k) d opt = Ok (c, opt') \<and> user_inv opt'
    \<and> (c = 0 \<longleftrightarrow> k \<in> dom (userdata_map opt) \<or> (userdata (ext_of opt) \<noteq> None \<or> ae_table env) \<and> ae_block env \<noteq> None \<and> ae_room env)
    \<and> userdata_map opt' = (if c = 0 then (userdata_map opt)(k \<mapsto> d) else userdata_map opt)
    \<and> (\<forall>k2. 0 \<notin> set k2 \<and> k2 \<noteq> [] \<longrightarrow> (\<exists>opt2. userdata_get (Some k2) opt' = Ok (case userdata_map opt' k2 of Some d2 \<Rightarrow> d2 | None \<Rightarrow> 0, opt2)
          \<and> user_inv opt2 \<and> userdata_map opt2 = userdata_map opt'))"
proof -
  obtain c opt' where s: "userdata_set env (Some k) d opt = Ok (c, opt')" "user_inv opt'"
      "c = 0 \<longleftrightarrow> k \<in> dom (userdata_map opt) \<or> (userdata (ext_of opt) \<noteq> None \<or> ae_table env) \<and> ae_block env \<noteq> None \<and> ae_room env"
      "userdata_map opt' = (if c = 0 then (userdata_map opt)(k \<mapsto> d) else userdata_map opt)"
    using userdata_set_ok [OF assms] by blast
  have "\<exists>opt2. userdata_get (Some k2) opt' = Ok (case userdata_map opt' k2 of Some d2 \<Rightarrow> d2 | None \<Rightarrow> 0, opt2) \<and> user_inv opt2 \<and> userdata_map opt2 = userdata_map opt'"
    if "0 \<notin> set k2 \<and> k2 \<noteq> []" for k2 using userdata_get_ok [OF s(2), of k2] that by blast
  then show ?thesis using s by blast
qed

section \<open>Witnesses\<close>

lemma reachable_no_options: "opt_reachable no_options"
  unfolding no_options_def by (rule opt_reachable.init)

text \<open>
  A run for the examples: an attribute is added, a user data is set, and the attribute is deleted.
\<close>

lemma sample_added:
  "\<exists>opt. connect_attr_add (block_at 1) (Some [1]) (Some [2]) no_options = Ok (0, opt) \<and> opt_reachable opt
    \<and> attrs opt = {#([1], [2])#} \<and> attr_blocks opt \<subseteq> {1} \<and> user_table opt = new_table \<and> userdata (ext_of opt) = None"
proof -
  have u: "userdata (ext_of no_options) = None" by (simp add: ext_of_def no_options_def fresh_extension_def)
  obtain opt where a: "connect_attr_add (block_at 1) (Some [1]) (Some [2]) no_options = Ok (0, opt)" "attrs opt = {#([1], [2])#}"
      "attr_blocks opt \<subseteq> {1}" "userdata (ext_of opt) = None"
    using attr_add_ok [OF no_options_inv(1), of "[1]" "[2]" "block_at 1"] no_options_inv(5)
    by (auto simp: no_options_inv(3,8) block_at_def attr_size_def get_store_length_def attr_blocks_def u)
  have "fresh (block_at 1) no_options"
    by (simp add: fresh_def block_at_def attr_blocks_def user_blocks_def no_options_inv(5,6))
  then have "opt_step no_options opt" by (rule opt_step.add [OF _ _ _ a(1)]) simp_all
  then have "opt_reachable opt" by (rule opt_reachable.step [OF reachable_no_options])
  then show ?thesis using a by (simp add: user_table_def table_of_def)
qed

lemma sample_set:
  assumes "opt_reachable opt" "attrs opt = {#([1], [2])#}" "attr_blocks opt \<subseteq> {1}" "user_table opt = new_table" "userdata (ext_of opt) = None"
  shows "\<exists>opt2. userdata_set (block_at 2) (Some [1]) 5 opt = Ok (0, opt2) \<and> opt_reachable opt2
    \<and> attrs opt2 = {#([1], [2])#} \<and> userdata_map opt2 = Map.empty([1] \<mapsto> 5) \<and> attr_blocks opt2 \<subseteq> {1} \<and> user_blocks opt2 \<subseteq> {2}"
proof -
  have inv: "attr_inv opt" "user_inv opt" using reachable_inv [OF assms(1)] by (simp_all add: options_inv_def)
  have n: "ha_records (user_table opt) = 0" "userdata_map opt = Map.empty" "hash_records (user_table opt) = {#}"
    by (simp_all add: assms(4) userdata_map_def new_entries_ok new_table_ok) (simp add: new_table_def hash_init_def)
  obtain opt2 where u: "userdata_set (block_at 2) (Some [1]) 5 opt = Ok (0, opt2)" "userdata_map opt2 = Map.empty([1] \<mapsto> 5)"
      "connect_attrs (ext_of opt2) = connect_attrs (ext_of opt)" "connect_attrs_len (ext_of opt2) = connect_attrs_len (ext_of opt)"
      "\<forall>p. p \<notin># hash_records (user_table opt) \<longrightarrow> ae_block (block_at 2) \<noteq> Some p \<longrightarrow> opt_heap opt2 p = opt_heap opt p"
      "user_blocks opt2 \<subseteq> {2}"
    using userdata_set_ok [OF inv(2), of "[1]" 5 "block_at 2"] n by (auto simp: block_at_def user_blocks_def)
  have "opt_heap opt2 p = opt_heap opt p" if "p \<in> attr_blocks opt" for p
    using u(5) assms(3) that n(3) by (auto simp: block_at_def)
  from attr_table_frame(2) [OF inv(1) u(3,4) this] have "attrs opt2 = {#([1], [2])#}" using assms(2) by simp
  moreover have "attr_blocks opt2 \<subseteq> {1}" using assms(3) by (simp add: attr_blocks_def u(3))
  moreover have "fresh (block_at 2) opt" using assms(3) n(3) by (auto simp: fresh_def block_at_def user_blocks_def)
  then have "opt_step opt opt2" by (rule opt_step.set [OF _ _ _ _ _ u(1)]) (simp_all add: n(1))
  then have "opt_reachable opt2" by (rule opt_reachable.step [OF assms(1)])
  ultimately show ?thesis using u(1,2,6) by blast
qed

theorem options_keep_invariant_witness:
  "\<exists>opt1 opt2 opt3. connect_attr_add (block_at 1) (Some [1]) (Some [2]) no_options = Ok (0, opt1)
    \<and> userdata_set (block_at 2) (Some [1]) 5 opt1 = Ok (0, opt2)
    \<and> connect_attr_delete (block_at 3) (Some [1]) opt2 = Ok opt3
    \<and> attrs opt2 = {#([1], [2])#} \<and> attrs opt3 = {#} \<and> userdata_map opt3 = Map.empty([1] \<mapsto> 5)
    \<and> attr_inv opt3 \<and> user_inv opt3 \<and> attr_blocks opt3 \<inter> user_blocks opt3 = {}"
proof -
  obtain opt1 where o1: "connect_attr_add (block_at 1) (Some [1]) (Some [2]) no_options = Ok (0, opt1)" "opt_reachable opt1"
      "attrs opt1 = {#([1], [2])#}" "attr_blocks opt1 \<subseteq> {1}" "user_table opt1 = new_table" "userdata (ext_of opt1) = None"
    using sample_added by blast
  obtain opt2 where o2: "userdata_set (block_at 2) (Some [1]) 5 opt1 = Ok (0, opt2)" "opt_reachable opt2" "attrs opt2 = {#([1], [2])#}"
      "userdata_map opt2 = Map.empty([1] \<mapsto> 5)" "attr_blocks opt2 \<subseteq> {1}" "user_blocks opt2 \<subseteq> {2}"
    using sample_set [OF o1(2-6)] by blast
  have inv: "attr_inv opt2" "user_inv opt2" using reachable_inv [OF o2(2)] by (simp_all add: options_inv_def)
  obtain opt3 where o3: "connect_attr_delete (block_at 3) (Some [1]) opt2 = Ok opt3" "attrs opt3 = {#}"
      "userdata (ext_of opt3) = userdata (ext_of opt2)" "opt_heap opt3 = opt_heap opt2"
    using attr_delete_ok [OF inv(1), of "[1]" "block_at 3"] o2(3) by (auto simp: block_at_def split: if_splits)
  have "userdata_map opt3 = Map.empty([1] \<mapsto> 5)"
    using user_table_frame(2) [OF inv(2) o3(3)] o3(4) o2(4) by simp
  moreover have "opt_reachable opt3"
  proof (rule opt_reachable.step [OF o2(2)])
    have "fresh (block_at 3) opt2" using o2(5,6) by (auto simp: fresh_def block_at_def)
    then show "opt_step opt2 opt3" by (rule opt_step.delete [OF _ _ _ o3(1)]) simp_all
  qed
  then have "attr_inv opt3 \<and> user_inv opt3 \<and> attr_blocks opt3 \<inter> user_blocks opt3 = {} \<and> (\<forall>opt'. opt_step opt3 opt' \<longrightarrow> options_inv opt')"
    by (rule options_keep_invariant)
  ultimately show ?thesis using o1(1) o2(1,3) o3(1,2) by blast
qed

theorem connect_attr_add_correct_witness:
  "\<exists>opt'. connect_attr_add (block_at 1) (Some [1]) (Some [2]) no_options = Ok (0, opt') \<and> attr_inv opt' \<and> attrs opt' = {#([1], [2])#}"
  using connect_attr_add_correct [OF no_options_inv(1), of "[1]" "[2]" "block_at 1"]
  by (auto simp: no_options_inv(3,5,8) block_at_def attr_size_def get_store_length_def)

theorem attributes_roundtrip_witness:
  "\<exists>opt buf q as. attrs opt = {#([1], [2])#} \<and> ma_send_connect_attr CLIENT_CONNECT_ATTRS opt ([9] @ [0, 0, 0, 0, 0] @ [8]) 1 = Ok (buf, q)
    \<and> drop q buf = [8] \<and> read_attrs 4 buf (q - 4) q = Ok as \<and> mset as = {#([1], [2])#}"
proof -
  obtain opt where opt: "attr_inv opt" "attrs opt = {#([1], [2])#}" using one_attr [of "[1]" "[2]"] by (auto simp: attr_size_def get_store_length_def)
  then have L: "4 = connect_attrs_len (ext_of opt)" by (simp add: attr_inv_def attr_size_def get_store_length_def)
  have "CLIENT_CONNECT_ATTRS AND CLIENT_CONNECT_ATTRS \<noteq> 0" by (simp add: CLIENT_CONNECT_ATTRS_def)
  then have "\<exists>buf q as. ma_send_connect_attr CLIENT_CONNECT_ATTRS opt ([9] @ [0, 0, 0, 0, 0] @ [8]) (length [9 :: u8]) = Ok (buf, q) \<and> take (length [9 :: u8]) buf = [9]
      \<and> drop q buf = [8] \<and> net_field_length buf (length [9 :: u8]) = (Ok (4, q - 4) :: (unit, nat \<times> nat) res) \<and> read_attrs 4 buf (q - 4) q = Ok as \<and> mset as = attrs opt"
    by (rule attributes_roundtrip [OF opt(1) _ _ L]) (simp_all add: opt(2) len_bytes_def)
  then show ?thesis using opt(2) by fastforce
qed

theorem userdata_is_map_witness:
  "\<exists>opt' opt2. userdata_set (block_at 1) (Some [1]) 5 no_options = Ok (0, opt') \<and> userdata_map opt' = Map.empty([1] \<mapsto> 5)
    \<and> userdata_get (Some [1]) opt' = Ok (5, opt2)"
proof -
  obtain opt' where s: "userdata_set (block_at 1) (Some [1]) 5 no_options = Ok (0, opt')" "userdata_map opt' = Map.empty([1] \<mapsto> 5)"
      "\<forall>k2. 0 \<notin> set k2 \<and> k2 \<noteq> [] \<longrightarrow> (\<exists>opt2. userdata_get (Some k2) opt' = Ok (case userdata_map opt' k2 of Some d2 \<Rightarrow> d2 | None \<Rightarrow> 0, opt2)
          \<and> user_inv opt2 \<and> userdata_map opt2 = userdata_map opt')"
    using userdata_is_map [OF no_options_inv(2), of "[1]" 5 "block_at 1"] by (auto simp: no_options_inv block_at_def)
  from s(3) [rule_format, of "[1]"] have "\<exists>opt2. userdata_get (Some [1]) opt' = Ok (5, opt2)" by (auto simp: s(2))
  then show ?thesis using s(1,2) by blast
qed

section \<open>Default attributes\<close>

text \<open>
  The attributes set before a connection is made, on Windows; the numbers are those of the
  thread and of the process. C leaves the order of the calls in a sum open; here it is the
  order of the text.
\<close>

definition default_attrs :: "nat \<Rightarrow> nat \<Rightarrow> (bytes \<times> bytes) list" where
  "default_attrs thread pid =
     [(ascii ''_client_name'', ascii ''libmariadb''), (ascii ''_client_version'', ascii ''3.0.2''), (ascii ''_os'', ascii ''linux-gnu''),
      (ascii ''_thread'', dec_digits thread), (ascii ''_pid'', dec_digits pid), (ascii ''_platform'', ascii ''x86_64'')]"

primrec delete_attrs :: "attr_env \<Rightarrow> bytes list \<Rightarrow> options \<Rightarrow> (unit, options) res" where
  "delete_attrs env [] opt = Ok opt"
| "delete_attrs env (k # ks) opt = rbind (connect_attr_delete env (Some k) opt) (delete_attrs env ks)"

text \<open>Every error counts one.\<close>

fun add_attrs :: "(attr_env \<times> bytes \<times> bytes) list \<Rightarrow> nat \<Rightarrow> options \<Rightarrow> (unit, nat \<times> options) res" where
  "add_attrs [] rc opt = Ok (rc, opt)"
| "add_attrs ((env, k, v) # as) rc opt =
     rbind (connect_attr_add env (Some k) (Some v) opt) (\<lambda>(c, opt). add_attrs as (if c = 0 then rc else rc + 1) opt)"

definition ma_set_connect_attrs :: "attr_env \<Rightarrow> attr_env list \<Rightarrow> nat \<Rightarrow> nat \<Rightarrow> options \<Rightarrow> (unit, bool \<times> options) res" where
  "ma_set_connect_attrs env envs thread pid opt =
     rbind (delete_attrs env (map fst (default_attrs thread pid)) opt) (\<lambda>opt.
     rmap (\<lambda>(rc, opt). (0 < rc, opt)) (add_attrs (zip envs (default_attrs thread pid)) 0 opt))"

lemma filter_key_once:
  assumes "size (filter_mset (\<lambda>a. fst a = k) M) \<le> 1" "(k, v) \<in># M"
  shows "M - {#(k, v)#} = filter_mset (\<lambda>a. fst a \<noteq> k) M"
proof -
  obtain N where N: "M = add_mset (k, v) N" using assms(2) by (metis insert_DiffM)
  then have "filter_mset (\<lambda>a. fst a = k) N = {#}" using assms(1) by simp
  then have "\<forall>a \<in># N. fst a \<noteq> k" by (metis (mono_tags, lifting) empty_iff filter_mset_eq_conv multi_member_split set_mset_empty union_single_eq_member filter_mset_add_mset add_mset_not_empty)
  then have "filter_mset (\<lambda>a. fst a \<noteq> k) N = N" by (auto simp: filter_mset_eq_conv)
  then show ?thesis by (simp add: N)
qed

lemma delete_attrs_ok:
  assumes "attr_inv opt" "opt_extension opt \<noteq> None \<or> ae_extension env"
    and "\<And>k. k \<in> set ks \<Longrightarrow> 0 \<notin> set k \<and> k \<noteq> [] \<and> size (filter_mset (\<lambda>a. fst a = k) (attrs opt)) \<le> 1"
  shows "\<exists>opt'. delete_attrs env ks opt = Ok opt' \<and> attr_inv opt' \<and> attrs opt' = filter_mset (\<lambda>a. fst a \<notin> set ks) (attrs opt)
    \<and> attr_blocks opt' \<subseteq> attr_blocks opt \<and> (opt_extension opt' \<noteq> None \<or> ae_extension env)"
  using assms
proof (induction ks arbitrary: opt)
  case (Cons k ks)
  have k: "0 \<notin> set k" "k \<noteq> []" "size (filter_mset (\<lambda>a. fst a = k) (attrs opt)) \<le> 1" using Cons.prems(3) [of k] by simp_all
  obtain opt1 where o1: "connect_attr_delete env (Some k) opt = Ok opt1" "attr_inv opt1" "attr_blocks opt1 \<subseteq> attr_blocks opt"
      "if \<exists>v. (k, v) \<in># attrs opt then \<exists>v. (k, v) \<in># attrs opt \<and> attrs opt1 = attrs opt - {#(k, v)#} else attrs opt1 = attrs opt"
    using attr_delete_ok [OF Cons.prems(1) k(1,2) Cons.prems(2)] by (auto simp: attr_blocks_def)
  have a1: "attrs opt1 = filter_mset (\<lambda>a. fst a \<noteq> k) (attrs opt)"
  proof (cases "\<exists>v. (k, v) \<in># attrs opt")
    case True
    then show ?thesis using o1(4) filter_key_once [OF k(3)] by auto
  next
    case False
    then have "filter_mset (\<lambda>a. fst a \<noteq> k) (attrs opt) = attrs opt" by (auto simp: filter_mset_eq_conv)
    then show ?thesis using o1(4) False by simp
  qed
  have ext: "opt_extension opt1 \<noteq> None \<or> ae_extension env"
    using o1(1) Cons.prems(2) by (auto simp: connect_attr_delete_def check_extension_def res_simps Let_def split: option.splits prod.splits if_splits)
  have "size (filter_mset (\<lambda>a. fst a = k2) (attrs opt1)) \<le> 1" if "k2 \<in> set ks" for k2
  proof -
    have "filter_mset (\<lambda>a. fst a = k2) (attrs opt1) \<subseteq># filter_mset (\<lambda>a. fst a = k2) (attrs opt)"
      unfolding a1 by (intro multiset_filter_mono multiset_filter_subset)
    then show ?thesis using Cons.prems(3) [of k2] that size_mset_mono by fastforce
  qed
  then obtain opt' where o2: "delete_attrs env ks opt1 = Ok opt'" "attr_inv opt'" "attrs opt' = filter_mset (\<lambda>a. fst a \<notin> set ks) (attrs opt1)"
      "attr_blocks opt' \<subseteq> attr_blocks opt1" "opt_extension opt' \<noteq> None \<or> ae_extension env"
    using Cons.IH [OF o1(2) ext] Cons.prems(3) by auto
  have "attrs opt' = filter_mset (\<lambda>a. fst a \<notin> set (k # ks)) (attrs opt)"
    unfolding o2(3) a1 by (auto simp: filter_filter_mset intro: filter_mset_cong)
  then show ?case using o1(1,3) o2 by auto
qed auto

lemma add_attrs_ok:
  assumes "attr_inv opt" "connect_attrs_len (ext_of opt) + sum_list (map (\<lambda>a. attr_size (snd a)) as) \<le> 65535"
    and "\<And>env k v. (env, k, v) \<in> set as \<Longrightarrow> 0 \<notin> set k \<and> 0 \<notin> set v \<and> ae_extension env \<and> ae_table env \<and> ae_room env"
    and "list_all2 (\<lambda>a p. ae_block (fst a) = Some p) as ps" "distinct ps" "set ps \<inter> attr_blocks opt = {}"
  shows "\<exists>opt'. add_attrs as rc opt = Ok (rc, opt') \<and> attr_inv opt' \<and> attrs opt' = attrs opt + mset (map snd as)
    \<and> attr_blocks opt' \<subseteq> attr_blocks opt \<union> set ps"
  using assms
proof (induction as arbitrary: opt ps)
  case (Cons a as)
  obtain env k v where a: "a = (env, k, v)" by (cases a)
  obtain p qs where ps: "ps = p # qs" "ae_block env = Some p" "list_all2 (\<lambda>a p. ae_block (fst a) = Some p) as qs"
    using Cons.prems(4) a by (auto simp: list_all2_Cons1)
  have e: "0 \<notin> set k" "0 \<notin> set v" "ae_extension env" "ae_table env" "ae_room env" using Cons.prems(3) [of env k v] a by simp_all
  have new: "\<And>q. ae_block env = Some q \<Longrightarrow> q \<notin># table_records (connect_attrs (ext_of opt))"
    using Cons.prems(6) ps by (simp add: attr_blocks_def)
  have fits: "attr_size (k, v) + connect_attrs_len (ext_of opt) \<le> 65535" using Cons.prems(2) a by simp
  have ext: "opt_extension opt \<noteq> None \<or> ae_extension env" using e(3) by simp
  obtain opt1 where o1: "connect_attr_add env (Some k) (Some v) opt = Ok (0, opt1)" "attr_inv opt1" "attrs opt1 = add_mset (k, v) (attrs opt)"
      "attr_blocks opt1 \<subseteq> attr_blocks opt \<union> {p}"
    using attr_add_ok [OF Cons.prems(1) e(1,2) ext new] e fits ps(2) by (auto simp: attr_blocks_def)
  have "connect_attrs_len (ext_of opt1) = attr_size (k, v) + connect_attrs_len (ext_of opt)"
    using o1(2,3) Cons.prems(1) by (simp add: attr_inv_def)
  then obtain opt' where "add_attrs as rc opt1 = Ok (rc, opt')" "attr_inv opt'" "attrs opt' = attrs opt1 + mset (map snd as)"
      "attr_blocks opt' \<subseteq> attr_blocks opt1 \<union> set qs"
    using Cons.IH [OF o1(2) _ _ ps(3)] Cons.prems(2,3,5,6) ps(1) o1(4) a by fastforce
  then show ?case using o1(1,3,4) a ps(1) by auto
qed simp

lemma default_keys: "map fst (default_attrs thread pid) =
    [ascii ''_client_name'', ascii ''_client_version'', ascii ''_os'', ascii ''_thread'', ascii ''_pid'', ascii ''_platform'']"
  by (simp add: default_attrs_def)

lemma dec_digits_no_zero: "0 \<notin> set (dec_digits n)"
proof (induction n rule: dec_digits.induct)
  case (1 n)
  have "(0x30 + word_of_nat d :: u8) \<noteq> 0" if "d < 10" for d
  proof -
    have "unat (word_of_nat (48 + d) :: u8) = 48 + d" using that by (simp only: unat_of_nat) simp
    then have "(word_of_nat (48 + d) :: u8) \<noteq> 0" by (metis add_is_0 unat_0 zero_neq_numeral)
    then show ?thesis by simp
  qed
  then show ?case using 1 by (subst dec_digits.simps) auto
qed

lemma default_strings:
  assumes "(k, v) \<in> set (default_attrs thread pid)"
  shows "0 \<notin> set k \<and> k \<noteq> [] \<and> 0 \<notin> set v"
proof -
  have "list_all (\<lambda>s. 0 \<notin> set s \<and> s \<noteq> []) [ascii ''_client_name'', ascii ''_client_version'', ascii ''_os'', ascii ''_thread'', ascii ''_pid'', ascii ''_platform'',
      ascii ''libmariadb'', ascii ''3.0.2'', ascii ''linux-gnu'', ascii ''x86_64'']" by code_simp
  then show ?thesis using assms dec_digits_no_zero by (auto simp: default_attrs_def)
qed

lemma sum_attr_list: "(\<Sum>a \<in># mset xs. attr_size a) = sum_list (map attr_size xs)"
  by (metis mset_map sum_mset_sum_list)

lemma map_snd_zip_env: "list_all2 (\<lambda>e p. ae_block e = Some p) envs ps \<Longrightarrow> length ps = length ds \<Longrightarrow>
    list_all2 (\<lambda>a p. ae_block (fst a) = Some p) (zip envs ds) ps \<and> map snd (zip envs ds) = ds"
proof (induction envs ps arbitrary: ds rule: list_all2_induct)
  case (Cons e envs p ps)
  then show ?case by (cases ds) auto
qed simp

text \<open>
  C29. Suppose the options are well formed, each default key was set at most once before (of a key added twice one copy would
  survive, since deleting removes one), every allocation succeeds with a block that is not in
  use, and the kept attributes and the defaults together stay within 64 KB. Then setting the
  default attributes succeeds, replaces exactly those keys and keeps every other attribute.
\<close>
theorem default_attributes_set:
  assumes "attr_inv opt" "opt_extension opt \<noteq> None \<or> ae_extension env"
    and "defaults = default_attrs thread pid" "kept = filter_mset (\<lambda>a. fst a \<notin> fst ` set defaults) (attrs opt)"
    and "\<And>k. k \<in> fst ` set defaults \<Longrightarrow> size (filter_mset (\<lambda>a. fst a = k) (attrs opt)) \<le> 1"
    and "(\<Sum>a \<in># kept + mset defaults. attr_size a) \<le> 65535"
    and "list_all (\<lambda>e. ae_extension e \<and> ae_table e \<and> ae_room e) envs" "list_all2 (\<lambda>e p. ae_block e = Some p) envs ps" "length ps = length defaults"
    and "distinct ps" "set ps \<inter> attr_blocks opt = {}"
  shows "\<exists>opt'. ma_set_connect_attrs env envs thread pid opt = Ok (False, opt') \<and> attr_inv opt' \<and> attrs opt' = kept + mset defaults"
proof -
  have strs: "0 \<notin> set k \<and> k \<noteq> [] \<and> 0 \<notin> set v" if "(k, v) \<in> set defaults" for k v using default_strings that assms(3) by blast
  have "0 \<notin> set k \<and> k \<noteq> [] \<and> size (filter_mset (\<lambda>a. fst a = k) (attrs opt)) \<le> 1" if "k \<in> set (map fst defaults)" for k
    using that strs assms(5) [of k] by auto
  then obtain opt1 where o1: "delete_attrs env (map fst defaults) opt = Ok opt1" "attr_inv opt1" "attrs opt1 = kept" "attr_blocks opt1 \<subseteq> attr_blocks opt"
    using delete_attrs_ok [OF assms(1,2), of "map fst defaults"] by (auto simp: assms(4))
  note z = map_snd_zip_env [OF assms(8,9)]
  have len: "connect_attrs_len (ext_of opt1) + sum_list (map (\<lambda>a. attr_size (snd a)) (zip envs defaults)) \<le> 65535"
  proof -
    have "map (\<lambda>a. attr_size (snd a)) (zip envs defaults) = map attr_size (map snd (zip envs defaults))" by simp
    then have "sum_list (map (\<lambda>a. attr_size (snd a)) (zip envs defaults)) = sum_list (map attr_size defaults)" using z by simp
    then show ?thesis using assms(6) o1(2,3) by (simp add: attr_inv_def sum_attr_list)
  qed
  have envs: "0 \<notin> set k \<and> 0 \<notin> set v \<and> ae_extension e \<and> ae_table e \<and> ae_room e" if "(e, k, v) \<in> set (zip envs defaults)" for e k v
    using set_zip_leftD [OF that] set_zip_rightD [OF that] strs [of k v] assms(7) by (auto simp: list_all_iff)
  obtain opt2 where "add_attrs (zip envs defaults) 0 opt1 = Ok (0, opt2)" "attr_inv opt2" "attrs opt2 = attrs opt1 + mset (map snd (zip envs defaults))"
    using add_attrs_ok [OF o1(2) len envs conjunct1 [OF z] assms(10), of 0] assms(11) o1(4) by blast
  then have "add_attrs (zip envs defaults) 0 opt1 = Ok (0, opt2)" "attr_inv opt2" "attrs opt2 = kept + mset defaults"
    unfolding o1(3) conjunct2 [OF z] by blast+
  then show ?thesis using o1(1) unfolding assms(3) by (simp add: ma_set_connect_attrs_def)
qed

text \<open>Options that hold given attributes, in the blocks from 1 on, for examples.\<close>

lemma built_attrs:
  assumes "list_all (\<lambda>a. 0 \<notin> set (fst a) \<and> 0 \<notin> set (snd a)) as" "sum_list (map attr_size as) \<le> 65535"
  shows "\<exists>opt. attr_inv opt \<and> attrs opt = mset as \<and> attr_blocks opt \<subseteq> {1..length as}"
proof -
  let ?ps = "[1..<Suc (length as)]"
  let ?as = "zip (map block_at ?ps) as"
  have z: "map snd ?as = as" by (simp del: upt_Suc)
  have "map (\<lambda>a. attr_size (snd a)) ?as = map attr_size (map snd ?as)" by simp
  then have s: "map (\<lambda>a. attr_size (snd a)) ?as = map attr_size as" by (simp only: z)
  have strings: "0 \<notin> set k \<and> 0 \<notin> set v \<and> ae_extension env \<and> ae_table env \<and> ae_room env" if "(env, k, v) \<in> set ?as" for env k v
    using set_zip_leftD [OF that] set_zip_rightD [OF that] assms(1) by (auto simp: list_all_iff block_at_def)
  have blocks: "list_all2 (\<lambda>a p. ae_block (fst a) = Some p) ?as ?ps"
    by (auto simp: list_all2_conv_all_nth block_at_def simp del: upt_Suc)
  have none_blocks: "attr_blocks no_options = {}" by (simp add: attr_blocks_def no_options_inv(5))
  then have none: "set ?ps \<inter> attr_blocks no_options = {}" by simp
  obtain opt where "attr_inv opt" "attrs opt = attrs no_options + mset (map snd ?as)" "attr_blocks opt \<subseteq> attr_blocks no_options \<union> set ?ps"
    using add_attrs_ok [OF no_options_inv(1) _ strings blocks distinct_upt none, of 0] assms(2) s
    by (auto simp: no_options_inv(8) simp del: upt_Suc)
  moreover have "set ?ps = {1..length as}" by auto
  ultimately have "attrs opt = mset as" "attr_blocks opt \<subseteq> {1..length as}"
    by (simp_all only: z no_options_inv(3) add_0 none_blocks Un_empty_left)
  then show ?thesis using \<open>attr_inv opt\<close> by blast
qed

theorem connect_attr_delete_correct_witness:
  "\<exists>opt opt'. attrs opt = {#([1], [2]), ([3], [4])#} \<and> connect_attr_delete (block_at 9) (Some [1]) opt = Ok opt' \<and> attr_inv opt'
    \<and> attrs opt' = {#([3], [4])#}"
proof -
  obtain opt where opt: "attr_inv opt" "attrs opt = {#([1], [2]), ([3], [4])#}"
    using built_attrs [of "[([1], [2]), ([3], [4])]"] by (auto simp: attr_size_def get_store_length_def)
  then show ?thesis
    using connect_attr_delete_correct [OF opt(1), of "[1]" "block_at 9"] by (fastforce simp: block_at_def split: if_splits)
qed

theorem default_attributes_set_witness:
  "\<exists>opt opt'. attrs opt = {#(ascii ''_os'', [120]), ([1], [2])#}
    \<and> ma_set_connect_attrs (block_at 9) (map block_at [11, 12, 13, 14, 15, 16]) 7 8 opt = Ok (False, opt') \<and> attr_inv opt'
    \<and> attrs opt' = {#([1], [2])#} + mset (default_attrs 7 8)"
proof -
  have c1: "0 \<notin> set (ascii ''_os'')" by code_simp
  have c2: "sum_list (map attr_size [(ascii ''_os'', [120]), ([1], [2])]) \<le> 65535"
    by (simp add: attr_size_def get_store_length_def ascii_def)
  have c3: "ascii ''_os'' \<noteq> [1]" by code_simp
  have c4: "ascii ''_os'' \<in> set (map fst (default_attrs 7 8))" unfolding default_keys by simp
  have c5: "[1] \<notin> set (map fst (default_attrs 7 8))" unfolding default_keys by code_simp
  have "sum_list (map attr_size (default_attrs 7 8)) \<le> 60000"
    by (simp add: default_attrs_def attr_size_def get_store_length_def ascii_def dec_digits.simps)
  moreover have "attr_size ([1], [2]) = 4" by (simp add: attr_size_def get_store_length_def)
  ultimately have c6: "sum_list (map attr_size (([1], [2]) # default_attrs 7 8)) \<le> 65535" by simp
  obtain opt where opt: "attr_inv opt" "attrs opt = {#(ascii ''_os'', [120]), ([1], [2])#}" "attr_blocks opt \<subseteq> {1..2}"
  proof -
    have two: "length [(ascii ''_os'', [120 :: u8]), ([1], [2])] = 2" by simp
    have "list_all (\<lambda>a. 0 \<notin> set (fst a) \<and> 0 \<notin> set (snd a)) [(ascii ''_os'', [120 :: u8]), ([1], [2])]" using c1 by simp
    from built_attrs [OF this c2] show ?thesis unfolding two using that by auto
  qed
  have kept: "{#([1], [2])#} = filter_mset (\<lambda>a. fst a \<notin> fst ` set (default_attrs 7 8)) (attrs opt)"
    using c4 c5 by (simp add: opt(2))
  have "\<exists>opt'. ma_set_connect_attrs (block_at 9) (map block_at [11, 12, 13, 14, 15, 16]) 7 8 opt = Ok (False, opt') \<and> attr_inv opt'
      \<and> attrs opt' = {#([1], [2])#} + mset (default_attrs 7 8)"
  proof (rule default_attributes_set [OF opt(1) _ refl kept, where ps = "[11, 12, 13, 14, 15, 16]"])
    show "size (filter_mset (\<lambda>a. fst a = k) (attrs opt)) \<le> 1" for k
      using c3 by (auto simp: opt(2))
    show "(\<Sum>a \<in># {#([1], [2])#} + mset (default_attrs 7 8). attr_size a) \<le> 65535"
      using c6 sum_attr_list [of "([1], [2]) # default_attrs 7 8"] by (simp del: mset_map)
    show "set [11, 12, 13, 14, 15, 16] \<inter> attr_blocks opt = {}" using opt(3) by auto
  qed (simp_all add: block_at_def default_attrs_def)
  then show ?thesis using opt(2) by blast
qed

end
