(* ===== verification/Dynamic_Array.thy ===== *)
theory Dynamic_Array
  imports Dynamic_String
begin

text \<open>
  Arrays that grow (\<^verbatim>\<open>ma_array.c\<close>), as blocks of bytes. All sizes and offsets are products of
  \<open>unsigned int\<close>, so they are taken modulo \<open>2 ^ 32\<close>. The elements of an array are its bytes in
  pieces of the element size; every function is shown to be the list operation it is meant to be.
\<close>

section \<open>Model\<close>

record dynamic_array =
  da_buffer :: "bytes option"
  da_elements :: nat
  da_max_element :: nat
  da_alloc_increment :: nat
  da_size_of_element :: nat

text \<open>An element size of zero divides by zero.\<close>

definition ma_init_dynamic_array :: "alloc_env \<Rightarrow> nat \<Rightarrow> nat \<Rightarrow> nat \<Rightarrow> (unit, bool \<times> dynamic_array) res" where
  "ma_init_dynamic_array E element_size init_alloc alloc_increment =
     (if alloc_increment = 0 \<and> element_size = 0 then UB
      else let inc1 = max ((8192 - MALLOC_OVERHEAD) div element_size) 16;
               inc = (if alloc_increment \<noteq> 0 then alloc_increment
                      else if 8 < init_alloc \<and> uint_mul init_alloc 2 < inc1 then uint_mul init_alloc 2 else inc1);
               init = (if init_alloc = 0 then inc else init_alloc);
               buf = malloc E (uint_mul element_size init)
           in Ok (buf = None, \<lparr>da_buffer = buf, da_elements = 0, da_max_element = (if buf = None then 0 else init),
                               da_alloc_increment = inc, da_size_of_element = element_size\<rparr>))"

text \<open>The offset of the new element, or \<open>None\<close> for a null pointer.\<close>

definition ma_alloc_dynamic :: "alloc_env \<Rightarrow> dynamic_array \<Rightarrow> nat option \<times> dynamic_array" where
  "ma_alloc_dynamic E a =
     (let next = (\<lambda>a. (Some (uint_mul (da_elements a) (da_size_of_element a)), a\<lparr>da_elements := uint_add (da_elements a) 1\<rparr>))
      in if da_elements a = da_max_element a then
           (case realloc_ptr E (da_buffer a) (uint_mul (uint_add (da_max_element a) (da_alloc_increment a)) (da_size_of_element a)) of
              None \<Rightarrow> (None, a)
            | Some buf \<Rightarrow> next (a\<lparr>da_buffer := Some buf, da_max_element := uint_add (da_max_element a) (da_alloc_increment a)\<rparr>))
         else next a)"

definition da_write :: "dynamic_array \<Rightarrow> nat \<Rightarrow> bytes \<Rightarrow> (unit, dynamic_array) res" where
  "da_write a off bs = (case da_buffer a of None \<Rightarrow> UB | Some buf \<Rightarrow> rmap (\<lambda>b. a\<lparr>da_buffer := Some b\<rparr>) (store_bytes buf off bs))"

definition ma_insert_dynamic :: "alloc_env \<Rightarrow> dynamic_array \<Rightarrow> bytes \<Rightarrow> (unit, bool \<times> dynamic_array) res" where
  "ma_insert_dynamic E a element =
     (let (p, a1) = (if da_elements a = da_max_element a then ma_alloc_dynamic E a
            else (Some (uint_mul (da_elements a) (da_size_of_element a)), a\<lparr>da_elements := uint_add (da_elements a) 1\<rparr>))
      in case p of None \<Rightarrow> Ok (True, a1)
         | Some off \<Rightarrow> rbind (load_bytes element 0 (da_size_of_element a)) (\<lambda>bs. rmap (\<lambda>a2. (False, a2)) (da_write a1 off bs)))"

definition ma_pop_dynamic :: "dynamic_array \<Rightarrow> nat option \<times> dynamic_array" where
  "ma_pop_dynamic a =
     (if da_elements a \<noteq> 0
      then (Some (uint_mul (da_elements a - 1) (da_size_of_element a)), a\<lparr>da_elements := da_elements a - 1\<rparr>)
      else (None, a))"

text \<open>The growth of \<open>ma_set_dynamic\<close>: \<open>None\<close> when there is no memory. An increment of zero divides by zero.\<close>

definition set_grow :: "alloc_env \<Rightarrow> dynamic_array \<Rightarrow> nat \<Rightarrow> dynamic_array option" where
  "set_grow E a idx =
     (if idx < da_max_element a then Some a
      else let inc = da_alloc_increment a; size = uint_mul (uint_add idx inc div inc) inc
           in map_option (\<lambda>b. a\<lparr>da_buffer := Some b, da_max_element := size\<rparr>)
                (realloc_ptr E (da_buffer a) (uint_mul size (da_size_of_element a))))"

definition ma_set_dynamic :: "alloc_env \<Rightarrow> dynamic_array \<Rightarrow> bytes \<Rightarrow> nat \<Rightarrow> (unit, bool \<times> dynamic_array) res" where
  "ma_set_dynamic E a element idx =
     (let put = (\<lambda>a. rbind (load_bytes element 0 (da_size_of_element a)) (\<lambda>bs.
            rmap (\<lambda>a2. (False, a2)) (da_write a (uint_mul idx (da_size_of_element a)) bs)))
      in if idx < da_elements a then put a
         else if da_max_element a \<le> idx \<and> da_alloc_increment a = 0 then UB
         else case set_grow E a idx of None \<Rightarrow> Ok (True, a)
         | Some a1 \<Rightarrow>
             rbind (da_write a1 (uint_mul (da_elements a1) (da_size_of_element a1))
                      (replicate (uint_mul (idx - da_elements a1) (da_size_of_element a1)) 0))
               (\<lambda>a2. put (a2\<lparr>da_elements := uint_add idx 1\<rparr>)))"

definition ma_get_dynamic :: "dynamic_array \<Rightarrow> nat \<Rightarrow> (unit, bytes) res" where
  "ma_get_dynamic a idx =
     (if da_elements a \<le> idx then Ok (replicate (da_size_of_element a) 0)
      else case da_buffer a of None \<Rightarrow> UB
      | Some buf \<Rightarrow> load_bytes buf (uint_mul idx (da_size_of_element a)) (da_size_of_element a))"

definition ma_delete_dynamic :: "dynamic_array \<Rightarrow> dynamic_array" where
  "ma_delete_dynamic a = (case da_buffer a of None \<Rightarrow> a | Some _ \<Rightarrow> a\<lparr>da_buffer := None, da_elements := 0, da_max_element := 0\<rparr>)"

definition ma_delete_dynamic_element :: "dynamic_array \<Rightarrow> nat \<Rightarrow> (unit, dynamic_array) res" where
  "ma_delete_dynamic_element a idx =
     (let n = uint_sub (da_elements a) 1; p = uint_mul (da_size_of_element a) idx
      in case da_buffer a of None \<Rightarrow> UB
         | Some buf \<Rightarrow> rbind (load_bytes buf (p + da_size_of_element a) (uint_mul (uint_sub n idx) (da_size_of_element a)))
             (\<lambda>bs. da_write (a\<lparr>da_elements := n\<rparr>) p bs))"

definition ma_freeze_size :: "alloc_env \<Rightarrow> dynamic_array \<Rightarrow> dynamic_array" where
  "ma_freeze_size E a =
     (let elements = max (da_elements a) 1
      in case da_buffer a of
           Some buf \<Rightarrow> if da_max_element a \<noteq> elements
             then a\<lparr>da_buffer := realloc E buf (uint_mul elements (da_size_of_element a)), da_max_element := elements\<rparr> else a
         | None \<Rightarrow> a)"

section \<open>The list of the elements\<close>

definition da_inv :: "dynamic_array \<Rightarrow> bool" where
  "da_inv a \<longleftrightarrow> 0 < da_size_of_element a \<and> 0 < da_alloc_increment a \<and> da_elements a \<le> da_max_element a
     \<and> da_max_element a * da_size_of_element a < 2 ^ 32
     \<and> (case da_buffer a of None \<Rightarrow> da_max_element a = 0 | Some buf \<Rightarrow> length buf = da_max_element a * da_size_of_element a)"

text \<open>The array holds the elements \<open>es\<close>.\<close>

definition da_holds :: "dynamic_array \<Rightarrow> bytes list \<Rightarrow> bool" where
  "da_holds a es \<longleftrightarrow> da_inv a \<and> length es = da_elements a \<and> list_all (\<lambda>e. length e = da_size_of_element a) es
     \<and> (\<forall>buf. da_buffer a = Some buf \<longrightarrow> take (da_elements a * da_size_of_element a) buf = concat es)"

lemma length_concat_es: "list_all (\<lambda>e. length e = s) es \<Longrightarrow> length (concat es) = length es * s"
  by (induction es) simp_all

lemma da_holdsE:
  assumes "da_holds a es" "da_buffer a = Some buf"
  obtains slack where "buf = concat es @ slack" "length (concat es) = length es * da_size_of_element a"
    "length slack = (da_max_element a - length es) * da_size_of_element a"
proof -
  let ?s = "da_size_of_element a"
  have l: "length (concat es) = length es * ?s" using assms(1) length_concat_es unfolding da_holds_def by blast
  have b: "buf = concat es @ drop (length es * ?s) buf" using assms by (metis append_take_drop_id da_holds_def)
  have "length buf = da_max_element a * ?s" using assms by (simp add: da_holds_def da_inv_def)
  then have "length (drop (length es * ?s) buf) = (da_max_element a - length es) * ?s" by (simp add: diff_mult_distrib)
  with b l show ?thesis by (rule that)
qed

lemma da_holds_buffer:
  assumes "da_holds a es" "da_elements a \<noteq> 0 \<or> da_max_element a \<noteq> 0"
  obtains buf where "da_buffer a = Some buf"
  using assms by (auto simp: da_holds_def da_inv_def split: option.splits)

text \<open>Growing keeps the elements.\<close>

lemma da_holds_grow:
  assumes h: "da_holds a es" and r: "realloc_ptr E (da_buffer a) (m * da_size_of_element a) = Some buf"
    and m: "da_max_element a \<le> m" "m * da_size_of_element a < 2 ^ 32"
  shows "da_holds (a\<lparr>da_buffer := Some buf, da_max_element := m\<rparr>) es"
proof -
  let ?s = "da_size_of_element a"
  have e: "length es = da_elements a" "da_elements a \<le> m" using h m(1) by (simp_all add: da_holds_def da_inv_def)
  have l: "length buf = m * ?s" using r by (cases "da_buffer a") (auto simp: realloc_ptr_def malloc_Some dest: realloc_length)
  have "take (da_elements a * ?s) buf = concat es"
  proof (cases "da_buffer a")
    case None
    then have "es = []" using h by (auto simp: da_holds_def da_inv_def)
    then show ?thesis using e by simp
  next
    case (Some b)
    then have "length b = da_max_element a * ?s" "da_elements a \<le> da_max_element a" "take (da_elements a * ?s) b = concat es"
      using h by (simp_all add: da_holds_def da_inv_def)
    then show ?thesis using realloc_take [of E b "m * ?s" buf "da_elements a * ?s"] r Some e(2) by (simp add: realloc_ptr_def)
  qed
  then show ?thesis using h e l m by (simp add: da_holds_def da_inv_def)
qed

text \<open>Writing element \<open>i\<close>, the first one behind the array included.\<close>

lemma da_write_element:
  assumes h: "da_holds a es" and i: "i \<le> da_elements a" "i < da_max_element a" and e: "length e = da_size_of_element a"
  shows "\<exists>buf. da_write (a\<lparr>da_elements := n\<rparr>) (i * da_size_of_element a) e = Ok (a\<lparr>da_elements := n, da_buffer := Some buf\<rparr>)
    \<and> (n = max (da_elements a) (i + 1) \<longrightarrow> da_holds (a\<lparr>da_elements := n, da_buffer := Some buf\<rparr>) (take i es @ e # drop (Suc i) es))"
proof -
  let ?s = "da_size_of_element a"
  obtain buf where buf: "da_buffer a = Some buf" using da_holds_buffer [OF h] i(2) by auto
  obtain slack where b: "buf = concat es @ slack" "length (concat es) = length es * ?s" "length slack = (da_max_element a - length es) * ?s"
    using da_holdsE [OF h buf] by blast
  have len: "length es = da_elements a" and all: "list_all (\<lambda>e. length e = ?s) es" using h by (simp_all add: da_holds_def)
  define X where "X = concat (take i es)"
  define Z where "Z = concat (drop i es) @ slack"
  have X: "length X = i * ?s" using all i(1) len unfolding X_def by (subst length_concat_es) (auto simp: list_all_iff dest: in_set_takeD)
  have XZ: "buf = X @ Z" using b(1) unfolding X_def Z_def by (metis append.assoc append_take_drop_id concat_append)
  have lb: "length buf = da_max_element a * ?s" using h buf by (simp add: da_holds_def da_inv_def)
  have "Suc i * ?s \<le> da_max_element a * ?s" using i(2) by (intro mult_le_mono1) simp
  then have fit: "length X + length e \<le> length buf" using X e lb by simp
  have st: "store_bytes buf (i * ?s) e = (Ok (X @ e @ drop ?s Z) :: (unit, bytes) res)"
    using fit X e by (simp add: store_bytes_def XZ)
  have "da_holds (a\<lparr>da_elements := n, da_buffer := Some (X @ e @ drop ?s Z)\<rparr>) (take i es @ e # drop (Suc i) es)" if n: "n = max (da_elements a) (i + 1)"
  proof -
    have cz: "drop ?s Z = concat (drop (Suc i) es) @ (if i < length es then slack else drop ?s slack)"
    proof (cases "i < length es")
      case True
      then have "drop i es = es ! i # drop (Suc i) es" "length (es ! i) = ?s" using all by (simp_all add: Cons_nth_drop_Suc list_all_length)
      then show ?thesis using True by (simp add: Z_def)
    qed (simp add: Z_def)
    have r: "length (X @ e @ drop ?s Z) = da_max_element a * ?s" using fit X e lb XZ by simp
    have all': "list_all (\<lambda>e. length e = ?s) (take i es @ e # drop (Suc i) es)" using all e by (auto simp: list_all_iff dest: in_set_takeD in_set_dropD)
    have len': "length (take i es @ e # drop (Suc i) es) = n" using n i(1) len by (simp add: min_def max_def)
    have lc: "length (concat (take i es @ e # drop (Suc i) es)) = n * ?s" by (simp only: length_concat_es [OF all'] len')
    have "X @ e @ drop ?s Z = concat (take i es @ e # drop (Suc i) es) @ (if i < length es then slack else drop ?s slack)"
      unfolding cz X_def by simp
    then have "take (n * ?s) (X @ e @ drop ?s Z) = concat (take i es @ e # drop (Suc i) es)"
      using lc by (metis append_eq_conv_conj)
    then show ?thesis using h r all' len' n i unfolding da_holds_def da_inv_def by (simp add: max_def)
  qed
  then show ?thesis using st buf by (auto simp: da_write_def)
qed

section \<open>The operations as list operations\<close>

text \<open>Room for one more element, and the number of elements raised.\<close>

lemma da_extend:
  assumes h: "da_holds a es" and "da_elements a < da_max_element a"
    and e: "length e = da_size_of_element a"
  shows "\<exists>a'. da_write (a\<lparr>da_elements := uint_add (da_elements a) 1\<rparr>) (uint_mul (da_elements a) (da_size_of_element a)) e = Ok a'
    \<and> da_holds a' (es @ [e])"
proof -
  let ?s = "da_size_of_element a"
  have inv: "0 < ?s" "da_max_element a * ?s < 2 ^ 32" "length es = da_elements a" using h by (simp_all add: da_holds_def da_inv_def)
  have m: "uint_mul (da_elements a) ?s = da_elements a * ?s" using inv(2) assms(2) by (intro uint_mul_le [of _ "da_max_element a"]) simp_all
  have "uint_add (da_elements a) 1 = da_elements a + 1"
    using le_mult_pos [OF inv(1,2)] assms(2) by (intro uint_add_small) simp
  then show ?thesis using da_write_element [OF h, of "da_elements a" e "da_elements a + 1"] assms(2) e m inv(3) by auto
qed

text \<open>
  C30. Inserting into a growing array appends the element to the list it holds, and fails, without a
  change, exactly when the array is full and there is no memory; the sizes are assumed to
  stay below \<open>2 ^ 32\<close>, the width they are computed in.
\<close>
theorem array_insert:
  assumes h: "da_holds a es" and e: "length e = da_size_of_element a"
    and fit: "(da_max_element a + da_alloc_increment a) * da_size_of_element a < 2 ^ 32"
  shows "\<exists>failed a'. ma_insert_dynamic E a e = Ok (failed, a') \<and> da_holds a' (if failed then es else es @ [e])
    \<and> (failed \<longleftrightarrow> length es = da_max_element a \<and> \<not> alloc_ok E ((da_max_element a + da_alloc_increment a) * da_size_of_element a))"
proof -
  let ?s = "da_size_of_element a" and ?m = "da_max_element a + da_alloc_increment a"
  have inv: "0 < ?s" "0 < da_alloc_increment a" "da_elements a \<le> da_max_element a" "length es = da_elements a"
    using h by (simp_all add: da_holds_def da_inv_def)
  have ld: "load_bytes e 0 ?s = (Ok e :: (unit, bytes) res)" using e by (simp add: load_bytes_def)
  show ?thesis
  proof (cases "da_elements a = da_max_element a")
    case False
    then show ?thesis using da_extend [OF h _ e] inv ld by (auto simp: ma_insert_dynamic_def)
  next
    case True
    have u: "uint_add (da_max_element a) (da_alloc_increment a) = ?m" "uint_mul ?m ?s = ?m * ?s"
      using le_mult_pos [OF inv(1) fit] fit by (simp_all add: uint_add_small uint_mul_small)
    show ?thesis
    proof (cases "alloc_ok E (?m * ?s)")
      case no: False
      then have "realloc_ptr E (da_buffer a) (?m * ?s) = None" by (simp add: realloc_ptr_def realloc_def malloc_def split: option.splits)
      then show ?thesis using True no u h inv by (auto simp: ma_insert_dynamic_def ma_alloc_dynamic_def)
    next
      case yes: True
      then obtain buf where r: "realloc_ptr E (da_buffer a) (?m * ?s) = Some buf" by (cases "da_buffer a") (auto simp: realloc_ptr_def realloc_def malloc_def)
      let ?a = "a\<lparr>da_buffer := Some buf, da_max_element := ?m\<rparr>"
      have g: "da_holds ?a es" using da_holds_grow [OF h r _ fit] by simp
      obtain a' where "da_write (?a\<lparr>da_elements := uint_add (da_elements a) 1\<rparr>) (uint_mul (da_elements a) ?s) e = Ok a'" "da_holds a' (es @ [e])"
        using da_extend [OF g, of e] True inv(2) e by auto
      then show ?thesis using True yes u r ld by (auto simp: ma_insert_dynamic_def ma_alloc_dynamic_def)
    qed
  qed
qed

theorem array_get:
  assumes h: "da_holds a es"
  shows "ma_get_dynamic a idx = Ok (if idx < length es then es ! idx else replicate (da_size_of_element a) 0)"
proof (cases "idx < length es")
  case True
  let ?s = "da_size_of_element a"
  have inv: "length es = da_elements a" "da_elements a \<le> da_max_element a" "da_max_element a * ?s < 2 ^ 32" "list_all (\<lambda>e. length e = ?s) es"
    using h by (simp_all add: da_holds_def da_inv_def)
  obtain buf where buf: "da_buffer a = Some buf" using da_holds_buffer [OF h] True inv(1) by auto
  obtain slack where b: "buf = concat es @ slack" using da_holdsE [OF h buf] by blast
  have "es = take idx es @ es ! idx # drop (Suc idx) es" using True by (rule id_take_nth_drop)
  then have "buf = concat (take idx es) @ es ! idx @ concat (drop (Suc idx) es) @ slack"
    unfolding b by (metis append.assoc concat.simps(2) concat_append)
  moreover have "length (concat (take idx es)) = idx * ?s"
  proof -
    have "list_all (\<lambda>e. length e = ?s) (take idx es)" using inv(4) by (auto simp: list_all_iff dest: in_set_takeD)
    then show ?thesis using True by (simp add: length_concat_es)
  qed
  moreover have "length (es ! idx) = ?s" using inv(4) True by (simp add: list_all_length)
  ultimately have "load_bytes buf (idx * ?s) ?s = (Ok (es ! idx) :: (unit, bytes) res)" by (simp add: load_bytes_mid)
  moreover have "uint_mul idx ?s = idx * ?s" using inv(1-3) True by (intro uint_mul_le [of _ "da_max_element a"]) simp_all
  ultimately show ?thesis using True inv(1) buf by (simp add: ma_get_dynamic_def)
next
  case False
  then show ?thesis using h by (simp add: ma_get_dynamic_def da_holds_def)
qed

lemma take_concat_es:
  assumes "list_all (\<lambda>e. length e = s) es" "n \<le> length es"
  shows "take (n * s) (concat es) = concat (take n es)"
proof -
  have "list_all (\<lambda>e. length e = s) (take n es)" using assms(1) by (auto simp: list_all_iff dest: in_set_takeD)
  then have "length (concat (take n es)) = n * s" using assms(2) by (simp add: length_concat_es)
  then show ?thesis by (metis append_eq_conv_conj append_take_drop_id concat_append)
qed

lemma array_shrink:
  assumes h: "da_holds a es" and n: "n \<le> length es"
  shows "da_holds (a\<lparr>da_elements := n\<rparr>) (take n es)"
proof -
  let ?s = "da_size_of_element a"
  have all: "list_all (\<lambda>e. length e = ?s) es" "length es = da_elements a" using h by (simp_all add: da_holds_def)
  have "take (n * ?s) buf = concat (take n es)" if "da_buffer a = Some buf" for buf
  proof -
    obtain slack where "buf = concat es @ slack" "length (concat es) = length es * ?s" using da_holdsE [OF h \<open>da_buffer a = Some buf\<close>] by blast
    then show ?thesis using take_concat_es [OF all(1) n] mult_le_mono1 [OF n, of ?s] by simp
  qed
  moreover have "list_all (\<lambda>e. length e = ?s) (take n es)" using all(1) by (auto simp: list_all_iff dest: in_set_takeD)
  ultimately show ?thesis using h n all(2) by (auto simp: da_holds_def da_inv_def split: option.splits)
qed

lemma array_pop:
  assumes h: "da_holds a es"
  shows "da_holds (snd (ma_pop_dynamic a)) (butlast es)"
  using array_shrink [OF h, of "da_elements a - 1"] h by (auto simp: ma_pop_dynamic_def da_holds_def butlast_conv_take)


text \<open>Growing by \<open>ma_set_dynamic\<close>: to the next multiple of the increment above the index.\<close>

lemma set_grow_holds:
  assumes h: "da_holds a es" and fit: "(idx + da_alloc_increment a) * da_size_of_element a < 2 ^ 32" and g: "set_grow E a idx = Some a1"
  shows "da_holds a1 es" "idx < da_max_element a1" "da_size_of_element a1 = da_size_of_element a" "da_elements a1 = da_elements a"
proof -
  let ?s = "da_size_of_element a" and ?i = "da_alloc_increment a"
  have inv: "0 < ?s" "0 < ?i" using h by (simp_all add: da_holds_def da_inv_def)
  define m where "m = (idx + ?i) div ?i * ?i"
  have m: "m \<le> idx + ?i" "idx < m"
    using inv(2) div_mult_mod_eq [of "idx + ?i" ?i] mod_less_divisor [of ?i "idx + ?i"] unfolding m_def by linarith+
  have ms: "m * ?s < 2 ^ 32" using mult_le_mono1 [OF m(1), of ?s] fit by linarith
  have i32: "idx + ?i < 2 ^ 32" using le_mult_pos [OF inv(1) fit] .
  have u: "uint_add idx ?i = idx + ?i" "uint_mul m ?s = m * ?s" using i32 ms by (simp_all add: uint_add_small uint_mul_small)
  have um: "uint_mul ((idx + ?i) div ?i) ?i = m" unfolding m_def by (rule uint_mul_small) (use m(1) i32 in \<open>simp only: m_def\<close>)
  have "da_holds a1 es \<and> idx < da_max_element a1 \<and> da_size_of_element a1 = ?s \<and> da_elements a1 = da_elements a"
  proof (cases "idx < da_max_element a")
    case True
    then show ?thesis using g h by (simp add: set_grow_def)
  next
    case False
    then obtain buf where "realloc_ptr E (da_buffer a) (m * ?s) = Some buf" "a1 = a\<lparr>da_buffer := Some buf, da_max_element := m\<rparr>"
      using g u um by (auto simp: set_grow_def Let_def)
    then show ?thesis using da_holds_grow [OF h, of E m buf] False m ms by simp
  qed
  then show "da_holds a1 es" "idx < da_max_element a1" "da_size_of_element a1 = ?s" "da_elements a1 = da_elements a" by simp_all
qed

text \<open>Filling the gap with zeros.\<close>

lemma da_fill:
  assumes h: "da_holds a es" and "length es + k < da_max_element a"
  shows "\<exists>buf. da_write a (uint_mul (da_elements a) (da_size_of_element a)) (replicate (uint_mul k (da_size_of_element a)) 0)
      = Ok (a\<lparr>da_buffer := Some buf\<rparr>)
    \<and> da_holds (a\<lparr>da_buffer := Some buf, da_elements := length es + k\<rparr>) (es @ replicate k (replicate (da_size_of_element a) 0))"
proof -
  let ?s = "da_size_of_element a"
  have inv: "length es = da_elements a" "da_max_element a * ?s < 2 ^ 32" "list_all (\<lambda>e. length e = ?s) es" using h by (simp_all add: da_holds_def da_inv_def)
  have u: "uint_mul (da_elements a) ?s = length es * ?s" "uint_mul k ?s = k * ?s"
    using inv(1,2) assms(2) by (simp_all add: uint_mul_le [of _ "da_max_element a"])
  obtain buf where buf: "da_buffer a = Some buf" using da_holds_buffer [OF h] assms(2) by auto
  obtain slack where b: "buf = concat es @ slack" "length (concat es) = length es * ?s" "length slack = (da_max_element a - length es) * ?s"
    using da_holdsE [OF h buf] by blast
  have k: "k * ?s \<le> length slack" unfolding b(3) using assms(2) by (intro mult_le_mono1) simp
  define Y where "Y = drop (k * ?s) slack"
  have slack: "slack = take (k * ?s) slack @ Y" "length (take (k * ?s) slack) = k * ?s" unfolding Y_def using k by simp_all
  have st: "store_bytes buf (length es * ?s) (replicate (k * ?s) 0) = (Ok (concat es @ replicate (k * ?s) 0 @ Y) :: (unit, bytes) res)"
    using store_bytes_mid [of "length es * ?s" "concat es" "replicate (k * ?s) 0" "take (k * ?s) slack" Y, where 'a = unit] b(1,2) slack by simp
  have z: "replicate (k * ?s) (0 :: u8) = concat (replicate k (replicate ?s 0))" by (induction k) (simp_all add: replicate_add)
  have "list_all (\<lambda>e. length e = ?s) (es @ replicate k (replicate ?s 0))" using inv(3) by (auto simp: list_all_iff)
  moreover have "length (concat es @ replicate (k * ?s) 0 @ Y) = da_max_element a * ?s"
  proof -
    have "length buf = da_max_element a * ?s" using h buf by (simp add: da_holds_def da_inv_def)
    then show ?thesis using b(1) k by (simp add: Y_def)
  qed
  moreover have "take ((length es + k) * ?s) (concat es @ replicate (k * ?s) 0 @ Y) = concat (es @ replicate k (replicate ?s 0))"
    using b(2) by (simp add: z [symmetric] add_mult_distrib)
  ultimately have "da_holds (a\<lparr>da_buffer := Some (concat es @ replicate (k * ?s) 0 @ Y), da_elements := length es + k\<rparr>) (es @ replicate k (replicate ?s 0))"
    using h assms(2) unfolding da_holds_def da_inv_def by simp
  then show ?thesis using st buf u by (intro exI [of _ "concat es @ replicate (k * ?s) 0 @ Y"] conjI) (simp_all add: da_write_def)
qed

text \<open>
  C31. Setting element \<open>idx\<close> behind the end extends the array with zeros up to it; otherwise it replaces
  the element. It fails without a change.
\<close>
theorem array_set:
  assumes h: "da_holds a es" and e: "length e = da_size_of_element a"
    and fit: "(idx + da_alloc_increment a) * da_size_of_element a < 2 ^ 32"
  shows "\<exists>failed a'. ma_set_dynamic E a e idx = Ok (failed, a') \<and>
    da_holds a' (if failed then es else (es @ replicate (idx + 1 - length es) (replicate (da_size_of_element a) 0))[idx := e])"
proof -
  let ?s = "da_size_of_element a" and ?z = "replicate (da_size_of_element a) (0 :: u8)"
  have inv: "0 < ?s" "0 < da_alloc_increment a" "length es = da_elements a" using h by (simp_all add: da_holds_def da_inv_def)
  have ld: "load_bytes e 0 ?s = (Ok e :: (unit, bytes) res)" using e by (simp add: load_bytes_def)
  have iu: "uint_mul idx ?s = idx * ?s" using fit by (intro uint_mul_le [of _ "idx + da_alloc_increment a"]) simp_all
  have ia: "uint_add idx 1 = idx + 1" using le_mult_pos [OF inv(1) fit] inv(2) by (intro uint_add_small) simp
  show ?thesis
  proof (cases "idx < da_elements a")
    case True
    have "idx < da_max_element a" using True h by (simp add: da_holds_def da_inv_def)
    then obtain buf where w: "da_write (a\<lparr>da_elements := da_elements a\<rparr>) (idx * ?s) e = Ok (a\<lparr>da_elements := da_elements a, da_buffer := Some buf\<rparr>)"
        "da_holds (a\<lparr>da_elements := da_elements a, da_buffer := Some buf\<rparr>) (take idx es @ e # drop (Suc idx) es)"
      using da_write_element [OF h, of idx e "da_elements a"] True e by auto
    have "es[idx := e] = take idx es @ e # drop (Suc idx) es" using True inv(3) by (simp add: upd_conv_take_nth_drop)
    then show ?thesis using w True inv(3) ld iu by (auto simp: ma_set_dynamic_def Let_def)
  next
    case False
    show ?thesis
    proof (cases "set_grow E a idx")
      case None
      then show ?thesis using False h inv(2) by (auto simp: ma_set_dynamic_def Let_def)
    next
      case (Some a1)
      note g = set_grow_holds [OF h fit Some]
      have k: "length es + (idx - da_elements a) = idx" using False inv(3) by simp
      obtain b2 where w2: "da_write a1 (uint_mul (da_elements a1) ?s) (replicate (uint_mul (idx - da_elements a1) ?s) 0) = Ok (a1\<lparr>da_buffer := Some b2\<rparr>)"
          "da_holds (a1\<lparr>da_buffer := Some b2, da_elements := idx\<rparr>) (es @ replicate (idx - da_elements a) ?z)"
        using da_fill [OF g(1), of "idx - da_elements a"] g(2-4) k by auto
      let ?es = "es @ replicate (idx - da_elements a) ?z"
      obtain b3 where w3: "da_write (a1\<lparr>da_buffer := Some b2, da_elements := idx + 1\<rparr>) (idx * ?s) e
            = Ok (a1\<lparr>da_elements := idx + 1, da_buffer := Some b3\<rparr>)"
          "da_holds (a1\<lparr>da_elements := idx + 1, da_buffer := Some b3\<rparr>) (take idx ?es @ e # drop (Suc idx) ?es)"
        using da_write_element [OF w2(2), of idx e "idx + 1"] g(2,3) e by auto
      have li: "length ?es = idx" using k by simp
      have "idx + 1 - length es = Suc (idx - da_elements a)" using False inv(3) by simp
      then have "es @ replicate (idx + 1 - length es) ?z = ?es @ [?z]" by (simp only: replicate_Suc replicate_append_same append.assoc)
      then have "(es @ replicate (idx + 1 - length es) ?z)[idx := e] = ?es @ [e]" using li by (metis list_update_length)
      moreover have "take idx ?es @ e # drop (Suc idx) ?es = ?es @ [e]" using li by simp
      moreover have "ma_set_dynamic E a e idx = Ok (False, a1\<lparr>da_elements := idx + 1, da_buffer := Some b3\<rparr>)"
        using w2(1) w3(1) False Some ld iu ia g(3) inv(2) by (simp add: ma_set_dynamic_def Let_def)
      ultimately show ?thesis using w3(2) by (intro exI [of _ False] exI [of _ "a1\<lparr>da_elements := idx + 1, da_buffer := Some b3\<rparr>"]) simp
    qed
  qed
qed

lemma array_delete_element:
  assumes h: "da_holds a es" and i: "idx < length es"
  shows "\<exists>a'. ma_delete_dynamic_element a idx = Ok a' \<and> da_holds a' (take idx es @ drop (Suc idx) es)"
proof -
  let ?s = "da_size_of_element a"
  have inv: "0 < ?s" "length es = da_elements a" "da_elements a \<le> da_max_element a" "da_max_element a * ?s < 2 ^ 32" "list_all (\<lambda>e. length e = ?s) es"
    using h by (simp_all add: da_holds_def da_inv_def)
  obtain buf where buf: "da_buffer a = Some buf" using da_holds_buffer [OF h] i inv(2) by auto
  obtain slack where b: "buf = concat es @ slack" using da_holdsE [OF h buf] by blast
  have lb: "length buf = da_max_element a * ?s" using h buf by (simp add: da_holds_def da_inv_def)
  define X where "X = concat (take idx es)"
  define Z where "Z = concat (drop (Suc idx) es)"
  have t: "list_all (\<lambda>e. length e = ?s) (take idx es)" "list_all (\<lambda>e. length e = ?s) (drop (Suc idx) es)"
    using inv(5) by (auto simp: list_all_iff dest: in_set_takeD in_set_dropD)
  have X: "length X = idx * ?s" using length_concat_es [OF t(1)] i by (simp add: X_def)
  have Z: "length Z = (length es - 1 - idx) * ?s" using length_concat_es [OF t(2)] by (simp add: Z_def)
  have e: "length (es ! idx) = ?s" using inv(5) i by (simp add: list_all_length)
  have "es = take idx es @ es ! idx # drop (Suc idx) es" using i by (rule id_take_nth_drop)
  then have bs: "buf = X @ es ! idx @ Z @ slack" unfolding b X_def Z_def by (metis append.assoc concat.simps(2) concat_append)
  have n32: "da_elements a < 2 ^ 32" using le_mult_pos [OF inv(1,4)] inv(3) by simp
  have n: "uint_sub (da_elements a) 1 = length es - 1" "uint_sub (length es - 1) idx = length es - 1 - idx"
    using i inv(2) n32 by (simp_all add: uint_sub_small)
  have u: "uint_mul ?s idx = idx * ?s" "uint_mul (length es - 1 - idx) ?s = (length es - 1 - idx) * ?s"
    using i inv(2,3,4) uint_mul_le [of idx "da_max_element a" ?s] uint_mul_le [of "length es - 1 - idx" "da_max_element a" ?s]
    by (simp_all add: uint_mul_def mult.commute)
  have l: "load_bytes buf (idx * ?s + ?s) ((length es - 1 - idx) * ?s) = (Ok Z :: (unit, bytes) res)"
    using load_bytes_mid [of "idx * ?s + ?s" "X @ es ! idx" "(length es - 1 - idx) * ?s" Z slack, where 'a = unit] bs X Z e by simp
  define R where "R = drop (length Z) (es ! idx @ Z @ slack)"
  have st: "store_bytes buf (idx * ?s) Z = (Ok (X @ Z @ R) :: (unit, bytes) res)"
    using X by (simp add: store_bytes_def bs R_def)
  have "length (X @ Z @ R) = da_max_element a * ?s" using lb bs by (simp add: R_def)
  moreover have all: "list_all (\<lambda>e. length e = ?s) (take idx es @ drop (Suc idx) es)" using t by simp
  moreover have len: "length (take idx es @ drop (Suc idx) es) = length es - 1" using i by simp
  moreover have "take ((length es - 1) * ?s) (X @ Z @ R) = concat (take idx es @ drop (Suc idx) es)"
  proof -
    have "length (concat (take idx es @ drop (Suc idx) es)) = (length es - 1) * ?s" by (simp only: length_concat_es [OF all] len)
    then show ?thesis unfolding X_def Z_def by (metis append.assoc append_eq_conv_conj concat_append)
  qed
  ultimately have "da_holds (a\<lparr>da_elements := length es - 1, da_buffer := Some (X @ Z @ R)\<rparr>) (take idx es @ drop (Suc idx) es)"
    using h inv(2,3) unfolding da_holds_def da_inv_def by simp
  then show ?thesis using n u l st buf by (simp add: ma_delete_dynamic_element_def da_write_def Let_def)
qed

lemma array_freeze:
  assumes h: "da_holds a es" and "alloc_ok E (max (length es) 1 * da_size_of_element a)" and pos: "0 < da_max_element a"
  shows "da_holds (ma_freeze_size E a) es" "da_max_element (ma_freeze_size E a) = max (length es) 1"
proof -
  let ?s = "da_size_of_element a" and ?m = "max (da_elements a) 1"
  obtain buf where buf: "da_buffer a = Some buf" using da_holds_buffer [OF h] pos by auto
  have inv: "0 < ?s" "length es = da_elements a" "da_elements a \<le> da_max_element a" "da_max_element a * ?s < 2 ^ 32"
      "take (da_elements a * ?s) buf = concat es" "length buf = da_max_element a * ?s"
    using h buf by (simp_all add: da_holds_def da_inv_def)
  have m: "?m \<le> da_max_element a" using inv(3) pos by simp
  have ms: "?m * ?s \<le> da_max_element a * ?s" "da_elements a * ?s \<le> ?m * ?s" using m by (simp_all only: mult_le_mono1 max.cobounded1)
  have "da_holds (ma_freeze_size E a) es \<and> da_max_element (ma_freeze_size E a) = ?m"
  proof (cases "da_max_element a = ?m")
    case True
    then show ?thesis using buf h by (simp add: ma_freeze_size_def Let_def)
  next
    case False
    have u: "uint_mul ?m ?s = ?m * ?s" using m inv(4) by (rule uint_mul_le)
    have r: "realloc E buf (?m * ?s) = Some (take (?m * ?s) buf)" using assms(2) inv(2,6) ms(1) by (simp add: realloc_def)
    have "take (da_elements a * ?s) (take (?m * ?s) buf) = concat es" using ms(2) inv(5) by (simp add: min_absorb1)
    moreover have "length (take (?m * ?s) buf) = ?m * ?s" using ms(1) inv(6) by (simp add: min_absorb2)
    ultimately have "da_holds (a\<lparr>da_buffer := Some (take (?m * ?s) buf), da_max_element := ?m\<rparr>) es"
      using h ms(1) inv(4) le_less_trans [OF ms(1) inv(4)] unfolding da_holds_def da_inv_def by simp
    then show ?thesis using False buf u r by (simp add: ma_freeze_size_def Let_def)
  qed
  then show "da_holds (ma_freeze_size E a) es" "da_max_element (ma_freeze_size E a) = max (length es) 1" using inv(2) by simp_all
qed

lemma array_init:
  assumes "0 < element_size" "ma_init_dynamic_array E element_size init inc = Ok (failed, a)"
    and "0 < init" "0 < inc" "element_size * init < 2 ^ 32"
  shows "da_holds a []" "failed \<longleftrightarrow> \<not> alloc_ok E (element_size * init)" "da_size_of_element a = element_size"
  using assms by (auto simp: ma_init_dynamic_array_def da_holds_def da_inv_def uint_mul_small malloc_def Let_def mult.commute split: if_splits)

theorem freeze_loses_array:
  assumes h: "da_holds a es" and "i < length es" "length es \<noteq> da_max_element a" "\<not> alloc_ok E (length es * da_size_of_element a)"
  shows "da_elements (ma_freeze_size E a) = length es" "ma_get_dynamic (ma_freeze_size E a) i = UB"
proof -
  let ?s = "da_size_of_element a"
  have inv: "length es = da_elements a" "da_elements a \<le> da_max_element a" "da_max_element a * ?s < 2 ^ 32"
    using h by (simp_all add: da_holds_def da_inv_def)
  obtain buf where buf: "da_buffer a = Some buf" using da_holds_buffer [OF h] assms(2) inv(1) by auto
  have m: "max (da_elements a) 1 = da_elements a" using assms(2) inv(1) by simp
  have "uint_mul (da_elements a) ?s = da_elements a * ?s" using inv(2,3) by (rule uint_mul_le)
  then have f: "ma_freeze_size E a = a\<lparr>da_buffer := None, da_max_element := da_elements a\<rparr>"
    using buf assms(3,4) m inv(1) by (simp add: ma_freeze_size_def realloc_def Let_def)
  then show "da_elements (ma_freeze_size E a) = length es" "ma_get_dynamic (ma_freeze_size E a) i = UB"
    using assms(2) inv(1) by (simp_all add: ma_get_dynamic_def)
qed

text \<open>An array of two elements of two bytes, for examples.\<close>

definition array0 :: dynamic_array where
  "array0 = \<lparr>da_buffer = Some [1, 2, 3, 4], da_elements = 2, da_max_element = 2, da_alloc_increment = 4, da_size_of_element = 2\<rparr>"

lemma array0_holds: "da_holds array0 [[1, 2], [3, 4]]"
  by (simp add: da_holds_def da_inv_def array0_def)

theorem array_insert_witness:
  "\<exists>a'. ma_insert_dynamic all_ok array0 [5, 6] = Ok (False, a') \<and> da_holds a' [[1, 2], [3, 4], [5, 6]]"
proof -
  have "length [5 :: u8, 6] = da_size_of_element array0" "(da_max_element array0 + da_alloc_increment array0) * da_size_of_element array0 < 2 ^ 32"
    by (simp_all add: array0_def)
  from array_insert [OF array0_holds this, of all_ok] show ?thesis by auto
qed

theorem array_set_witness:
  "\<exists>failed a'. ma_set_dynamic all_ok array0 [5, 6] 3 = Ok (failed, a')
     \<and> da_holds a' (if failed then [[1, 2], [3, 4]] else [[1, 2], [3, 4], [0, 0], [5, 6]])"
proof -
  have "length [5 :: u8, 6] = da_size_of_element array0" "(3 + da_alloc_increment array0) * da_size_of_element array0 < 2 ^ 32"
    by (simp_all add: array0_def)
  note s = array_set [OF array0_holds this, of all_ok]
  have "([[1 :: u8, 2], [3, 4]] @ replicate (3 + 1 - length [[1 :: u8, 2], [3, 4]]) (replicate (da_size_of_element array0) 0))[3 := [5, 6]]
      = [[1, 2], [3, 4], [0, 0], [5, 6]]"
    by (simp add: array0_def numeral_2_eq_2 numeral_3_eq_3)
  with s show ?thesis by (simp only:)
qed

theorem array_get_witness: "ma_get_dynamic array0 1 = Ok [3, 4]"
  using array_get [OF array0_holds, of 1] by simp

end
