(* ===== verification/Mem_Root.thy ===== *)
theory Mem_Root
  imports Prelude "HOL-Library.Multiset"
begin

text \<open>
  Memory roots (\<^verbatim>\<open>ma_alloc.c\<close>): small pieces of memory cut from larger blocks, given back
  all together. Addresses are numbers; a block is known by its address and its header, and a list linked by
  \<open>next\<close> is the list of its blocks. What \<open>malloc\<close> answers to a request is an argument. Sizes are
  \<open>size_t\<close> and wrap at \<open>2 ^ 64\<close>. The call of the error handler is left out.
\<close>

section \<open>Model\<close>

text \<open>The size of the header \<open>MA_USED_MEM\<close>, which is a multiple of eight.\<close>

definition sizeof_used_mem :: nat where "sizeof_used_mem = 24"

definition ALIGN_SIZE :: "nat \<Rightarrow> nat" where
  "ALIGN_SIZE n = size_add n 7 - size_add n 7 mod 8"

record used_mem =
  um_addr :: nat
  um_left :: nat
  um_size :: nat

record mem_root =
  mr_free :: "used_mem list"
  mr_used :: "used_mem list"
  mr_pre_alloc :: "nat option"
  mr_min_malloc :: nat
  mr_block_size :: nat
  mr_block_num :: nat
  mr_first_block_usage :: nat

text \<open>\<open>malloc\<close> answers a size with an address, or not.\<close>

definition ma_init_alloc_root :: "(nat \<Rightarrow> nat option) \<Rightarrow> nat \<Rightarrow> nat \<Rightarrow> mem_root" where
  "ma_init_alloc_root alloc block_size pre_alloc_size =
     (let root = \<lparr>mr_free = [], mr_used = [], mr_pre_alloc = None, mr_min_malloc = 32,
                  mr_block_size = size_add (size_sub (size_sub block_size MALLOC_OVERHEAD) sizeof_used_mem) 8, mr_block_num = 4, mr_first_block_usage = 0\<rparr>
      in if pre_alloc_size = 0 then root
         else (case alloc (size_add pre_alloc_size (ALIGN_SIZE sizeof_used_mem)) of None \<Rightarrow> root
           | Some a \<Rightarrow> root\<lparr>mr_free := [\<lparr>um_addr = a, um_left = pre_alloc_size, um_size = size_add pre_alloc_size (ALIGN_SIZE sizeof_used_mem)\<rparr>],
                            mr_pre_alloc := Some a\<rparr>))"

text \<open>A first block that was too small too often is retired.\<close>

definition retire_first :: "nat \<Rightarrow> mem_root \<Rightarrow> mem_root" where
  "retire_first n root = (case mr_free root of [] \<Rightarrow> root
     | b # bs \<Rightarrow>
         if um_left b < n
         then (if 16 \<le> mr_first_block_usage root \<and> um_left b < 4096
               then root\<lparr>mr_free := bs, mr_used := b # mr_used root, mr_first_block_usage := 0\<rparr>
               else root\<lparr>mr_first_block_usage := uint_add (mr_first_block_usage root) 1\<rparr>)
         else root)"

text \<open>The piece is taken from the block behind \<open>before\<close>.\<close>

definition take_piece :: "nat \<Rightarrow> mem_root \<Rightarrow> used_mem list \<Rightarrow> used_mem \<Rightarrow> used_mem list \<Rightarrow> nat \<times> mem_root" where
  "take_piece n root before b after =
     (let point = um_addr b + size_sub (um_size b) (um_left b); b1 = b\<lparr>um_left := size_sub (um_left b) n\<rparr>
      in (point,
          if um_left b1 < mr_min_malloc root
          then root\<lparr>mr_free := before @ after, mr_used := b1 # mr_used root, mr_first_block_usage := 0\<rparr>
          else root\<lparr>mr_free := before @ b1 # after\<rparr>))"

definition new_block_size :: "nat \<Rightarrow> mem_root \<Rightarrow> nat" where
  "new_block_size n root = max (size_add n (ALIGN_SIZE sizeof_used_mem))
     ((mr_block_size root - mr_block_size root mod 2) * (mr_block_num root div 4) mod 2 ^ 64)"

definition ma_alloc_root :: "(nat \<Rightarrow> nat option) \<Rightarrow> mem_root \<Rightarrow> nat \<Rightarrow> nat option \<times> mem_root" where
  "ma_alloc_root alloc root Size =
     (let n = ALIGN_SIZE Size; root1 = retire_first n root;
          before = takeWhile (\<lambda>b. um_left b < n) (mr_free root1)
      in case dropWhile (\<lambda>b. um_left b < n) (mr_free root1) of
           b # after \<Rightarrow> (let (p, r) = take_piece n root1 before b after in (Some p, r))
         | [] \<Rightarrow> (case alloc (new_block_size n root1) of
             None \<Rightarrow> (None, root1)
           | Some a \<Rightarrow>
               let get_size = new_block_size n root1;
                   root2 = root1\<lparr>mr_block_num := uint_add (mr_block_num root1) 1\<rparr>;
                   (p, r) = take_piece n root2 before \<lparr>um_addr = a, um_left = size_sub get_size (ALIGN_SIZE sizeof_used_mem), um_size = get_size\<rparr> []
               in (Some p, r)))"

text \<open>
  The result are the blocks given to \<open>free\<close> and the root. The preallocated block is read after the lists
  were walked; it is \<open>UB\<close> when it is in none of them.
\<close>

definition ma_free_root :: "mem_root \<Rightarrow> bool \<Rightarrow> (unit, nat list \<times> mem_root) res" where
  "ma_free_root root keep_prealloc =
     (let pre = (if keep_prealloc then mr_pre_alloc root else None);
          blocks = mr_used root @ mr_free root;
          freed = filter (\<lambda>a. Some a \<noteq> pre) (map um_addr blocks);
          root1 = root\<lparr>mr_used := [], mr_free := [], mr_pre_alloc := pre\<rparr>
      in case pre of None \<Rightarrow> Ok (freed, root1)
         | Some a \<Rightarrow> (case find (\<lambda>b. um_addr b = a) blocks of None \<Rightarrow> UB
             | Some b \<Rightarrow> Ok (freed, root1\<lparr>mr_free := [b\<lparr>um_left := size_sub (um_size b) (ALIGN_SIZE sizeof_used_mem)\<rparr>]\<rparr>)))"

text \<open>The place and what is stored there.\<close>

definition ma_memdup_root :: "(nat \<Rightarrow> nat option) \<Rightarrow> mem_root \<Rightarrow> bytes \<Rightarrow> (nat \<times> bytes) option \<times> mem_root" where
  "ma_memdup_root alloc root str = (case ma_alloc_root alloc root (length str) of (p, r) \<Rightarrow> (map_option (\<lambda>p. (p, str)) p, r))"

definition ma_strdup_root :: "(nat \<Rightarrow> nat option) \<Rightarrow> mem_root \<Rightarrow> bytes \<Rightarrow> (nat \<times> bytes) option \<times> mem_root" where
  "ma_strdup_root alloc root str = (case ma_alloc_root alloc root (length str + 1) of (p, r) \<Rightarrow> (map_option (\<lambda>p. (p, str @ [0])) p, r))"

text \<open>One block for several pieces: their addresses.\<close>

fun pieces :: "nat \<Rightarrow> nat list \<Rightarrow> nat list" where
  "pieces a [] = []"
| "pieces a (n # ns) = a # pieces (a + ALIGN_SIZE n) ns"

definition ma_multi_malloc :: "(nat \<Rightarrow> nat option) \<Rightarrow> nat list \<Rightarrow> (nat \<times> nat list) option" where
  "ma_multi_malloc alloc ns =
     map_option (\<lambda>start. (start, pieces start ns)) (alloc (fold (\<lambda>n tot_length. size_add tot_length (ALIGN_SIZE n)) ns 0))"

section \<open>The invariant\<close>

text \<open>The blocks of a root, what is taken of a block, and the pieces handed out.\<close>

definition blocks_of :: "mem_root \<Rightarrow> used_mem list" where
  "blocks_of root = mr_used root @ mr_free root"

definition area :: "nat \<Rightarrow> nat \<Rightarrow> nat set" where
  "area a n = {a..<a + n}"

definition block_ok :: "used_mem \<Rightarrow> bool" where
  "block_ok b \<longleftrightarrow> um_left b + 24 \<le> um_size b \<and> um_size b < 2 ^ 64 \<and> (um_size b - um_left b) mod 8 = 0"

definition block_area :: "used_mem \<Rightarrow> nat set" where
  "block_area b = area (um_addr b) (um_size b)"

abbreviation apart :: "nat set list \<Rightarrow> bool" where
  "apart \<equiv> sorted_wrt (\<lambda>A B. A \<inter> B = {})"

text \<open>A piece lies behind the header of a block and before what is left of it.\<close>

definition in_block :: "used_mem \<Rightarrow> nat \<times> nat \<Rightarrow> bool" where
  "in_block b q \<longleftrightarrow> um_addr b + 24 \<le> fst q \<and> fst q + snd q \<le> um_addr b + (um_size b - um_left b) \<and> (fst q - um_addr b) mod 8 = 0"

definition root_inv :: "mem_root \<Rightarrow> (nat \<times> nat) list \<Rightarrow> bool" where
  "root_inv root live \<longleftrightarrow> (\<forall>b \<in> set (blocks_of root). block_ok b) \<and> apart (map block_area (blocks_of root))
     \<and> (\<forall>q \<in> set live. \<exists>b \<in> set (blocks_of root). in_block b q) \<and> apart (map (\<lambda>q. area (fst q) (snd q)) live)
     \<and> (\<forall>a. mr_pre_alloc root = Some a \<longrightarrow> a \<in> um_addr ` set (blocks_of root))"

lemma sorted_wrt_mid: "(\<And>x y. R x y \<Longrightarrow> R y x) \<Longrightarrow> sorted_wrt R (xs @ A # ys) \<longleftrightarrow> sorted_wrt R (A # xs @ ys)"
  by (auto simp: sorted_wrt_append)

lemma apart_mid: "apart (xs @ A # ys) \<longleftrightarrow> apart (A # xs @ ys)"
  by (rule sorted_wrt_mid) (simp only: Int_commute)

lemma apart_mset: "mset xs = mset ys \<Longrightarrow> apart xs \<Longrightarrow> apart ys"
proof (induction xs arbitrary: ys)
  case (Cons A xs)
  then have "A \<in> set ys" by (metis list.set_intros(1) mset_eq_setD)
  then obtain zs1 zs2 where ys: "ys = zs1 @ A # zs2" by (meson split_list)
  then have m: "mset xs = mset (zs1 @ zs2)" using Cons.prems(1) by simp
  then have "apart (zs1 @ zs2)" using Cons by simp
  moreover have "\<forall>B \<in> set (zs1 @ zs2). A \<inter> B = {}" using Cons.prems(2) mset_eq_setD [OF m] by simp
  ultimately show ?case unfolding ys apart_mid by simp
qed simp

section \<open>Alignment\<close>

lemma align_ok: "n < 2 ^ 63 \<Longrightarrow> n \<le> ALIGN_SIZE n \<and> ALIGN_SIZE n < n + 8 \<and> ALIGN_SIZE n mod 8 = 0"
proof -
  assume n: "n < 2 ^ 63"
  then have s: "size_add n 7 = n + 7" by simp
  have "(n + 7) - (n + 7) mod 8 = (n + 7) div 8 * 8" by (simp add: minus_mod_eq_div_mult)
  then show ?thesis unfolding ALIGN_SIZE_def s by presburger
qed

lemma align_header: "ALIGN_SIZE sizeof_used_mem = 24"
  by (simp add: ALIGN_SIZE_def sizeof_used_mem_def size_add_def)

section \<open>Allocation\<close>

lemma retire_inv: "root_inv root live \<Longrightarrow> root_inv (retire_first n root) live"
proof (cases "mr_free root")
  case (Cons b bs)
  assume r: "root_inv root live"
  show ?thesis
  proof (cases "um_left b < n \<and> 16 \<le> mr_first_block_usage root \<and> um_left b < 4096")
    case True
    have s: "set (blocks_of (retire_first n root)) = set (blocks_of root)" using True Cons by (auto simp: retire_first_def blocks_of_def)
    have "apart (map block_area (blocks_of root))" using r by (simp add: root_inv_def)
    then have "apart (map block_area (blocks_of (retire_first n root)))"
      by (rule apart_mset [rotated]) (use True Cons in \<open>simp add: retire_first_def blocks_of_def\<close>)
    moreover have "mr_pre_alloc (retire_first n root) = mr_pre_alloc root" using True Cons by (simp add: retire_first_def)
    ultimately show ?thesis using r unfolding root_inv_def s by simp
  next
    case False
    then show ?thesis using r Cons by (auto simp: retire_first_def root_inv_def blocks_of_def)
  qed
qed (simp add: retire_first_def)

lemma area_subset: "block_ok b \<Longrightarrow> in_block b q \<Longrightarrow> area (fst q) (snd q) \<subseteq> block_area b"
  by (auto simp: block_ok_def in_block_def area_def block_area_def)

lemma take_piece_inv:
  assumes inv: "root_inv (root\<lparr>mr_free := before @ b # after\<rparr>) live" and n: "m \<le> n" "n \<le> um_left b" "n mod 8 = 0"
  shows "\<exists>p r. take_piece n root before b after = (p, r) \<and> root_inv r ((p, m) # live)"
proof -
  have ok: "block_ok b" using inv by (simp add: root_inv_def blocks_of_def)
  let ?others = "mr_used root @ before @ after"
  let ?p = "um_addr b + (um_size b - um_left b)" and ?b1 = "b\<lparr>um_left := um_left b - n\<rparr>"
  let ?r = "if um_left ?b1 < mr_min_malloc root then root\<lparr>mr_free := before @ after, mr_used := ?b1 # mr_used root, mr_first_block_usage := 0\<rparr>
       else root\<lparr>mr_free := before @ ?b1 # after\<rparr>"
  have run: "take_piece n root before b after = (?p, ?r)" using ok n by (simp add: take_piece_def block_ok_def)
  have blocks: "set (blocks_of ?r) = insert ?b1 (set ?others)" by (auto simp: blocks_of_def)
  have ok1: "block_ok ?b1"
  proof -
    have "um_size b - (um_left b - n) = (um_size b - um_left b) + n" using ok n(2) by (simp add: block_ok_def)
    moreover have "((um_size b - um_left b) + n) mod 8 = 0" using ok n(3) unfolding block_ok_def by presburger
    ultimately show ?thesis using ok n(2) by (auto simp: block_ok_def)
  qed
  have area1: "block_area ?b1 = block_area b" by (simp add: block_area_def)
  have ap: "apart (map block_area (mr_used root @ before @ b # after))" using inv by (simp add: root_inv_def blocks_of_def)
  then have ap_r: "apart (map block_area (blocks_of ?r))" by (rule apart_mset [rotated]) (simp add: blocks_of_def area1)
  have away: "block_area b \<inter> block_area c = {}" if "c \<in> set ?others" for c
  proof -
    have "apart (map block_area (b # ?others))" by (rule apart_mset [OF _ ap]) simp
    then show ?thesis using that by (simp only: list.map sorted_wrt.simps set_map) blast
  qed
  have eq: "set (mr_used root @ before @ b # after) = insert b (set ?others)" by auto
  have "\<forall>q \<in> set live. \<exists>c \<in> set (mr_used root @ before @ b # after). in_block c q"
    using inv unfolding root_inv_def blocks_of_def by simp
  then have live: "\<exists>c. c \<in> insert b (set ?others) \<and> in_block c q" if "q \<in> set live" for q using that unfolding eq by blast
  have in1: "in_block ?b1 q" if "in_block b q" for q using that ok n(2) by (auto simp: in_block_def block_ok_def)
  have piece: "in_block ?b1 (?p, m)" using ok n by (auto simp: in_block_def block_ok_def)
  have new: "area ?p m \<inter> area (fst q) (snd q) = {}" if q: "q \<in> set live" for q
  proof -
    obtain c where c: "c \<in> insert b (set ?others)" "in_block c q" using live [OF q] by blast
    show ?thesis
    proof (cases "c = b")
      case True
      then show ?thesis using c(2) by (auto simp: in_block_def area_def)
    next
      case False
      then have "c \<in> set ?others" "block_ok c" using c(1) inv by (auto simp: root_inv_def blocks_of_def)
      moreover have "area ?p m \<subseteq> block_area b" using area_subset [OF ok1 piece] area1 by simp
      ultimately show ?thesis using area_subset [OF _ c(2)] away by blast
    qed
  qed
  have live_r: "\<exists>c \<in> set (blocks_of ?r). in_block c q" if "q \<in> set ((?p, m) # live)" for q
  proof (cases "q = (?p, m)")
    case True
    then show ?thesis using piece unfolding blocks by blast
  next
    case False
    then have "q \<in> set live" using that by simp
    then obtain c where "c \<in> insert b (set ?others)" "in_block c q" using live by blast
    then show ?thesis using in1 unfolding blocks by blast
  qed
  have ok_r: "block_ok c" if "c \<in> set (blocks_of ?r)" for c
    using that ok1 inv unfolding blocks by (auto simp: root_inv_def blocks_of_def)
  have ap_live: "apart (map (\<lambda>q. area (fst q) (snd q)) ((?p, m) # live))" using new inv by (simp add: root_inv_def)
  have addrs: "um_addr ` set (blocks_of ?r) = um_addr ` set (mr_used root @ before @ b # after)" unfolding blocks by auto
  have pre: "mr_pre_alloc ?r = mr_pre_alloc root" by simp
  have "\<forall>a. mr_pre_alloc root = Some a \<longrightarrow> a \<in> um_addr ` set (mr_used root @ before @ b # after)"
    using inv unfolding root_inv_def blocks_of_def by simp
  then have "\<forall>a. mr_pre_alloc ?r = Some a \<longrightarrow> a \<in> um_addr ` set (blocks_of ?r)" unfolding addrs pre .
  then have "root_inv ?r ((?p, m) # live)" unfolding root_inv_def using ap_r ap_live ok_r live_r by blast
  then show ?thesis using run by blast
qed

lemma split_free: "takeWhile P xs @ dropWhile P xs = xs" by simp

text \<open>\<open>malloc\<close> gives memory that is not part of a block.\<close>

definition alloc_fresh :: "(nat \<Rightarrow> nat option) \<Rightarrow> mem_root \<Rightarrow> bool" where
  "alloc_fresh alloc root \<longleftrightarrow> (\<forall>n a. alloc n = Some a \<longrightarrow> (\<forall>b \<in> set (blocks_of root). area a n \<inter> block_area b = {}))"

lemma retire_blocks: "set (blocks_of (retire_first n root)) = set (blocks_of root)"
  by (auto simp: retire_first_def blocks_of_def split: list.splits)

lemma new_block_bounds: "n + 24 < 2 ^ 64 \<Longrightarrow> n + 24 \<le> new_block_size n root \<and> new_block_size n root < 2 ^ 64"
proof -
  assume "n + 24 < 2 ^ 64"
  moreover have "(mr_block_size root - mr_block_size root mod 2) * (mr_block_num root div 4) mod 2 ^ 64 < 2 ^ 64"
    by (rule mod_less_divisor) simp
  ultimately show ?thesis by (simp add: new_block_size_def align_header)
qed

lemma same_free: "mr_free root = bs \<Longrightarrow> root\<lparr>mr_free := bs\<rparr> = root"
  by (cases root) simp

lemma alloc_inv:
  assumes inv: "root_inv root live" and small: "m < 2 ^ 62" and fresh: "alloc_fresh alloc root"
  shows "case ma_alloc_root alloc root m of (Some p, r) \<Rightarrow> root_inv r ((p, m) # live)
     | (None, r) \<Rightarrow> root_inv r live \<and> (\<exists>n \<ge> m. alloc n = None)"
proof -
  define n where "n = ALIGN_SIZE m"
  have n: "m \<le> n" "n mod 8 = 0" "n + 24 < 2 ^ 64" using align_ok [of m] small by (simp_all add: n_def)
  let ?root = "retire_first n root"
  have inv1: "root_inv ?root live" using inv by (rule retire_inv)
  define before where "before = takeWhile (\<lambda>b. um_left b < n) (mr_free ?root)"
  show ?thesis
  proof (cases "dropWhile (\<lambda>b. um_left b < n) (mr_free ?root)")
    case (Cons b after)
    have fits: "n \<le> um_left b" using Cons dropWhile_eq_Cons_conv [of "\<lambda>b. um_left b < n" "mr_free ?root" b after] by simp
    have "mr_free ?root = before @ b # after" using split_free [of "\<lambda>b. um_left b < n" "mr_free ?root"] Cons by (simp add: before_def)
    then have "root_inv (?root\<lparr>mr_free := before @ b # after\<rparr>) live" using inv1 by (simp only: same_free)
    from take_piece_inv [OF this n(1) fits n(2)] obtain p r where "take_piece n ?root before b after = (p, r)" "root_inv r ((p, m) # live)" by blast
    then show ?thesis unfolding ma_alloc_root_def Let_def n_def [symmetric] before_def [symmetric] Cons list.case by simp
  next
    case Nil
    have free: "mr_free ?root = before" using split_free [of "\<lambda>b. um_left b < n" "mr_free ?root"] unfolding Nil before_def by (simp only: append_Nil2)
    let ?s = "new_block_size n ?root"
    note s = new_block_bounds [OF n(3), of ?root]
    show ?thesis
    proof (cases "alloc ?s")
      case None
      have "m \<le> ?s" using s n(1) by simp
      then have "\<exists>n \<ge> m. alloc n = None" using None by blast
      then show ?thesis using inv1 unfolding ma_alloc_root_def Let_def n_def [symmetric] Nil list.case None option.case by simp
    next
      case (Some a)
      let ?b = "\<lparr>um_addr = a, um_left = ?s - 24, um_size = ?s\<rparr>" and ?root2 = "?root\<lparr>mr_block_num := uint_add (mr_block_num ?root) 1\<rparr>"
      have away: "area a ?s \<inter> block_area c = {}" if "c \<in> set (blocks_of ?root)" for c
        using fresh Some that unfolding alloc_fresh_def retire_blocks by blast
      have "block_ok ?b" using s by (simp add: block_ok_def)
      moreover have "apart (map block_area (mr_used ?root @ before @ [?b]))"
      proof -
        have "apart (map block_area (?b # mr_used ?root @ before))" 
        proof -
          have "block_area ?b = area a ?s" by (simp add: block_area_def)
          moreover have "apart (map block_area (mr_used ?root @ before))" using inv1 free by (simp add: root_inv_def blocks_of_def)
          moreover have "\<forall>B \<in> set (map block_area (mr_used ?root @ before)). area a ?s \<inter> B = {}" using away free by (auto simp: blocks_of_def)
          ultimately show ?thesis by (simp only: list.map sorted_wrt.simps)
        qed
        then show ?thesis by (rule apart_mset [rotated]) simp
      qed
      ultimately have "root_inv (?root2\<lparr>mr_free := before @ [?b]\<rparr>) live"
        using inv1 free by (auto simp: root_inv_def blocks_of_def)
      moreover have "n \<le> um_left ?b" using s by (simp add: le_diff_conv2)
      ultimately obtain p r where "take_piece n ?root2 before ?b [] = (p, r)" "root_inv r ((p, m) # live)"
        using take_piece_inv [where root = ?root2 and before = before and b = ?b and after = "[]" and live = live, OF _ n(1) _ n(2)] by blast
      moreover have "size_sub ?s 24 = ?s - 24" using s by simp
      ultimately show ?thesis
        unfolding ma_alloc_root_def Let_def n_def [symmetric] before_def [symmetric] Nil list.case Some option.case align_header by simp
    qed
  qed
qed

section \<open>Giving everything back\<close>

lemma apart_distinct: "apart (map block_area bs) \<Longrightarrow> \<forall>b \<in> set bs. block_ok b \<Longrightarrow> distinct (map um_addr bs)"
proof (induction bs)
  case (Cons b bs)
  have "um_addr b \<noteq> um_addr c" if "c \<in> set bs" for c
  proof
    assume e: "um_addr b = um_addr c"
    have "um_addr b \<in> block_area b" "um_addr c \<in> block_area c" using Cons.prems(2) that by (auto simp: block_area_def area_def block_ok_def)
    then show False using Cons.prems(1) that e by auto
  qed
  then show ?case using Cons by auto
qed simp

lemma free_inv:
  assumes inv: "root_inv root live"
  shows "\<exists>freed r. ma_free_root root keep = Ok (freed, r) \<and> root_inv r [] \<and> distinct freed
    \<and> set freed \<union> um_addr ` set (blocks_of r) = um_addr ` set (blocks_of root) \<and> set freed \<inter> um_addr ` set (blocks_of r) = {}
    \<and> um_addr ` set (blocks_of r) = (if keep then set_option (mr_pre_alloc root) else {})"
proof -
  have d: "distinct (map um_addr (blocks_of root))" using inv by (intro apart_distinct) (auto simp: root_inv_def)
  show ?thesis
  proof (cases "if keep then mr_pre_alloc root else None")
    case None
    then have "ma_free_root root keep = Ok (map um_addr (blocks_of root), root\<lparr>mr_used := [], mr_free := [], mr_pre_alloc := None\<rparr>)"
      unfolding ma_free_root_def by (simp add: blocks_of_def)
    moreover have "set_option (mr_pre_alloc root) = {} \<or> \<not> keep" using None by (auto split: if_splits)
    ultimately show ?thesis using d by (auto simp: root_inv_def blocks_of_def)
  next
    case (Some a)
    then have keep: "keep" "mr_pre_alloc root = Some a" by (auto split: if_splits)
    then have a: "a \<in> um_addr ` set (blocks_of root)" using inv by (simp add: root_inv_def)
    then obtain b where b: "find (\<lambda>b. um_addr b = a) (blocks_of root) = Some b" "b \<in> set (blocks_of root)" "um_addr b = a"
      by (cases "find (\<lambda>b. um_addr b = a) (blocks_of root)") (auto simp: find_None_iff find_Some_iff)
    let ?r = "root\<lparr>mr_used := [], mr_free := [b\<lparr>um_left := um_size b - 24\<rparr>], mr_pre_alloc := Some a\<rparr>"
    let ?f = "filter (\<lambda>x. Some x \<noteq> Some a) (map um_addr (blocks_of root))"
    have ok: "block_ok b" using b(2) inv by (simp add: root_inv_def)
    then have "size_sub (um_size b) 24 = um_size b - 24" "block_ok (b\<lparr>um_left := um_size b - 24\<rparr>)" by (auto simp: block_ok_def)
    then have "ma_free_root root keep = Ok (?f, ?r)" "root_inv ?r []"
      using keep b by (simp_all add: ma_free_root_def blocks_of_def align_header root_inv_def)
    moreover have "um_addr ` set (blocks_of ?r) = {a}" using b(3) by (simp add: blocks_of_def)
    moreover have "distinct ?f" using d by (rule distinct_filter)
    moreover have "set ?f = um_addr ` set (blocks_of root) - {a}" by auto
    ultimately show ?thesis using a keep by (intro exI [of _ ?f] exI [of _ ?r]) auto
  qed
qed

lemma init_inv:
  assumes "pre_alloc_size + 24 < 2 ^ 64"
  shows "root_inv (ma_init_alloc_root alloc block_size pre_alloc_size) []"
  using assms by (auto simp: ma_init_alloc_root_def root_inv_def blocks_of_def block_ok_def align_header Let_def split: option.split)

section \<open>Several pieces\<close>

lemma multi_total: "sum_list (map ALIGN_SIZE ns) + t < 2 ^ 64 \<Longrightarrow> fold (\<lambda>n tot. size_add tot (ALIGN_SIZE n)) ns t = t + sum_list (map ALIGN_SIZE ns)"
  by (induction ns arbitrary: t) simp_all

lemma pieces_length: "length (pieces a ns) = length ns"
  by (induction a ns rule: pieces.induct) simp_all

lemma pieces_area:
  "\<forall>n \<in> set ns. n < 2 ^ 62 \<Longrightarrow> apart (map (\<lambda>(p, n). area p n) (zip (pieces a ns) ns))
     \<and> (\<forall>(p, n) \<in> set (zip (pieces a ns) ns). a \<le> p \<and> p + n \<le> a + sum_list (map ALIGN_SIZE ns) \<and> (p - a) mod 8 = 0)"
proof (induction a ns rule: pieces.induct)
  case (2 a n ns)
  have n: "n \<le> ALIGN_SIZE n" "ALIGN_SIZE n mod 8 = 0" using 2(2) align_ok [of n] by auto
  have ih: "apart (map (\<lambda>(p, n). area p n) (zip (pieces (a + ALIGN_SIZE n) ns) ns))"
    "\<And>p m. (p, m) \<in> set (zip (pieces (a + ALIGN_SIZE n) ns) ns) \<Longrightarrow>
       a + ALIGN_SIZE n \<le> p \<and> p + m \<le> a + ALIGN_SIZE n + sum_list (map ALIGN_SIZE ns) \<and> (p - (a + ALIGN_SIZE n)) mod 8 = 0"
    using 2 by auto
  have "(p - a) mod 8 = 0" if "a + ALIGN_SIZE n \<le> p" "(p - (a + ALIGN_SIZE n)) mod 8 = 0" for p
  proof -
    have "p - a = (p - (a + ALIGN_SIZE n)) + ALIGN_SIZE n" using that(1) by simp
    then show ?thesis using that(2) n(2) by presburger
  qed
  moreover have "area a n \<inter> area p m = {}" if "(p, m) \<in> set (zip (pieces (a + ALIGN_SIZE n) ns) ns)" for p m
    using ih(2) [OF that] n(1) by (auto simp: area_def)
  ultimately show ?case using ih n(1) by fastforce
qed simp

lemma strdup_inv:
  assumes "root_inv root live" "length str < 2 ^ 61" "alloc_fresh alloc root"
  shows "case ma_strdup_root alloc root str of (Some (p, bs), r) \<Rightarrow> bs = str @ [0] \<and> root_inv r ((p, length bs) # live)
     | (None, r) \<Rightarrow> root_inv r live"
    and "case ma_memdup_root alloc root str of (Some (p, bs), r) \<Rightarrow> bs = str \<and> root_inv r ((p, length bs) # live)
     | (None, r) \<Rightarrow> root_inv r live"
  using alloc_inv [OF assms(1) _ assms(3), of "length str + 1"] alloc_inv [OF assms(1) _ assms(3), of "length str"] assms(2)
  by (auto simp: ma_strdup_root_def ma_memdup_root_def split: prod.splits option.splits)

section \<open>Properties\<close>

text \<open>
  A piece cut from a root whose \<open>malloc\<close> returns fresh memory lies in a block of the root and
  shares no byte with its header or with a piece handed out before; it is refused only when
  \<open>malloc\<close> refused a block. The size is below \<open>2 ^ 62\<close>, see \<open>alloc_root_wraps\<close>.
\<close>
theorem alloc_root_safe:
  assumes "root_inv root live" "m < 2 ^ 62" "alloc_fresh alloc root"
  shows "case ma_alloc_root alloc root m of (Some p, r) \<Rightarrow> root_inv r ((p, m) # live)
     | (None, r) \<Rightarrow> root_inv r live \<and> (\<exists>n \<ge> m. alloc n = None)"
  by (rule alloc_inv [OF assms])

text \<open>
  Freeing a root gives back every block exactly once, or every block but the preallocated one,
  which is kept on request and becomes the only free block.
\<close>
theorem free_root_complete:
  assumes "root_inv root live"
  shows "\<exists>freed r. ma_free_root root keep = Ok (freed, r) \<and> root_inv r [] \<and> distinct freed
    \<and> set freed \<union> um_addr ` set (blocks_of r) = um_addr ` set (blocks_of root) \<and> set freed \<inter> um_addr ` set (blocks_of r) = {}
    \<and> um_addr ` set (blocks_of r) = (if keep then set_option (mr_pre_alloc root) else {})"
  by (rule free_inv [OF assms])

text \<open>
  The pieces of one \<open>ma_multi_malloc\<close> are aligned, lie one behind the other in the block, and do
  not overlap, when their sizes do not add up to more than \<open>size_t\<close> holds.
\<close>
theorem multi_malloc_pieces:
  assumes "ma_multi_malloc alloc ns = Some (start, ps)" "\<forall>n \<in> set ns. n < 2 ^ 62" "sum_list (map ALIGN_SIZE ns) < 2 ^ 64"
  shows "alloc (sum_list (map ALIGN_SIZE ns)) = Some start \<and> length ps = length ns \<and> apart (map (\<lambda>(p, n). area p n) (zip ps ns))
    \<and> (\<forall>(p, n) \<in> set (zip ps ns). start \<le> p \<and> p + n \<le> start + sum_list (map ALIGN_SIZE ns) \<and> (p - start) mod 8 = 0)"
proof -
  have t: "fold (\<lambda>n tot. size_add tot (ALIGN_SIZE n)) ns 0 = sum_list (map ALIGN_SIZE ns)" using multi_total [of ns 0] assms(3) by simp
  have "alloc (sum_list (map ALIGN_SIZE ns)) = Some start" "ps = pieces start ns" using assms(1) unfolding ma_multi_malloc_def t by auto
  then show ?thesis using pieces_area [OF assms(2), of start] by (simp add: pieces_length)
qed

definition small_root :: mem_root where
  "small_root = ma_init_alloc_root (\<lambda>_. Some 1000) 512 100"

lemma small_root_eval: "small_root = \<lparr>mr_free = [\<lparr>um_addr = 1000, um_left = 100, um_size = 124\<rparr>], mr_used = [], mr_pre_alloc = Some 1000,
    mr_min_malloc = 32, mr_block_size = 488, mr_block_num = 4, mr_first_block_usage = 0\<rparr>"
  by (simp add: small_root_def ma_init_alloc_root_def sizeof_used_mem_def MALLOC_OVERHEAD_def ALIGN_SIZE_def size_add_def Let_def)

lemma small_root_inv: "root_inv small_root []"
  unfolding small_root_def by (rule init_inv) simp

text \<open>
  The rounding of the size is not checked for overflow: a request for \<open>2 ^ 64 - 1\<close> bytes is
  rounded to nothing and answered with a place in the free block.
\<close>
theorem alloc_root_wraps:
  "fst (ma_alloc_root alloc small_root (2 ^ 64 - 1)) = Some 1024 \<and> mr_free (snd (ma_alloc_root alloc small_root (2 ^ 64 - 1))) = mr_free small_root"
  by (simp add: small_root_eval ma_alloc_root_def retire_first_def take_piece_def ALIGN_SIZE_def size_add_def Let_def)

theorem alloc_root_safe_witness:
  "\<exists>p r. ma_alloc_root (\<lambda>_. None) small_root 50 = (Some p, r) \<and> root_inv r [(p, 50)]"
proof -
  have "alloc_fresh (\<lambda>_. None) small_root" by (simp add: alloc_fresh_def)
  moreover have "fst (ma_alloc_root (\<lambda>_. None) small_root 50) = Some 1024"
    by (simp add: small_root_eval ma_alloc_root_def retire_first_def take_piece_def ALIGN_SIZE_def size_add_def Let_def)
  ultimately show ?thesis using alloc_root_safe [OF small_root_inv, of 50 "\<lambda>_. None"] by (auto split: prod.splits)
qed

theorem free_root_complete_witness:
  "\<exists>freed r. ma_free_root small_root False = Ok (freed, r) \<and> root_inv r [] \<and> set freed = {1000}"
  using free_root_complete [OF small_root_inv, of False] by (auto simp: small_root_eval blocks_of_def)

theorem multi_malloc_pieces_witness:
  "ma_multi_malloc (\<lambda>_. Some 64) [3, 9] = Some (64, [64, 72]) \<and> apart (map (\<lambda>(p, n). area p n) (zip [64, 72] [3, 9]))"
proof -
  have a: "ALIGN_SIZE 3 = 8" "ALIGN_SIZE 9 = 16" by (simp_all add: ALIGN_SIZE_def size_add_def)
  have m: "ma_multi_malloc (\<lambda>_. Some 64) [3, 9] = Some (64, [64, 72])" by (simp add: ma_multi_malloc_def a)
  then show ?thesis using multi_malloc_pieces [OF m] by (simp add: a)
qed

end
