(* ===== verification/Number_Text.thy ===== *)
theory Number_Text
  imports Prelude
begin

text \<open>
  Numbers as text (\<^verbatim>\<open>ma_ll2str.c\<close>): the digits of a \<open>long long\<close> in a base from 2 to 36, stored
  from a place of a buffer on. \<open>long\<close> has 32 bits, so larger values are first divided as
  64-bit numbers. The digits are collected in a local buffer of 64 bytes before its final zero.
\<close>

section \<open>Model\<close>

definition LONG_MAX :: nat where "LONG_MAX = 2 ^ 31 - 1"

definition dig_vec :: bytes where "dig_vec = ascii ''0123456789ABCDEFGHIJKLMNOPQRSTUVWXYZ''"

text \<open>One more digit in front; \<open>UB\<close> before the start of the local buffer.\<close>

definition push_digit :: "nat \<Rightarrow> bytes \<Rightarrow> (unit, bytes) res" where
  "push_digit d acc = (if length acc < 64 \<and> d < length dig_vec then Ok (dig_vec ! d # acc) else UB)"

text \<open>The bases below 2 are refused before; the conditions on \<open>radix\<close> make the loops end for every argument.\<close>

function long_long_loop :: "nat \<Rightarrow> nat \<Rightarrow> bytes \<Rightarrow> (unit, nat \<times> bytes) res" where
  "long_long_loop radix val acc =
     (if LONG_MAX < val \<and> 2 \<le> radix
      then rbind (push_digit (val - val div radix * radix) acc) (\<lambda>acc. long_long_loop radix (val div radix) acc)
      else Ok (val, acc))"
  by pat_completeness auto
termination by (relation "measure (\<lambda>(radix, val, acc). val)") auto

function long_loop :: "nat \<Rightarrow> nat \<Rightarrow> bytes \<Rightarrow> (unit, bytes) res" where
  "long_loop radix val acc =
     (if val \<noteq> 0 \<and> 2 \<le> radix
      then rbind (push_digit (val - val div radix * radix) acc) (\<lambda>acc. long_loop radix (val div radix) acc)
      else Ok acc)"
  by pat_completeness auto
termination by (relation "measure (\<lambda>(radix, val, acc). val)") auto

declare long_long_loop.simps [simp del] long_loop.simps [simp del]

text \<open>The result is the place of the final zero, or nothing for a wrong base.\<close>

definition ma_ll2str :: "u64 \<Rightarrow> bytes \<Rightarrow> nat \<Rightarrow> int \<Rightarrow> (unit, bytes \<times> nat option) res" where
  "ma_ll2str val buf dst radix =
     (if radix < 0 \<and> (radix < - 36 \<or> - 2 < radix) \<or> 0 \<le> radix \<and> (36 < radix \<or> radix < 2) then Ok (buf, None)
      else let neg = radix < 0 \<and> val <s 0; r = nat \<bar>radix\<bar>
           in rbind (if neg then rmap (\<lambda>b. (b, dst + 1, - val)) (store1 buf dst 0x2D) else Ok (buf, dst, val)) (\<lambda>(buf, dst, val).
              if val = 0 then rbind (store1 buf dst 0x30) (\<lambda>b. rmap (\<lambda>b. (b, Some (dst + 1))) (store1 b (dst + 1) 0))
              else rbind (long_long_loop r (unat val) []) (\<lambda>(long_val, acc). rbind (long_loop r long_val acc) (\<lambda>acc.
                   rmap (\<lambda>b. (b, Some (dst + length acc))) (store_bytes buf dst (acc @ [0]))))))"

definition ll_char_val :: "u8 \<Rightarrow> nat" where
  "ll_char_val x = (if 0x30 \<le> x \<and> x \<le> 0x39 then unat x - 0x30
     else if 0x41 \<le> x \<and> x \<le> 0x5A then unat x - 0x41 + 10
     else if 0x61 \<le> x \<and> x \<le> 0x7A then unat x - 0x61 + 10 else 0x7F)"

section \<open>The digits of a number\<close>

fun digits :: "nat \<Rightarrow> nat \<Rightarrow> bytes" where
  "digits r n = (if n = 0 \<or> r < 2 then [] else digits r (n div r) @ [dig_vec ! (n mod r)])"

declare digits.simps [simp del]

lemma digits_0 [simp]: "digits r 0 = []"
  by (simp add: digits.simps)

definition read_digits :: "nat \<Rightarrow> bytes \<Rightarrow> nat" where
  "read_digits r bs = foldl (\<lambda>a b. a * r + ll_char_val b) 0 bs"

lemma dig_vec_length: "length dig_vec = 36"
  by (simp add: dig_vec_def ascii_def)

lemma digit_value: "d < 36 \<Longrightarrow> ll_char_val (dig_vec ! d) = d \<and> dig_vec ! d \<noteq> 0 \<and> dig_vec ! d \<noteq> 0x2D"
proof -
  assume "d < 36"
  then have "d \<in> set [0..<36]" by simp
  moreover have "list_all (\<lambda>d. ll_char_val (dig_vec ! d) = d \<and> dig_vec ! d \<noteq> 0 \<and> dig_vec ! d \<noteq> 0x2D) [0..<36]" by code_simp
  ultimately show ?thesis unfolding list_all_iff by (rule bspec [rotated])
qed

lemma digits_value: "2 \<le> r \<Longrightarrow> r \<le> 36 \<Longrightarrow> read_digits r (digits r n) = n"
proof (induction r n rule: digits.induct)
  case (1 r n)
  show ?case
  proof (cases "n = 0")
    case True
    then show ?thesis by (simp add: read_digits_def)
  next
    case False
    have "n mod r < r" using 1(2) by (intro mod_less_divisor) simp
    then have "n mod r < 36" using 1(3) by simp
    then have "ll_char_val (dig_vec ! (n mod r)) = n mod r" using digit_value by blast
    moreover have "read_digits r (digits r (n div r)) = n div r" using 1 False by simp
    ultimately show ?thesis using False 1(2) by (simp add: digits.simps [of r n] read_digits_def)
  qed
qed

lemma digits_length: "2 \<le> r \<Longrightarrow> n < 2 ^ k \<Longrightarrow> length (digits r n) \<le> k"
proof (induction r n arbitrary: k rule: digits.induct)
  case (1 r n)
  show ?case
  proof (cases "n = 0")
    case True
    then show ?thesis by simp
  next
    case False
    then obtain j where k: "k = Suc j" using 1(3) by (cases k) auto
    have "n div r \<le> n div 2" using 1(2) by (simp add: div_le_mono2)
    also have "\<dots> < 2 ^ j" using 1(3) k by simp
    finally have "length (digits r (n div r)) \<le> j" using 1(1) False 1(2) by simp
    then show ?thesis using False 1(2) k by (simp add: digits.simps [of r n])
  qed
qed

lemma push_digit_mod: "2 \<le> r \<Longrightarrow> r \<le> 36 \<Longrightarrow> length acc < 64 \<Longrightarrow> push_digit (n - n div r * r) acc = Ok (dig_vec ! (n mod r) # acc)"
proof -
  assume r: "2 \<le> r" "r \<le> 36" "length acc < 64"
  have "n - n div r * r = n mod r" by (simp add: minus_div_mult_eq_mod)
  moreover have "n mod r < r" using r(1) by (intro mod_less_divisor) simp
  then have "n mod r < 36" using r(2) by simp
  ultimately show ?thesis using r(3) by (simp add: push_digit_def dig_vec_length)
qed

lemma long_loop_digits:
  assumes "2 \<le> r" "r \<le> 36" "length (digits r n) + length acc \<le> 64"
  shows "long_loop r n acc = Ok (digits r n @ acc)"
  using assms
proof (induction r n acc rule: long_loop.induct)
  case (1 r n acc)
  show ?case
  proof (cases "n = 0")
    case True
    then show ?thesis by (simp add: long_loop.simps)
  next
    case False
    have d: "digits r n = digits r (n div r) @ [dig_vec ! (n mod r)]" using False 1(2) by (simp add: digits.simps [of r n])
    then have l: "length acc < 64" using 1(4) by simp
    have "long_loop r (n div r) (dig_vec ! (n mod r) # acc) = Ok (digits r (n div r) @ dig_vec ! (n mod r) # acc)"
      by (rule 1(1) [OF _ push_digit_mod]) (use False 1 l d in auto)
    then show ?thesis using False 1(2,3) d l by (subst long_loop.simps) (simp add: push_digit_mod)
  qed
qed

text \<open>The first loop leaves a number that fits a \<open>long\<close> and the digits behind it.\<close>

lemma both_loops_digits:
  assumes "2 \<le> r" "r \<le> 36" "length (digits r n) + length acc \<le> 64"
  shows "\<exists>m bs. long_long_loop r n acc = Ok (m, bs) \<and> m \<le> LONG_MAX \<and> long_loop r m bs = Ok (digits r n @ acc)"
  using assms
proof (induction r n acc rule: long_long_loop.induct)
  case (1 r n acc)
  show ?case
  proof (cases "LONG_MAX < n")
    case False
    then show ?thesis using long_loop_digits [OF 1(2,3,4)] by (simp add: long_long_loop.simps [of r n])
  next
    case True
    have d: "digits r n = digits r (n div r) @ [dig_vec ! (n mod r)]" using True 1(2) by (simp add: digits.simps [of r n])
    then have l: "length acc < 64" using 1(4) by simp
    have "\<exists>m bs. long_long_loop r (n div r) (dig_vec ! (n mod r) # acc) = Ok (m, bs) \<and> m \<le> LONG_MAX
        \<and> long_loop r m bs = Ok (digits r (n div r) @ dig_vec ! (n mod r) # acc)"
      by (rule 1(1) [OF _ push_digit_mod]) (use True 1 l d in auto)
    then show ?thesis using True 1(2,3) d l by (subst long_long_loop.simps) (simp add: push_digit_mod)
  qed
qed

lemma sint_split: "sint (v :: u64) = int (unat v) - (if v <s 0 then 2 ^ 64 else 0)"
proof -
  have "take_bit 64 (uint v) = uint v" using uint_lt2p [of v] by (intro take_bit_int_eq_self) simp_all
  then have s: "sint v = uint v - 2 ^ 64 * of_bool (bit (uint v) 63)"
    by (simp add: sint_uint signed_take_bit_eq_take_bit_minus)
  have b: "uint v < 2 ^ 64" "0 \<le> uint v" using uint_lt2p [of v] by simp_all
  have u: "int (unat v) = uint v" by simp
  have n: "v <s 0 \<longleftrightarrow> sint v < 0" by (simp add: word_sless_alt)
  show ?thesis unfolding u n s using b by (cases "bit (uint v) 63") simp_all
qed

lemma negated: "(v :: u64) <s 0 \<Longrightarrow> int (unat (- v)) = - sint v \<and> - v \<noteq> 0"
proof -
  assume n: "v <s 0"
  then have "v \<noteq> 0" by auto
  then have "uint v \<noteq> 0" by (simp add: uint_0_iff)
  moreover have "uint v mod 2 ^ 64 = uint v" using uint_lt2p [of v] by (intro mod_pos_pos_trivial) simp_all
  ultimately have "uint (- v) = 2 ^ 64 - uint v" by (simp add: uint_word_ariths(4) zmod_zminus1_eq_if)
  moreover have "int (unat (- v)) = uint (- v)" "int (unat v) = uint v" by simp_all
  moreover have "- v \<noteq> 0" using \<open>v \<noteq> 0\<close> by simp
  moreover have "sint v = int (unat v) - 2 ^ 64" unfolding sint_split using n by (simp only: if_True)
  ultimately show "int (unat (- v)) = - sint v \<and> - v \<noteq> 0" by linarith
qed

text \<open>The text of a number: signed for a negative base.\<close>

definition ll_text :: "u64 \<Rightarrow> int \<Rightarrow> bytes" where
  "ll_text val radix =
     (let neg = radix < 0 \<and> val <s 0; v = unat (if neg then - val else val)
      in (if neg then [0x2D] else []) @ (if v = 0 then [0x30] else digits (nat \<bar>radix\<bar>) v))"

definition read_ll :: "int \<Rightarrow> bytes \<Rightarrow> int" where
  "read_ll radix bs = (case bs of [] \<Rightarrow> 0
     | b # r \<Rightarrow> if b = 0x2D then - int (read_digits (nat \<bar>radix\<bar>) r) else int (read_digits (nat \<bar>radix\<bar>) bs))"

lemma digits_no_minus: "2 \<le> r \<Longrightarrow> r \<le> 36 \<Longrightarrow> b \<in> set (digits r n) \<Longrightarrow> b \<noteq> 0x2D \<and> b \<noteq> 0"
proof (induction r n rule: digits.induct)
  case (1 r n)
  have "n mod r < r" using 1(2) by (intro mod_less_divisor) simp
  then have "n mod r < 36" using 1(3) by simp
  then show ?case using 1 digit_value [of "n mod r"] by (cases "n = 0") (auto simp: digits.simps [of r n])
qed

lemma digits_Nil: "2 \<le> r \<Longrightarrow> digits r n = [] \<longleftrightarrow> n = 0"
  by (simp add: digits.simps [of r n])

lemma ll_text_reads:
  assumes "2 \<le> \<bar>radix\<bar>" "\<bar>radix\<bar> \<le> 36"
  shows "read_ll radix (ll_text val radix) = (if radix < 0 then sint val else int (unat val))" "length (ll_text val radix) \<le> 65" "0 \<notin> set (ll_text val radix)"
proof -
  let ?r = "nat \<bar>radix\<bar>"
  have r: "2 \<le> ?r" "?r \<le> 36" using assms by simp_all
  have pos: "read_ll radix (if unat w = 0 then [0x30] else digits ?r (unat w)) = int (unat w)" for w :: u64
  proof (cases "unat w = 0")
    case True
    then show ?thesis by (simp add: read_ll_def read_digits_def ll_char_val_def)
  next
    case False
    then obtain b bs where b: "digits ?r (unat w) = b # bs" using digits_Nil [OF r(1)] by (cases "digits ?r (unat w)") auto
    then have "b \<noteq> 0x2D" using digits_no_minus [OF r, of b "unat w"] by simp
    then show ?thesis using digits_value [OF r, of "unat w"] b False by (simp add: read_ll_def)
  qed
  show "read_ll radix (ll_text val radix) = (if radix < 0 then sint val else int (unat val))"
  proof (cases "radix < 0 \<and> val <s 0")
    case True
    then have "unat (- val) \<noteq> 0" "int (unat (- val)) = - sint val" using negated [of val] by (simp_all add: unat_eq_0)
    then show ?thesis using True digits_value [OF r, of "unat (- val)"] by (simp add: ll_text_def read_ll_def)
  next
    case False
    then have "ll_text val radix = (if unat val = 0 then [0x30] else digits ?r (unat val))" by (auto simp: ll_text_def Let_def)
    then show ?thesis using pos [of val] False sint_split [of val] by auto
  qed
  have "unat w < 2 ^ 64" for w :: u64 using unsigned_less [of w] by simp
  then have "length (digits ?r (unat w)) \<le> 64" for w :: u64 by (intro digits_length [OF r(1)])
  from this [of val] this [of "- val"] show "length (ll_text val radix) \<le> 65" by (auto simp: ll_text_def Let_def)
  have "0 \<notin> set (digits ?r n)" for n using digits_no_minus [OF r, of 0 n] by blast
  then show "0 \<notin> set (ll_text val radix)" by (simp add: ll_text_def Let_def)
qed

lemma ll2str_ok:
  assumes "2 \<le> \<bar>radix\<bar>" "\<bar>radix\<bar> \<le> 36" "length X = length (ll_text val radix) + 1"
  shows "ma_ll2str val (A @ X @ B) (length A) radix = Ok (A @ ll_text val radix @ [0] @ B, Some (length A + length (ll_text val radix)))"
proof -
  let ?r = "nat \<bar>radix\<bar>"
  have r: "2 \<le> ?r" "?r \<le> 36" using assms(1,2) by simp_all
  have ok: "\<not> (radix < 0 \<and> (radix < - 36 \<or> - 2 < radix) \<or> 0 \<le> radix \<and> (36 < radix \<or> radix < 2))" using assms(1,2) by auto
  define tail where "tail = (\<lambda>(buf, dst, val :: u64).
      if val = 0 then rbind (store1 buf dst 0x30) (\<lambda>b. rmap (\<lambda>b. (b, Some (dst + 1))) (store1 b (dst + 1) 0))
      else rbind (long_long_loop ?r (unat val) []) (\<lambda>(long_val, acc). rbind (long_loop ?r long_val acc) (\<lambda>acc.
           rmap (\<lambda>b. (b, Some (dst + length acc))) (store_bytes buf dst (acc @ [0])))))"
  have tail: "tail (C @ Y @ B, length C, w) = Ok (C @ t @ [0] @ B, Some (length C + length t))"
    if t: "t = (if unat w = 0 then [0x30] else digits ?r (unat w))" and Y: "length Y = length t + 1" for C Y w t
  proof (cases "w = 0")
    case True
    then obtain y z where "Y = [y, z]" using t Y by (auto simp: length_Suc_conv)
    then show ?thesis using True t by (simp add: tail_def store1_def list_update_append)
  next
    case False
    then have t1: "t = digits ?r (unat w)" using t by (simp add: unat_eq_0)
    have "unat w < 2 ^ 64" using unsigned_less [of w] by simp
    then have "length (digits ?r (unat w)) \<le> 64" by (rule digits_length [OF r(1)])
    then obtain m bs where "long_long_loop ?r (unat w) [] = Ok (m, bs)" "long_loop ?r m bs = Ok t"
      using both_loops_digits [OF r, of "unat w" "[]"] t1 by auto
    moreover have "store_bytes (C @ Y @ B) (length C) (t @ [0]) = (Ok (C @ (t @ [0]) @ B) :: (unit, bytes) res)"
      using store_bytes_mid [of "length C" C "t @ [0]" Y B] Y by simp
    ultimately show ?thesis using False by (simp add: tail_def)
  qed
  have run: "ma_ll2str val (A @ X @ B) (length A) radix =
      rbind (if radix < 0 \<and> val <s 0 then rmap (\<lambda>b. (b, length A + 1, - val)) (store1 (A @ X @ B) (length A) 0x2D) else Ok (A @ X @ B, length A, val)) tail"
    using ok by (simp only: ma_ll2str_def if_False Let_def tail_def)
  show ?thesis
  proof (cases "radix < 0 \<and> val <s 0")
    case True
    let ?t = "if unat (- val) = 0 then [0x30] else digits ?r (unat (- val))"
    have out: "ll_text val radix = 0x2D # ?t" using True by (simp add: ll_text_def)
    then obtain x Y where X: "X = x # Y" "length Y = length ?t + 1" using assms(3) by (cases X) auto
    have "store1 (A @ X @ B) (length A) 0x2D = (Ok ((A @ [0x2D]) @ Y @ B) :: (unit, bytes) res)" by (simp add: store1_def X(1))
    then show ?thesis using tail [OF refl X(2), of "A @ [0x2D]"] True run out by simp
  next
    case False
    then have out: "ll_text val radix = (if unat val = 0 then [0x30] else digits ?r (unat val))" by (auto simp: ll_text_def Let_def)
    have "ma_ll2str val (A @ X @ B) (length A) radix = tail (A @ X @ B, length A, val)" unfolding run if_not_P [OF False] by simp
    then show ?thesis using tail [OF out assms(3), of A] by (simp only:)
  qed
qed

text \<open>
  For every value and every base from 2 to 36, signed when the base is negative, \<open>ma_ll2str\<close>
  writes the text of the number and a zero, in at most 66 bytes, touches nothing else, and the
  text reads back as the number.
\<close>
theorem ll2str_roundtrip:
  assumes "2 \<le> \<bar>radix\<bar>" "\<bar>radix\<bar> \<le> 36" "length X = length (ll_text val radix) + 1"
  shows "ma_ll2str val (A @ X @ B) (length A) radix = Ok (A @ ll_text val radix @ [0] @ B, Some (length A + length (ll_text val radix)))
    \<and> read_ll radix (ll_text val radix) = (if radix < 0 then sint val else int (unat val)) \<and> length (ll_text val radix) \<le> 65 \<and> 0 \<notin> set (ll_text val radix)"
  using ll2str_ok [OF assms] ll_text_reads [OF assms(1,2)] by simp

theorem ll2str_roundtrip_witness:
  "ma_ll2str (- 255) ([1] @ [0, 0, 0, 0] @ [9]) (length [1 :: u8]) (- 16) = Ok ([1] @ ll_text (- 255) (- 16) @ [0] @ [9], Some (1 + length (ll_text (- 255) (- 16))))
    \<and> read_ll (- 16) (ll_text (- 255) (- 16)) = - 255"
proof -
  have "ll_text (- 255) (- 16) = [0x2D, 0x46, 0x46]" by code_simp
  then have l: "length [0, 0, 0, 0 :: u8] = length (ll_text (- 255) (- 16)) + 1" by simp
  have "sint (- 255 :: u64) = - 255" by simp
  then show ?thesis using ll2str_roundtrip [of "- 16", OF _ _ l, of "[1]" "[9]"] by simp
qed

end
