(* ===== verification/Linked_List.thy ===== *)
theory Linked_List
  imports Prelude
begin

text \<open>
  Doubly linked lists (\<^verbatim>\<open>ma_list.c\<close>), which hold the statements of a connection and the state
  of a session. The heap maps addresses to nodes; following \<open>NULL\<close> or a pointer to nothing is \<open>UB\<close>.
  The loops follow \<open>next\<close>, which may go round in circles, so they have a bound, with \<open>Err ()\<close> when it is used up;
  on a list any bound above its length is enough.
\<close>

section \<open>Model\<close>

record 'a list_node =
  ln_prev :: "nat option"
  ln_next :: "nat option"
  ln_data :: 'a

type_synonym 'a list_heap = "nat \<rightharpoonup> 'a list_node"

definition node_at :: "'a list_heap \<Rightarrow> nat \<Rightarrow> (unit, 'a list_node) res" where
  "node_at h p = (case h p of None \<Rightarrow> UB | Some n \<Rightarrow> Ok n)"

definition put_next :: "'a list_heap \<Rightarrow> nat \<Rightarrow> nat option \<Rightarrow> (unit, 'a list_heap) res" where
  "put_next h p q = rmap (\<lambda>n. h(p \<mapsto> n\<lparr>ln_next := q\<rparr>)) (node_at h p)"

definition put_prev :: "'a list_heap \<Rightarrow> nat \<Rightarrow> nat option \<Rightarrow> (unit, 'a list_heap) res" where
  "put_prev h p q = rmap (\<lambda>n. h(p \<mapsto> n\<lparr>ln_prev := q\<rparr>)) (node_at h p)"

definition list_add :: "'a list_heap \<Rightarrow> nat option \<Rightarrow> nat \<Rightarrow> (unit, 'a list_heap \<times> nat) res" where
  "list_add h root element =
     rbind (case root of
         Some r \<Rightarrow> rbind (node_at h r) (\<lambda>n.
           rbind (case ln_prev n of Some p \<Rightarrow> put_next h p (Some element) | None \<Rightarrow> Ok h) (\<lambda>h.
           rbind (node_at h r) (\<lambda>n. rbind (put_prev h element (ln_prev n)) (\<lambda>h. put_prev h r (Some element)))))
       | None \<Rightarrow> put_prev h element None) (\<lambda>h.
     rmap (\<lambda>h. (h, element)) (put_next h element root))"

definition list_delete :: "'a list_heap \<Rightarrow> nat option \<Rightarrow> nat \<Rightarrow> (unit, 'a list_heap \<times> nat option) res" where
  "list_delete h root element =
     rbind (node_at h element) (\<lambda>n.
     rbind (case ln_prev n of Some p \<Rightarrow> rmap (\<lambda>h. (h, root)) (put_next h p (ln_next n)) | None \<Rightarrow> Ok (h, ln_next n)) (\<lambda>(h, root).
     rbind (node_at h element) (\<lambda>n.
       case ln_next n of Some q \<Rightarrow> rmap (\<lambda>h. (h, root)) (put_prev h q (ln_prev n)) | None \<Rightarrow> Ok (h, root))))"

text \<open>The result are the data given to \<open>free\<close>, when asked for, and the heap without the nodes.\<close>

primrec list_free :: "nat \<Rightarrow> 'a list_heap \<Rightarrow> nat option \<Rightarrow> bool \<Rightarrow> (unit, 'a list \<times> 'a list_heap) res" where
  "list_free 0 h root free_data = (if root = None then Ok ([], h) else Err ())"
| "list_free (Suc fuel) h root free_data = (case root of None \<Rightarrow> Ok ([], h)
     | Some r \<Rightarrow> rbind (node_at h r) (\<lambda>n.
         rmap (\<lambda>(ds, h). (if free_data then ln_data n # ds else ds, h)) (list_free fuel (h(r := None)) (ln_next n) free_data)))"

text \<open>\<open>alloc\<close> is the answer of \<open>malloc\<close>; the links of a new node are indeterminate.\<close>

definition list_cons :: "nat option \<Rightarrow> nat option \<times> nat option \<Rightarrow> 'a list_heap \<Rightarrow> 'a \<Rightarrow> nat option \<Rightarrow> (unit, 'a list_heap \<times> nat option) res" where
  "list_cons alloc junk_links h d list = (case alloc of None \<Rightarrow> Ok (h, None)
     | Some a \<Rightarrow> rmap (\<lambda>(h, r). (h, Some r)) (list_add (h(a \<mapsto> \<lparr>ln_prev = fst junk_links, ln_next = snd junk_links, ln_data = d\<rparr>)) list a))"

primrec list_reverse_loop :: "nat \<Rightarrow> 'a list_heap \<Rightarrow> nat option \<Rightarrow> nat option \<Rightarrow> (unit, 'a list_heap \<times> nat option) res" where
  "list_reverse_loop 0 h lst root = (if root = None then Ok (h, lst) else Err ())"
| "list_reverse_loop (Suc fuel) h lst root = (case root of None \<Rightarrow> Ok (h, lst)
     | Some r \<Rightarrow> rbind (node_at h r) (\<lambda>n.
         list_reverse_loop fuel (h(r \<mapsto> n\<lparr>ln_next := ln_prev n, ln_prev := ln_next n\<rparr>)) (Some r) (ln_next n)))"

definition list_reverse :: "nat \<Rightarrow> 'a list_heap \<Rightarrow> nat option \<Rightarrow> (unit, 'a list_heap \<times> nat option) res" where
  "list_reverse fuel h root = list_reverse_loop fuel h root root"

primrec list_length_loop :: "nat \<Rightarrow> 'a list_heap \<Rightarrow> nat option \<Rightarrow> nat \<Rightarrow> (unit, nat) res" where
  "list_length_loop 0 h list count = (if list = None then Ok count else Err ())"
| "list_length_loop (Suc fuel) h list count = (case list of None \<Rightarrow> Ok count
     | Some r \<Rightarrow> rbind (node_at h r) (\<lambda>n. list_length_loop fuel h (ln_next n) (uint_add count 1)))"

definition list_length :: "nat \<Rightarrow> 'a list_heap \<Rightarrow> nat option \<Rightarrow> (unit, nat) res" where
  "list_length fuel h list = list_length_loop fuel h list 0"

text \<open>The action changes a state of its own and returns an error code, zero to go on.\<close>

primrec list_walk :: "nat \<Rightarrow> 'a list_heap \<Rightarrow> nat option \<Rightarrow> ('a \<Rightarrow> 's \<Rightarrow> int \<times> 's) \<Rightarrow> 's \<Rightarrow> (unit, int \<times> 's) res" where
  "list_walk 0 h list act s = (if list = None then Ok (0, s) else Err ())"
| "list_walk (Suc fuel) h list act s = (case list of None \<Rightarrow> Ok (0, s)
     | Some r \<Rightarrow> rbind (node_at h r) (\<lambda>n. case act (ln_data n) s of (e, s) \<Rightarrow>
         if e \<noteq> 0 then Ok (e, s) else list_walk fuel h (ln_next n) act s))"

section \<open>Segments\<close>

text \<open>The nodes \<open>xs\<close> are linked from \<open>r\<close> to \<open>q\<close>, with \<open>p\<close> before the first and \<open>e\<close> the last of them.\<close>

fun dseg :: "'a list_heap \<Rightarrow> nat option \<Rightarrow> nat option \<Rightarrow> nat list \<Rightarrow> nat option \<Rightarrow> nat option \<Rightarrow> bool" where
  "dseg h p r [] e q \<longleftrightarrow> r = q \<and> e = p"
| "dseg h p r (a # as) e q \<longleftrightarrow> r = Some a \<and> (case h a of None \<Rightarrow> False | Some n \<Rightarrow> ln_prev n = p \<and> dseg h (Some a) (ln_next n) as e q)"

definition is_list :: "'a list_heap \<Rightarrow> nat option \<Rightarrow> nat list \<Rightarrow> bool" where
  "is_list h root xs \<longleftrightarrow> distinct xs \<and> (\<exists>e. dseg h None root xs e None)"

definition data_of :: "'a list_heap \<Rightarrow> nat list \<Rightarrow> 'a list" where
  "data_of h xs = map (\<lambda>a. ln_data (the (h a))) xs"

lemma dseg_append: "dseg h p r (xs @ ys) e q \<longleftrightarrow> (\<exists>k m. dseg h p r xs k m \<and> dseg h k m ys e q)"
  by (induction xs arbitrary: p r) (auto split: option.splits)

lemma dseg_frame: "dseg h p r xs e q \<Longrightarrow> (\<And>a. a \<in> set xs \<Longrightarrow> h' a = h a) \<Longrightarrow> dseg h' p r xs e q"
  by (induction xs arbitrary: p r) (auto split: option.splits)

lemma dseg_snoc: "dseg h p r (xs @ [b]) e q \<longleftrightarrow> (\<exists>k n. dseg h p r xs k (Some b) \<and> h b = Some n \<and> ln_prev n = k \<and> ln_next n = q \<and> e = Some b)"
  by (auto simp: dseg_append split: option.splits)

lemma dseg_last: "dseg h p r xs e q \<Longrightarrow> e = (if xs = [] then p else Some (last xs))"
  by (induction xs arbitrary: p r) (auto split: option.splits)

lemma dseg_first: "dseg h p r xs e q \<Longrightarrow> r = (if xs = [] then q else Some (hd xs))"
  by (cases xs) auto

text \<open>Changing the two ends of a segment.\<close>

lemma dseg_put_next:
  assumes "dseg h p r (xs @ [b]) e q" "b \<notin> set xs"
  shows "\<exists>h'. put_next h b q' = Ok h' \<and> dseg h' p r (xs @ [b]) e q' \<and> (\<forall>a. a \<noteq> b \<longrightarrow> h' a = h a) \<and> (\<forall>a. map_option ln_data (h' a) = map_option ln_data (h a))"
proof -
  obtain k n where n: "dseg h p r xs k (Some b)" "h b = Some n" "ln_prev n = k" "ln_next n = q" "e = Some b" using assms(1) by (auto simp: dseg_snoc)
  have "dseg (h(b \<mapsto> n\<lparr>ln_next := q'\<rparr>)) p r xs k (Some b)" by (rule dseg_frame [OF n(1)]) (use assms(2) in auto)
  then show ?thesis using n by (auto simp: put_next_def node_at_def dseg_snoc)
qed

lemma dseg_put_prev:
  assumes "dseg h p r (c # xs) e q" "c \<notin> set xs"
  shows "\<exists>h'. put_prev h c p' = Ok h' \<and> dseg h' p' r (c # xs) e q \<and> (\<forall>a. a \<noteq> c \<longrightarrow> h' a = h a) \<and> (\<forall>a. map_option ln_data (h' a) = map_option ln_data (h a))"
proof -
  obtain n where n: "h c = Some n" "ln_prev n = p" "dseg h (Some c) (ln_next n) xs e q" "r = Some c" using assms(1) by (auto split: option.splits)
  have "dseg (h(c \<mapsto> n\<lparr>ln_prev := p'\<rparr>)) (Some c) (ln_next n) xs e q" by (rule dseg_frame [OF n(3)]) (use assms(2) in auto)
  then show ?thesis using n by (auto simp: put_prev_def node_at_def)
qed

text \<open>Reversing: every node swaps its links.\<close>

definition swap_links :: "nat set \<Rightarrow> 'a list_heap \<Rightarrow> 'a list_heap" where
  "swap_links S h = (\<lambda>a. if a \<in> S then map_option (\<lambda>n. n\<lparr>ln_next := ln_prev n, ln_prev := ln_next n\<rparr>) (h a) else h a)"

lemma dseg_swap: "dseg h p r xs e q \<Longrightarrow> set xs \<subseteq> S \<Longrightarrow> dseg (swap_links S h) q e (rev xs) r p"
proof (induction xs arbitrary: p r)
  case (Cons a xs)
  then obtain n where n: "h a = Some n" "ln_prev n = p" "dseg h (Some a) (ln_next n) xs e q" "r = Some a" by (auto split: option.splits)
  have "dseg (swap_links S h) q e (rev xs) (ln_next n) (Some a)" using Cons.IH [OF n(3)] Cons.prems(2) by simp
  then show ?case using n Cons.prems(2) by (auto simp: dseg_snoc swap_links_def)
qed simp

lemma dseg_root: "dseg h p r xs e q \<Longrightarrow> a \<in> set xs \<Longrightarrow> h a \<noteq> None"
  by (induction xs arbitrary: p r) (auto split: option.splits)

lemma node_keeps: "map_option ln_data (h' a) = map_option ln_data (h a) \<Longrightarrow> h a \<noteq> None \<Longrightarrow> h' a \<noteq> None \<and> ln_data (the (h' a)) = ln_data (the (h a))"
  by (cases "h a"; cases "h' a") auto

lemma data_of_same: "(\<And>a. a \<in> set xs \<Longrightarrow> map_option ln_data (h' a) = map_option ln_data (h a)) \<Longrightarrow> (\<And>a. a \<in> set xs \<Longrightarrow> h a \<noteq> None) \<Longrightarrow> data_of h' xs = data_of h xs"
  unfolding data_of_def by (intro map_cong refl) (metis node_keeps)

lemma put_next_ok: "h p = Some n \<Longrightarrow> put_next h p q = Ok (h(p \<mapsto> n\<lparr>ln_next := q\<rparr>))"
  by (simp add: put_next_def node_at_def)

lemma put_prev_ok: "h p = Some n \<Longrightarrow> put_prev h p q = Ok (h(p \<mapsto> n\<lparr>ln_prev := q\<rparr>))"
  by (simp add: put_prev_def node_at_def)

text \<open>An element goes before the node that is passed as the root, which may be in the middle of the list.\<close>

lemma list_add_ok:
  assumes l: "is_list h r0 (xs @ ys)" and ys: "ys \<noteq> [] \<or> xs = []" and a: "h a \<noteq> None" "a \<notin> set (xs @ ys)"
  shows "\<exists>h'. list_add h (case ys of [] \<Rightarrow> None | y # _ \<Rightarrow> Some y) a = Ok (h', a) \<and> is_list h' (if xs = [] then Some a else r0) (xs @ a # ys)
    \<and> (\<forall>b. map_option ln_data (h' b) = map_option ln_data (h b)) \<and> (\<forall>b. b \<notin> set (xs @ a # ys) \<longrightarrow> h' b = h b)"
proof -
  obtain e where d: "distinct (xs @ ys)" "dseg h None r0 (xs @ ys) e None" using l by (auto simp: is_list_def)
  obtain n where n: "h a = Some n" using a(1) by blast
  show ?thesis
  proof (cases ys)
    case Nil
    then have "xs = []" using ys by simp
    have "list_add h None a = Ok (h(a \<mapsto> n\<lparr>ln_prev := None, ln_next := None\<rparr>), a)" using n by (simp add: list_add_def put_prev_ok put_next_ok)
    then show ?thesis using Nil \<open>xs = []\<close> n by (auto simp: is_list_def)
  next
    case (Cons y zs)
    obtain k m where km: "dseg h None r0 xs k m" "dseg h k m (y # zs) e None" using d(2) Cons by (auto simp: dseg_append)
    obtain ny where y: "h y = Some ny" "ln_prev ny = k" "dseg h (Some y) (ln_next ny) zs e None" "m = Some y" using km(2) by (auto split: option.splits)
    have ne: "a \<noteq> y" "a \<notin> set xs" "a \<notin> set zs" "y \<notin> set xs" "y \<notin> set zs" "set xs \<inter> set zs = {}" using a(2) d(1) Cons by auto
    obtain h1 where h1: "(case k of Some p \<Rightarrow> put_next h p (Some a) | None \<Rightarrow> Ok h) = Ok h1" "dseg h1 None (if xs = [] then Some a else r0) xs k (Some a)"
        "\<And>b. b \<notin> set xs \<Longrightarrow> h1 b = h b" "\<And>b. map_option ln_data (h1 b) = map_option ln_data (h b)"
    proof (cases xs rule: rev_cases)
      case Nil
      then show ?thesis using that [of h] km(1) by simp
    next
      case (snoc us b)
      then have k: "k = Some b" using dseg_last [OF km(1)] by simp
      have bd: "b \<notin> set us" using d(1) snoc by simp
      obtain h' where "put_next h b (Some a) = Ok h'" "dseg h' None r0 (us @ [b]) k (Some a)" "\<forall>c. c \<noteq> b \<longrightarrow> h' c = h c"
          "\<forall>c. map_option ln_data (h' c) = map_option ln_data (h c)"
        using dseg_put_next [OF km(1) [unfolded snoc] bd] by blast
      then show ?thesis using that [of h'] k snoc by auto
    qed
    let ?h2 = "h1(a \<mapsto> n\<lparr>ln_prev := k\<rparr>)" and ?h3 = "h1(a \<mapsto> n\<lparr>ln_prev := k\<rparr>, y \<mapsto> ny\<lparr>ln_prev := Some a\<rparr>)"
    let ?h4 = "h1(a \<mapsto> n\<lparr>ln_prev := k, ln_next := Some y\<rparr>, y \<mapsto> ny\<lparr>ln_prev := Some a\<rparr>)"
    have at: "h1 a = Some n" "h1 y = Some ny" using h1(3) ne n y(1) by simp_all
    have "list_add h (Some y) a = rmap (\<lambda>h. (h, a)) (put_next ?h3 a (Some y))"
      using y(1,2) h1(1) at ne(1) by (simp add: list_add_def node_at_def put_prev_ok)
    also have "\<dots> = Ok (?h4, a)" using ne(1) by (simp add: put_next_ok fun_upd_twist)
    finally have run: "list_add h (Some y) a = Ok (?h4, a)" .
    have "dseg ?h4 None (if xs = [] then Some a else r0) xs k (Some a)" by (rule dseg_frame [OF h1(2)]) (use ne in auto)
    moreover have "dseg ?h4 (Some y) (ln_next ny) zs e None"
    proof (rule dseg_frame [OF y(3)])
      fix b assume "b \<in> set zs"
      then have "b \<notin> set xs" "b \<noteq> a" "b \<noteq> y" using ne by auto
      then show "?h4 b = h b" using h1(3) by simp
    qed
    ultimately have "dseg ?h4 None (if xs = [] then Some a else r0) (xs @ a # y # zs) e None"
      using ne(1) by (auto simp: dseg_append)
    then have "is_list ?h4 (if xs = [] then Some a else r0) (xs @ a # ys)" using Cons d(1) a(2) by (auto simp: is_list_def)
    moreover have "map_option ln_data (?h4 b) = map_option ln_data (h b)" for b using h1(4) [of b] n y(1) by (auto simp: at)
    moreover have "?h4 b = h b" if "b \<notin> set (xs @ a # ys)" for b using that h1(3) Cons by auto
    ultimately show ?thesis using run Cons by (intro exI [of _ ?h4]) simp
  qed
qed

lemma list_delete_ok:
  assumes l: "is_list h r0 (xs @ a # ys)"
  shows "\<exists>h'. list_delete h r0 a = Ok (h', if xs = [] then (case ys of [] \<Rightarrow> None | y # _ \<Rightarrow> Some y) else r0)
    \<and> is_list h' (if xs = [] then (case ys of [] \<Rightarrow> None | y # _ \<Rightarrow> Some y) else r0) (xs @ ys)
    \<and> (\<forall>b. map_option ln_data (h' b) = map_option ln_data (h b)) \<and> (\<forall>b. b \<notin> set (xs @ ys) \<longrightarrow> h' b = h b)"
proof -
  obtain e where d: "distinct (xs @ a # ys)" "dseg h None r0 (xs @ a # ys) e None" using l by (auto simp: is_list_def)
  obtain k m where km: "dseg h None r0 xs k m" "dseg h k m (a # ys) e None" using d(2) by (auto simp: dseg_append)
  obtain n where n: "h a = Some n" "ln_prev n = k" "dseg h (Some a) (ln_next n) ys e None" using km(2) by (auto split: option.splits)
  let ?r = "if xs = [] then (case ys of [] \<Rightarrow> None | y # _ \<Rightarrow> Some y) else r0"
  have nx: "ln_next n = (case ys of [] \<Rightarrow> None | y # _ \<Rightarrow> Some y)" using dseg_first [OF n(3)] by (cases ys) auto
  obtain h1 where h1: "(case k of Some p \<Rightarrow> rmap (\<lambda>h. (h, r0)) (put_next h p (ln_next n)) | None \<Rightarrow> Ok (h, ln_next n)) = Ok (h1, ?r)"
      "dseg h1 None ?r xs k (ln_next n)" "\<And>b. b \<notin> set xs \<Longrightarrow> h1 b = h b" "\<And>b. map_option ln_data (h1 b) = map_option ln_data (h b)"
  proof (cases xs rule: rev_cases)
    case Nil
    then show ?thesis using that [of h] km(1) nx by simp
  next
    case (snoc us b)
    then have k: "k = Some b" using dseg_last [OF km(1)] by simp
    have bd: "b \<notin> set us" using d(1) snoc by simp
    obtain h' where "put_next h b (ln_next n) = Ok h'" "dseg h' None r0 (us @ [b]) k (ln_next n)" "\<forall>c. c \<noteq> b \<longrightarrow> h' c = h c"
        "\<forall>c. map_option ln_data (h' c) = map_option ln_data (h c)"
      using dseg_put_next [OF km(1) [unfolded snoc] bd] by blast
    then show ?thesis using that [of h'] k snoc by auto
  qed
  have at: "h1 a = Some n" using h1(3) [of a] d(1) n(1) by simp
  have run: "list_delete h r0 a = (case ln_next n of Some q \<Rightarrow> rmap (\<lambda>h. (h, ?r)) (put_prev h1 q k) | None \<Rightarrow> Ok (h1, ?r))"
  proof -
    have "list_delete h r0 a = rbind (case k of Some p \<Rightarrow> rmap (\<lambda>h. (h, r0)) (put_next h p (ln_next n)) | None \<Rightarrow> Ok (h, ln_next n)) (\<lambda>(h, root).
        rbind (node_at h a) (\<lambda>n. case ln_next n of Some q \<Rightarrow> rmap (\<lambda>h. (h, root)) (put_prev h q (ln_prev n)) | None \<Rightarrow> Ok (h, root)))"
      by (simp add: list_delete_def node_at_def n(1,2))
    then show ?thesis unfolding h1(1) rbind.simps prod.case node_at_def at option.case n(2) .
  qed
  have d2: "dseg h1 (Some a) (ln_next n) ys e None" by (rule dseg_frame [OF n(3)]) (use h1(3) d(1) in auto)
  show ?thesis
  proof (cases ys)
    case Nil
    have "dseg h1 None ?r (xs @ ys) k None" using h1(2) Nil nx by (simp add: dseg_append)
    then have "is_list h1 ?r (xs @ ys)" using d(1) by (auto simp: is_list_def)
    then show ?thesis using run Nil nx h1(3,4) by (intro exI [of _ h1]) simp
  next
    case (Cons y zs)
    have yd: "y \<notin> set zs" using d(1) Cons by simp
    obtain h2 where h2: "put_prev h1 y k = Ok h2" "dseg h2 k (ln_next n) (y # zs) e None" "\<forall>c. c \<noteq> y \<longrightarrow> h2 c = h1 c"
        "\<forall>c. map_option ln_data (h2 c) = map_option ln_data (h1 c)"
      using dseg_put_prev [OF d2 [unfolded Cons] yd] by blast
    have "dseg h2 None ?r xs k (ln_next n)" by (rule dseg_frame [OF h1(2)]) (use h2(3) d(1) Cons in auto)
    then have "dseg h2 None ?r (xs @ ys) e None" using h2(2) Cons by (auto simp: dseg_append)
    then have "is_list h2 ?r (xs @ ys)" using d(1) by (auto simp: is_list_def)
    moreover have "list_delete h r0 a = Ok (h2, ?r)" using run nx Cons h2(1) by simp
    ultimately show ?thesis using h1(3,4) h2(3,4) Cons by (intro exI [of _ h2]) auto
  qed
qed

lemma list_reverse_ok:
  assumes "is_list h r xs" "length xs \<le> fuel"
  shows "\<exists>h'. list_reverse fuel h r = Ok (h', if xs = [] then None else Some (last xs)) \<and> is_list h' (if xs = [] then None else Some (last xs)) (rev xs)
    \<and> (\<forall>b. map_option ln_data (h' b) = map_option ln_data (h b))"
proof -
  obtain e where d: "distinct xs" "dseg h None r xs e None" using assms(1) by (auto simp: is_list_def)
  have loop: "list_reverse_loop fuel h l r = Ok (swap_links (set xs) h, if xs = [] then l else Some (last xs))"
    if "dseg h p r xs e None" "distinct xs" "length xs \<le> fuel" for fuel h l p r xs
    using that
  proof (induction fuel arbitrary: h l p r xs)
    case 0
    then show ?case by (simp add: swap_links_def)
  next
    case (Suc fuel)
    show ?case
    proof (cases xs)
      case Nil
      then show ?thesis using Suc.prems by (simp add: swap_links_def)
    next
      case (Cons a as)
      then obtain n where n: "h a = Some n" "ln_prev n = p" "dseg h (Some a) (ln_next n) as e None" "r = Some a" using Suc.prems(1) by (auto split: option.splits)
      let ?h = "h(a \<mapsto> n\<lparr>ln_next := ln_prev n, ln_prev := ln_next n\<rparr>)"
      have "dseg ?h (Some a) (ln_next n) as e None" by (rule dseg_frame [OF n(3)]) (use Suc.prems(2) Cons in auto)
      then have "list_reverse_loop fuel ?h (Some a) (ln_next n) = Ok (swap_links (set as) ?h, if as = [] then Some a else Some (last as))"
        by (rule Suc.IH) (use Suc.prems(2,3) Cons in simp_all)
      moreover have "swap_links (set as) ?h = swap_links (set xs) h" using Suc.prems(2) Cons n(1) by (auto simp: swap_links_def fun_eq_iff)
      ultimately show ?thesis using n(1,4) Cons by (simp add: node_at_def)
    qed
  qed
  have "dseg (swap_links (set xs) h) None e (rev xs) r None" by (rule dseg_swap [OF d(2)]) simp
  moreover have "e = (if xs = [] then None else Some (last xs))" by (rule dseg_last [OF d(2)])
  moreover have "map_option ln_data (swap_links (set xs) h b) = map_option ln_data (h b)" for b by (cases "h b") (auto simp: swap_links_def)
  moreover have "r = None" if "xs = []" using d(2) that by simp
  ultimately show ?thesis using loop [OF d(2,1) assms(2), of r] d(1) by (auto simp: list_reverse_def is_list_def)
qed

lemma list_length_ok:
  assumes "is_list h r xs" "length xs \<le> fuel" "length xs < 2 ^ 32"
  shows "list_length fuel h r = Ok (length xs)"
proof -
  obtain e where d: "dseg h None r xs e None" using assms(1) by (auto simp: is_list_def)
  have "list_length_loop fuel h r c = Ok (c + length xs)" if "dseg h p r xs e None" "length xs \<le> fuel" "c + length xs < 2 ^ 32" for fuel p r xs c
    using that
  proof (induction fuel arbitrary: p r xs c)
    case (Suc fuel)
    then show ?case by (cases xs) (auto simp: node_at_def uint_add_small split: option.splits)
  qed simp
  then show ?thesis using d assms(2,3) by (simp add: list_length_def)
qed

primrec walk_data :: "'a list \<Rightarrow> ('a \<Rightarrow> 's \<Rightarrow> int \<times> 's) \<Rightarrow> 's \<Rightarrow> int \<times> 's" where
  "walk_data [] act s = (0, s)"
| "walk_data (d # ds) act s = (case act d s of (e, s) \<Rightarrow> if e \<noteq> 0 then (e, s) else walk_data ds act s)"

lemma list_walk_ok:
  assumes "is_list h r xs" "length xs \<le> fuel"
  shows "list_walk fuel h r act s = Ok (walk_data (data_of h xs) act s)"
proof -
  obtain e where d: "dseg h None r xs e None" using assms(1) by (auto simp: is_list_def)
  have "list_walk fuel h r act s = Ok (walk_data (data_of h xs) act s)" if "dseg h p r xs e None" "length xs \<le> fuel" for fuel p r xs s
    using that
  proof (induction fuel arbitrary: p r xs s)
    case 0
    then show ?case by (simp add: data_of_def)
  next
    case (Suc fuel)
    then show ?case by (cases xs) (auto simp: node_at_def data_of_def split: option.splits prod.split)
  qed
  then show ?thesis using d assms(2) by simp
qed

lemma list_free_ok:
  assumes "is_list h r xs" "length xs \<le> fuel"
  shows "list_free fuel h r fd = Ok (if fd then data_of h xs else [], \<lambda>a. if a \<in> set xs then None else h a)"
proof -
  obtain e where d: "distinct xs" "dseg h None r xs e None" using assms(1) by (auto simp: is_list_def)
  have "list_free fuel h r fd = Ok (if fd then data_of h xs else [], \<lambda>a. if a \<in> set xs then None else h a)"
    if "dseg h p r xs e None" "distinct xs" "length xs \<le> fuel" for fuel h p r xs
    using that
  proof (induction fuel arbitrary: h p r xs)
    case 0
    then show ?case by (simp add: data_of_def)
  next
    case (Suc fuel)
    show ?case
    proof (cases xs)
      case Nil
      then show ?thesis using Suc.prems by (simp add: data_of_def)
    next
      case (Cons a as)
      then obtain n where n: "h a = Some n" "dseg h (Some a) (ln_next n) as e None" "r = Some a" using Suc.prems(1) by (auto split: option.splits)
      have "dseg (h(a := None)) (Some a) (ln_next n) as e None" by (rule dseg_frame [OF n(2)]) (use Suc.prems(2) Cons in auto)
      then have "list_free fuel (h(a := None)) (ln_next n) fd = Ok (if fd then data_of (h(a := None)) as else [], \<lambda>b. if b \<in> set as then None else (h(a := None)) b)"
        by (rule Suc.IH) (use Suc.prems(2,3) Cons in simp_all)
      moreover have "data_of (h(a := None)) as = data_of h as" using Suc.prems(2) Cons by (auto simp: data_of_def)
      ultimately show ?thesis using n(1,3) Cons by (auto simp: node_at_def data_of_def fun_eq_iff)
    qed
  qed
  then show ?thesis using d assms(2) by blast
qed

text \<open>A new element becomes the first of a list; without memory nothing changes.\<close>

lemma list_cons_ok:
  assumes l: "is_list h r xs" and a: "a \<notin> set xs"
  shows "list_cons None junk_links h d r = Ok (h, None)"
    and "\<exists>h'. list_cons (Some a) junk_links h d r = Ok (h', Some a) \<and> is_list h' (Some a) (a # xs) \<and> data_of h' (a # xs) = d # data_of h xs"
proof -
  show "list_cons None junk_links h d r = Ok (h, None)" by (simp add: list_cons_def)
  let ?h = "h(a \<mapsto> \<lparr>ln_prev = fst junk_links, ln_next = snd junk_links, ln_data = d\<rparr>)"
  obtain e where e: "distinct xs" "dseg h None r xs e None" using l by (auto simp: is_list_def)
  have "dseg ?h None r xs e None" by (rule dseg_frame [OF e(2)]) (use a in auto)
  then have l1: "is_list ?h r ([] @ xs)" using e(1) by (auto simp: is_list_def)
  have r: "r = (case xs of [] \<Rightarrow> None | y # _ \<Rightarrow> Some y)" using dseg_first [OF e(2)] by (cases xs) auto
  obtain h' where h': "list_add ?h r a = Ok (h', a)" "is_list h' (Some a) (a # xs)" "\<forall>b. map_option ln_data (h' b) = map_option ln_data (?h b)"
    using list_add_ok [OF l1, of a] a r by auto
  have "data_of h' (a # xs) = data_of ?h (a # xs)"
  proof (rule data_of_same)
    fix b assume b: "b \<in> set (a # xs)"
    show "map_option ln_data (h' b) = map_option ln_data (?h b)" using h'(3) by blast
    show "?h b \<noteq> None" using b dseg_root [OF e(2), of b] by auto
  qed
  also have "\<dots> = d # data_of h xs" using a by (auto simp: data_of_def)
  finally show "\<exists>h'. list_cons (Some a) junk_links h d r = Ok (h', Some a) \<and> is_list h' (Some a) (a # xs) \<and> data_of h' (a # xs) = d # data_of h xs"
    using h'(1,2) by (auto simp: list_cons_def)
qed

text \<open>Reversing keeps the elements and turns their order round; the list is reached from its old end.\<close>

lemma list_reverse_data:
  assumes "is_list h r xs" "length xs \<le> fuel"
  shows "\<exists>h' r'. list_reverse fuel h r = Ok (h', r') \<and> is_list h' r' (rev xs) \<and> data_of h' (rev xs) = rev (data_of h xs)"
proof -
  obtain h' where h': "list_reverse fuel h r = Ok (h', if xs = [] then None else Some (last xs))"
      "is_list h' (if xs = [] then None else Some (last xs)) (rev xs)" "\<forall>b. map_option ln_data (h' b) = map_option ln_data (h b)"
    using list_reverse_ok [OF assms] by blast
  obtain e where e: "dseg h None r xs e None" using assms(1) by (auto simp: is_list_def)
  have "data_of h' (rev xs) = data_of h (rev xs)"
    by (rule data_of_same) (use h'(3) dseg_root [OF e] in auto)
  then show ?thesis using h'(1,2) by (auto simp: data_of_def rev_map)
qed

text \<open>
  On a circle of nodes the loops do not end: every bound is used up.
\<close>

lemma list_cycle_length: "h 1 = Some \<lparr>ln_prev = Some 1, ln_next = Some 1, ln_data = d\<rparr> \<Longrightarrow> list_length fuel h (Some 1) = Err ()"
proof -
  assume h: "h 1 = Some \<lparr>ln_prev = Some 1, ln_next = Some 1, ln_data = d\<rparr>"
  have "list_length_loop fuel h (Some 1) c = Err ()" for c
    using h by (induction fuel arbitrary: c) (simp_all add: node_at_def)
  then show ?thesis by (simp add: list_length_def)
qed

end
