(* ===== verification/Spec2Isabelle.thy ===== *)
theory Spec2Isabelle
  imports Dyncol_Roundtrip Bt_Manager Scout_Data Password Conn_Attrs Dynamic_Array
    Mem_Root Number_Text Linked_List
begin

text \<open>
  A verification development for the scouting application and the MariaDB client it
  bundles.

  \<^bold>\<open>The program.\<close> A Windows desktop program collects scouting data of robot matches. Tablets
  connect over Bluetooth (\<^verbatim>\<open>src/src/myincludes/bluetooth\<close>), send match data as JSON and ask
  for the local team and scouter lists or for the hash of these lists. The program reads the
  documents (\<^verbatim>\<open>jsonParser.hpp\<close>), builds SQL statements (\<^verbatim>\<open>DatabaseMan.hpp\<close>,
  \<^verbatim>\<open>database.hpp\<close>) and executes them through the C client under
  \<^verbatim>\<open>src/src/include/mysql/libmariadb\<close>, whose character sets, escaping, growing strings,
  dynamic columns and password hashes are the parts of the C code that compute rather than talk to the network.

  \<^bold>\<open>Platform.\<close> Windows on x86-64: \<open>int\<close> and \<open>long\<close> have 32 bits, \<open>size_t\<close> 64, \<open>char\<close> is
  signed, integers are little-endian, and the \<^verbatim>\<open>_WIN32\<close> variants of the macros apply.

  \<^bold>\<open>Theories.\<close>
  \<^item> \<open>Prelude\<close>: outcomes (\<open>Ok\<close>, \<open>Err\<close>, \<open>UB\<close>), bounds-checked buffers, the integer macros of
    \<^verbatim>\<open>ma_global.h\<close>, the allocator as a parameter.
  \<^item> \<open>Dynamic_String\<close> (\<^verbatim>\<open>ma_string.c\<close>): every function; the invariant of a growing string,
    appending, and the reserve that later unchecked stores rely on (locale \<open>byte_buffer\<close>).
  \<^item> \<open>Charset\<close> (\<^verbatim>\<open>ma_charset.c\<close>, \<^verbatim>\<open>mariadb_charset.c\<close>): the table of character sets, the
    recognisers of multi-byte characters, the lookups and both escaping functions; under a
    single-byte set, utf8mb3 or utf8mb4 (\<open>transparent_row\<close>) escaping is memory safe, fits twice
    the input and can be read back (locale \<open>ascii_transparent\<close>).
  \<^item> \<open>Dyncol_Values\<close>, \<open>Dyncol_Format\<close>, \<open>Dyncol_Create\<close>, \<open>Dyncol_Read\<close>, \<open>Dyncol_Roundtrip\<close>
    (\<^verbatim>\<open>mariadb_dyncol.c\<close>): the image of each value, the two record formats (locale
    \<open>column_format\<close>, interpreted for numbers and for names), the creation of a record, the
    search in it, and the round trips between them.
  \<^item> \<open>Murmur\<close> (\<^verbatim>\<open>murmurHash2Neutral.hpp\<close>): the hash, its equivalence with a structural
    definition, its range and its collisions.
  \<^item> \<open>Sha1\<close> (\<^verbatim>\<open>ma_sha1.c\<close>): the digest, equal to the one of FIPS 180-4 for every way of
    feeding the message (locale \<open>message_digest\<close>).
  \<^item> \<open>Password\<close> (\<^verbatim>\<open>ma_password.c\<close>): password hashes and the reply to the challenge of a server,
    with the check the server makes on it.
  \<^item> \<open>Net\<close> (\<^verbatim>\<open>ma_net.c\<close>, the cache of \<^verbatim>\<open>ma_pvio.c\<close>): packets; reading is memory safe, and what is
    written is what is read at the other end.
  \<^item> \<open>Rows\<close> (\<^verbatim>\<open>mariadb_lib.c\<close>): length-encoded integers, packets with errors and progress reports, and
    the rows of a result, which are the ones the server sent. Reading a packet stays in the
    buffer as long as that has 16 bytes, which \<open>Net\<close> shows to be kept (\<open>roomy\<close>).
  \<^item> \<open>Dynamic_Array\<close> (\<^verbatim>\<open>ma_array.c\<close>): growing arrays on the level of bytes; each operation is the
    operation on lists it is meant to be.
  \<^item> \<open>Mem_Root\<close> (\<^verbatim>\<open>ma_alloc.c\<close>): memory roots; pieces are aligned, disjoint and inside the blocks,
    and all blocks are given back once.
  \<^item> \<open>Linked_List\<close> (\<^verbatim>\<open>ma_list.c\<close>): doubly linked lists on a heap of nodes; each operation is the
    operation on the list of addresses it is meant to be.
  \<^item> \<open>Number_Text\<close> (\<^verbatim>\<open>ma_ll2str.c\<close>): the text of a number in any base reads back as the number.
  \<^item> \<open>Hash\<close>, \<open>Hash_Insert\<close>, \<open>Hash_Delete\<close> (\<^verbatim>\<open>ma_hash.c\<close>): linear hashing; the invariant that
    every position is on one chain which starts where its records belong, insertion with the splitting of a
    chain, search, deletion, update, and the interface of a table of keyed records (locale
    \<open>record_table\<close>). The array of the table is a list here; \<open>Dynamic_Array\<close> shows that the
    bytes behind it behave like one.
  \<^item> \<open>Conn_Attrs\<close> (\<^verbatim>\<open>mariadb_lib.c\<close>): connection attributes and user data, the users of the hash
    table: an abstract multiset of attributes, an abstract map of user data, a step relation
    over the calls with its invariant, and what the server reads.
  \<^item> \<open>Bt_Tablet\<close> (\<^verbatim>\<open>btTabObj.hpp\<close>): reading and writing of messages on a socket. The
    environment is the list of answers the system will give; a call that has used them up
    has not returned. \<open>read_returns\<close> bounds the number of polls a read can take, which is the
    fuel of the model, from any lower bound on the time between two polls. The clock counts
    rational seconds.
  \<^item> \<open>Bt_Conductor\<close> (\<^verbatim>\<open>bluetoothTransaction.hpp\<close>, \<^verbatim>\<open>bluetoothConductor.hpp\<close>): transaction codes
    and futures.
  \<^item> \<open>Bt_Manager\<close> (\<^verbatim>\<open>bluetooth.hpp\<close>): the vectors of tablets and of running transactions with
    the pointers between them, a step relation and its invariant.
  \<^item> \<open>Scout_Data\<close> (\<^verbatim>\<open>jsonParser.hpp\<close>, \<^verbatim>\<open>database.hpp\<close>, \<^verbatim>\<open>DatabaseMan.hpp\<close>): documents, data
    points, statements and results.
  \<^item> this theory: the path of a match message from the socket to the statements.

  \<^bold>\<open>Loops.\<close> Loops are recursive functions with a termination proof. The loops that wait for
  the system recurse over its answers. The loops of the hash table follow links, so they get as fuel the
  number of elements of the array; on a well-formed table that is enough, since no chain is
  longer, and the theorems say that a result is returned.

  \<^bold>\<open>Parameters.\<close> The allocator, the answers of winsock, \<open>select\<close>, \<open>accept\<close> and the clock, the
  choice of \<open>std::async\<close> between a thread and a deferred call, the growth of a vector, the
  contents of the two data files, the JSON text parser and the answers of the database.

  \<^bold>\<open>Not modelled.\<close> The user interface (raylib), QR codes and REST requests: calls of libraries.
  Of the client: TLS and compression, which this build leaves out; connecting, the asynchronous wrappers and
  the files of options, which talk to the system; the statement protocol, whose conversions of
  bound values go through printing and scanning of the C library; conversion between character sets (iconv);
  floating point printing (\<^verbatim>\<open>ma_dtoa.c\<close>); updating, checking and printing of dynamic columns;
  decimals (absent from this build). The third-party headers are not part of the program.
\<close>

section \<open>From the socket to the database\<close>

text \<open>
  The abstract specification of a received match: one insert statement per data point, in
  the order of the document.
\<close>

definition insert_statements :: "match_datapoint list \<Rightarrow> bytes list" where
  "insert_statements ds = map (\<lambda>d. cstr (match_insert @ match_row d @ ascii '');'')) ds"

text \<open>What a tablet's transaction executes on the database.\<close>

definition executed :: "(bytes \<Rightarrow> json option) \<Rightarrow> (hang, bytes option \<times> bt_tab_obj) res \<Rightarrow> bytes list option" where
  "executed parse r = (case r of Ok (Some msg, t) \<Rightarrow> Some (store_match_message parse msg)
     | Ok (None, t) \<Rightarrow> Some [] | _ \<Rightarrow> None)"

text \<open>
  C3. A ready tablet that sends the match code and a document whose elements are all well
  formed makes the program execute exactly one insert statement per data point, in the
  order of the document: the composition of the socket reader, the transfer protocol, the
  conductor, the JSON reader and the statement builder implements the abstract map from
  data points to statements.
\<close>
theorem match_to_statements:
  assumes "sends E 6 t TRANS_RECV_MATCH (le_bytes 4 (length msg) @ msg @ rest)" "length msg < 2 ^ 31"
    and "parse msg = Some (JObj [(ascii ''scoutingData'', JArr es)])"
    and "list_all2 (\<lambda>e d. match_element e = Some d) es ds"
  shows "executed parse (transact E fs async t) = Some (insert_statements ds)"
proof -
  obtain t1 where "transact E fs async t = Ok (Some msg, t1)"
    using transact_read [OF assms(1,2), of fs async] by auto
  moreover have "parseMatch (JsonParser parse msg) = ds"
    using assms(3) collect_prefix [OF assms(4), of "[]"] by (simp add: JsonParser_def parseMatch_def)
  ultimately show ?thesis
    by (simp add: executed_def store_match_message_def addMatchDatapoints_def insert_statements_def)
qed

definition sample_parse :: "bytes \<Rightarrow> json option" where
  "sample_parse msg = (if msg = [104, 105]
     then Some (JObj [(ascii ''scoutingData'', JArr [sample_element ''noShow'', sample_element ''9:00''])]) else None)"

theorem match_to_statements_witness:
  "executed sample_parse (transact all_ok sample_files True (tab_with [1, 2, 0, 0, 0, 104, 105])) =
     Some (insert_statements [sample_point (ascii ''NULL''), sample_point (quoted (ascii ''9:00''))])"
proof -
  have b: "TRANS_RECV_MATCH # le_bytes 4 (length [104, 105 :: u8]) @ [104, 105] @ [] = [1, 2, 0, 0, 0, 104, 105]"
    by code_simp
  have p: "sample_parse [104, 105] = Some (JObj [(ascii ''scoutingData'', JArr [sample_element ''noShow'', sample_element ''9:00''])])"
    by (simp add: sample_parse_def)
  have l: "list_all2 (\<lambda>e d. match_element e = Some d) [sample_element ''noShow'', sample_element ''9:00'']
      [sample_point (ascii ''NULL''), sample_point (quoted (ascii ''9:00''))]"
    by (simp add: sample_element_points)
  show ?thesis
    by (rule match_to_statements [where parse = sample_parse, OF sends_tab_with [OF b] _ p l]) simp_all
qed

end
